(* ===== verification/BSSL_Prelude.thy ===== *)
theory BSSL_Prelude
  imports Main "HOL-Library.Word"
begin

unbundle bit_operations_syntax

text \<open>
  Shared vocabulary of the development: the machine integers of the C code, \<open>size_t\<close>
  arithmetic with its wrap-around, the big-endian byte loops that the byte-string
  reader and builder share, in-place writes into a byte array, and the interfaces
  (locales) that readers of byte strings and their encoders satisfy.

  A byte string under a \<open>CBS\<close> is a list of bytes.  A C function that returns 0 or 1
  and moves a \<open>CBS\<close> forward is a \<^emph>\<open>reader\<close>: it returns the value read (\<open>None\<close> for a
  return value of 0) together with the bytes that remain, on failure as on success,
  because some of the functions advance their argument before they fail.
\<close>

section \<open>Machine integers\<close>

type_synonym u8 = "8 word"
type_synonym u16 = "16 word"
type_synonym u32 = "32 word"
type_synonym u64 = "64 word"

text \<open>\<open>size_t\<close> has 64 bits on the targets of the application; sizes are natural
  numbers and every addition or multiplication of the code wraps.\<close>

abbreviation size_bound :: nat where
  "size_bound \<equiv> 18446744073709551616"

definition size_add :: "nat \<Rightarrow> nat \<Rightarrow> nat" where
  "size_add a b = (a + b) mod size_bound"

definition size_mult :: "nat \<Rightarrow> nat \<Rightarrow> nat" where
  "size_mult a b = (a * b) mod size_bound"

definition size_sub :: "nat \<Rightarrow> nat \<Rightarrow> nat" where
  "size_sub a b = (a + size_bound - b) mod size_bound"

text \<open>The largest \<open>int\<close>.\<close>

abbreviation INT_MAX :: nat where "INT_MAX \<equiv> 2147483647"

text \<open>\<open>malloc\<close> is not part of the repository.  An allocator says for which sizes an
  allocation succeeds; it is a parameter of every operation that allocates.\<close>

type_synonym allocator = "nat \<Rightarrow> bool"

named_theorems byte_simps \<open>words seen as natural numbers\<close>
named_theorems reader_simps \<open>readers evaluated on given input\<close>

lemma size_add_eq [simp]: "a + b < size_bound \<Longrightarrow> size_add a b = a + b"
  by (simp add: size_add_def)

lemma size_mult_eq [simp]: "a * b < size_bound \<Longrightarrow> size_mult a b = a * b"
  by (simp add: size_mult_def)

lemma size_sub_eq [simp]: "b \<le> a \<Longrightarrow> a < size_bound \<Longrightarrow> size_sub a b = a - b"
proof -
  assume a: "b \<le> a" "a < size_bound"
  then have "a + size_bound - b = (a - b) + size_bound" by simp
  with a show ?thesis unfolding size_sub_def by (simp only: mod_add_self2) simp
qed

lemma size_add_overflow_iff:
  assumes "a < size_bound" "b < size_bound"
  shows "size_add a b < a \<longleftrightarrow> size_bound \<le> a + b"
proof (cases "a + b < size_bound")
  case True
  then show ?thesis by simp
next
  case False
  then have "size_add a b = a + b - size_bound"
    using assms by (simp add: size_add_def le_mod_geq)
  with False assms show ?thesis by simp
qed

lemma unat_u8_less [simp]: "unat (b :: u8) < 256"
  using unsigned_less [of b] by simp

lemma unat_u64_less [simp]: "unat (b :: u64) < size_bound"
  using unsigned_less [of b] by simp

lemma unat_u32_less [simp]: "unat (v :: u32) < 4294967296"
  using unsigned_less [of v] by simp

lemma unat_u16_less [simp]: "unat (v :: u16) < 65536"
  using unsigned_less [of v] by simp

lemma unat_ucast_u32 [byte_simps]: "unat (ucast (v :: u32) :: u64) = unat v"
  by (simp add: unsigned_ucast_eq take_bit_nat_eq_self order_less_trans [OF unat_u32_less])

lemma unat_ucast_u16 [byte_simps]: "unat (ucast (v :: u16) :: u64) = unat v"
  by (simp add: unsigned_ucast_eq take_bit_nat_eq_self order_less_trans [OF unat_u16_less])

lemma unat_push_or [byte_simps]:
  fixes v w :: u64
  assumes "unat w < 2 ^ k" "unat v * 2 ^ k + 2 ^ k \<le> size_bound"
  shows "unat (push_bit k v OR w) = unat v * 2 ^ k + unat w"
proof -
  have "unat (push_bit k v) = take_bit LENGTH(64) (push_bit k (unat v))"
    by (rule unsigned_push_bit_eq)
  then have "unat (push_bit k v) = (unat v * 2 ^ k) mod size_bound"
    by (simp only: push_bit_eq_mult take_bit_eq_mod) simp
  then have p: "unat (push_bit k v) = unat v * 2 ^ k"
    using assms by simp
  have "\<not> bit (push_bit k v) n \<or> \<not> bit w n" for n
  proof (cases "n < k")
    case True
    then show ?thesis by (simp add: bit_push_bit_iff)
  next
    case False
    have "bit (unat w) n \<Longrightarrow> 2 ^ n \<le> unat w"
      by (metis bit_take_bit_iff less_irrefl not_le take_bit_nat_eq_self)
    moreover have "(2::nat) ^ k \<le> 2 ^ n"
      using False by simp
    ultimately have "\<not> bit (unat w) n"
      using assms(1) by linarith
    then show ?thesis
      by (simp add: bit_unsigned_iff)
  qed
  then have "push_bit k v + w = push_bit k v OR w"
    by (rule disjunctive_add)
  moreover have "unat (push_bit k v + w) = unat v * 2 ^ k + unat w"
    using p assms by (simp add: unat_word_ariths)
  ultimately show ?thesis by simp
qed

lemma unat_ucast_u8 [byte_simps]: "unat (ucast (b :: u8) :: u64) = unat b"
  by (simp add: unsigned_ucast_eq take_bit_nat_eq_self order_less_trans [OF unat_u8_less])

lemma unat_ucast_to_u8 [byte_simps]: "unat (ucast (v :: u64) :: u8) = unat v mod 256"
  by (simp add: unsigned_ucast_eq take_bit_eq_mod)

lemma unat_drop_bit [byte_simps]: "unat (drop_bit n (v :: 'a::len word)) = unat v div 2 ^ n"
  by (rule trans [OF unat_drop_bit_eq drop_bit_eq_div])

lemma drop_bit_0_iff [byte_simps]: "drop_bit n (v :: 'a::len word) = 0 \<longleftrightarrow> unat v < 2 ^ n"
proof -
  have "drop_bit n v = 0 \<longleftrightarrow> unat (drop_bit n v) = 0"
    by (simp add: unat_eq_0)
  then show ?thesis
    by (simp only: unat_drop_bit) (simp add: div_eq_0_iff)
qed

lemma unat_and_mask [byte_simps]: "unat ((v :: 'a::len word) AND mask n) = unat v mod 2 ^ n"
  unfolding take_bit_eq_mask [symmetric]
  by (rule trans [OF unsigned_take_bit_eq take_bit_eq_mod])

lemma u8_and_0x80 [byte_simps]: "(b :: u8) AND 0x80 = 0 \<longleftrightarrow> unat b < 128"
proof -
  have "b AND 2 ^ 7 = 0 \<longleftrightarrow> \<not> bit b 7"
    by (rule and_exp_eq_0_iff_not_bit)
  also have "bit b 7 \<longleftrightarrow> bit (unat b) 7"
    by (simp add: bit_unsigned_iff)
  also have "\<dots> \<longleftrightarrow> odd (unat b div 128)"
    by (simp add: bit_iff_odd)
  also have "\<dots> \<longleftrightarrow> 128 \<le> unat b"
  proof -
    have "unat b div 128 < 2"
      using unat_u8_less [of b] by (simp add: less_mult_imp_div_less)
    then have "unat b div 128 = 0 \<or> unat b div 128 = 1" by linarith
    then show ?thesis by (auto simp: div_eq_0_iff)
  qed
  finally show ?thesis by (simp add: not_le)
qed

lemma u8_and_0x7f [byte_simps]: "unat ((b :: u8) AND 0x7f) = unat b mod 128"
  using unat_and_mask [of b 7] by (simp add: mask_eq_exp_minus_1)

lemma or_0x80: "unat (b :: u8) < 128 \<Longrightarrow> b OR 0x80 = of_nat (unat b + 128)"
proof -
  assume "unat b < 128"
  then have "b AND 0x80 = 0" by (simp add: u8_and_0x80)
  then have "\<not> bit b n \<or> \<not> bit (0x80 :: u8) n" for n
    by (metis bit_0_eq bit_and_iff bot_apply bot_bool_def)
  then have "b + 0x80 = b OR 0x80" by (rule disjunctive_add)
  then show ?thesis by simp
qed

section \<open>Big-endian byte loops\<close>

text \<open>The accumulating loop of \<open>cbs_get_u\<close> (\<open>result <<= 8; result |= data[i]\<close>) and
  the storing loop of \<open>cbb_buffer_add_u\<close> (from the last byte to the first,
  \<open>buf[i] = v; v >>= 8\<close>), which also returns what is left of the value.\<close>

definition be_u64 :: "u8 list \<Rightarrow> u64" where
  "be_u64 bs = foldl (\<lambda>result b. push_bit 8 result OR ucast b) 0 bs"

fun store_be :: "nat \<Rightarrow> u64 \<Rightarrow> u8 list \<times> u64" where
  "store_be 0 v = ([], v)"
| "store_be (Suc n) v = (case store_be n (drop_bit 8 v) of (bs, r) \<Rightarrow> (bs @ [ucast v], r))"

text \<open>Their meaning on natural numbers.\<close>

definition be_nat :: "u8 list \<Rightarrow> nat" where
  "be_nat bs = foldl (\<lambda>r b. r * 256 + unat b) 0 bs"

fun nat_be :: "nat \<Rightarrow> nat \<Rightarrow> u8 list" where
  "nat_be 0 v = []"
| "nat_be (Suc n) v = nat_be n (v div 256) @ [of_nat v]"

lemma be_nat_Nil [simp]: "be_nat [] = 0"
  and be_nat_snoc [simp]: "be_nat (bs @ [b]) = be_nat bs * 256 + unat b"
  by (simp_all add: be_nat_def)

lemma be_u64_Nil [simp]: "be_u64 [] = 0"
  and be_u64_snoc: "be_u64 (bs @ [b]) = push_bit 8 (be_u64 bs) OR ucast b"
  by (simp_all add: be_u64_def)

lemma be_nat_bound: "be_nat bs < 256 ^ length bs"
proof (induction bs rule: rev_induct)
  case (snoc b bs)
  have "be_nat bs * 256 + unat b < (be_nat bs + 1) * 256"
    using unat_u8_less [of b] by simp
  also have "\<dots> \<le> 256 ^ length bs * 256"
    using snoc.IH by (intro mult_le_mono1) simp
  finally show ?case by simp
qed simp

lemma be_nat_Cons: "be_nat (b # bs) = unat b * 256 ^ length bs + be_nat bs"
proof (induction bs rule: rev_induct)
  case (snoc c bs)
  have "be_nat (b # bs @ [c]) = be_nat (b # bs) * 256 + unat c"
    by (metis append_Cons be_nat_snoc)
  with snoc.IH show ?case by (simp add: algebra_simps)
qed (simp add: be_nat_def)

lemma unat_be_u64: "length bs \<le> 8 \<Longrightarrow> unat (be_u64 bs) = be_nat bs"
proof (induction bs rule: rev_induct)
  case (snoc b bs)
  have "be_nat bs < 256 ^ length bs" by (rule be_nat_bound)
  also have "(256::nat) ^ length bs \<le> 256 ^ 7"
    using snoc.prems by (intro power_increasing) auto
  finally have "unat (be_u64 bs) < 256 ^ 7"
    using snoc by simp
  with snoc show ?case
    by (simp add: be_u64_snoc unat_push_or unat_ucast_u8)
qed simp

lemma length_nat_be [simp]: "length (nat_be n v) = n"
  by (induction n arbitrary: v) auto

lemma be_nat_nat_be: "be_nat (nat_be n v) = v mod 256 ^ n"
  by (induction n arbitrary: v)
     (simp_all add: unat_of_nat mod_mult2_eq)

lemma nat_be_be_nat [simp]: "nat_be (length bs) (be_nat bs) = bs"
proof (induction bs rule: rev_induct)
  case (snoc b bs)
  have "(be_nat bs * 256 + unat b) div 256 = be_nat bs"
    by (simp add: div_add1_eq [of "be_nat bs * 256"] div_eq_0_iff)
  moreover have "(of_nat (be_nat bs * 256 + unat b) :: u8) = b"
  proof -
    have "(256 :: u8) = 0" by simp
    then have "(of_nat (be_nat bs * 256) :: u8) = 0"
      by (metis mult_zero_right of_nat_mult of_nat_numeral)
    then show ?thesis by (simp only: of_nat_add) simp
  qed
  ultimately show ?case using snoc by simp
qed simp

lemma be_nat_inj: "length bs = length cs \<Longrightarrow> be_nat bs = be_nat cs \<Longrightarrow> bs = cs"
  by (metis nat_be_be_nat)

lemma be_u64_nat_be: "n \<le> 8 \<Longrightarrow> v < 256 ^ n \<Longrightarrow> unat (be_u64 (nat_be n v)) = v"
  by (simp add: unat_be_u64 be_nat_nat_be)

lemma store_be_eq: "store_be n v = (nat_be n (unat v), drop_bit (8 * n) v)"
proof (induction n arbitrary: v)
  case (Suc n)
  have "(ucast v :: u8) = of_nat (unat v)"
    by (simp add: unsigned_ucast_eq)
  moreover have "drop_bit (8 * n) (drop_bit 8 v) = drop_bit (8 * Suc n) v"
    by (simp add: add.commute)
  ultimately show ?case
    by (simp add: Suc.IH unat_drop_bit)
qed simp

section \<open>Writes into a byte array\<close>

definition write_at :: "nat \<Rightarrow> 'a list \<Rightarrow> 'a list \<Rightarrow> 'a list" where
  "write_at off bs buf = take off buf @ bs @ drop (off + length bs) buf"

lemma length_write_at [simp]:
  "off + length bs \<le> length buf \<Longrightarrow> length (write_at off bs buf) = length buf"
  by (simp add: write_at_def)

text \<open>Copies from and into an array of the length of the list, \<open>None\<close> where they would leave it.\<close>

definition load_at :: "nat \<Rightarrow> nat \<Rightarrow> 'a list \<Rightarrow> 'a list option" where
  "load_at off n buf = (if off + n \<le> length buf then Some (take n (drop off buf)) else None)"

definition store_at :: "nat \<Rightarrow> 'a list \<Rightarrow> 'a list \<Rightarrow> 'a list option" where
  "store_at off bs buf = (if off + length bs \<le> length buf then Some (write_at off bs buf) else None)"

lemma write_at_append:
  "length xs = off \<Longrightarrow> length ys = length bs \<Longrightarrow> write_at off bs (xs @ ys @ zs) = xs @ bs @ zs"
  by (simp add: write_at_def)

lemma take_write_at [simp]: "n \<le> off \<Longrightarrow> off \<le> length buf \<Longrightarrow> take n (write_at off bs buf) = take n buf"
  by (simp add: write_at_def min_def)

end
