(* ===== verification/Pb_Format.thy ===== *)
theory Pb_Format
  imports BSSL_Prelude
begin

text \<open>
  Protocol buffers: the bytes of single values, as functions of the values.
\<close>

abbreviation PB_WT_VARINT :: u32 where "PB_WT_VARINT \<equiv> 0"
abbreviation PB_WT_64BIT :: u32 where "PB_WT_64BIT \<equiv> 1"
abbreviation PB_WT_STRING :: u32 where "PB_WT_STRING \<equiv> 2"
abbreviation PB_WT_32BIT :: u32 where "PB_WT_32BIT \<equiv> 5"

text \<open>Numbers in base 128, least significant digit first, as the format has them.\<close>

fun leb128 :: "nat \<Rightarrow> u8 list" where
  "leb128 n = (if n < 128 then [of_nat n] else of_nat (n mod 128 + 128) # leb128 (n div 128))"

declare leb128.simps [simp del]

definition le_nat :: "nat \<Rightarrow> nat \<Rightarrow> u8 list" where
  "le_nat k n = rev (nat_be k n)"

lemma leb128_small: "n < 128 \<Longrightarrow> leb128 n = [of_nat n]"
  by (simp add: leb128.simps)

lemma length_le_nat [simp]: "length (le_nat k n) = k"
  by (simp add: le_nat_def)

lemma length_leb128: "n < 128 ^ k \<Longrightarrow> 0 < k \<Longrightarrow> length (leb128 n) \<le> k"
proof (induction k arbitrary: n)
  case (Suc k)
  show ?case
  proof (cases "n < 128")
    case False
    then have "k \<noteq> 0" using Suc.prems(1) by (cases k) auto
    moreover have "n div 128 < 128 ^ k" using Suc.prems(1) by (simp add: less_mult_imp_div_less mult.commute)
    ultimately show ?thesis using Suc.IH [of "n div 128"] False by (simp add: leb128.simps [of n])
  qed (simp add: leb128_small)
qed simp

lemma leb128_u64: "length (leb128 (unat (v :: u64))) \<le> 10" "leb128 n \<noteq> []"
proof -
  have "(18446744073709551616 :: nat) \<le> 128 ^ 10" by simp
  then show "length (leb128 (unat v)) \<le> 10"
    using unat_u64_less [of v] by (intro length_leb128) linarith+
  show "leb128 n \<noteq> []" by (simp add: leb128.simps [of n])
qed

lemma of_nat_mod_256: "(of_nat (n mod 256) :: u8) = of_nat n"
  by (simp add: word_unat_eq_iff unat_of_nat)

lemma le_nat_simps: "le_nat 0 n = []" "le_nat (Suc k) n = of_nat n # le_nat k (n div 256)"
  by (simp_all add: le_nat_def)

lemma le_nat_numeral: "le_nat (numeral k) n = of_nat n # le_nat (pred_numeral k) (n div 256)"
  using le_nat_simps(2) [of "pred_numeral k" n] unfolding numeral_eq_Suc [of k, symmetric] .

lemma le_nat_4: "le_nat 4 n = [of_nat n, of_nat (n div 2 ^ 8), of_nat (n div 2 ^ 16), of_nat (n div 2 ^ 24)]"
  by (simp add: le_nat_numeral le_nat_simps flip: div_mult2_eq)

lemma le_nat_8: "le_nat 8 n = [of_nat n, of_nat (n div 2 ^ 8), of_nat (n div 2 ^ 16), of_nat (n div 2 ^ 24), of_nat (n div 2 ^ 32),
    of_nat (n div 2 ^ 40), of_nat (n div 2 ^ 48), of_nat (n div 2 ^ 56)]"
  by (simp add: le_nat_numeral le_nat_simps flip: div_mult2_eq)

definition zigzag :: "u64 \<Rightarrow> u64" where
  "zigzag v = (if sint v < 0 then NOT (push_bit 1 v) else push_bit 1 v)"

definition tag_bytes :: "u32 \<Rightarrow> u32 \<Rightarrow> u8 list" where
  "tag_bytes wiretype field_number = leb128 (unat field_number * 8 + unat wiretype)"


section \<open>Bits\<close>

lemma unat_or_push:
  fixes v w :: "'a::len word"
  assumes "unat w < 2 ^ k" "unat v * 2 ^ k < 2 ^ LENGTH('a)"
  shows "unat (w OR push_bit k v) = unat w + unat v * 2 ^ k"
proof -
  have "unat (push_bit k v) = take_bit LENGTH('a) (push_bit k (unat v))"
    by (rule unsigned_push_bit_eq)
  also have "\<dots> = (unat v * 2 ^ k) mod 2 ^ LENGTH('a)" by (simp only: push_bit_eq_mult take_bit_eq_mod)
  also have "\<dots> = unat v * 2 ^ k"
  proof (rule mod_less)
    show "unat v * 2 ^ k < 2 ^ LENGTH('a)" using assms(2) by linarith
  qed
  finally have p: "unat (push_bit k v) = unat v * 2 ^ k" .
  have "\<not> bit w n \<or> \<not> bit (push_bit k v) n" for n
  proof (cases "n < k")
    case False
    have "bit (unat w) n \<Longrightarrow> 2 ^ n \<le> unat w"
      by (metis bit_take_bit_iff less_irrefl not_le take_bit_nat_eq_self)
    moreover have "(2::nat) ^ k \<le> 2 ^ n" using False by simp
    ultimately have "\<not> bit (unat w) n" using assms(1) by linarith
    then show ?thesis by (simp add: bit_unsigned_iff)
  qed (simp add: bit_push_bit_iff)
  then have "unat w + unat (push_bit k v) = unat w OR unat (push_bit k v)"
    by (intro disjunctive_add) (auto simp: bit_unsigned_iff)
  then show ?thesis using p by (simp add: unsigned_or_eq)
qed

end
