(* ===== verification/Pb_In.thy ===== *)
theory Pb_In
  imports Pb_Format
begin

text \<open>
  Protocol buffers: input streams and the readers of single values (\<open>nanopb/pb_decode.c\<close>).

  A stream reads from a buffer (the callback \<open>buf_read\<close>, whose state is a pointer into the buffer: the bytes from there on) or
  through a callback of the caller.  An operation returns what it stores (\<open>None\<close> for the return value false) and the
  stream.
\<close>

type_synonym 'i in_callback = "'i \<Rightarrow> nat \<Rightarrow> bool \<times> u8 list \<times> 'i"

datatype 'i source = Buffer "u8 list" | User "'i in_callback" 'i

record 'i pb_istream =
  i_source :: "'i source"
  bytes_left :: nat
  i_errmsg :: "string option"

type_synonym ('a, 'i) inp = "'i pb_istream \<Rightarrow> 'a option \<times> 'i pb_istream"

definition in_error :: "string \<Rightarrow> ('a, 'i) inp" where
  "in_error msg s = (None, s\<lparr>i_errmsg := (case i_errmsg s of None \<Rightarrow> Some msg | Some m \<Rightarrow> Some m)\<rparr>)"

definition in_bind :: "('a, 'i) inp \<Rightarrow> ('a \<Rightarrow> ('b, 'i) inp) \<Rightarrow> ('b, 'i) inp" where
  "in_bind a f s = (case a s of (None, s) \<Rightarrow> (None, s) | (Some x, s) \<Rightarrow> f x s)"

definition in_return :: "'a \<Rightarrow> ('a, 'i) inp" where
  "in_return x s = (Some x, s)"

section \<open>Streams\<close>

definition pb_istream_from_buffer :: "u8 list \<Rightarrow> nat \<Rightarrow> 'i pb_istream" where
  "pb_istream_from_buffer buf bufsize = \<lparr>i_source = Buffer buf, bytes_left = bufsize, i_errmsg = None\<rparr>"

definition buf_read :: "u8 list \<Rightarrow> nat \<Rightarrow> u8 list \<times> u8 list" where
  "buf_read state count = (take count state, drop count state)"

definition call_source :: "'i source \<Rightarrow> nat \<Rightarrow> u8 list option \<times> 'i source" where
  "call_source src count = (case src of
     Buffer state \<Rightarrow> (case buf_read state count of (bytes, state) \<Rightarrow> (Some bytes, Buffer state))
   | User callback state \<Rightarrow> (case callback state count of (ok, bytes, state) \<Rightarrow>
       (if ok then Some bytes else None, User callback state)))"

text \<open>\<open>pb_read\<close> into a buffer, and without one: then a callback of the caller is made to read in pieces of 16 bytes.\<close>

definition read_count :: "nat \<Rightarrow> (u8 list, 'i) inp" where
  "read_count count s =
     (if bytes_left s < count then in_error ''end-of-stream'' s
      else (case call_source (i_source s) count of
          (None, src) \<Rightarrow> in_error ''io error'' (s\<lparr>i_source := src\<rparr>)
        | (Some bytes, src) \<Rightarrow> (Some bytes, s\<lparr>i_source := src, bytes_left := bytes_left s - count\<rparr>)))"

definition pb_read :: "nat \<Rightarrow> (u8 list, 'i) inp" where
  "pb_read count s = (if count = 0 then (Some [], s) else read_count count s)"

fun skip_loop :: "nat \<Rightarrow> (unit, 'i) inp" where
  "skip_loop count s =
     (if count > 16 then in_bind (pb_read 16) (\<lambda>_. skip_loop (count - 16)) s
      else in_bind (pb_read count) (\<lambda>_. in_return ()) s)"

declare skip_loop.simps [simp del]

definition pb_read_skip :: "nat \<Rightarrow> (unit, 'i) inp" where
  "pb_read_skip count s =
     (if count = 0 then (Some (), s)
      else (case i_source s of
          User _ _ \<Rightarrow> skip_loop count s
        | Buffer _ \<Rightarrow> in_bind (read_count count) (\<lambda>_. in_return ()) s))"

definition pb_readbyte :: "(u8, 'i) inp" where
  "pb_readbyte s =
     (if bytes_left s = 0 then in_error ''end-of-stream'' s
      else (case call_source (i_source s) 1 of
          (None, src) \<Rightarrow> in_error ''io error'' (s\<lparr>i_source := src\<rparr>)
        | (Some bytes, src) \<Rightarrow> (Some (hd bytes), s\<lparr>i_source := src, bytes_left := bytes_left s - 1\<rparr>)))"

lemma readbyte_left: "pb_readbyte s = (Some b, s') \<Longrightarrow> bytes_left s' < bytes_left s"
  by (auto simp: pb_readbyte_def in_error_def split: if_splits prod.splits option.splits)

section \<open>Integers of variable length\<close>

text \<open>The loop for further bytes; \<open>uint_fast8_t\<close> has eight bits on the targets of the application.\<close>

function varint32_loop :: "u8 \<Rightarrow> u32 \<Rightarrow> (u32, 'i) inp" where
  "varint32_loop bitpos result s = (case pb_readbyte s of
     (None, s) \<Rightarrow> (None, s)
   | (Some byte, s) \<Rightarrow>
       let sign_extension = (if bitpos < 63 then 0xFF else 0x01) in
       if bitpos \<ge> 32 \<and> byte AND 0x7F \<noteq> 0 \<and> (drop_bit 31 result = 0 \<or> byte \<noteq> sign_extension)
       then in_error ''varint overflow'' s
       else let result = (if bitpos \<ge> 32 then result else result OR push_bit (unat bitpos) (ucast (byte AND 0x7F)));
                bitpos = bitpos + 7 in
         if byte AND 0x80 \<noteq> 0 then varint32_loop bitpos result s
         else if bitpos = 35 \<and> byte AND 0x70 \<noteq> 0 then in_error ''varint overflow'' s
         else (Some result, s))"
  by pat_completeness auto

termination varint32_loop
  by (relation "measure (\<lambda>(bitpos, result, s). bytes_left s)") (auto dest: readbyte_left [OF sym])

declare varint32_loop.simps [simp del]

text \<open>The value, \<open>*eof\<close> and the stream.\<close>

definition pb_decode_varint32_eof :: "'i pb_istream \<Rightarrow> u32 option \<times> bool \<times> 'i pb_istream" where
  "pb_decode_varint32_eof s = (case pb_readbyte s of
     (None, s) \<Rightarrow> (None, bytes_left s = 0, s)
   | (Some byte, s) \<Rightarrow>
       if byte AND 0x80 = 0 then (Some (ucast byte), False, s)
       else (case varint32_loop 7 (ucast (byte AND 0x7F)) s of (r, s) \<Rightarrow> (r, False, s)))"

definition pb_decode_varint32 :: "(u32, 'i) inp" where
  "pb_decode_varint32 s = (case pb_decode_varint32_eof s of (r, eof, s) \<Rightarrow> (r, s))"

function varint64_loop :: "u8 \<Rightarrow> u64 \<Rightarrow> (u64, 'i) inp" where
  "varint64_loop bitpos result s =
     (if bitpos \<ge> 64 then in_error ''varint overflow'' s
      else (case pb_readbyte s of
          (None, s) \<Rightarrow> (None, s)
        | (Some byte, s) \<Rightarrow>
            let result = result OR push_bit (unat bitpos) (ucast (byte AND 0x7F)); bitpos = bitpos + 7 in
            if byte AND 0x80 \<noteq> 0 then varint64_loop bitpos result s else (Some result, s)))"
  by pat_completeness auto

termination varint64_loop
  by (relation "measure (\<lambda>(bitpos, result, s). bytes_left s)") (auto dest: readbyte_left [OF sym])

declare varint64_loop.simps [simp del]

definition pb_decode_varint :: "(u64, 'i) inp" where
  "pb_decode_varint s = varint64_loop 0 0 s"

definition pb_decode_svarint :: "(u64, 'i) inp" where
  "pb_decode_svarint = in_bind pb_decode_varint (\<lambda>value.
     in_return (if value AND 1 \<noteq> 0 then NOT (drop_bit 1 value) else drop_bit 1 value))"

definition pb_dec_bool :: "(bool, 'i) inp" where
  "pb_dec_bool = in_bind pb_decode_varint32 (\<lambda>value. in_return (value \<noteq> 0))"

definition pb_decode_bool :: "(bool, 'i) inp" where
  "pb_decode_bool = pb_dec_bool"

definition pb_decode_fixed32 :: "(u32, 'i) inp" where
  "pb_decode_fixed32 = in_bind (pb_read 4) (\<lambda>bytes. in_return
     (push_bit 0 (ucast (bytes ! 0)) OR push_bit 8 (ucast (bytes ! 1)) OR push_bit 16 (ucast (bytes ! 2)) OR
      push_bit 24 (ucast (bytes ! 3))))"

definition pb_decode_fixed64 :: "(u64, 'i) inp" where
  "pb_decode_fixed64 = in_bind (pb_read 8) (\<lambda>bytes. in_return
     (push_bit 0 (ucast (bytes ! 0)) OR push_bit 8 (ucast (bytes ! 1)) OR push_bit 16 (ucast (bytes ! 2)) OR
      push_bit 24 (ucast (bytes ! 3)) OR push_bit 32 (ucast (bytes ! 4)) OR push_bit 40 (ucast (bytes ! 5)) OR
      push_bit 48 (ucast (bytes ! 6)) OR push_bit 56 (ucast (bytes ! 7))))"

section \<open>Fields\<close>

text \<open>The wire type and the tag, \<open>*eof\<close> and the stream.\<close>

definition pb_decode_tag :: "'i pb_istream \<Rightarrow> (u32 \<times> u32) option \<times> bool \<times> 'i pb_istream" where
  "pb_decode_tag s = (case pb_decode_varint32_eof s of
     (None, eof, s) \<Rightarrow> (None, eof, s)
   | (Some temp, eof, s) \<Rightarrow> if temp = 0 then (None, True, s) else (Some (temp AND 7, drop_bit 3 temp), eof, s))"

lemma read_count_left: "read_count n s = (Some bs, s') \<Longrightarrow> n \<le> bytes_left s \<and> bytes_left s' = bytes_left s - n"
  by (auto simp: read_count_def in_error_def split: if_splits prod.splits option.splits)

function pb_skip_varint :: "(unit, 'i) inp" where
  "pb_skip_varint s = (case pb_read 1 s of
     (None, s) \<Rightarrow> (None, s)
   | (Some bytes, s) \<Rightarrow> if hd bytes AND 0x80 \<noteq> 0 then pb_skip_varint s else (Some (), s))"
  by pat_completeness auto

termination pb_skip_varint
  by (relation "measure bytes_left") (auto simp: pb_read_def dest: read_count_left [OF sym])

declare pb_skip_varint.simps [simp del]

definition pb_skip_string :: "(unit, 'i) inp" where
  "pb_skip_string = in_bind pb_decode_varint32 (\<lambda>length. pb_read_skip (unat length))"

definition pb_skip_field :: "u32 \<Rightarrow> (unit, 'i) inp" where
  "pb_skip_field wire_type =
     (if wire_type = PB_WT_VARINT then pb_skip_varint
      else if wire_type = PB_WT_64BIT then pb_read_skip 8
      else if wire_type = PB_WT_STRING then pb_skip_string
      else if wire_type = PB_WT_32BIT then pb_read_skip 4
      else in_error ''invalid wire_type'')"

text \<open>\<open>read_raw_value\<close>: the bytes it stores, of which there is room for \<open>max_size\<close>.\<close>

fun raw_varint :: "nat \<Rightarrow> (u8 list, 'i) inp" where
  "raw_varint 0 = (\<lambda>s. (None, s))"
| "raw_varint (Suc room) = in_bind (pb_read 1) (\<lambda>bytes.
     if hd bytes AND 0x80 \<noteq> 0 then in_bind (raw_varint room) (\<lambda>rest. in_return (hd bytes # rest))
     else in_return [hd bytes])"

definition read_raw_value :: "u32 \<Rightarrow> nat \<Rightarrow> (u8 list, 'i) inp" where
  "read_raw_value wire_type max_size =
     (if wire_type = PB_WT_VARINT then raw_varint max_size
      else if wire_type = PB_WT_64BIT then pb_read 8
      else if wire_type = PB_WT_32BIT then pb_read 4
      else in_error ''invalid wire_type'')"

text \<open>The substream and the stream.\<close>

definition pb_make_string_substream :: "('i pb_istream, 'i) inp" where
  "pb_make_string_substream = in_bind pb_decode_varint32 (\<lambda>size s.
     if bytes_left s < unat size then in_error ''parent stream too short'' s
     else (Some (s\<lparr>bytes_left := unat size\<rparr>), s\<lparr>bytes_left := bytes_left s - unat size\<rparr>))"

definition pb_close_string_substream :: "'i pb_istream \<Rightarrow> (unit, 'i) inp" where
  "pb_close_string_substream substream s =
     (case (if bytes_left substream \<noteq> 0 then pb_read_skip (bytes_left substream) substream else (Some (), substream)) of
        (None, substream) \<Rightarrow> (None, s)
      | (Some _, substream) \<Rightarrow> (Some (), s\<lparr>i_source := i_source substream, i_errmsg := i_errmsg substream\<rparr>))"

section \<open>Reading from a buffer\<close>

definition moved :: "nat \<Rightarrow> u8 list \<Rightarrow> 'i pb_istream \<Rightarrow> 'i pb_istream" where
  "moved n rest s = s\<lparr>i_source := Buffer rest, bytes_left := bytes_left s - n\<rparr>"

text \<open>An operation that reads the bytes \<open>bs\<close> off a buffer, if the stream may go that far, and returns \<open>v\<close>.\<close>

definition reads :: "('a, 'i) inp \<Rightarrow> u8 list \<Rightarrow> 'a \<Rightarrow> bool" where
  "reads op bs v \<longleftrightarrow> (\<forall>s rest. i_source s = Buffer (bs @ rest) \<longrightarrow> length bs \<le> bytes_left s \<longrightarrow>
     op s = (Some v, moved (length bs) rest s))"

lemma readsD: "reads op bs v \<Longrightarrow> i_source s = Buffer (bs @ rest) \<Longrightarrow> length bs \<le> bytes_left s \<Longrightarrow>
    op s = (Some v, moved (length bs) rest s)"
  by (simp add: reads_def)

lemma moved_simps [simp]:
  "i_source (moved n rest s) = Buffer rest" "bytes_left (moved n rest s) = bytes_left s - n" "i_errmsg (moved n rest s) = i_errmsg s"
  "moved m rest' (moved n rest s) = moved (n + m) rest' s"
  by (simp_all add: moved_def)

lemma moved_0 [simp]: "i_source s = Buffer rest \<Longrightarrow> moved 0 rest s = s"
  by (simp add: moved_def)

lemma reads_return: "reads (in_return v) [] v"
  by (simp add: reads_def in_return_def)

lemma reads_bind:
  assumes "reads a xs x" "reads (f x) ys y"
  shows "reads (in_bind a f) (xs @ ys) y"
  unfolding reads_def in_bind_def
  using readsD [OF assms(1)] readsD [OF assms(2)] by simp

lemma reads_count: "reads (read_count (length bs)) bs bs"
  by (simp add: reads_def read_count_def call_source_def buf_read_def moved_def)

lemma reads_read: "reads (pb_read (length bs)) bs bs"
  using reads_count [of bs] by (auto simp: reads_def pb_read_def)

lemma reads_skip: "reads (pb_read_skip (length bs)) bs ()"
proof -
  have r: "reads (in_bind (read_count (length bs)) (\<lambda>_. in_return ()) :: (unit, 'a) inp) (bs @ []) ()"
    by (rule reads_bind [OF reads_count reads_return])
  have "pb_read_skip (length bs) s = (Some (), moved (length bs) rest s)"
    if "i_source s = Buffer (bs @ rest)" "length bs \<le> bytes_left s" for s :: "'a pb_istream" and rest
    using readsD [OF r, of s rest] that by (cases "bs = []") (auto simp: pb_read_skip_def)
  then show ?thesis by (simp add: reads_def)
qed

lemma reads_byte: "reads pb_readbyte [b] b"
  by (simp add: reads_def pb_readbyte_def call_source_def buf_read_def moved_def)

lemma reads_cong: "(\<And>s. op s = op' s) \<Longrightarrow> reads op bs v \<longleftrightarrow> reads op' bs v"
  by (simp add: reads_def)

section \<open>The readers read what the writers write\<close>

lemma leb128_cases:
  obtains (last) "n < 128" "leb128 n = [of_nat n]" "unat (of_nat n :: u8) = n"
  | (more) "128 \<le> n" "leb128 n = of_nat (n mod 128 + 128) # leb128 (n div 128)"
      "unat (of_nat (n mod 128 + 128) :: u8) = n mod 128 + 128"
  using leb128.simps [of n] by (cases "n < 128") (auto simp: unat_of_nat simp del: of_nat_add)

lemma digit_bits:
  assumes "unat (b :: u8) = d + 128" "d < 128"
  shows "b AND 0x80 \<noteq> 0" "unat (b AND 0x7F) = d"
  using assms by (simp_all add: u8_and_0x80 u8_and_0x7f)

lemma varint_digit:
  fixes r :: "'a::len word"
  assumes "unat r < 2 ^ p" "r' = r OR push_bit p (ucast ((b :: u8) AND 0x7F))" "unat (b AND 0x7F) \<le> n"
    "n * 2 ^ p < 2 ^ LENGTH('a)" "8 \<le> LENGTH('a)"
  shows "unat r' = unat r + unat (b AND 0x7F) * 2 ^ p"
proof -
  have u: "unat (ucast (b AND 0x7F) :: 'a word) = unat (b AND 0x7F)"
  proof -
    have "unat (b AND 0x7F) < 2 ^ 8" using unat_u8_less [of "b AND 0x7F"] by simp
    also have "(2 :: nat) ^ 8 \<le> 2 ^ LENGTH('a)" using assms(5) by (intro power_increasing) simp_all
    finally show ?thesis by (simp add: unsigned_ucast_eq take_bit_nat_eq_self)
  qed
  have "unat (b AND 0x7F) * 2 ^ p < 2 ^ LENGTH('a)" using assms(3,4) by (meson le_less_trans mult_le_mono1)
  then show ?thesis
    using assms u unat_or_push [of r p "ucast (b AND 0x7F)"] by simp
qed


lemma varint64_loop_bind:
  "varint64_loop bitpos result =
     (if bitpos \<ge> 64 then in_error ''varint overflow''
      else in_bind pb_readbyte (\<lambda>byte.
        let result = result OR push_bit (unat bitpos) (ucast (byte AND 0x7F)) in
        if byte AND 0x80 \<noteq> 0 then varint64_loop (bitpos + 7) result else in_return result))"
  by (rule ext, subst varint64_loop.simps) (simp add: in_bind_def in_return_def Let_def if_distrib [of "\<lambda>f. f _"] cong: if_cong split: prod.split option.split)

text \<open>One digit: the bits below the next position, and what is left.\<close>

lemma digit_step:
  fixes n p N :: nat
  assumes "128 \<le> n" "n * 2 ^ p < 2 ^ N" "r < 2 ^ p"
  shows "p + 7 < N" "r + n mod 128 * 2 ^ p < 2 ^ (p + 7)" "n div 128 * 2 ^ (p + 7) < 2 ^ N"
    "n mod 128 * 2 ^ p + n div 128 * 2 ^ (p + 7) = n * 2 ^ p"
proof -
  have "n * 2 ^ p = (n mod 128 + 128 * (n div 128)) * 2 ^ p" by simp
  also have "\<dots> = n mod 128 * 2 ^ p + n div 128 * 2 ^ (p + 7)" unfolding distrib_right power_add by simp
  finally show d: "n mod 128 * 2 ^ p + n div 128 * 2 ^ (p + 7) = n * 2 ^ p" ..
  with assms(2) show "n div 128 * 2 ^ (p + 7) < 2 ^ N" by linarith
  have "128 * 2 ^ p \<le> n * 2 ^ p" using assms(1) by simp
  from le_less_trans [OF this assms(2)] have "(2::nat) ^ (p + 7) < 2 ^ N" by (simp add: power_add)
  then show "p + 7 < N" by (simp only: power_strict_increasing_iff)
  have "n mod 128 * 2 ^ p \<le> 127 * 2 ^ p" by simp
  moreover have "(2::nat) ^ (p + 7) = 127 * 2 ^ p + 2 ^ p" by (simp add: power_add)
  ultimately show "r + n mod 128 * 2 ^ p < 2 ^ (p + 7)" using assms(3) by linarith
qed

lemma reads_varint64_loop:
  assumes "unat bitpos = p" "p < 64" "unat result < 2 ^ p" "n * 2 ^ p < 2 ^ 64" "unat v = unat result + n * 2 ^ p"
  shows "reads (varint64_loop bitpos result :: (u64, 'i) inp) (leb128 n) v"
  using assms
proof (induction n arbitrary: bitpos p result rule: less_induct)
  case (less n)
  note digit = varint_digit [where 'a = 64, OF less.prems(3) refl, of _ n]
  have b: "\<not> 64 \<le> bitpos" using less.prems(1,2) by (simp add: word_le_nat_alt)
  show ?case
  proof (cases rule: leb128_cases [of n])
    case last
    let ?b = "of_nat n :: u8"
    have d: "?b AND 0x80 = 0" "unat (?b AND 0x7F) = n" using last by (simp_all add: u8_and_0x80 u8_and_0x7f)
    have "result OR push_bit p (ucast (?b AND 0x7F)) = v"
      using digit [of ?b] d(2) less.prems(4,5) by (simp add: word_unat_eq_iff)
    then have "reads (varint64_loop bitpos result :: (u64, 'i) inp) ([?b] @ []) v"
      unfolding varint64_loop_bind [of bitpos] using b d(1) less.prems(1)
      by (simp only: if_False) (rule reads_bind [OF reads_byte], simp add: reads_return)
    then show ?thesis by (simp add: last(2))
  next
    case more
    let ?b = "of_nat (n mod 128 + 128) :: u8"
    let ?r = "result OR push_bit p (ucast (?b AND 0x7F))"
    have d: "?b AND 0x80 \<noteq> 0" "unat (?b AND 0x7F) = n mod 128" using digit_bits [OF more(3)] by simp_all
    have r: "unat ?r = unat result + n mod 128 * 2 ^ p"
      using digit [of ?b] d(2) less.prems(4) by simp
    note st = digit_step [OF more(1) less.prems(4,3)]
    have b7: "unat (bitpos + 7) = p + 7" using less.prems(1) st(1) by (simp add: unat_word_ariths)
    have "reads (varint64_loop (bitpos + 7) ?r :: (u64, 'i) inp) (leb128 (n div 128)) v"
      by (intro less.IH [where p = "p + 7"]) (use b7 st r less.prems(5) more(1) in simp_all)
    then have "reads (varint64_loop bitpos result :: (u64, 'i) inp) ([?b] @ leb128 (n div 128)) v"
      unfolding varint64_loop_bind [of bitpos] using b d(1) less.prems(1)
      by (simp only: if_False) (rule reads_bind [OF reads_byte], simp)
    then show ?thesis by (simp add: more(2))
  qed
qed


lemma varint32_loop_bind:
  "varint32_loop bitpos result = in_bind pb_readbyte (\<lambda>byte.
     let sign_extension = (if bitpos < 63 then 0xFF else 0x01) in
     if bitpos \<ge> 32 \<and> byte AND 0x7F \<noteq> 0 \<and> (drop_bit 31 result = 0 \<or> byte \<noteq> sign_extension) then in_error ''varint overflow''
     else let result = (if bitpos \<ge> 32 then result else result OR push_bit (unat bitpos) (ucast (byte AND 0x7F))) in
       if byte AND 0x80 \<noteq> 0 then varint32_loop (bitpos + 7) result
       else if bitpos + 7 = 35 \<and> byte AND 0x70 \<noteq> 0 then in_error ''varint overflow'' else in_return result)"
  by (rule ext, subst varint32_loop.simps)
    (simp add: in_bind_def in_return_def Let_def if_distrib [of "\<lambda>f. f _"] cong: if_cong split: prod.split option.split)

lemma u8_and_0x70: "unat (b :: u8) < 16 \<Longrightarrow> b AND 0x70 = 0"
proof -
  assume b: "unat b < 16"
  have "(0x70 :: u8) = push_bit 4 7" by simp
  then have "bit (0x70 :: u8) n \<Longrightarrow> 4 \<le> n" for n by (simp only: bit_push_bit_iff)
  moreover have "\<not> bit b n" if "4 \<le> n" for n
  proof -
    have "take_bit 4 (unat b) = unat b" using b by (simp add: take_bit_nat_eq_self)
    then have "\<not> bit (unat b) n" using that by (metis bit_take_bit_iff not_le)
    then show ?thesis by (simp add: bit_unsigned_iff)
  qed
  ultimately show ?thesis by (auto simp: bit_eq_iff bit_and_iff)
qed

lemma reads_varint32_loop:
  assumes "unat bitpos = p" "p < 32" "unat result < 2 ^ p" "n * 2 ^ p < 2 ^ 32" "unat v = unat result + n * 2 ^ p"
  shows "reads (varint32_loop bitpos result :: (u32, 'i) inp) (leb128 n) v"
  using assms
proof (induction n arbitrary: bitpos p result rule: less_induct)
  case (less n)
  note digit = varint_digit [where 'a = 32, OF less.prems(3) refl, of _ n]
  have b: "\<not> 32 \<le> bitpos" using less.prems(1,2) by (simp add: word_le_nat_alt)
  show ?case
  proof (cases rule: leb128_cases [of n])
    case last
    let ?b = "of_nat n :: u8"
    have d: "?b AND 0x80 = 0" "unat (?b AND 0x7F) = n" using last by (simp_all add: u8_and_0x80 u8_and_0x7f)
    have v: "result OR push_bit p (ucast (?b AND 0x7F)) = v"
      using digit [of ?b] d(2) less.prems(4,5) by (simp add: word_unat_eq_iff)
    have no: "\<not> (bitpos + 7 = 35 \<and> ?b AND 0x70 \<noteq> 0)"
    proof
      assume a: "bitpos + 7 = 35 \<and> ?b AND 0x70 \<noteq> 0"
      then have "bitpos + 7 = 28 + 7" by simp
      then have "bitpos = 28" by (rule add_right_imp_eq)
      then have "p = 28" using less.prems(1) by simp
      then have "n < 16" using less.prems(4) by simp
      then have "?b AND 0x70 = 0" using last(3) by (intro u8_and_0x70) simp
      with a show False by simp
    qed
    have "reads (varint32_loop bitpos result :: (u32, 'i) inp) ([?b] @ []) v"
      unfolding varint32_loop_bind [of bitpos]
    proof (rule reads_bind [OF reads_byte])
      show "reads (let sign_extension = (if bitpos < 63 then 0xFF else 0x01) in
          if bitpos \<ge> 32 \<and> ?b AND 0x7F \<noteq> 0 \<and> (drop_bit 31 result = 0 \<or> ?b \<noteq> sign_extension) then in_error ''varint overflow''
          else let result = (if bitpos \<ge> 32 then result else result OR push_bit (unat bitpos) (ucast (?b AND 0x7F))) in
            if ?b AND 0x80 \<noteq> 0 then varint32_loop (bitpos + 7) result
            else if bitpos + 7 = 35 \<and> ?b AND 0x70 \<noteq> 0 then in_error ''varint overflow'' else in_return result) [] v"
        unfolding Let_def less.prems(1) if_not_P [OF no] using b d(1) v by (simp add: reads_return)
    qed
    then show ?thesis by (simp add: last(2))
  next
    case more
    let ?b = "of_nat (n mod 128 + 128) :: u8"
    let ?r = "result OR push_bit p (ucast (?b AND 0x7F))"
    have d: "?b AND 0x80 \<noteq> 0" "unat (?b AND 0x7F) = n mod 128" using digit_bits [OF more(3)] by simp_all
    have r: "unat ?r = unat result + n mod 128 * 2 ^ p"
      using digit [of ?b] d(2) less.prems(4) by simp
    note st = digit_step [OF more(1) less.prems(4,3)]
    have b7: "unat (bitpos + 7) = p + 7" using less.prems(1) st(1) by (simp add: unat_word_ariths)
    have ih: "reads (varint32_loop (bitpos + 7) ?r :: (u32, 'i) inp) (leb128 (n div 128)) v"
      by (intro less.IH [where p = "p + 7"]) (use b7 st r less.prems(5) more(1) in simp_all)
    have "reads (varint32_loop bitpos result :: (u32, 'i) inp) ([?b] @ leb128 (n div 128)) v"
      unfolding varint32_loop_bind [of bitpos]
      by (rule reads_bind [OF reads_byte]) (use b d(1) less.prems(1) ih in \<open>simp add: Let_def\<close>)
    then show ?thesis by (simp add: more(2))
  qed
qed


lemma reads_varint: "reads pb_decode_varint (leb128 (unat v)) v"
proof -
  have "reads (varint64_loop 0 0 :: (u64, 'i) inp) (leb128 (unat v)) v"
    by (rule reads_varint64_loop [where p = 0]) simp_all
  then show ?thesis by (simp add: reads_def pb_decode_varint_def)
qed

text \<open>With \<open>*eof\<close> not set.\<close>

lemma varint32_eof_bind:
  "pb_decode_varint32 = in_bind pb_readbyte (\<lambda>byte.
     if byte AND 0x80 = 0 then in_return (ucast byte) else varint32_loop 7 (ucast (byte AND 0x7F)))"
  "fst (pb_decode_varint32_eof s) \<noteq> None \<Longrightarrow> \<not> fst (snd (pb_decode_varint32_eof s))"
  by (auto simp: fun_eq_iff pb_decode_varint32_def pb_decode_varint32_eof_def in_bind_def in_return_def
      split: prod.split option.split)

lemma unat_u8_u32: "unat (ucast (b :: u8) :: u32) = unat b"
  by (simp add: unsigned_ucast_eq take_bit_nat_eq_self order_less_trans [OF unat_u8_less])

lemma reads_varint32: "reads (pb_decode_varint32 :: (u32, 'i) inp) (leb128 (unat v)) v"
proof (cases rule: leb128_cases [of "unat v"])
  case last
  have u: "(ucast (of_nat (unat v) :: u8) :: u32) = v"
    unfolding word_unat_eq_iff unat_u8_u32 by (rule last(3))
  have "reads (pb_decode_varint32 :: (u32, 'i) inp) ([of_nat (unat v)] @ []) v"
    unfolding varint32_eof_bind
    by (rule reads_bind [OF reads_byte]) (use last u in \<open>simp add: u8_and_0x80 reads_return\<close>)
  then show ?thesis by (simp add: last(2))
next
  case more
  let ?b = "of_nat (unat v mod 128 + 128) :: u8"
  have d: "?b AND 0x80 \<noteq> 0" "unat (?b AND 0x7F) = unat v mod 128" using digit_bits [OF more(3)] by simp_all
  have u: "unat (ucast (?b AND 0x7F) :: u32) = unat v mod 128"
    using d(2) by (simp add: unsigned_ucast_eq take_bit_nat_eq_self)
  have div: "unat v div 128 < 33554432" using unat_u32_less [of v] by linarith
  have ih: "reads (varint32_loop 7 (ucast (?b AND 0x7F)) :: (u32, 'i) inp) (leb128 (unat v div 128)) v"
    by (rule reads_varint32_loop [where p = 7]) (use u div in simp_all)
  have "reads (pb_decode_varint32 :: (u32, 'i) inp) ([?b] @ leb128 (unat v div 128)) v"
    unfolding varint32_eof_bind by (rule reads_bind [OF reads_byte]) (use d(1) ih in simp)
  then show ?thesis by (simp add: more(2))
qed


lemma unzigzag: "(if zigzag v AND 1 \<noteq> 0 then NOT (drop_bit 1 (zigzag v)) else drop_bit 1 (zigzag v)) = v"
proof -
  define x where "x = push_bit 1 v"
  have x: "bit x n \<longleftrightarrow> 1 \<le> n \<and> n < 64 \<and> bit v (n - 1)" for n
    unfolding x_def bit_push_bit_iff by (auto simp: possible_bit_word)
  have z: "zigzag v = (if bit v 63 then NOT x else x)"
    unfolding zigzag_def x_def [symmetric] using bit_last_iff [of v] by simp
  have odd: "zigzag v AND 1 \<noteq> 0 \<longleftrightarrow> bit v 63"
  proof -
    have "zigzag v AND 1 \<noteq> 0 \<longleftrightarrow> bit (zigzag v) 0" by (simp add: and_one_eq bit_0 odd_iff_mod_2_eq_one)
    then show ?thesis using x [of 0] by (simp add: z bit_not_iff)
  qed
  show ?thesis
  proof (rule bit_eqI)
    fix n
    assume "possible_bit TYPE(64 word) n"
    then have "n < 64" by (simp add: possible_bit_word)
    then show "bit (if zigzag v AND 1 \<noteq> 0 then NOT (drop_bit 1 (zigzag v)) else drop_bit 1 (zigzag v)) n \<longleftrightarrow> bit v n"
      using odd by (cases "n = 63") (auto simp: z x bit_not_iff bit_drop_bit_eq)
  qed
qed

lemma reads_svarint: "reads pb_decode_svarint (leb128 (unat (zigzag v))) v"
proof -
  have "reads pb_decode_svarint (leb128 (unat (zigzag v)) @ [])
      (if zigzag v AND 1 \<noteq> 0 then NOT (drop_bit 1 (zigzag v)) else drop_bit 1 (zigzag v))"
    unfolding pb_decode_svarint_def by (rule reads_bind [OF reads_varint reads_return])
  then show ?thesis by (simp only: unzigzag append_Nil2)
qed


lemma unat_u8_u64: "unat (ucast (b :: u8) :: u64) = unat b"
  by (rule unat_ucast_u8)

text \<open>Words from bytes.\<close>

lemma join_byte_0: "push_bit 0 (drop_bit 0 v AND mask 8) = take_bit 8 v"
  by (simp add: take_bit_eq_mask)

lemma join_byte: "take_bit k v OR push_bit k (drop_bit k v AND mask 8) = take_bit (k + 8) (v :: 'a::len word)"
proof (rule bit_word_eqI)
  fix n
  assume "n < LENGTH('a)"
  then show "bit (take_bit k v OR push_bit k (drop_bit k v AND mask 8)) n = bit (take_bit (k + 8) v) n"
    by (cases "n < k") (auto simp: bit_simps)
qed

lemma byte_sums: "8 + 8 = (16 :: nat)" "16 + 8 = (24 :: nat)" "24 + 8 = (32 :: nat)" "32 + 8 = (40 :: nat)" "40 + 8 = (48 :: nat)"
    "48 + 8 = (56 :: nat)" "56 + 8 = (64 :: nat)"
  by simp_all

lemma reads_fixed32: "reads pb_decode_fixed32 (le_nat 4 (unat v)) v"
proof -
  have b: "(ucast (of_nat (unat v div 2 ^ k) :: u8) :: u32) = drop_bit k v AND mask 8" for k
    by (simp add: word_unat_eq_iff unat_u8_u32 unat_and_mask unat_drop_bit unat_of_nat)
  have j: "push_bit 0 (drop_bit 0 v AND mask 8) OR push_bit 8 (drop_bit 8 v AND mask 8) OR push_bit 16 (drop_bit 16 v AND mask 8) OR
      push_bit 24 (drop_bit 24 v AND mask 8) = v"
    unfolding or.assoc [symmetric] join_byte_0 join_byte byte_sums by (simp add: take_bit_word_eq_self)
  have "reads pb_decode_fixed32 (le_nat 4 (unat v) @ []) (push_bit 0 (ucast (le_nat 4 (unat v) ! 0)) OR
      push_bit 8 (ucast (le_nat 4 (unat v) ! 1)) OR push_bit 16 (ucast (le_nat 4 (unat v) ! 2)) OR
      push_bit 24 (ucast (le_nat 4 (unat v) ! 3)))"
    unfolding pb_decode_fixed32_def
    using reads_bind [OF reads_read [of "le_nat 4 (unat v)"] reads_return] unfolding length_le_nat .
  moreover have "le_nat 4 (unat v) ! 0 = of_nat (unat v div 2 ^ 0)" "le_nat 4 (unat v) ! 1 = of_nat (unat v div 2 ^ 8)"
    "le_nat 4 (unat v) ! 2 = of_nat (unat v div 2 ^ 16)" "le_nat 4 (unat v) ! 3 = of_nat (unat v div 2 ^ 24)"
    unfolding le_nat_4 by (simp_all add: nth_Cons_numeral)
  ultimately show ?thesis unfolding b j append_Nil2 by (simp only: b j)
qed


lemma reads_fixed64: "reads pb_decode_fixed64 (le_nat 8 (unat v)) v"
proof -
  have b: "(ucast (of_nat (unat v div 2 ^ k) :: u8) :: u64) = drop_bit k v AND mask 8" for k
    by (simp add: word_unat_eq_iff unat_u8_u64 unat_and_mask unat_drop_bit unat_of_nat)
  have j: "push_bit 0 (drop_bit 0 v AND mask 8) OR push_bit 8 (drop_bit 8 v AND mask 8) OR push_bit 16 (drop_bit 16 v AND mask 8) OR
      push_bit 24 (drop_bit 24 v AND mask 8) OR push_bit 32 (drop_bit 32 v AND mask 8) OR push_bit 40 (drop_bit 40 v AND mask 8) OR
      push_bit 48 (drop_bit 48 v AND mask 8) OR push_bit 56 (drop_bit 56 v AND mask 8) = v"
    unfolding or.assoc [symmetric] join_byte_0 join_byte byte_sums by (simp add: take_bit_word_eq_self)
  have "reads pb_decode_fixed64 (le_nat 8 (unat v) @ []) (push_bit 0 (ucast (le_nat 8 (unat v) ! 0)) OR
      push_bit 8 (ucast (le_nat 8 (unat v) ! 1)) OR push_bit 16 (ucast (le_nat 8 (unat v) ! 2)) OR
      push_bit 24 (ucast (le_nat 8 (unat v) ! 3)) OR push_bit 32 (ucast (le_nat 8 (unat v) ! 4)) OR
      push_bit 40 (ucast (le_nat 8 (unat v) ! 5)) OR push_bit 48 (ucast (le_nat 8 (unat v) ! 6)) OR
      push_bit 56 (ucast (le_nat 8 (unat v) ! 7)))"
    unfolding pb_decode_fixed64_def
    using reads_bind [OF reads_read [of "le_nat 8 (unat v)"] reads_return] unfolding length_le_nat .
  moreover have "le_nat 8 (unat v) ! 0 = of_nat (unat v div 2 ^ 0)" "le_nat 8 (unat v) ! 1 = of_nat (unat v div 2 ^ 8)"
    "le_nat 8 (unat v) ! 2 = of_nat (unat v div 2 ^ 16)" "le_nat 8 (unat v) ! 3 = of_nat (unat v div 2 ^ 24)"
    "le_nat 8 (unat v) ! 4 = of_nat (unat v div 2 ^ 32)" "le_nat 8 (unat v) ! 5 = of_nat (unat v div 2 ^ 40)"
    "le_nat 8 (unat v) ! 6 = of_nat (unat v div 2 ^ 48)" "le_nat 8 (unat v) ! 7 = of_nat (unat v div 2 ^ 56)"
    unfolding le_nat_8 by (simp_all add: nth_Cons_numeral)
  ultimately show ?thesis unfolding b j append_Nil2 by (simp only: b j)
qed

section \<open>Fields\<close>

lemma tag_bytes_u32:
  assumes "unat wt < 8" "unat tag < 2 ^ 29"
  shows "tag_bytes wt tag = leb128 (unat (push_bit 3 tag OR wt))" "unat (push_bit 3 tag OR wt) = unat tag * 8 + unat wt"
    "(push_bit 3 tag OR wt) AND 7 = wt" "drop_bit 3 (push_bit 3 tag OR wt) = tag"
proof -
  show u: "unat (push_bit 3 tag OR wt) = unat tag * 8 + unat wt"
    using unat_or_push [of wt 3 tag] assms by (simp add: or.commute)
  then show "tag_bytes wt tag = leb128 (unat (push_bit 3 tag OR wt))" by (simp add: tag_bytes_def)
  have "unat ((push_bit 3 tag OR wt) AND mask 3) = unat wt" unfolding unat_and_mask u using assms(1) by simp
  then show "(push_bit 3 tag OR wt) AND 7 = wt" by (simp add: mask_eq_exp_minus_1 word_unat_eq_iff)
  have "unat (drop_bit 3 (push_bit 3 tag OR wt)) = unat tag" unfolding unat_drop_bit u using assms(1) by simp
  then show "drop_bit 3 (push_bit 3 tag OR wt) = tag" by (simp add: word_unat_eq_iff)
qed

text \<open>The tag of a field, as \<open>pb_decode_tag\<close> reads it.\<close>

lemma decode_tag_reads:
  assumes "unat wt < 8" "unat tag < 2 ^ 29" "tag \<noteq> 0"
    and "i_source s = Buffer (tag_bytes wt tag @ rest)" "length (tag_bytes wt tag) \<le> bytes_left s"
  shows "pb_decode_tag s = (Some (wt, tag), False, moved (length (tag_bytes wt tag)) rest s)"
proof -
  note t = tag_bytes_u32 [OF assms(1,2)]
  let ?v = "push_bit 3 tag OR wt"
  have d: "pb_decode_varint32 s = (Some ?v, moved (length (tag_bytes wt tag)) rest s)"
    using readsD [OF reads_varint32 [of ?v], of s rest] assms(4,5) unfolding t(1) by simp
  then have "fst (pb_decode_varint32_eof s) \<noteq> None" by (auto simp: pb_decode_varint32_def split: prod.splits)
  from varint32_eof_bind(2) [OF this] d
  have "pb_decode_varint32_eof s = (Some ?v, False, moved (length (tag_bytes wt tag)) rest s)"
    by (auto simp: pb_decode_varint32_def split: prod.splits)
  moreover have "?v \<noteq> 0" using t(2) assms(3) by (auto simp: word_unat_eq_iff)
  ultimately show ?thesis using t(3,4) by (simp add: pb_decode_tag_def)
qed

end
