(* ===== verification/Pb_Advance.thy ===== *)
theory Pb_Advance
  imports Pb_In
begin

text \<open>
  Protocol buffers: no reader takes more from a stream than the stream has left.
\<close>

text \<open>A stream into a buffer ends inside it; a callback that succeeds stores as many bytes as it is asked for.\<close>

definition in_ok :: "'i pb_istream \<Rightarrow> bool" where
  "in_ok s \<longleftrightarrow> (case i_source s of
     Buffer b \<Rightarrow> bytes_left s \<le> length b
   | User callback st \<Rightarrow> (\<forall>st n. length (fst (snd (callback st n))) = n))"

text \<open>How a stream may have moved when \<open>k\<close> bytes fewer are left: no further than that.\<close>

fun source_moved :: "nat \<Rightarrow> 'i source \<Rightarrow> 'i source \<Rightarrow> bool" where
  "source_moved k (Buffer b) src \<longleftrightarrow> (\<exists>j \<le> k. src = Buffer (drop j b))"
| "source_moved k (User callback st) src \<longleftrightarrow> (\<exists>st. src = User callback st)"

definition advanced :: "'i pb_istream \<Rightarrow> 'i pb_istream \<Rightarrow> bool" where
  "advanced s t \<longleftrightarrow> bytes_left t \<le> bytes_left s \<and> source_moved (bytes_left s - bytes_left t) (i_source s) (i_source t)"

lemma source_moved_refl [simp]: "source_moved k src src"
  by (cases src) (auto intro: exI [of _ 0])

lemma source_moved_trans: "source_moved j a b \<Longrightarrow> source_moved k b c \<Longrightarrow> source_moved (j + k) a c"
proof (cases a)
  case (Buffer x)
  assume "source_moved j a b" "source_moved k b c"
  then obtain m n where "m \<le> j" "n \<le> k" "c = Buffer (drop n (drop m x))" using Buffer by auto
  then show ?thesis using Buffer by (auto simp: add.commute intro!: exI [of _ "m + n"])
qed auto

lemma source_moved_mono: "source_moved j a b \<Longrightarrow> j \<le> k \<Longrightarrow> source_moved k a b"
  by (cases a) (auto intro: le_trans)

lemma advanced_refl [simp]: "advanced s s"
  by (simp add: advanced_def)

lemma advanced_trans [trans]: "advanced s t \<Longrightarrow> advanced t u \<Longrightarrow> advanced s u"
  unfolding advanced_def using source_moved_trans [of "bytes_left s - bytes_left t" "i_source s" "i_source t" "bytes_left t - bytes_left u"]
  by auto

lemma advanced_ok: "in_ok s \<Longrightarrow> advanced s t \<Longrightarrow> in_ok t"
  by (cases "i_source s") (auto simp: in_ok_def advanced_def)

lemma advanced_left: "advanced s t \<Longrightarrow> bytes_left t \<le> bytes_left s"
  by (simp add: advanced_def)

lemma advanced_errmsg [simp]:
  "advanced s (t\<lparr>i_errmsg := m\<rparr>) \<longleftrightarrow> advanced s t" "advanced (s\<lparr>i_errmsg := m\<rparr>) t \<longleftrightarrow> advanced s t"
  "in_ok (s\<lparr>i_errmsg := m\<rparr>) \<longleftrightarrow> in_ok s"
  by (simp_all add: advanced_def in_ok_def split: source.split)

text \<open>A reader that only moves the stream forward; one that moves it by at least one byte when it succeeds.\<close>

definition reader :: "('a, 'i) inp \<Rightarrow> bool" where
  "reader rd \<longleftrightarrow> (\<forall>s. in_ok s \<longrightarrow> advanced s (snd (rd s)))"

definition consumer :: "('a, 'i) inp \<Rightarrow> bool" where
  "consumer rd \<longleftrightarrow> reader rd \<and> (\<forall>s v t. in_ok s \<longrightarrow> rd s = (Some v, t) \<longrightarrow> bytes_left t < bytes_left s)"

named_theorems readers

lemma readerD: "reader rd \<Longrightarrow> rd s = (r, t) \<Longrightarrow> in_ok s \<Longrightarrow> advanced s t"
  by (metis reader_def snd_conv)

lemma consumerD: "consumer rd \<Longrightarrow> rd s = (Some v, t) \<Longrightarrow> in_ok s \<Longrightarrow> bytes_left t < bytes_left s"
  by (simp add: consumer_def)

lemma consumer_reader: "consumer rd \<Longrightarrow> reader rd"
  by (simp add: consumer_def)

lemma reader_error [readers]: "reader (in_error msg)"
  by (simp add: reader_def in_error_def)

lemma reader_return [readers]: "reader (in_return v)"
  by (simp add: reader_def in_return_def)

lemma reader_bind [readers]:
  fixes a :: "('a, 'i) inp" and f :: "'a \<Rightarrow> ('b, 'i) inp"
  assumes "reader a" "\<And>v. reader (f v)"
  shows "reader (in_bind a f)"
  unfolding reader_def
proof (intro allI impI)
  fix s :: "'i pb_istream"
  assume ok: "in_ok s"
  obtain r t where a: "a s = (r, t)" by (cases "a s")
  have t: "advanced s t" by (rule readerD [OF assms(1) a ok])
  show "advanced s (snd (in_bind a f s))"
  proof (cases r)
    case (Some v)
    have "advanced t (snd (f v t))" using assms(2) advanced_ok [OF ok t] by (simp add: reader_def)
    with t show ?thesis using advanced_trans by (auto simp: in_bind_def a Some)
  qed (use t in \<open>simp add: in_bind_def a\<close>)
qed

lemma consumer_bind:
  fixes a :: "('a, 'i) inp" and f :: "'a \<Rightarrow> ('b, 'i) inp"
  assumes "consumer a" "\<And>v. reader (f v)"
  shows "consumer (in_bind a f)"
  unfolding consumer_def
proof (intro conjI allI impI)
  show "reader (in_bind a f)" by (intro readers consumer_reader assms)
  fix s t :: "'i pb_istream" and v
  assume ok: "in_ok s" and r: "in_bind a f s = (Some v, t)"
  then obtain x u where a: "a s = (Some x, u)" "f x u = (Some v, t)" by (auto simp: in_bind_def split: prod.splits option.splits)
  have "bytes_left u < bytes_left s" by (rule consumerD [OF assms(1) a(1) ok])
  moreover have "advanced s u" by (rule readerD [OF consumer_reader [OF assms(1)] a(1) ok])
  then have "advanced u t" by (intro readerD [OF assms(2) a(2)] advanced_ok [OF ok])
  ultimately show "bytes_left t < bytes_left s" using advanced_left by (metis le_less_trans)
qed

lemma read_count_advanced:
  assumes "in_ok s"
  shows "advanced s (snd (read_count n s))" "\<And>bs. fst (read_count n s) = Some bs \<Longrightarrow>
    length bs = n \<and> n \<le> bytes_left s \<and> bytes_left (snd (read_count n s)) = bytes_left s - n"
proof -
  have "advanced s (snd (read_count n s)) \<and> (\<forall>bs. fst (read_count n s) = Some bs \<longrightarrow>
      length bs = n \<and> n \<le> bytes_left s \<and> bytes_left (snd (read_count n s)) = bytes_left s - n)"
  proof (cases "i_source s")
    case (Buffer b)
    with assms show ?thesis
      by (auto simp: read_count_def in_error_def call_source_def buf_read_def advanced_def in_ok_def)
  next
    case (User callback st)
    obtain ok bs st' where c: "callback st n = (ok, bs, st')" by (cases "callback st n") auto
    moreover have "length bs = n" using assms User c by (auto simp: in_ok_def) (metis fst_conv snd_conv)
    ultimately show ?thesis using User
      by (auto simp: read_count_def in_error_def call_source_def advanced_def)
  qed
  then show "advanced s (snd (read_count n s))" "\<And>bs. fst (read_count n s) = Some bs \<Longrightarrow>
    length bs = n \<and> n \<le> bytes_left s \<and> bytes_left (snd (read_count n s)) = bytes_left s - n" by blast+
qed

lemma reader_count [readers]: "reader (read_count n)"
  by (simp add: reader_def read_count_advanced)

lemma reader_read [readers]: "reader (pb_read n)"
  by (simp add: reader_def pb_read_def read_count_advanced)

lemma read_length: "in_ok s \<Longrightarrow> pb_read n s = (Some bs, t) \<Longrightarrow> length bs = n"
  using read_count_advanced(2) [of s n bs] by (auto simp: pb_read_def split: if_splits)

lemma consumer_read: "0 < n \<Longrightarrow> consumer (pb_read n)"
  using read_count_advanced(2) [of _ n] reader_read [of n] by (fastforce simp: consumer_def pb_read_def)

lemma reader_skip_loop [readers]: "reader (skip_loop n :: (unit, 'i) inp)"
proof (induction n rule: less_induct)
  case (less n)
  have "(skip_loop n :: (unit, 'i) inp) = (if n > 16 then in_bind (pb_read 16) (\<lambda>_. skip_loop (n - 16)) else in_bind (pb_read n) (\<lambda>_. in_return ()))"
    by (rule ext) (simp add: skip_loop.simps [of n])
  moreover have "reader (if n > 16 then in_bind (pb_read 16) (\<lambda>_. skip_loop (n - 16)) else in_bind (pb_read n) (\<lambda>_. in_return ()) :: (unit, 'i) inp)"
    by (auto intro!: reader_bind reader_read reader_return less.IH)
  ultimately show ?case by simp
qed

lemma reader_read_skip [readers]: "reader (pb_read_skip n)"
proof -
  have "reader (in_bind (read_count n) (\<lambda>_. in_return ()))" by (intro readers)
  then show ?thesis using reader_skip_loop [of n] by (auto simp: reader_def pb_read_skip_def split: source.split)
qed

lemma consumer_byte: "consumer pb_readbyte"
proof -
  have "pb_readbyte s = (case read_count 1 s of (Some bs, t) \<Rightarrow> (Some (hd bs), t) | (None, t) \<Rightarrow> (None, t))" for s :: "'a pb_istream"
    by (auto simp: pb_readbyte_def read_count_def in_error_def split: option.split prod.split)
  then show ?thesis
    using read_count_advanced [of _ 1]
    by (auto simp: consumer_def reader_def split: prod.splits option.splits) force+
qed

lemmas reader_byte [readers] = consumer_reader [OF consumer_byte]

lemma reader_varint32_loop [readers]: "reader (varint32_loop bitpos result)"
proof -
  have "in_ok s \<Longrightarrow> advanced s (snd (varint32_loop bitpos result s))" for s :: "'a pb_istream"
  proof (induction bitpos result s rule: varint32_loop.induct)
    case (1 bitpos result s)
    obtain r t where b: "pb_readbyte s = (r, t)" by (cases "pb_readbyte s")
    have t: "advanced s t" by (rule readerD [OF reader_byte b 1(2)])
    note ok = advanced_ok [OF 1(2) t]
    show ?case
    proof (cases r)
      case (Some byte)
      show ?thesis
        using 1(1) [OF b [symmetric] Some refl _ refl refl] t ok advanced_trans [OF t]
        by (auto simp: varint32_loop.simps [of bitpos] b Some Let_def in_error_def)
    qed (use t in \<open>simp add: varint32_loop.simps [of bitpos] b\<close>)
  qed
  then show ?thesis by (simp add: reader_def)
qed

lemma reader_varint64_loop [readers]: "reader (varint64_loop bitpos result)"
proof -
  have "in_ok s \<Longrightarrow> advanced s (snd (varint64_loop bitpos result s))" for s :: "'a pb_istream"
  proof (induction bitpos result s rule: varint64_loop.induct)
    case (1 bitpos result s)
    obtain r t where b: "pb_readbyte s = (r, t)" by (cases "pb_readbyte s")
    have t: "advanced s t" by (rule readerD [OF reader_byte b 1(2)])
    note ok = advanced_ok [OF 1(2) t]
    show ?case
    proof (cases "bitpos \<ge> 64 \<or> r = None")
      case True
      then show ?thesis using t by (auto simp: varint64_loop.simps [of bitpos] b in_error_def)
    next
      case False
      then obtain byte where r: "r = Some byte" by auto
      show ?thesis
        using 1(1) [OF _ b [symmetric] r refl refl] False t ok advanced_trans [OF t]
        by (auto simp: varint64_loop.simps [of bitpos] b r Let_def)
    qed
  qed
  then show ?thesis by (simp add: reader_def)
qed

lemma consumer_varint32: "consumer pb_decode_varint32"
proof -
  have e: "pb_decode_varint32 = in_bind pb_readbyte (\<lambda>byte.
      if byte AND 0x80 = 0 then in_return (ucast byte) else varint32_loop 7 (ucast (byte AND 0x7F)))"
    by (rule varint32_eof_bind(1))
  show ?thesis unfolding e by (intro consumer_bind consumer_byte) (auto intro!: readers)
qed

lemma consumer_varint: "consumer pb_decode_varint"
proof -
  have e: "pb_decode_varint = in_bind pb_readbyte (\<lambda>byte.
      if byte AND 0x80 \<noteq> 0 then varint64_loop 7 (ucast (byte AND 0x7F)) else in_return (ucast (byte AND 0x7F)))"
    by (rule ext) (auto simp: pb_decode_varint_def varint64_loop.simps [of 0] in_bind_def in_return_def Let_def split: prod.split option.split)
  show ?thesis unfolding e by (intro consumer_bind consumer_byte) (auto intro!: readers)
qed

lemmas reader_varint32 [readers] = consumer_reader [OF consumer_varint32]
lemmas reader_varint [readers] = consumer_reader [OF consumer_varint]

lemma consumer_values:
  "consumer pb_decode_svarint" "consumer pb_dec_bool" "consumer pb_decode_fixed32" "consumer pb_decode_fixed64"
  unfolding pb_decode_svarint_def pb_dec_bool_def pb_decode_fixed32_def pb_decode_fixed64_def
  by (rule consumer_bind; rule consumer_varint consumer_varint32 consumer_read readers; simp?)+

lemmas reader_values [readers] = consumer_values [THEN consumer_reader]

lemma reader_skip_varint [readers]: "reader pb_skip_varint"
proof -
  have "in_ok s \<Longrightarrow> advanced s (snd (pb_skip_varint s))" for s :: "'a pb_istream"
  proof (induction s rule: pb_skip_varint.induct)
    case (1 s)
    obtain r t where b: "pb_read 1 s = (r, t)" by (cases "pb_read 1 s")
    have t: "advanced s t" by (rule readerD [OF reader_read b 1(2)])
    show ?case
    proof (cases r)
      case (Some bytes)
      then show ?thesis
        using 1(1) [OF b [symmetric] Some] t advanced_ok [OF 1(2) t] advanced_trans [OF t]
        by (auto simp: pb_skip_varint.simps [of s] b simp del: One_nat_def)
    qed (use t in \<open>simp add: pb_skip_varint.simps [of s] b del: One_nat_def\<close>)
  qed
  then show ?thesis by (simp add: reader_def)
qed

lemma reader_skip_field [readers]: "reader (pb_skip_field wt)"
  unfolding pb_skip_field_def pb_skip_string_def by (auto intro!: readers)

lemma decode_tag_advanced:
  assumes "in_ok s" "pb_decode_tag s = (r, eof, t)"
  shows "advanced s t" "r = Some v \<Longrightarrow> bytes_left t < bytes_left s"
proof -
  obtain x where x: "pb_decode_varint32 s = (x, t)" "r \<noteq> None \<Longrightarrow> x \<noteq> None"
    using assms(2) by (auto simp: pb_decode_tag_def pb_decode_varint32_def split: prod.splits option.splits if_splits)
  show "advanced s t" by (rule readerD [OF reader_varint32 x(1) assms(1)])
  show "bytes_left t < bytes_left s" if "r = Some v"
    using that x consumerD [OF consumer_varint32 _ assms(1)] by blast
qed

section \<open>Substreams\<close>

text \<open>A substream and the stream: wherever the substream is read to, closing it leaves the stream behind it.\<close>

lemma make_substream_advanced:
  assumes "in_ok s" "pb_make_string_substream s = (r, t)"
  shows "advanced s t" "r = Some sub \<Longrightarrow> in_ok sub \<and> bytes_left sub < bytes_left s"
    "r = Some sub \<Longrightarrow> advanced sub sub' \<Longrightarrow> pb_close_string_substream sub' t = (q, u) \<Longrightarrow> advanced s u"
proof -
  obtain x v where v: "pb_decode_varint32 s = (x, v)" by (cases "pb_decode_varint32 s")
  have sv: "advanced s v" by (rule readerD [OF reader_varint32 v assms(1)])
  have ok: "in_ok v" by (rule advanced_ok [OF assms(1) sv])
  consider (fail) "r = None" "advanced v t" "\<And>m. advanced v (t\<lparr>i_errmsg := m\<rparr>)"
    | (made) n where "n \<le> bytes_left v" "x \<noteq> None" "r = Some (v\<lparr>bytes_left := n\<rparr>)" "t = v\<lparr>bytes_left := bytes_left v - n\<rparr>"
  proof (cases x)
    case None
    with assms(2) v show ?thesis by (intro fail) (auto simp: pb_make_string_substream_def in_bind_def)
  next
    case (Some k)
    show ?thesis
    proof (cases "bytes_left v < unat k")
      case True
      with assms(2) v Some show ?thesis by (intro fail) (auto simp: pb_make_string_substream_def in_bind_def in_error_def)
    next
      case False
      with assms(2) v Some show ?thesis
        by (intro made [of "unat k"]) (auto simp: pb_make_string_substream_def in_bind_def)
    qed
  qed
  note cs = this
  show "advanced s t" using cs
  proof cases
    case made
    then have "advanced v t" by (simp add: advanced_def)
    with sv show ?thesis by (rule advanced_trans)
  qed (use sv advanced_trans in blast)
  show "in_ok sub \<and> bytes_left sub < bytes_left s" if "r = Some sub" using cs
  proof cases
    case made
    have "bytes_left v < bytes_left s" using made(2) v consumerD [OF consumer_varint32 _ assms(1)] by blast
    then show ?thesis using that made ok by (auto simp: in_ok_def split: source.splits)
  qed (use that in simp)
  show "advanced s u" if sub: "r = Some sub" "advanced sub sub'" "pb_close_string_substream sub' t = (q, u)"
    using cs
  proof cases
    case made
    have oksub: "in_ok sub" using sub(1) made ok by (auto simp: in_ok_def split: source.splits)
    obtain y w where w: "(if bytes_left sub' \<noteq> 0 then pb_read_skip (bytes_left sub') sub' else (Some (), sub')) = (y, w)"
      by fastforce
    have "advanced sub' w" using w reader_read_skip [of "bytes_left sub'"] advanced_ok [OF oksub sub(2)]
      by (auto simp: reader_def split: if_splits)
    with sub(2) have sw: "advanced sub w" by (rule advanced_trans)
    have "u = t \<or> u = t\<lparr>i_source := i_source w, i_errmsg := i_errmsg w\<rparr>"
      using sub(3) w by (auto simp: pb_close_string_substream_def split: option.splits)
    moreover have "source_moved n (i_source v) (i_source w)"
      using sw made(3) sub(1) by (auto simp: advanced_def intro: source_moved_mono)
    ultimately have "advanced v u" using made by (auto simp: advanced_def)
    with sv show ?thesis by (rule advanced_trans)
  qed (use sub(1) in simp)
qed

end
