(* ===== verification/Pb_Message.thy ===== *)
theory Pb_Message
  imports BSSL_Prelude "HOL-Library.Monad_Syntax"
begin

text \<open>
  Protocol buffers: messages as structures in memory, their descriptions (\<open>nanopb/pb.h\<close>) and the iterator over the fields of a
  message (\<open>nanopb/pb_common.c\<close>).

  A structure is a list of slots.  A slot is the place of one field, or of all members of a union: the variable next to it
  (\<open>has_x\<close>, \<open>x_count\<close> or \<open>which_x\<close>, unused where there is none) and the items stored there: one, or \<open>array_size\<close> of them
  for a static array.  A pointer owns a block of items.  Callback and extension fields and arrays of a fixed count are not
  modelled: no table of the application has any.
\<close>

section \<open>Descriptions\<close>

datatype pb_ltype = LT_BOOL | LT_VARINT | LT_UVARINT | LT_SVARINT | LT_FIXED32 | LT_FIXED64 | LT_BYTES | LT_STRING
  | LT_SUBMESSAGE | LT_FIXED_LENGTH_BYTES

datatype pb_htype = HT_REQUIRED | HT_OPTIONAL | HT_REPEATED | HT_ONEOF

datatype pb_atype = AT_STATIC | AT_POINTER

text \<open>\<open>PB_LTYPE(type) <= PB_LTYPE_LAST_PACKABLE\<close>\<close>

definition packable :: "pb_ltype \<Rightarrow> bool" where
  "packable lt \<longleftrightarrow> lt \<in> {LT_BOOL, LT_VARINT, LT_UVARINT, LT_SVARINT, LT_FIXED32, LT_FIXED64}"

section \<open>Memory\<close>

text \<open>
  Integers are their bits; a \<open>pb_bytes_array_t\<close> is its size and the bytes there is room for.\<close>

datatype pb_item = Bool_item bool | Word_item u64 | Bytes_item u32 "u8 list" | Chars_item "u8 list"
    | Struct_item "pb_slot list" | Ptr_item "pb_item list option"
  and pb_slot = Slot u32 "pb_item list"

text \<open>How deep structures are nested in each other, in place or through pointers.\<close>

definition greatest :: "nat list \<Rightarrow> nat" where
  "greatest ns = fold max ns 0"

primrec item_depth :: "pb_item \<Rightarrow> nat" and slot_depth :: "pb_slot \<Rightarrow> nat" where
  "item_depth (Bool_item b) = 0"
| "item_depth (Word_item w) = 0"
| "item_depth (Bytes_item n bs) = 0"
| "item_depth (Chars_item cs) = 0"
| "item_depth (Struct_item slots) = Suc (greatest (map slot_depth slots))"
| "item_depth (Ptr_item p) = (case map_option (map item_depth) p of None \<Rightarrow> 0 | Some ds \<Rightarrow> greatest ds)"
| "slot_depth (Slot n items) = greatest (map item_depth items)"

definition struct_depth :: "pb_slot list \<Rightarrow> nat" where
  "struct_depth slots = greatest (map slot_depth slots)"

text \<open>\<open>ptr\<close> points to the descriptions of the fields of a submessage or to a default value.\<close>

datatype pb_ptr = Null_ptr | Fields_ptr nat | Default_ptr pb_item

record pb_field =
  tag :: u32
  ltype :: pb_ltype
  htype :: pb_htype
  atype :: pb_atype
  data_offset :: u32
  size_offset :: int
  data_size :: nat
  array_size :: u32
  ptr :: pb_ptr

definition PB_LAST_FIELD :: pb_field where
  "PB_LAST_FIELD = \<lparr>tag = 0, ltype = LT_BOOL, htype = HT_REQUIRED, atype = AT_STATIC, data_offset = 0, size_offset = 0,
     data_size = 0, array_size = 0, ptr = Null_ptr\<rparr>"

abbreviation PB_SIZE_MAX :: u32 where "PB_SIZE_MAX \<equiv> 0xFFFFFFFF"

text \<open>
  What the compiler and the allocator provide: the tables of descriptions and the structures of zero bytes, by address; whether
  \<open>realloc\<close> grants its \<open>n\<close>-th request, for so many bytes; what new memory holds.\<close>

record pb_env =
  fields_at :: "nat \<Rightarrow> pb_field list"
  zeros_at :: "nat \<Rightarrow> pb_slot list"
  grants :: "nat \<Rightarrow> nat \<Rightarrow> bool"
  junk_item :: "pb_field \<Rightarrow> pb_item"
  junk_byte :: u8

definition PB_BYTES_ARRAY_T_ALLOCSIZE :: "nat \<Rightarrow> nat" where
  "PB_BYTES_ARRAY_T_ALLOCSIZE n = size_add n 4"

section \<open>The iterator over the fields of a message\<close>

text \<open>\<open>position\<close> is \<open>pos - start\<close>; \<open>slot_no\<close> stands for \<open>pData\<close> and \<open>pSize\<close>: the number of the slot.\<close>

record pb_field_iter =
  position :: nat
  slot_no :: nat
  required_field_index :: nat

definition field_at :: "pb_field list \<Rightarrow> nat \<Rightarrow> pb_field" where
  "field_at flds i = (if i < length flds then flds ! i else PB_LAST_FIELD)"

definition iter_start :: pb_field_iter where
  "iter_start = \<lparr>position = 0, slot_no = 0, required_field_index = 0\<rparr>"

definition pb_field_iter_begin :: "pb_field list \<Rightarrow> bool \<times> pb_field_iter" where
  "pb_field_iter_begin flds = (tag (field_at flds 0) \<noteq> 0, iter_start)"

definition same_union :: "pb_field \<Rightarrow> pb_field \<Rightarrow> bool" where
  "same_union prev_field pos \<longleftrightarrow> htype prev_field = HT_ONEOF \<and> htype pos = HT_ONEOF \<and> data_offset pos = PB_SIZE_MAX"

definition pb_field_iter_next :: "pb_field list \<Rightarrow> pb_field_iter \<Rightarrow> bool \<times> pb_field_iter" where
  "pb_field_iter_next flds iter =
     (let prev_field = field_at flds (position iter); pos = field_at flds (position iter + 1) in
      if tag prev_field = 0 then (False, iter)
      else if tag pos = 0 then (False, snd (pb_field_iter_begin flds))
      else if same_union prev_field pos then (True, iter\<lparr>position := position iter + 1\<rparr>)
      else (True, \<lparr>position = position iter + 1, slot_no = slot_no iter + 1,
        required_field_index = (if htype prev_field = HT_REQUIRED then required_field_index iter + 1
                                else required_field_index iter)\<rparr>))"

text \<open>The loop comes back to \<open>start\<close> after as many steps as there are fields.\<close>

fun find_tag_loop :: "nat \<Rightarrow> pb_field list \<Rightarrow> u32 \<Rightarrow> nat \<Rightarrow> pb_field_iter \<Rightarrow> bool \<times> pb_field_iter" where
  "find_tag_loop 0 flds t start iter = (False, iter)"
| "find_tag_loop (Suc n) flds t start iter =
     (if tag (field_at flds (position iter)) = t then (True, iter)
      else let iter = snd (pb_field_iter_next flds iter) in
        if position iter \<noteq> start then find_tag_loop n flds t start iter else (False, iter))"

definition pb_field_iter_find :: "pb_field list \<Rightarrow> pb_field_iter \<Rightarrow> u32 \<Rightarrow> bool \<times> pb_field_iter" where
  "pb_field_iter_find flds iter t = find_tag_loop (length flds + 1) flds t (position iter) iter"

text \<open>The fields and their slots in the order in which a loop over the iterator visits them.\<close>

fun visits :: "pb_field list \<Rightarrow> pb_slot list \<Rightarrow> (pb_field \<times> pb_slot) list" where
  "visits (f # g # fs) (s # ss) = (f, s) # visits (g # fs) (if same_union f g then s # ss else ss)"
| "visits [f] (s # ss) = [(f, s)]"
| "visits _ _ = []"

text \<open>A loop that changes the slots and goes on with what it has changed.\<close>

fun each_slot :: "(pb_field \<Rightarrow> pb_slot \<Rightarrow> 'a \<Rightarrow> (pb_slot \<times> 'a) option) \<Rightarrow> pb_field list \<Rightarrow> pb_slot list \<Rightarrow> 'a \<Rightarrow> (pb_slot list \<times> 'a) option"
where
  "each_slot visit (f # g # fs) (s # ss) a = do {
     (s, a) \<leftarrow> visit f s a;
     if same_union f g then each_slot visit (g # fs) (s # ss) a
     else do { (ss, a) \<leftarrow> each_slot visit (g # fs) ss a; Some (s # ss, a) } }"
| "each_slot visit [f] (s # ss) a = do { (s, a) \<leftarrow> visit f s a; Some (s # ss, a) }"
| "each_slot visit [] ss a = Some (ss, a)"
| "each_slot visit (f # fs) [] a = None"

end
