(* ===== verification/Pb_Iter.thy ===== *)
theory Pb_Iter
  imports Pb_Message
begin

text \<open>
  Protocol buffers: what the iterator of \<open>nanopb/pb_common.c\<close> and the loops over it do: the fields come in groups that share a
  slot, and the iterator visits the members of group after group.
\<close>

fun groups :: "pb_field list \<Rightarrow> pb_field list list" where
  "groups [] = []"
| "groups (f # fs) = (case groups fs of
     [] \<Rightarrow> [[f]]
   | g # gs \<Rightarrow> if same_union f (hd fs) then (f # g) # gs else [f] # g # gs)"

fun visit_all :: "(pb_field \<Rightarrow> pb_slot \<Rightarrow> 'a \<Rightarrow> (pb_slot \<times> 'a) option) \<Rightarrow> pb_field list \<Rightarrow> pb_slot \<Rightarrow> 'a \<Rightarrow> (pb_slot \<times> 'a) option" where
  "visit_all visit [] s a = Some (s, a)"
| "visit_all visit (f # fs) s a = do { (s, a) \<leftarrow> visit f s a; visit_all visit fs s a }"

fun each_group :: "(pb_field list \<Rightarrow> pb_slot \<Rightarrow> 'a \<Rightarrow> (pb_slot \<times> 'a) option) \<Rightarrow> pb_field list list \<Rightarrow> pb_slot list \<Rightarrow> 'a \<Rightarrow> (pb_slot list \<times> 'a) option" where
  "each_group visit [] ss a = Some (ss, a)"
| "each_group visit (g # gs) [] a = None"
| "each_group visit (g # gs) (s # ss) a = do { (s, a) \<leftarrow> visit g s a; (ss, a) \<leftarrow> each_group visit gs ss a; Some (s # ss, a) }"

lemma groups_nonempty: "groups fs = [] \<longleftrightarrow> fs = []"
  by (cases fs) (auto split: list.split)

lemma groups_members: "g \<in> set (groups fs) \<Longrightarrow> g \<noteq> []"
  by (induction fs arbitrary: g) (auto split: list.splits if_splits)

lemma groups_cons: "groups (f # g # fs) = (if same_union f g then (f # hd (groups (g # fs))) # tl (groups (g # fs)) else [f] # groups (g # fs))"
  using groups_nonempty [of "g # fs"] by (cases "groups (g # fs)") auto

lemma concat_groups: "concat (groups fs) = fs"
proof (induction fs)
  case (Cons f fs)
  then show ?case by (cases "groups fs") (auto simp: groups_nonempty)
qed simp

lemma each_slot_groups: "each_slot visit flds slots a = each_group (visit_all visit) (groups flds) slots a"
proof (induction visit flds slots a rule: each_slot.induct)
  case (1 visit f g fs s ss a)
  obtain h hs where gs: "groups (g # fs) = h # hs"
    using groups_nonempty [of "g # fs"] by (cases "groups (g # fs)") auto
  show ?case
    using 1 by (auto simp: groups_cons gs bind_assoc split_def simp del: groups.simps(2) intro!: Option.bind_cong)
qed (simp_all add: split_def groups_nonempty split: list.split)

lemma groups_union: "g \<in> set (groups flds) \<Longrightarrow> (\<exists>f. g = [f]) \<or> (\<forall>f \<in> set g. htype f = HT_ONEOF)"
proof (induction flds arbitrary: g)
  case (Cons f fs)
  show ?case
  proof (cases "groups fs")
    case Nil
    then show ?thesis using Cons.prems by simp
  next
    case (Cons h hs)
    have hd: "hd h = hd fs" using concat_groups [of fs] groups_members [of h fs] Cons by (cases h) auto
    have "htype f = HT_ONEOF \<and> (\<forall>f \<in> set h. htype f = HT_ONEOF)" if "same_union f (hd fs)"
      using that Cons.IH [of h] hd Cons by (auto simp: same_union_def)
    then show ?thesis using Cons.prems Cons.IH [of g] Cons by (auto split: if_splits)
  qed
qed simp

lemma visits_groups: "visits flds slots = concat (map2 (\<lambda>g s. map (\<lambda>f. (f, s)) g) (groups flds) slots)"
proof (induction flds slots rule: visits.induct)
  case (1 f g fs s ss)
  obtain h hs where gs: "groups (g # fs) = h # hs"
    using groups_nonempty [of "g # fs"] by (cases "groups (g # fs)") auto
  show ?case using 1 by (auto simp: groups_cons gs simp del: groups.simps(2))
qed (auto split: list.split)

text \<open>A loop whose steps all succeed, each of which takes something off a counter.\<close>

lemma each_group_total:
  fixes c :: "pb_field list \<Rightarrow> pb_slot \<Rightarrow> int"
  assumes "list_all2 I gs ss"
    and "\<And>g s a. g \<in> set gs \<Longrightarrow> s \<in> set ss \<Longrightarrow> I g s \<Longrightarrow> \<exists>s'. visit g s a = Some (s', a - c g s) \<and> J g s'"
  shows "\<exists>ss'. each_group visit gs ss a = Some (ss', a - sum_list (map2 c gs ss)) \<and> list_all2 J gs ss'"
  using assms
proof (induction gs ss arbitrary: a rule: list_all2_induct)
  case (Cons g gs s ss)
  obtain s' where s': "visit g s a = Some (s', a - c g s)" "J g s'" using Cons.prems(1) [of g s a] Cons.hyps(1) by auto
  have "\<exists>ss'. each_group visit gs ss (a - c g s) = Some (ss', a - c g s - sum_list (map2 c gs ss)) \<and> list_all2 J gs ss'"
    using Cons.prems by (intro Cons.IH) auto
  then show ?case using s' by (auto simp: algebra_simps)
qed simp

section \<open>Positions\<close>

text \<open>The number of the group that a position is in; the iterator at a position.\<close>

fun group_no :: "pb_field list \<Rightarrow> nat \<Rightarrow> nat" where
  "group_no (f # g # fs) (Suc p) = (if same_union f g then 0 else 1) + group_no (g # fs) p"
| "group_no _ _ = 0"

definition iter_at :: "pb_field list \<Rightarrow> nat \<Rightarrow> pb_field_iter" where
  "iter_at flds p = \<lparr>position = p, slot_no = group_no flds p,
     required_field_index = length (filter (\<lambda>f. htype f = HT_REQUIRED) (take p flds))\<rparr>"

lemma iter_at_0: "iter_at flds 0 = iter_start"
  by (simp add: iter_at_def iter_start_def)

lemma position_iter_at [simp]: "position (iter_at flds p) = p"
  and slot_no_iter_at [simp]: "slot_no (iter_at flds p) = group_no flds p"
  by (simp_all add: iter_at_def)

lemma group_no_member:
  "p < length flds \<Longrightarrow> group_no flds p < length (groups flds) \<and> flds ! p \<in> set (groups flds ! group_no flds p)"
proof (induction flds p rule: group_no.induct [case_names step none zero last])
  case (step f g fs p)
  obtain h hs where gs: "groups (g # fs) = h # hs"
    using groups_nonempty [of "g # fs"] by (cases "groups (g # fs)") auto
  from step show ?case
    by (cases "group_no (g # fs) p") (auto simp: groups_cons gs simp del: groups.simps(2))
next
  case (none p)
  then show ?case by simp
next
  case (zero f p)
  then show ?case by simp
next
  case (last fs)
  then show ?case by (cases fs) (auto split: list.split)
qed

lemma group_no_Suc: "p + 1 < length flds \<Longrightarrow>
    group_no flds (p + 1) = group_no flds p + (if same_union (flds ! p) (flds ! (p + 1)) then 0 else 1)"
proof (induction flds p rule: group_no.induct [case_names step none zero last])
  case (last fs)
  then show ?case by (cases fs rule: remdups_adj.cases) auto
qed auto

lemma field_at_less: "p < length flds \<Longrightarrow> field_at flds p = flds ! p"
  by (simp add: field_at_def)

lemma iter_next_at:
  assumes "0 \<notin> tag ` set flds" "p < length flds"
  shows "pb_field_iter_next flds (iter_at flds p) = (if p + 1 < length flds then (True, iter_at flds (p + 1)) else (False, iter_start))"
proof -
  have nz: "tag (flds ! q) \<noteq> 0" if "q < length flds" for q using that assms(1) by force
  show ?thesis
  proof (cases "p + 1 < length flds")
    case True
    then show ?thesis
      using nz [of p] nz [of "p + 1"] assms(2) group_no_Suc [OF True]
      by (auto simp: pb_field_iter_next_def Let_def field_at_less iter_at_def take_Suc_conv_app_nth same_union_def)
  next
    case False
    then show ?thesis
      using nz [of p] assms(2)
      by (auto simp: pb_field_iter_next_def pb_field_iter_begin_def Let_def field_at_less field_at_def PB_LAST_FIELD_def)
  qed
qed

section \<open>Finding a field\<close>

lemma find_tag_loop_at:
  assumes "0 \<notin> tag ` set flds" "st < length flds" "j < length flds" "length flds - j \<le> n"
  shows "find_tag_loop n flds t st (iter_at flds ((st + j) mod length flds)) =
    (if \<exists>i. j \<le> i \<and> i < length flds \<and> tag (flds ! ((st + i) mod length flds)) = t
     then (True, iter_at flds ((st + (LEAST i. j \<le> i \<and> tag (flds ! ((st + i) mod length flds)) = t)) mod length flds))
     else (False, iter_at flds st))"
  using assms(3,4)
proof (induction n arbitrary: j)
  case (Suc n)
  let ?L = "length flds" and ?t = "\<lambda>i. tag (flds ! ((st + i) mod length flds))"
  have "flds \<noteq> []" using assms(2) by auto
  then have L: "0 < ?L" "(st + j) mod ?L < ?L" by simp_all
  show ?case
  proof (cases "?t j = t")
    case True
    then have "(LEAST i. j \<le> i \<and> ?t i = t) = j" by (intro Least_equality) auto
    then show ?thesis using True L Suc.prems by (auto simp: field_at_less)
  next
    case False
    have up: "((\<exists>i. j \<le> i \<and> i < ?L \<and> ?t i = t) = (\<exists>i. j + 1 \<le> i \<and> i < ?L \<and> ?t i = t))"
      "(LEAST i. j \<le> i \<and> ?t i = t) = (LEAST i. j + 1 \<le> i \<and> ?t i = t)"
      using False by (metis Suc_eq_plus1 Suc_leD le_antisym not_less_eq_eq)+
    have nxt: "snd (pb_field_iter_next flds (iter_at flds ((st + j) mod ?L))) = iter_at flds ((st + (j + 1)) mod ?L)"
    proof (cases "Suc ((st + j) mod ?L) < ?L")
      case True
      then show ?thesis using iter_next_at [OF assms(1) L(2)] by (simp add: mod_Suc)
    next
      case False
      then have "Suc ((st + j) mod ?L) = ?L" using L(2) by linarith
      then show ?thesis using iter_next_at [OF assms(1) L(2)] by (simp add: mod_Suc iter_at_0)
    qed
    have again: "(st + (j + 1)) mod ?L = st \<longleftrightarrow> j + 1 = ?L"
    proof -
      have "(st + (j + 1)) mod ?L = st mod ?L \<longleftrightarrow> ?L dvd j + 1" by (metis add_diff_cancel_left' le_add1 mod_eq_dvd_iff_nat)
      moreover have "?L dvd j + 1 \<longleftrightarrow> j + 1 = ?L" using Suc.prems(1) by (auto dest: dvd_imp_le)
      ultimately show ?thesis using assms(2) by simp
    qed
    show ?thesis
    proof (cases "j + 1 = ?L")
      case True
      then have "\<not> (\<exists>i. j \<le> i \<and> i < ?L \<and> ?t i = t)" using up(1) by auto
      moreover have "(st + (j + 1)) mod ?L = st" using again True by blast
      ultimately show ?thesis using False L nxt by (simp add: field_at_less Let_def)
    next
      case False': False
      then have "j + 1 < ?L" "?L - (j + 1) \<le> n" using Suc.prems by auto
      moreover have "(st + (j + 1)) mod ?L \<noteq> st" using again False' by blast
      ultimately show ?thesis
        using Suc.IH [of "j + 1"] False L nxt unfolding up by (simp add: field_at_less Let_def del: add_Suc_right)
    qed
  qed
qed simp

lemma find_at:
  assumes "0 \<notin> tag ` set flds" "p < length flds"
  obtains (found) q where "q < length flds" "tag (flds ! q) = t" "pb_field_iter_find flds (iter_at flds p) t = (True, iter_at flds q)"
  | (missing) "t \<notin> tag ` set flds" "pb_field_iter_find flds (iter_at flds p) t = (False, iter_at flds p)"
proof -
  let ?L = "length flds" and ?t = "\<lambda>i. tag (flds ! ((p + i) mod length flds))"
  have loop: "pb_field_iter_find flds (iter_at flds p) t =
     (if \<exists>i. i < ?L \<and> ?t i = t then (True, iter_at flds ((p + (LEAST i. ?t i = t)) mod ?L)) else (False, iter_at flds p))"
  proof -
    have "(p + 0) mod ?L = p" "0 < ?L" using assms(2) by (simp, linarith)
    then show ?thesis
      using find_tag_loop_at [OF assms, of 0 "?L + 1" t] unfolding pb_field_iter_find_def position_iter_at
      by (simp del: find_tag_loop.simps add_0_right)
  qed
  show ?thesis
  proof (cases "\<exists>i. i < ?L \<and> ?t i = t")
    case True
    then have "?t (LEAST i. ?t i = t) = t" by (metis (mono_tags, lifting) LeastI)
    moreover have "(p + (LEAST i. ?t i = t)) mod ?L < ?L" using assms(2) by (intro mod_less_divisor) linarith
    ultimately show ?thesis using loop True found by auto
  next
    case False
    have "t \<notin> tag ` set flds"
    proof
      assume "t \<in> tag ` set flds"
      then obtain q where q: "q < ?L" "tag (flds ! q) = t" by (auto simp: in_set_conv_nth)
      have "(p + (q + ?L - p) mod ?L) mod ?L = (p + (q + ?L - p)) mod ?L" by (simp add: mod_simps)
      also have "\<dots> = q" using assms(2) q(1) by simp
      finally show False using False q(2) assms(2) by (metis mod_less_divisor gr_implies_not0 not_gr_zero)
    qed
    with loop False missing show ?thesis by auto
  qed
qed

end
