(* ===== verification/Pb_Out.thy ===== *)
theory Pb_Out
  imports Pb_Format
begin

text \<open>
  Protocol buffers: output streams and the writers of single values (\<open>nanopb/pb_encode.c\<close>).

  A stream has a callback that takes bytes, of which a state of a type \<open>'s\<close> is the part it works on; without one it only counts
  (\<open>PB_OSTREAM_SIZING\<close>).  An operation returns the return value and the stream.
\<close>

type_synonym 's out_callback = "'s \<Rightarrow> u8 list \<Rightarrow> bool \<times> 's"

record 's pb_ostream =
  o_callback :: "'s out_callback option"
  o_state :: 's
  o_max_size :: nat
  bytes_written :: nat
  o_errmsg :: "string option"

type_synonym 's out = "'s pb_ostream \<Rightarrow> bool \<times> 's pb_ostream"

definition out_error :: "string \<Rightarrow> 's out" where
  "out_error msg s = (False, s\<lparr>o_errmsg := (case o_errmsg s of None \<Rightarrow> Some msg | Some m \<Rightarrow> Some m)\<rparr>)"

text \<open>\<open>if (!a) return false; return b;\<close>\<close>

definition out_then :: "'s out \<Rightarrow> 's out \<Rightarrow> 's out" where
  "out_then a b s = (case a s of (ok, s) \<Rightarrow> if \<not> ok then (False, s) else b s)"

section \<open>Streams\<close>

text \<open>The state of a stream into a buffer: what has been stored in it.\<close>

definition buf_write :: "u8 list out_callback" where
  "buf_write dest buf = (True, dest @ buf)"

definition pb_ostream_from_buffer :: "nat \<Rightarrow> u8 list pb_ostream" where
  "pb_ostream_from_buffer bufsize =
     \<lparr>o_callback = Some buf_write, o_state = [], o_max_size = bufsize, bytes_written = 0, o_errmsg = None\<rparr>"

text \<open>A stream that only counts does not read its state.\<close>

definition PB_OSTREAM_SIZING :: "'s \<Rightarrow> 's pb_ostream" where
  "PB_OSTREAM_SIZING st = \<lparr>o_callback = None, o_state = st, o_max_size = 0, bytes_written = 0, o_errmsg = None\<rparr>"

definition pb_write :: "u8 list \<Rightarrow> nat \<Rightarrow> 's out" where
  "pb_write buf count s = (case (count > 0, o_callback s) of
     (True, Some callback) \<Rightarrow>
       if size_add (bytes_written s) count < bytes_written s \<or> size_add (bytes_written s) count > o_max_size s
       then out_error ''stream full'' s
       else (case callback (o_state s) (take count buf) of (ok, state) \<Rightarrow>
         let s = s\<lparr>o_state := state\<rparr> in
         if \<not> ok then out_error ''io error'' s
         else (True, s\<lparr>bytes_written := size_add (bytes_written s) count\<rparr>))
   | _ \<Rightarrow> (True, s\<lparr>bytes_written := size_add (bytes_written s) count\<rparr>))"

section \<open>Values\<close>

text \<open>The loop of \<open>pb_encode_varint\<close>: the bytes it stores in its buffer.\<close>

function varint_loop :: "u64 \<Rightarrow> u8 list" where
  "varint_loop value = (if value = 0 then [] else ucast ((value AND 0x7F) OR 0x80) # varint_loop (drop_bit 7 value))"
  by pat_completeness auto

termination varint_loop
  by (relation "measure unat") (auto simp: unat_drop_bit word_gt_0 unat_gt_0 intro!: div_less_dividend)

declare varint_loop.simps [simp del]

definition pb_encode_varint :: "u64 \<Rightarrow> 's out" where
  "pb_encode_varint value =
     (if value \<le> 0x7F then pb_write [ucast value] 1
      else let buffer = varint_loop value; i = length buffer in
        pb_write (buffer[i - 1 := buffer ! (i - 1) AND 0x7F]) i)"

text \<open>The argument is the 64 bits of a signed integer.\<close>

definition pb_encode_svarint :: "u64 \<Rightarrow> 's out" where
  "pb_encode_svarint value =
     (let zigzagged = (if sint value < 0 then NOT (push_bit 1 value) else push_bit 1 value) in
      pb_encode_varint zigzagged)"

definition pb_encode_fixed32 :: "u32 \<Rightarrow> 's out" where
  "pb_encode_fixed32 val = pb_write
     [ucast (val AND 0xFF), ucast (drop_bit 8 val AND 0xFF), ucast (drop_bit 16 val AND 0xFF), ucast (drop_bit 24 val AND 0xFF)] 4"

definition pb_encode_fixed64 :: "u64 \<Rightarrow> 's out" where
  "pb_encode_fixed64 val = pb_write
     [ucast (val AND 0xFF), ucast (drop_bit 8 val AND 0xFF), ucast (drop_bit 16 val AND 0xFF), ucast (drop_bit 24 val AND 0xFF),
      ucast (drop_bit 32 val AND 0xFF), ucast (drop_bit 40 val AND 0xFF), ucast (drop_bit 48 val AND 0xFF),
      ucast (drop_bit 56 val AND 0xFF)] 8"

definition pb_encode_tag :: "u32 \<Rightarrow> u32 \<Rightarrow> 's out" where
  "pb_encode_tag wiretype field_number = pb_encode_varint (push_bit 3 (ucast field_number) OR ucast wiretype)"

definition pb_encode_string :: "u8 list \<Rightarrow> nat \<Rightarrow> 's out" where
  "pb_encode_string buffer len = out_then (pb_encode_varint (of_nat len)) (pb_write buffer len)"

section \<open>What the writers write\<close>

lemma and_0x7F: "unat ((v :: u64) AND 0x7F) = unat v mod 128"
  using unat_and_mask [of v 7] by (simp add: mask_eq_exp_minus_1)

lemma varint_byte: "ucast (((v :: u64) AND 0x7F) OR 0x80) = (of_nat (unat v mod 128 + 128) :: u8)"
proof -
  have "ucast ((v AND 0x7F) OR 0x80) = (ucast (v AND 0x7F) :: u8) OR 0x80"
    by (simp add: bit_eq_iff bit_simps)
  also have "\<dots> = of_nat (unat (ucast (v AND 0x7F) :: u8) + 128)"
    by (rule or_0x80) (simp add: unat_ucast_to_u8 and_0x7F)
  also have "unat (ucast (v AND 0x7F) :: u8) = unat v mod 128"
    by (simp add: unat_ucast_to_u8 and_0x7F)
  finally show ?thesis .
qed

lemma varint_last: "n < 128 \<Longrightarrow> (of_nat (n + 128) :: u8) AND 0x7F = of_nat n"
  by (simp add: word_unat_eq_iff u8_and_0x7f unat_of_nat del: of_nat_add)

lemma varint_loop_leb128:
  "v \<noteq> 0 \<Longrightarrow> varint_loop v \<noteq> [] \<and> (varint_loop v)[length (varint_loop v) - 1 := varint_loop v ! (length (varint_loop v) - 1) AND 0x7F] = leb128 (unat v)"
proof (induction v rule: varint_loop.induct)
  case (1 v)
  note loop = varint_loop.simps [of v] leb128.simps [of "unat v"]
  show ?case
  proof (cases "unat v < 128")
    case True
    then have "drop_bit 7 v = 0" by (simp add: drop_bit_0_iff)
    then show ?thesis
      using 1(2) True varint_last [of "unat v"] by (simp add: loop varint_byte varint_loop.simps [of 0])
  next
    case False
    then have nz: "drop_bit 7 v \<noteq> 0" by (simp add: drop_bit_0_iff)
    from 1(1) [OF 1(2) nz] show ?thesis
      using 1(2) False by (cases "varint_loop (drop_bit 7 v)") (auto simp: loop varint_byte unat_drop_bit nth_Cons')
  qed
qed

lemma varint_bytes:
  "(if v \<le> 0x7F then [ucast v] else (varint_loop v)[length (varint_loop v) - 1 := varint_loop v ! (length (varint_loop v) - 1) AND 0x7F])
    = leb128 (unat v)"
proof (cases "v \<le> 0x7F")
  case True
  then have "unat v < 128" by (simp add: word_le_nat_alt)
  moreover have "(ucast v :: u8) = of_nat (unat v)" by (simp add: unsigned_ucast_eq)
  ultimately show ?thesis using True by (simp add: leb128_small)
next
  case False
  then have "v \<noteq> 0" by auto
  then show ?thesis using False varint_loop_leb128 [of v] by simp
qed

lemma encode_varint_eq: "pb_encode_varint v = pb_write (leb128 (unat v)) (length (leb128 (unat v)))"
proof (cases "v \<le> 0x7F")
  case True
  then show ?thesis using varint_bytes [of v] unfolding pb_encode_varint_def by (metis (full_types) One_nat_def length_Cons list.size(3))
next
  case False
  then have "v \<noteq> 0" by auto
  then show ?thesis
    using varint_bytes [of v] False unfolding pb_encode_varint_def Let_def by (metis (no_types) length_list_update)
qed

lemma fixed_bytes:
  fixes v :: "'a::len word"
  shows "(ucast (drop_bit k v AND 0xFF) :: u8) = of_nat (unat v div 2 ^ k mod 256)"
proof -
  have "(ucast (drop_bit k v AND 0xFF) :: u8) = ucast (drop_bit k v AND mask 8)" by (simp add: mask_eq_exp_minus_1)
  also have "\<dots> = of_nat (unat (drop_bit k v AND mask 8))" by (simp add: unsigned_ucast_eq)
  finally show ?thesis by (simp add: unat_and_mask unat_drop_bit)
qed

lemma fixed_byte_0: "(ucast (v AND 0xFF) :: u8) = of_nat (unat v)"
  using fixed_bytes [of 0 v] by (simp only: drop_bit_0 power_0 div_by_1 id_apply of_nat_mod_256)

lemma encode_fixed32_eq: "pb_encode_fixed32 v = pb_write (le_nat 4 (unat v)) 4"
  unfolding pb_encode_fixed32_def fixed_bytes of_nat_mod_256 fixed_byte_0 le_nat_4 unat_drop_bit ..

lemma encode_fixed64_eq: "pb_encode_fixed64 v = pb_write (le_nat 8 (unat v)) 8"
  unfolding pb_encode_fixed64_def fixed_bytes of_nat_mod_256 fixed_byte_0 le_nat_8 unat_drop_bit ..


section \<open>Appending\<close>

definition out_ok :: "u8 list pb_ostream \<Rightarrow> bool" where
  "out_ok s \<longleftrightarrow> o_callback s = Some buf_write \<and> bytes_written s \<le> o_max_size s \<and> o_max_size s < size_bound"

definition written :: "u8 list \<Rightarrow> u8 list pb_ostream \<Rightarrow> u8 list pb_ostream" where
  "written bs s = s\<lparr>o_state := o_state s @ bs, bytes_written := bytes_written s + length bs\<rparr>"

definition counted :: "u8 list \<Rightarrow> u8 list pb_ostream \<Rightarrow> u8 list pb_ostream" where
  "counted bs s = s\<lparr>bytes_written := size_add (bytes_written s) (length bs)\<rparr>"

text \<open>An operation that writes \<open>bs\<close>: it counts them without a callback, and on a buffer it stores them if they fit and otherwise
  fails, inside the buffer.\<close>

definition emits :: "u8 list out \<Rightarrow> u8 list \<Rightarrow> bool" where
  "emits op bs \<longleftrightarrow>
     (\<forall>s. o_callback s = None \<and> bytes_written s < size_bound \<longrightarrow> op s = (True, counted bs s)) \<and>
     (\<forall>s. out_ok s \<and> bytes_written s + length bs \<le> o_max_size s \<longrightarrow> op s = (True, written bs s)) \<and>
     (\<forall>s. out_ok s \<and> o_max_size s < bytes_written s + length bs \<longrightarrow>
       (\<exists>s'. op s = (False, s') \<and> out_ok s' \<and> o_max_size s' = o_max_size s \<and>
         (\<exists>n. n \<le> length bs \<and> o_state s' = o_state s @ take n bs \<and> bytes_written s' = bytes_written s + n)))"

lemma emits_count: "emits op bs \<Longrightarrow> o_callback s = None \<Longrightarrow> bytes_written s < size_bound \<Longrightarrow> op s = (True, counted bs s)"
  and emits_fits: "emits op bs \<Longrightarrow> out_ok s \<Longrightarrow> bytes_written s + length bs \<le> o_max_size s \<Longrightarrow> op s = (True, written bs s)"
  by (simp_all add: emits_def)

lemma emits_full:
  assumes "emits op bs" "out_ok s" "o_max_size s < bytes_written s + length bs"
  obtains s' n where "op s = (False, s')" "out_ok s'" "o_max_size s' = o_max_size s" "n \<le> length bs"
    "o_state s' = o_state s @ take n bs" "bytes_written s' = bytes_written s + n"
  using assms by (auto simp: emits_def)

lemma written_ok:
  "out_ok s \<Longrightarrow> bytes_written s + length bs \<le> o_max_size s \<Longrightarrow> out_ok (written bs s)"
  "o_max_size (written bs s) = o_max_size s" "bytes_written (written bs s) = bytes_written s + length bs"
  "o_state (written bs s) = o_state s @ bs"
  by (simp_all add: out_ok_def written_def)

lemma emits_write:
  assumes "length bs < size_bound"
  shows "emits (pb_write bs (length bs)) bs"
proof -
  have "pb_write bs (length bs) s = (True, written bs s)" if "out_ok s" "bytes_written s + length bs \<le> o_max_size s" for s
    using that by (cases "bs = []") (auto simp: pb_write_def written_def out_ok_def buf_write_def)
  moreover have "\<exists>s'. pb_write bs (length bs) s = (False, s') \<and> out_ok s' \<and> o_max_size s' = o_max_size s \<and>
      (\<exists>n. n \<le> length bs \<and> o_state s' = o_state s @ take n bs \<and> bytes_written s' = bytes_written s + n)"
    if "out_ok s" "o_max_size s < bytes_written s + length bs" for s
  proof -
    have "size_add (bytes_written s) (length bs) < bytes_written s \<or> size_add (bytes_written s) (length bs) > o_max_size s"
      using that assms size_add_overflow_iff [of "bytes_written s" "length bs"]
      by (cases "bytes_written s + length bs < size_bound") (auto simp: out_ok_def)
    moreover have "bs \<noteq> []" using that by (auto simp: out_ok_def)
    ultimately have "pb_write bs (length bs) s = out_error ''stream full'' s"
      using that by (auto simp: pb_write_def out_ok_def)
    then show ?thesis using that(1) by (auto simp: out_error_def out_ok_def intro!: exI [of _ 0])
  qed
  moreover have "pb_write bs (length bs) s = (True, counted bs s)" if "o_callback s = None" for s
    using that by (cases "bs = []") (simp_all add: pb_write_def counted_def)
  ultimately show ?thesis unfolding emits_def by blast
qed

lemma emits_then:
  assumes "emits a xs" "emits b ys"
  shows "emits (out_then a b) (xs @ ys)"
proof -
  have "out_then a b s = (True, counted (xs @ ys) s)" if "o_callback s = None" "bytes_written s < size_bound" for s
    using emits_count [OF assms(1) that] emits_count [OF assms(2), of "counted xs s"] that
    by (simp add: out_then_def counted_def size_add_def mod_simps ac_simps)
  moreover have "out_then a b s = (True, written (xs @ ys) s)"
    if "out_ok s" "bytes_written s + length (xs @ ys) \<le> o_max_size s" for s
    using emits_fits [OF assms(1) that(1)] emits_fits [OF assms(2), of "written xs s"] that(2) written_ok(1) [OF that(1), of xs]
      written_ok(2,3) [of xs s]
    by (simp add: out_then_def) (simp add: written_def)
  moreover have "\<exists>s'. out_then a b s = (False, s') \<and> out_ok s' \<and> o_max_size s' = o_max_size s \<and>
      (\<exists>n. n \<le> length (xs @ ys) \<and> o_state s' = o_state s @ take n (xs @ ys) \<and> bytes_written s' = bytes_written s + n)"
    if "out_ok s" "o_max_size s < bytes_written s + length (xs @ ys)" for s
  proof (cases "bytes_written s + length xs \<le> o_max_size s")
    case True
    note w = written_ok(1) [OF that(1) True] written_ok(2-4) [of xs s]
    have "o_max_size (written xs s) < bytes_written (written xs s) + length ys" using that(2) w(2,3) by simp
    obtain s' n where s': "b (written xs s) = (False, s')" "out_ok s'" "o_max_size s' = o_max_size (written xs s)" "n \<le> length ys"
      "o_state s' = o_state (written xs s) @ take n ys" "bytes_written s' = bytes_written (written xs s) + n"
      by (rule emits_full [OF assms(2) w(1) \<open>o_max_size (written xs s) < _\<close>])
    then show ?thesis using emits_fits [OF assms(1) that(1) True] w(2-4)
      by (intro exI [of _ s']) (auto simp: out_then_def intro!: exI [of _ "length xs + n"])
  next
    case False
    note ok = \<open>out_ok s\<close>
    have "o_max_size s < bytes_written s + length xs" using False by simp
    then obtain s' n where s': "a s = (False, s')" "out_ok s'" "o_max_size s' = o_max_size s" "n \<le> length xs"
      "o_state s' = o_state s @ take n xs" "bytes_written s' = bytes_written s + n"
      by (rule emits_full [OF assms(1) ok])
    then show ?thesis by (intro exI [of _ s']) (auto simp: out_then_def intro!: exI [of _ n])
  qed
  ultimately show ?thesis by (simp add: emits_def)
qed

lemma emits_nothing: "emits (\<lambda>s. (True, s)) []"
  by (auto simp: emits_def counted_def written_def size_add_def out_ok_def)


section \<open>The writers of values append\<close>

lemma emits_varint: "emits (pb_encode_varint v) (leb128 (unat v))"
  unfolding encode_varint_eq using leb128_u64(1) [of v] by (intro emits_write) linarith

lemma emits_fixed: "emits (pb_encode_fixed32 w) (le_nat 4 (unat w))" "emits (pb_encode_fixed64 v) (le_nat 8 (unat v))"
  unfolding encode_fixed32_eq encode_fixed64_eq
  using emits_write [of "le_nat 4 (unat w)"] emits_write [of "le_nat 8 (unat v)"] by simp_all

lemma emits_svarint: "emits (pb_encode_svarint v) (leb128 (unat (zigzag v)))"
  unfolding pb_encode_svarint_def Let_def zigzag_def [symmetric] by (rule emits_varint)

lemma emits_tag: "unat wiretype < 8 \<Longrightarrow> emits (pb_encode_tag wiretype field_number) (tag_bytes wiretype field_number)"
proof -
  assume "unat wiretype < 8"
  then have "unat (push_bit 3 (ucast field_number :: u64) OR ucast wiretype) = unat field_number * 8 + unat wiretype"
    using unat_push_or [of "ucast wiretype" 3 "ucast field_number"] unat_u32_less [of field_number] by (simp add: unat_ucast_u32)
  then show ?thesis using emits_varint unfolding pb_encode_tag_def tag_bytes_def by metis
qed

lemma emits_string:
  assumes "length bs < size_bound"
  shows "emits (pb_encode_string bs (length bs)) (leb128 (length bs) @ bs)"
proof -
  have "unat (of_nat (length bs) :: u64) = length bs" using assms by (simp add: unat_of_nat)
  then show ?thesis
    unfolding pb_encode_string_def using emits_varint [of "of_nat (length bs)"] emits_write [OF assms] by (intro emits_then) simp_all
qed

end
