(* ===== verification/Pb_Encode.thy ===== *)
theory Pb_Encode
  imports Pb_Message Pb_Out
begin

text \<open>
  Protocol buffers: the encoder of messages (\<open>nanopb/pb_encode.c\<close>).

  The functions for fields take the encoder of submessages as an argument; \<open>pb_encode\<close> ties the knot.  Reading a member of an item
  is a projection, which a structure with the layout of its description is never asked for the wrong member of.
\<close>

section \<open>Reading memory\<close>

fun item_bool :: "pb_item \<Rightarrow> bool" where
  "item_bool (Bool_item b) = b" | "item_bool _ = False"

fun item_word :: "pb_item \<Rightarrow> u64" where
  "item_word (Word_item w) = w" | "item_word _ = 0"

fun item_size :: "pb_item \<Rightarrow> u32" where
  "item_size (Bytes_item n _) = n" | "item_size _ = 0"

fun item_bytes :: "pb_item \<Rightarrow> u8 list" where
  "item_bytes (Bytes_item _ bs) = bs" | "item_bytes (Chars_item bs) = bs" | "item_bytes _ = []"

fun item_slots :: "pb_item \<Rightarrow> pb_slot list" where
  "item_slots (Struct_item slots) = slots" | "item_slots _ = []"

fun item_block :: "pb_item \<Rightarrow> pb_item list option" where
  "item_block (Ptr_item p) = p" | "item_block _ = None"

text \<open>The item at an address, or \<open>None\<close> for a null pointer.\<close>

definition item_at :: "pb_item list option \<Rightarrow> pb_item option" where
  "item_at p = (case p of Some (x # _) \<Rightarrow> Some x | _ \<Rightarrow> None)"

definition src_item :: "pb_item option \<Rightarrow> pb_item" where
  "src_item src = (case src of Some x \<Rightarrow> x | None \<Rightarrow> Struct_item [])"

text \<open>The item at the address \<open>pData\<close> of a field.\<close>

definition data_item :: "pb_item list \<Rightarrow> pb_item" where
  "data_item data = src_item (item_at (Some data))"

definition fields_of :: "pb_env \<Rightarrow> pb_field \<Rightarrow> pb_field list" where
  "fields_of env f = (case ptr f of Fields_ptr a \<Rightarrow> fields_at env a | _ \<Rightarrow> [])"

lemma visits_mem: "(f, s) \<in> set (visits flds slots) \<Longrightarrow> s \<in> set slots"
  by (induction flds slots rule: visits.induct) (auto split: if_splits)

lemma size_item_slots: "size_list size (item_slots x) \<le> size x"
  by (cases x) simp_all

lemma size_data_slots: "size_list size (item_slots (data_item data)) < Suc (size_list size data)"
  using size_item_slots [of "hd data"] by (cases data) (auto simp: data_item_def src_item_def item_at_def)

lemma size_item_block: "item_block x = Some items \<Longrightarrow> size_list size items < size x"
  by (cases x) simp_all

lemma size_data_block: "item_block (data_item data) = Some items \<Longrightarrow> size_list size items < Suc (size_list size data)"
  using size_item_block [of "hd data" items] by (cases data) (auto simp: data_item_def src_item_def item_at_def)

lemma size_src_item: "size_list size (item_slots (src_item (item_at (Some items)))) \<le> size_list size items"
  using size_item_slots [of "hd items"] by (cases items) (auto simp: src_item_def item_at_def)

section \<open>Single values\<close>

text \<open>An integer of \<open>data_size\<close> bytes, widened.\<close>

definition read_signed :: "pb_field \<Rightarrow> pb_item \<Rightarrow> u64" where
  "read_signed f x = signed_take_bit (8 * data_size f - 1) (item_word x)"

definition read_unsigned :: "pb_field \<Rightarrow> pb_item \<Rightarrow> u64" where
  "read_unsigned f x = take_bit (8 * data_size f) (item_word x)"

definition valid_data_size :: "pb_field \<Rightarrow> bool" where
  "valid_data_size f \<longleftrightarrow> data_size f \<in> {1, 2, 4, 8}"

definition pb_enc_bool :: "pb_field \<Rightarrow> pb_item \<Rightarrow> 's out" where
  "pb_enc_bool f src = pb_encode_varint (if item_bool src then 1 else 0)"

definition pb_enc_varint :: "pb_field \<Rightarrow> pb_item \<Rightarrow> 's out" where
  "pb_enc_varint f src = (if valid_data_size f then pb_encode_varint (read_signed f src) else out_error ''invalid data_size'')"

definition pb_enc_uvarint :: "pb_field \<Rightarrow> pb_item \<Rightarrow> 's out" where
  "pb_enc_uvarint f src = (if valid_data_size f then pb_encode_varint (read_unsigned f src) else out_error ''invalid data_size'')"

definition pb_enc_svarint :: "pb_field \<Rightarrow> pb_item \<Rightarrow> 's out" where
  "pb_enc_svarint f src = (if valid_data_size f then pb_encode_svarint (read_signed f src) else out_error ''invalid data_size'')"

definition pb_enc_fixed32 :: "pb_field \<Rightarrow> pb_item \<Rightarrow> 's out" where
  "pb_enc_fixed32 f src = pb_encode_fixed32 (ucast (item_word src))"

definition pb_enc_fixed64 :: "pb_field \<Rightarrow> pb_item \<Rightarrow> 's out" where
  "pb_enc_fixed64 f src = pb_encode_fixed64 (item_word src)"

definition pb_enc_bytes :: "pb_field \<Rightarrow> pb_item option \<Rightarrow> 's out" where
  "pb_enc_bytes f src = (case src of
     None \<Rightarrow> pb_encode_string [] 0
   | Some x \<Rightarrow>
       let n = unat (item_size x); allocsize = PB_BYTES_ARRAY_T_ALLOCSIZE n in
       if allocsize < n \<or> (atype f = AT_STATIC \<and> allocsize > data_size f) then out_error ''bytes size exceeded''
       else pb_encode_string (item_bytes x) n)"

text \<open>The loop that measures a string.\<close>

fun string_size :: "nat \<Rightarrow> u8 list \<Rightarrow> nat" where
  "string_size max_size [] = 0"
| "string_size max_size (c # p) = (if 0 < max_size \<and> c \<noteq> 0 then string_size (max_size - 1) p + 1 else 0)"

definition pb_enc_string :: "pb_field \<Rightarrow> pb_item option \<Rightarrow> 's out" where
  "pb_enc_string f src =
     (let max_size = (if atype f = AT_POINTER then size_bound - 1 else data_size f) in
      case src of
        None \<Rightarrow> pb_encode_string [] 0
      | Some x \<Rightarrow> pb_encode_string (item_bytes x) (string_size max_size (item_bytes x)))"

definition pb_enc_fixed_length_bytes :: "pb_field \<Rightarrow> pb_item \<Rightarrow> 's out" where
  "pb_enc_fixed_length_bytes f src = pb_encode_string (item_bytes src) (data_size f)"

section \<open>Submessages\<close>

type_synonym 's encoder = "pb_field list \<Rightarrow> pb_slot list \<Rightarrow> 's out"

definition pb_encode_submessage :: "'s encoder \<Rightarrow> 's encoder" where
  "pb_encode_submessage enc flds src_struct s = (case enc flds src_struct (PB_OSTREAM_SIZING (o_state s)) of
     (False, substream) \<Rightarrow> (False, s\<lparr>o_errmsg := o_errmsg substream\<rparr>)
   | (True, substream) \<Rightarrow>
       let n = bytes_written substream in
       out_then (pb_encode_varint (of_nat n)) (\<lambda>s.
         if o_callback s = None then pb_write [] n s
         else if size_add (bytes_written s) n > o_max_size s then out_error ''stream full'' s
         else (case enc flds src_struct (substream\<lparr>o_callback := o_callback s, o_state := o_state s, o_max_size := n,
                 bytes_written := 0, o_errmsg := None\<rparr>) of
             (status, substream) \<Rightarrow>
               let s = s\<lparr>bytes_written := size_add (bytes_written s) (bytes_written substream),
                         o_state := o_state substream, o_errmsg := o_errmsg substream\<rparr> in
               if bytes_written substream \<noteq> n then out_error ''submsg size changed'' s else (status, s))) s)"

definition pb_enc_submessage :: "'s encoder \<Rightarrow> pb_env \<Rightarrow> pb_field \<Rightarrow> pb_item \<Rightarrow> 's out" where
  "pb_enc_submessage enc env f src = (case ptr f of
     Fields_ptr a \<Rightarrow> pb_encode_submessage enc (fields_at env a) (item_slots src)
   | _ \<Rightarrow> out_error ''invalid field descriptor'')"

section \<open>Fields\<close>

definition pb_encode_tag_for_field :: "pb_field \<Rightarrow> 's out" where
  "pb_encode_tag_for_field f = pb_encode_tag
     (case ltype f of
        LT_BOOL \<Rightarrow> PB_WT_VARINT | LT_VARINT \<Rightarrow> PB_WT_VARINT | LT_UVARINT \<Rightarrow> PB_WT_VARINT | LT_SVARINT \<Rightarrow> PB_WT_VARINT
      | LT_FIXED32 \<Rightarrow> PB_WT_32BIT
      | LT_FIXED64 \<Rightarrow> PB_WT_64BIT
      | LT_BYTES \<Rightarrow> PB_WT_STRING | LT_STRING \<Rightarrow> PB_WT_STRING | LT_SUBMESSAGE \<Rightarrow> PB_WT_STRING
      | LT_FIXED_LENGTH_BYTES \<Rightarrow> PB_WT_STRING) (tag f)"

text \<open>\<open>PB_ENCODERS\<close>; only bytes and strings are ever read through a null pointer.\<close>

definition pb_encoder :: "'s encoder \<Rightarrow> pb_env \<Rightarrow> pb_field \<Rightarrow> pb_item option \<Rightarrow> 's out" where
  "pb_encoder enc env f src = (case ltype f of
     LT_BOOL \<Rightarrow> pb_enc_bool f (src_item src)
   | LT_VARINT \<Rightarrow> pb_enc_varint f (src_item src)
   | LT_UVARINT \<Rightarrow> pb_enc_uvarint f (src_item src)
   | LT_SVARINT \<Rightarrow> pb_enc_svarint f (src_item src)
   | LT_FIXED32 \<Rightarrow> pb_enc_fixed32 f (src_item src)
   | LT_FIXED64 \<Rightarrow> pb_enc_fixed64 f (src_item src)
   | LT_BYTES \<Rightarrow> pb_enc_bytes f src
   | LT_STRING \<Rightarrow> pb_enc_string f src
   | LT_SUBMESSAGE \<Rightarrow> pb_enc_submessage enc env f (src_item src)
   | LT_FIXED_LENGTH_BYTES \<Rightarrow> pb_enc_fixed_length_bytes f (src_item src))"

text \<open>\<open>for (i = 0; i < count; i++) if (!func(...)) return false;\<close>\<close>

definition out_all :: "'s out list \<Rightarrow> 's out" where
  "out_all ops = foldr out_then ops (\<lambda>s. (True, s))"

definition encode_array :: "'s encoder \<Rightarrow> pb_env \<Rightarrow> pb_field \<Rightarrow> pb_item list \<Rightarrow> nat \<Rightarrow> 's out" where
  "encode_array enc env f data count s =
     (if count = 0 then (True, s)
      else if atype f \<noteq> AT_POINTER \<and> count > unat (array_size f) then out_error ''array max size exceeded'' s
      else if packable (ltype f) then
        out_then (pb_encode_tag PB_WT_STRING (tag f)) (\<lambda>s.
          let items = map (\<lambda>p. pb_encoder enc env f (Some p)) (take count data) in
          case (if ltype f = LT_FIXED32 then (True, 4 * count)
                else if ltype f = LT_FIXED64 then (True, 8 * count)
                else (case out_all items (PB_OSTREAM_SIZING (o_state s)) of
                    (ok, sizestream) \<Rightarrow> (ok, bytes_written sizestream))) of
            (False, _) \<Rightarrow> (False, s)
          | (True, n) \<Rightarrow>
              out_then (pb_encode_varint (of_nat n)) (\<lambda>s.
                if o_callback s = None then pb_write [] n s else out_all items s) s) s
      else
        out_all (map (\<lambda>p. out_then (pb_encode_tag_for_field f)
          (pb_encoder enc env f
             (if atype f = AT_POINTER \<and> (ltype f = LT_STRING \<or> ltype f = LT_BYTES) then item_at (item_block p) else Some p)))
          (take count data)) s)"

text \<open>
  \<open>pb_check_proto3_default_value\<close>.  A pointer is compared with \<open>NULL\<close>; for one to an integer, which no table has, the code
  compares \<open>data_size\<close> bytes of the pointer only.\<close>

function check_default :: "pb_env \<Rightarrow> pb_field \<Rightarrow> pb_slot \<Rightarrow> bool" where
  "check_default env f (Slot pSize data) =
     (if htype f = HT_REQUIRED then False
      else if htype f = HT_REPEATED \<and> size_offset f \<noteq> 0 then pSize = 0
      else if htype f = HT_REPEATED \<and> atype f = AT_STATIC then False
      else if htype f = HT_ONEOF then pSize = 0
      else if htype f = HT_OPTIONAL \<and> size_offset f \<noteq> 0 then pSize = 0
      else if atype f = AT_STATIC \<and> ltype f = LT_BYTES then item_size (data_item data) = 0
      else if atype f = AT_STATIC \<and> ltype f = LT_STRING then item_bytes (data_item data) ! 0 = 0
      else if atype f = AT_STATIC \<and> ltype f = LT_FIXED_LENGTH_BYTES then data_size f = 0
      else if atype f = AT_STATIC \<and> ltype f = LT_SUBMESSAGE then
        list_all (\<lambda>(g, slot). check_default env g slot) (visits (fields_of env f) (item_slots (data_item data)))
      else if atype f = AT_POINTER then item_block (data_item data) = None
      else item_word (data_item data) = 0 \<and> \<not> item_bool (data_item data))"
  by pat_completeness auto

termination check_default
proof (relation "measure (\<lambda>(env, f, slot). size slot)")
  fix env f pSize data x g slot
  assume "x \<in> set (visits (fields_of env f) (item_slots (data_item data)))" "(g, slot) = x"
  then have "slot \<in> set (item_slots (data_item data))" using visits_mem by metis
  then have "size slot \<le> size_list size (item_slots (data_item data))" by (simp add: size_list_estimation')
  also have "\<dots> < Suc (size_list size data)" by (rule size_data_slots)
  finally show "((env, g, slot), env, f, Slot pSize data) \<in> measure (\<lambda>(env, f, slot). size slot)" by simp
qed simp

definition encode_basic_field :: "'s encoder \<Rightarrow> pb_env \<Rightarrow> pb_field \<Rightarrow> pb_slot \<Rightarrow> 's out" where
  "encode_basic_field enc env f slot = (case slot of Slot pSize data \<Rightarrow>
     let pData = (if atype f = AT_POINTER then item_block (data_item data) else Some data);
         has = (if size_offset f \<noteq> 0 then pSize \<noteq> 0
                else if atype f = AT_POINTER then pData \<noteq> None
                else if htype f = HT_OPTIONAL then \<not> check_default env f slot
                else True) in
     (case htype f of
       HT_REQUIRED \<Rightarrow>
         if pData = None then out_error ''missing required field''
         else out_then (pb_encode_tag_for_field f) (pb_encoder enc env f (item_at pData))
     | HT_OPTIONAL \<Rightarrow>
         if has then out_then (pb_encode_tag_for_field f) (pb_encoder enc env f (item_at pData)) else (\<lambda>s. (True, s))
     | HT_REPEATED \<Rightarrow>
         let count = (if size_offset f \<noteq> 0 then unat pSize else unat (array_size f)) in
         encode_array enc env f (case pData of Some items \<Rightarrow> items | None \<Rightarrow> []) count
     | HT_ONEOF \<Rightarrow>
         if pSize = tag f then out_then (pb_encode_tag_for_field f) (pb_encoder enc env f (item_at pData)) else (\<lambda>s. (True, s))))"

definition encode_field :: "'s encoder \<Rightarrow> pb_env \<Rightarrow> pb_field \<Rightarrow> pb_slot \<Rightarrow> 's out" where
  "encode_field = encode_basic_field"

section \<open>Messages\<close>

lemma pb_encode_submessage_cong:
  assumes "enc flds sl = enc' flds sl"
  shows "pb_encode_submessage enc flds sl = pb_encode_submessage enc' flds sl"
  by (rule ext) (simp only: pb_encode_submessage_def assms)

lemma pb_encoder_cong:
  assumes "\<And>fs. enc fs (item_slots (src_item src)) = enc' fs (item_slots (src_item src))"
  shows "pb_encoder enc env f src = pb_encoder enc' env f src"
proof -
  have "pb_encode_submessage enc fs (item_slots (src_item src)) = pb_encode_submessage enc' fs (item_slots (src_item src))" for fs
    by (rule pb_encode_submessage_cong) (rule assms)
  then show ?thesis
    by (cases "ltype f") (simp_all add: pb_encoder_def pb_enc_submessage_def split: pb_ptr.split)
qed

lemma encode_array_cong:
  assumes "\<And>fs sl. size_list size sl \<le> size_list size items \<Longrightarrow> enc fs sl = enc' fs sl"
  shows "encode_array enc env f items n = encode_array enc' env f items n"
proof -
  have e: "pb_encoder enc env f (Some p) = pb_encoder enc' env f (Some p)" if "p \<in> set (take n items)" for p
  proof (rule pb_encoder_cong)
    have "size p \<le> size_list size items" using that by (auto intro: size_list_estimation' dest: in_set_takeD)
    then show "enc fs (item_slots (src_item (Some p))) = enc' fs (item_slots (src_item (Some p)))" for fs
      using size_item_slots [of p] by (intro assms) (simp add: src_item_def)
  qed
  have p: "pb_encoder enc env f q = pb_encoder enc' env f q" if "ltype f = LT_STRING \<or> ltype f = LT_BYTES" for q
    using that by (auto simp: pb_encoder_def)
  show ?thesis
  proof (rule ext)
    fix s
    have m: "map (\<lambda>p. pb_encoder enc env f (Some p)) (take n items) = map (\<lambda>p. pb_encoder enc' env f (Some p)) (take n items)"
      using e by simp
    have m2: "map (\<lambda>p. out_then (pb_encode_tag_for_field f) (pb_encoder enc env f
        (if atype f = AT_POINTER \<and> (ltype f = LT_STRING \<or> ltype f = LT_BYTES) then item_at (item_block p) else Some p))) (take n items)
      = map (\<lambda>p. out_then (pb_encode_tag_for_field f) (pb_encoder enc' env f
        (if atype f = AT_POINTER \<and> (ltype f = LT_STRING \<or> ltype f = LT_BYTES) then item_at (item_block p) else Some p))) (take n items)"
      using e p by auto
    show "encode_array enc env f items n s = encode_array enc' env f items n s"
      unfolding encode_array_def m m2 ..
  qed
qed

lemma encode_field_cong [fundef_cong]:
  fixes enc :: "'s encoder"
  assumes "env = env'" "f = f'" "slot = slot'"
    and enc: "\<And>fs sl. size_list size sl < size slot' \<Longrightarrow> enc fs sl = enc' fs sl"
  shows "encode_field enc env f slot = encode_field enc' env' f' slot'"
proof -
  obtain n data where slot: "slot' = Slot n data" by (cases slot')
  define pData where "pData = (if atype f' = AT_POINTER then item_block (data_item data) else Some data)"
  have small: "size_list size items < size slot'" if "pData = Some items" for items
    using that size_data_block [of data items] by (auto simp: pData_def slot split: if_splits)
  have e: "pb_encoder enc env' f' (item_at pData) = pb_encoder enc' env' f' (item_at pData)"
  proof (rule pb_encoder_cong)
    show "enc fs (item_slots (src_item (item_at pData))) = enc' fs (item_slots (src_item (item_at pData)))" for fs
      using small size_src_item by (intro enc) (cases pData, auto simp: item_at_def src_item_def slot intro: le_less_trans)
  qed
  have a: "encode_array enc env' f' items k = encode_array enc' env' f' items k" if "pData = Some items" for items k
    using small [OF that] by (intro encode_array_cong enc) simp
  have a0: "encode_array enc env' f' [] k = encode_array enc' env' f' [] k" for k
    by (rule encode_array_cong) (simp add: enc slot)
  show ?thesis unfolding assms encode_field_def encode_basic_field_def slot pb_slot.case Let_def pData_def [symmetric] e
    using a a0 by (cases pData) (simp_all split: pb_htype.split)
qed

function pb_encode :: "pb_env \<Rightarrow> 's encoder" where
  "pb_encode env flds src_struct = out_all (map (\<lambda>(f, slot). encode_field (pb_encode env) env f slot) (visits flds src_struct))"
  by pat_completeness auto

termination pb_encode
proof (relation "measure (\<lambda>(env, flds, slots). size_list size slots)")
  fix env flds src_struct x f slot and fs and sl :: "pb_slot list"
  assume "x \<in> set (visits flds src_struct)" "(f, slot) = x" "size_list size sl < size slot"
  moreover from this have "slot \<in> set src_struct" using visits_mem by metis
  then have "size slot \<le> size_list size src_struct" by (simp add: size_list_estimation')
  ultimately show "((env, fs, sl), env, flds, src_struct) \<in> measure (\<lambda>(env, flds, slots). size_list size slots)" by simp
qed simp

declare pb_encode.simps [simp del]

definition pb_encode_delimited :: "pb_env \<Rightarrow> 's encoder" where
  "pb_encode_delimited env = pb_encode_submessage (pb_encode env)"

definition pb_encode_nullterminated :: "pb_env \<Rightarrow> 's encoder" where
  "pb_encode_nullterminated env flds src_struct = out_then (pb_encode env flds src_struct) (pb_write [0] 1)"

definition pb_get_encoded_size :: "pb_env \<Rightarrow> pb_field list \<Rightarrow> pb_slot list \<Rightarrow> nat option" where
  "pb_get_encoded_size env flds src_struct = (case pb_encode env flds src_struct (PB_OSTREAM_SIZING ()) of
     (True, stream) \<Rightarrow> Some (bytes_written stream)
   | (False, _) \<Rightarrow> None)"

end
