(* ===== verification/Pb_Decode.thy ===== *)
theory Pb_Decode
  imports Pb_Message Pb_In "HOL-Library.Monad_Syntax"
begin

text \<open>
  Protocol buffers: the decoder of messages and what releases their memory (\<open>nanopb/pb_decode.c\<close>).

  An operation works on a place in memory: it takes what is there and returns the return value, what is there afterwards and the
  state.  It returns \<open>None\<close> where the memory has not the layout that the description says, where an access is outside an array
  or when the fuel for nested messages is used up.
\<close>

section \<open>State\<close>

text \<open>The stream an operation reads from, how many blocks are allocated and how many requests for memory there have been.\<close>

record 'i dstate =
  stream :: "'i pb_istream"
  live :: int
  requests :: nat

type_synonym ('x, 'i) dec = "'x \<Rightarrow> 'i dstate \<Rightarrow> (bool \<times> 'x \<times> 'i dstate) option"

definition set_error :: "string \<Rightarrow> 'i pb_istream \<Rightarrow> 'i pb_istream" where
  "set_error msg s = s\<lparr>i_errmsg := (case i_errmsg s of None \<Rightarrow> Some msg | Some m \<Rightarrow> Some m)\<rparr>"

definition dec_error :: "string \<Rightarrow> ('x, 'i) dec" where
  "dec_error msg x d = Some (False, x, d\<lparr>stream := set_error msg (stream d)\<rparr>)"

text \<open>Reads a value; \<open>if (!...) return false;\<close>\<close>

definition dec_read :: "('a, 'i) inp \<Rightarrow> ('a \<Rightarrow> ('x, 'i) dec) \<Rightarrow> ('x, 'i) dec" where
  "dec_read rd k x d = (case rd (stream d) of
     (None, s) \<Rightarrow> Some (False, x, d\<lparr>stream := s\<rparr>)
   | (Some v, s) \<Rightarrow> k v x (d\<lparr>stream := s\<rparr>))"

definition dec_store :: "'x \<Rightarrow> ('x, 'i) dec" where
  "dec_store y x d = Some (True, y, d)"

text \<open>\<open>pb_read\<close> into an array of bytes; a callback that fails has stored nothing.\<close>

definition read_into :: "nat \<Rightarrow> (u8 list, 'i) dec" where
  "read_into count buf d =
     (if count > length buf then None
      else (case pb_read count (stream d) of
          (None, s) \<Rightarrow> Some (False, buf, d\<lparr>stream := s\<rparr>)
        | (Some bs, s) \<Rightarrow> Some (True, bs @ drop count buf, d\<lparr>stream := s\<rparr>)))"

text \<open>An operation on an item of an array; on the data of a field; on what a pointer points to.\<close>

definition on_item :: "nat \<Rightarrow> (pb_item, 'i) dec \<Rightarrow> (pb_item list, 'i) dec" where
  "on_item i work items d =
     (if i < length items then do { (ok, x, d) \<leftarrow> work (items ! i) d; Some (ok, items[i := x], d) } else None)"

definition on_data :: "(pb_item list, 'i) dec \<Rightarrow> (pb_slot, 'i) dec" where
  "on_data work slot d = (case slot of Slot n data \<Rightarrow> do { (ok, data, d) \<leftarrow> work data d; Some (ok, Slot n data, d) })"

definition on_block :: "(pb_item list, 'i) dec \<Rightarrow> (pb_item, 'i) dec" where
  "on_block work x d = (case x of
     Ptr_item (Some block) \<Rightarrow> do { (ok, block, d) \<leftarrow> work block d; Some (ok, Ptr_item (Some block), d) }
   | _ \<Rightarrow> None)"

text \<open>Two operations on the same place: \<open>if (!a) return false; return b;\<close>\<close>

definition dec_then :: "('x, 'i) dec \<Rightarrow> ('x, 'i) dec \<Rightarrow> ('x, 'i) dec" where
  "dec_then a b x d = do { (ok, x, d) \<leftarrow> a x d; if ok then b x d else Some (False, x, d) }"

section \<open>Memory\<close>

text \<open>
  \<open>allocate_field\<close> on a pointer; \<open>grow\<close> says what the new block holds where the old one was (empty for a null pointer).\<close>

definition allocate_field :: "pb_env \<Rightarrow> (pb_item list \<Rightarrow> pb_item list) \<Rightarrow> nat \<Rightarrow> nat \<Rightarrow> (pb_item, 'i) dec" where
  "allocate_field env grow size_of_item n x d = (case x of
     Ptr_item p \<Rightarrow>
       if size_of_item = 0 \<or> n = 0 then dec_error ''invalid size'' x d
       else if (size_of_item \<ge> 2 ^ 32 \<or> n \<ge> 2 ^ 32) \<and> (size_bound - 1) div n < size_of_item then dec_error ''size too large'' x d
       else let d = d\<lparr>requests := requests d + 1\<rparr> in
         if \<not> grants env (requests d) (n * size_of_item) then dec_error ''realloc failed'' x d
         else (case p of
             None \<Rightarrow> Some (True, Ptr_item (Some (grow [])), d\<lparr>live := live d + 1\<rparr>)
           | Some old \<Rightarrow> Some (True, Ptr_item (Some (grow old)), d))
   | _ \<Rightarrow> None)"

text \<open>An array of \<open>n\<close> items that keeps the old ones; one of bytes, or of characters, that keeps the old bytes.\<close>

definition grow_items :: "pb_env \<Rightarrow> pb_field \<Rightarrow> nat \<Rightarrow> pb_item list \<Rightarrow> pb_item list" where
  "grow_items env f n old = take n old @ replicate (n - length old) (junk_item env f)"

fun block_bytes :: "pb_item list \<Rightarrow> u8 list" where
  "block_bytes (Bytes_item _ bs # _) = bs" | "block_bytes (Chars_item bs # _) = bs" | "block_bytes _ = []"

definition grow_bytes :: "pb_env \<Rightarrow> nat \<Rightarrow> u8 list \<Rightarrow> u8 list" where
  "grow_bytes env n old = take n old @ replicate (n - length old) (junk_byte env)"

section \<open>Single values\<close>

definition pb_dec_bool_field :: "(pb_item, 'i) dec" where
  "pb_dec_bool_field = dec_read pb_dec_bool (\<lambda>b. dec_store (Bool_item b))"

text \<open>What is stored of an integer, and what \<open>clamped\<close> is then.\<close>

definition clamp_signed :: "pb_field \<Rightarrow> u64 \<Rightarrow> u64" where
  "clamp_signed f v = signed_take_bit (8 * data_size f - 1) v"

definition clamp_unsigned :: "pb_field \<Rightarrow> u64 \<Rightarrow> u64" where
  "clamp_unsigned f v = take_bit (8 * data_size f) v"

definition store_clamped :: "pb_field \<Rightarrow> u64 \<Rightarrow> u64 \<Rightarrow> (pb_item, 'i) dec" where
  "store_clamped f clamped v dest =
     (if data_size f \<notin> {1, 2, 4, 8} then dec_error ''invalid data_size'' dest
      else if clamped \<noteq> v then dec_error ''integer too large'' (Word_item (take_bit (8 * data_size f) clamped))
      else dec_store (Word_item (take_bit (8 * data_size f) clamped)) dest)"

definition pb_dec_varint :: "pb_field \<Rightarrow> (pb_item, 'i) dec" where
  "pb_dec_varint f = dec_read pb_decode_varint (\<lambda>v.
     let svalue = (if data_size f = 8 then v else signed_take_bit 31 v) in
     store_clamped f (clamp_signed f svalue) svalue)"

definition pb_dec_uvarint :: "pb_field \<Rightarrow> (pb_item, 'i) dec" where
  "pb_dec_uvarint f = dec_read pb_decode_varint (\<lambda>v. store_clamped f (clamp_unsigned f v) v)"

definition pb_dec_svarint :: "pb_field \<Rightarrow> (pb_item, 'i) dec" where
  "pb_dec_svarint f = dec_read pb_decode_svarint (\<lambda>v. store_clamped f (clamp_signed f v) v)"

definition pb_dec_fixed32 :: "(pb_item, 'i) dec" where
  "pb_dec_fixed32 = dec_read pb_decode_fixed32 (\<lambda>v. dec_store (Word_item (ucast v)))"

definition pb_dec_fixed64 :: "(pb_item, 'i) dec" where
  "pb_dec_fixed64 = dec_read pb_decode_fixed64 (\<lambda>v. dec_store (Word_item v))"


text \<open>The last steps of \<open>pb_dec_bytes\<close> and \<open>pb_dec_string\<close>.\<close>

definition store_bytes :: "u32 \<Rightarrow> (pb_item, 'i) dec" where
  "store_bytes n bdest d = (case bdest of
     Bytes_item _ bs \<Rightarrow> do { (ok, bs, d) \<leftarrow> read_into (unat n) bs d; Some (ok, Bytes_item n bs, d) }
   | _ \<Rightarrow> None)"

definition store_chars :: "nat \<Rightarrow> (pb_item, 'i) dec" where
  "store_chars n dest d = (case dest of
     Chars_item cs \<Rightarrow> do {
       (status, cs, d) \<leftarrow> read_into n cs d;
       if n < length cs then Some (status, Chars_item (cs[n := 0]), d) else None }
   | _ \<Rightarrow> None)"

definition pb_dec_bytes :: "pb_env \<Rightarrow> pb_field \<Rightarrow> (pb_item, 'i) dec" where
  "pb_dec_bytes env f = dec_read pb_decode_varint32 (\<lambda>n dest d.
     let alloc_size = PB_BYTES_ARRAY_T_ALLOCSIZE (unat n) in
     if n > PB_SIZE_MAX then dec_error ''bytes overflow'' dest d
     else if unat n > alloc_size then dec_error ''size too large'' dest d
     else if atype f = AT_POINTER then
       if bytes_left (stream d) < unat n then dec_error ''end-of-stream'' dest d
       else dec_then
         (allocate_field env (\<lambda>old. [Bytes_item n (grow_bytes env (unat n) (block_bytes old))]) alloc_size 1)
         (on_block (on_item 0 (store_bytes n))) dest d
     else if alloc_size > data_size f then dec_error ''bytes overflow'' dest d
     else store_bytes n dest d)"

definition pb_dec_string :: "pb_env \<Rightarrow> pb_field \<Rightarrow> (pb_item, 'i) dec" where
  "pb_dec_string env f = dec_read pb_decode_varint32 (\<lambda>n dest d.
     let alloc_size = unat (n + 1) in
     if alloc_size < unat n then dec_error ''size too large'' dest d
     else if atype f = AT_POINTER then
       if bytes_left (stream d) < unat n then dec_error ''end-of-stream'' dest d
       else dec_then
         (allocate_field env (\<lambda>old. [Chars_item (grow_bytes env alloc_size (block_bytes old))]) alloc_size 1)
         (on_block (on_item 0 (store_chars (unat n)))) dest d
     else if alloc_size > data_size f then dec_error ''string overflow'' dest d
     else store_chars (unat n) dest d)"

definition pb_dec_fixed_length_bytes :: "pb_field \<Rightarrow> (pb_item, 'i) dec" where
  "pb_dec_fixed_length_bytes f = dec_read pb_decode_varint32 (\<lambda>n dest d.
     case dest of
       Chars_item cs \<Rightarrow>
         if n > PB_SIZE_MAX then dec_error ''bytes overflow'' dest d
         else if n = 0 then dec_store (Chars_item (replicate (data_size f) 0)) dest d
         else if unat n \<noteq> data_size f then dec_error ''incorrect fixed length bytes size'' dest d
         else do { (ok, cs, d) \<leftarrow> read_into (data_size f) cs d; Some (ok, Chars_item cs, d) }
     | _ \<Rightarrow> None)"

section \<open>Releasing\<close>

type_synonym releaser = "pb_field list \<Rightarrow> pb_slot list \<Rightarrow> int \<Rightarrow> (pb_slot list \<times> int) option"

definition fields_ptr :: "pb_env \<Rightarrow> pb_field \<Rightarrow> pb_field list option" where
  "fields_ptr env f = (case ptr f of Fields_ptr a \<Rightarrow> Some (fields_at env a) | _ \<Rightarrow> None)"

text \<open>The items of an array of submessages; the entries of an array of pointers.\<close>

fun release_items :: "(pb_slot list \<Rightarrow> int \<Rightarrow> (pb_slot list \<times> int) option) \<Rightarrow> nat \<Rightarrow> pb_item list \<Rightarrow> int \<Rightarrow> (pb_item list \<times> int) option" where
  "release_items rel count [] m = (if count = 0 then Some ([], m) else None)"
| "release_items rel count (x # items) m =
     (if count = 0 then Some (x # items, m)
      else (case x of
          Struct_item slots \<Rightarrow> do {
            (slots, m) \<leftarrow> rel slots m;
            (items, m) \<leftarrow> release_items rel (count - 1) items m;
            Some (Struct_item slots # items, m) }
        | _ \<Rightarrow> None))"

definition pb_free :: "pb_item list option \<Rightarrow> int \<Rightarrow> int" where
  "pb_free p m = (if p = None then m else m - 1)"

fun free_entries :: "nat \<Rightarrow> pb_item list \<Rightarrow> int \<Rightarrow> (pb_item list \<times> int) option" where
  "free_entries count [] m = (if count = 0 then Some ([], m) else None)"
| "free_entries count (x # items) m =
     (if count = 0 then Some (x # items, m)
      else (case x of
          Ptr_item p \<Rightarrow> do {
            (items, m) \<leftarrow> free_entries (count - 1) items (pb_free p m);
            Some (Ptr_item None # items, m) }
        | _ \<Rightarrow> None))"

text \<open>On the items a pointer points to, unless it is null.\<close>

definition at_block :: "(pb_item list \<Rightarrow> int \<Rightarrow> (pb_item list \<times> int) option) \<Rightarrow> pb_item list \<Rightarrow> int \<Rightarrow> (pb_item list \<times> int) option" where
  "at_block work data m = (case data of
     [Ptr_item (Some block)] \<Rightarrow> do { (block, m) \<leftarrow> work block m; Some ([Ptr_item (Some block)], m) }
   | [Ptr_item None] \<Rightarrow> Some (data, m)
   | _ \<Rightarrow> None)"

definition release_submessages :: "releaser \<Rightarrow> pb_env \<Rightarrow> pb_field \<Rightarrow> pb_slot \<Rightarrow> int \<Rightarrow> (pb_slot \<times> int) option" where
  "release_submessages rel env f slot m = (case slot of Slot pSize data \<Rightarrow>
     let count = (if htype f = HT_REPEATED then (if atype f = AT_STATIC \<and> pSize > array_size f then array_size f else pSize) else 1);
         work = (\<lambda>items m. do { flds \<leftarrow> fields_ptr env f; release_items (rel flds) (unat count) items m }) in
     do { (data, m) \<leftarrow> (if atype f = AT_POINTER then at_block work else work) data m; Some (Slot pSize data, m) })"

definition release_pointer :: "pb_field \<Rightarrow> pb_slot \<Rightarrow> int \<Rightarrow> (pb_slot \<times> int) option" where
  "release_pointer f slot m = (case slot of Slot pSize data \<Rightarrow> do {
     (data, m) \<leftarrow> (if htype f = HT_REPEATED \<and> (ltype f = LT_STRING \<or> ltype f = LT_BYTES) \<and> pSize \<noteq> 0
       then (if data = [Ptr_item None] then None else at_block (free_entries (unat pSize)) data m) else Some (data, m));
     case data of
       [Ptr_item p] \<Rightarrow> Some (Slot (if htype f = HT_REPEATED then 0 else pSize) [Ptr_item None], pb_free p m)
     | _ \<Rightarrow> None })"

definition pb_release_single_field :: "releaser \<Rightarrow> pb_env \<Rightarrow> pb_field \<Rightarrow> pb_slot \<Rightarrow> int \<Rightarrow> (pb_slot \<times> int) option" where
  "pb_release_single_field rel env f slot m = (case slot of Slot pSize data \<Rightarrow>
     if htype f = HT_ONEOF \<and> pSize \<noteq> tag f then Some (slot, m)
     else do {
       (slot, m) \<leftarrow> (if ltype f = LT_SUBMESSAGE then release_submessages rel env f slot m else Some (slot, m));
       if atype f = AT_POINTER then release_pointer f slot m else Some (slot, m) })"

text \<open>The recursion goes no deeper than structures are nested.\<close>

fun release_nested :: "nat \<Rightarrow> pb_env \<Rightarrow> releaser" where
  "release_nested 0 env flds dest_struct m = None"
| "release_nested (Suc n) env flds dest_struct m = each_slot (pb_release_single_field (release_nested n env) env) flds dest_struct m"

definition pb_release :: "pb_env \<Rightarrow> releaser" where
  "pb_release env flds dest_struct = release_nested (Suc (struct_depth dest_struct)) env flds dest_struct"

section \<open>Default values\<close>

type_synonym defaulter = "pb_field list \<Rightarrow> pb_slot list \<Rightarrow> pb_slot list option"

text \<open>\<open>memset(..., 0, ...)\<close>\<close>

fun zero_item :: "pb_item \<Rightarrow> pb_item" where
  "zero_item (Bool_item _) = Bool_item False"
| "zero_item (Word_item _) = Word_item 0"
| "zero_item (Bytes_item _ bs) = Bytes_item 0 (replicate (length bs) 0)"
| "zero_item (Chars_item cs) = Chars_item (replicate (length cs) 0)"
| "zero_item x = x"

definition init_data :: "defaulter \<Rightarrow> pb_env \<Rightarrow> pb_field \<Rightarrow> pb_item list \<Rightarrow> pb_item list option" where
  "init_data def env f data = (case data of
     [x] \<Rightarrow>
       if ltype f = LT_SUBMESSAGE then
         (case x of
            Struct_item slots \<Rightarrow> do { flds \<leftarrow> fields_ptr env f; slots \<leftarrow> def flds slots; Some [Struct_item slots] }
          | _ \<Rightarrow> None)
       else Some [case ptr f of Default_ptr y \<Rightarrow> y | _ \<Rightarrow> zero_item x]
   | _ \<Rightarrow> None)"

definition pb_field_set_to_default :: "defaulter \<Rightarrow> pb_env \<Rightarrow> pb_field \<Rightarrow> pb_slot \<Rightarrow> pb_slot option" where
  "pb_field_set_to_default def env f slot = (case slot of Slot pSize data \<Rightarrow> (case atype f of
       AT_STATIC \<Rightarrow>
         if htype f = HT_OPTIONAL \<and> size_offset f \<noteq> 0 then map_option (Slot 0) (init_data def env f data)
         else if htype f = HT_REPEATED \<or> htype f = HT_ONEOF then Some (Slot 0 data)
         else map_option (Slot pSize) (init_data def env f data)
     | AT_POINTER \<Rightarrow> Some (Slot (if htype f = HT_REPEATED \<or> htype f = HT_ONEOF then 0 else pSize) [Ptr_item None])))"

fun defaults_nested :: "nat \<Rightarrow> pb_env \<Rightarrow> defaulter" where
  "defaults_nested 0 env flds dest_struct = None"
| "defaults_nested (Suc n) env flds dest_struct = map_option fst
     (each_slot (\<lambda>f slot u. map_option (\<lambda>slot. (slot, u)) (pb_field_set_to_default (defaults_nested n env) env f slot))
       flds dest_struct ())"

definition pb_message_set_to_defaults :: "pb_env \<Rightarrow> defaulter" where
  "pb_message_set_to_defaults env flds dest_struct = defaults_nested (Suc (struct_depth dest_struct)) env flds dest_struct"

section \<open>Fields\<close>

text \<open>The functions for fields take the decoder of submessages as an argument; its first one tells \<open>pb_decode\<close> from
  \<open>pb_decode_noinit\<close>.\<close>

type_synonym 'i decoder = "bool \<Rightarrow> pb_field list \<Rightarrow> (pb_slot list, 'i) dec"

definition close_substream :: "'i pb_istream \<Rightarrow> bool \<Rightarrow> ('x, 'i) dec" where
  "close_substream s status x d = (case pb_close_string_substream (stream d) s of
     (None, s) \<Rightarrow> Some (False, x, d\<lparr>stream := s\<rparr>)
   | (Some _, s) \<Rightarrow> Some (status, x, d\<lparr>stream := s\<rparr>))"

definition pb_dec_submessage :: "'i decoder \<Rightarrow> pb_env \<Rightarrow> pb_field \<Rightarrow> (pb_item, 'i) dec" where
  "pb_dec_submessage k env f dest d = (case pb_make_string_substream (stream d) of
     (None, s) \<Rightarrow> Some (False, dest, d\<lparr>stream := s\<rparr>)
   | (Some substream, s) \<Rightarrow> (case fields_ptr env f of
       None \<Rightarrow> dec_error ''invalid field descriptor'' dest (d\<lparr>stream := s\<rparr>)
     | Some flds \<Rightarrow> (case dest of
         Struct_item slots \<Rightarrow> do {
           (status, slots, d) \<leftarrow> k (htype f = HT_REPEATED) flds slots (d\<lparr>stream := substream\<rparr>);
           close_substream s status (Struct_item slots) d }
       | _ \<Rightarrow> None)))"

text \<open>\<open>PB_DECODERS\<close>\<close>

definition pb_decoder :: "'i decoder \<Rightarrow> pb_env \<Rightarrow> pb_field \<Rightarrow> (pb_item, 'i) dec" where
  "pb_decoder k env f = (case ltype f of
     LT_BOOL \<Rightarrow> pb_dec_bool_field
   | LT_VARINT \<Rightarrow> pb_dec_varint f
   | LT_UVARINT \<Rightarrow> pb_dec_uvarint f
   | LT_SVARINT \<Rightarrow> pb_dec_svarint f
   | LT_FIXED32 \<Rightarrow> pb_dec_fixed32
   | LT_FIXED64 \<Rightarrow> pb_dec_fixed64
   | LT_BYTES \<Rightarrow> pb_dec_bytes env f
   | LT_STRING \<Rightarrow> pb_dec_string env f
   | LT_SUBMESSAGE \<Rightarrow> pb_dec_submessage k env f
   | LT_FIXED_LENGTH_BYTES \<Rightarrow> pb_dec_fixed_length_bytes f)"

lemma count_up: "n < (m :: u32) \<Longrightarrow> unat (n + 1) = unat n + 1"
proof -
  assume "n < m"
  then have "unat n + 1 < 4294967296" using unat_u32_less [of m] unfolding word_less_nat_alt by linarith
  then show ?thesis by (simp add: unat_word_ariths)
qed

lemma count_up_max: "n \<noteq> PB_SIZE_MAX \<Longrightarrow> unat (n + 1) = unat n + 1"
proof -
  assume "n \<noteq> PB_SIZE_MAX"
  moreover have "n \<le> PB_SIZE_MAX" unfolding word_le_nat_alt using unat_u32_less [of n] by (simp del: unat_u32_less)
  ultimately show ?thesis using count_up [of n PB_SIZE_MAX] by (simp add: order_less_le)
qed

lemma count_up_down: "n \<noteq> PB_SIZE_MAX \<Longrightarrow> 4294967296 - unat (n + 1) < 4294967296 - unat n"
  using count_up_max [of n] unat_u32_less [of n] by linarith

text \<open>A packed array in the structure; \<open>while (substream.bytes_left > 0 && *size < array_size)\<close>\<close>

function packed_static :: "'i decoder \<Rightarrow> pb_env \<Rightarrow> pb_field \<Rightarrow> (pb_slot, 'i) dec" where
  "packed_static k env f (Slot n items) d =
     (if bytes_left (stream d) > 0 \<and> n < array_size f then do {
        (ok, items, d) \<leftarrow> on_item (unat n) (pb_decoder k env f) items d;
        if \<not> ok then Some (False, Slot n items, d) else packed_static k env f (Slot (n + 1) items) d }
      else Some (True, Slot n items, d))"
  by pat_completeness auto

termination packed_static
proof (relation "measure (\<lambda>(k, env, f, slot, d). case slot of Slot n _ \<Rightarrow> unat (array_size f) - unat n)")
  fix k :: "'i decoder" and env :: pb_env and f :: pb_field and n and items :: "pb_item list" and d d' :: "'i dstate" and x ok y items'
  assume "0 < bytes_left (stream d) \<and> n < array_size f"
  then show "((k, env, f, Slot (n + 1) items', d'), k, env, f, Slot n items, d)
      \<in> measure (\<lambda>(k, env, f, slot, d). case slot of Slot n _ \<Rightarrow> unat (array_size f) - unat n)"
    using count_up [of n "array_size f"] by (auto simp: word_less_nat_alt)
qed simp

definition decode_static_field :: "'i decoder \<Rightarrow> pb_env \<Rightarrow> u32 \<Rightarrow> pb_field \<Rightarrow> (pb_slot, 'i) dec" where
  "decode_static_field k env wire_type f slot d = (case slot of Slot pSize data \<Rightarrow> (case htype f of
       HT_REQUIRED \<Rightarrow> on_data (on_item 0 (pb_decoder k env f)) slot d
     | HT_OPTIONAL \<Rightarrow> on_data (on_item 0 (pb_decoder k env f)) (Slot (if size_offset f \<noteq> 0 then 1 else pSize) data) d
     | HT_REPEATED \<Rightarrow>
         if wire_type = PB_WT_STRING \<and> packable (ltype f) then
           (case pb_make_string_substream (stream d) of
              (None, s) \<Rightarrow> Some (False, slot, d\<lparr>stream := s\<rparr>)
            | (Some substream, s) \<Rightarrow> do {
                (status, slot, d) \<leftarrow> packed_static k env f slot (d\<lparr>stream := substream\<rparr>);
                if bytes_left (stream d) \<noteq> 0 then dec_error ''array overflow'' slot (d\<lparr>stream := s\<rparr>)
                else close_substream s status slot d })
         else if pSize \<ge> array_size f then dec_error ''array overflow'' (Slot (pSize + 1) data) d
         else on_data (on_item (unat pSize) (pb_decoder k env f)) (Slot (pSize + 1) data) d
     | HT_ONEOF \<Rightarrow> do {
         data \<leftarrow> (if pSize = tag f then Some data
           else if ltype f = LT_SUBMESSAGE then (case ptr f of
               Fields_ptr a \<Rightarrow> do { slots \<leftarrow> pb_message_set_to_defaults env (fields_at env a) (zeros_at env a); Some [Struct_item slots] }
             | _ \<Rightarrow> None)
           else Some [junk_item env f]);
         on_data (on_item 0 (pb_decoder k env f)) (Slot (tag f) data) d }))"

definition initialize_pointer_field :: "pb_env \<Rightarrow> pb_field \<Rightarrow> (pb_item, 'i) dec" where
  "initialize_pointer_field env f pItem d =
     (if ltype f = LT_STRING \<or> ltype f = LT_BYTES then dec_store (Ptr_item None) pItem d
      else if ltype f = LT_SUBMESSAGE then (case ptr f of
          Fields_ptr a \<Rightarrow> do { slots \<leftarrow> pb_message_set_to_defaults env (fields_at env a) (zeros_at env a); dec_store (Struct_item slots) pItem d }
        | _ \<Rightarrow> None)
      else Some (True, pItem, d))"

text \<open>Initialises and decodes an item of the block.\<close>

definition decode_entry :: "'i decoder \<Rightarrow> pb_env \<Rightarrow> pb_field \<Rightarrow> nat \<Rightarrow> (pb_item list, 'i) dec" where
  "decode_entry k env f i = on_item 0 (on_block (on_item i (dec_then (initialize_pointer_field env f) (pb_decoder k env f))))"

text \<open>
  A packed array in a block of its own: the loop has the slot, the space allocated and the outer stream (of which it may only
  set the error).\<close>

function packed_pointer :: "'i decoder \<Rightarrow> pb_env \<Rightarrow> pb_field \<Rightarrow> nat \<Rightarrow> 'i pb_istream \<Rightarrow> pb_slot \<Rightarrow> 'i dstate \<Rightarrow>
    (bool \<times> pb_slot \<times> 'i dstate \<times> 'i pb_istream) option" where
  "packed_pointer k env f allocated s (Slot n data) d =
     (if bytes_left (stream d) = 0 then Some (True, Slot n data, d, s)
      else if n = PB_SIZE_MAX then Some (False, Slot n data, d, s\<lparr>i_errmsg := Some ''too many array entries''\<rparr>)
      else do {
        let remain = (bytes_left (stream d) - 1) div data_size f + 1;
        let more = unat n + 1 > allocated;
        let allocated = (if \<not> more then allocated
          else if remain < unat PB_SIZE_MAX - allocated then allocated + remain else allocated + 1);
        (ok, data, d) \<leftarrow> (if more then on_item 0 (allocate_field env (grow_items env f allocated) (data_size f) allocated) data d
          else Some (True, data, d));
        if \<not> ok then Some (False, Slot n data, d, s)
        else do {
          (ok, data, d) \<leftarrow> decode_entry k env f (unat n) data d;
          if \<not> ok then Some (False, Slot n data, d, s) else packed_pointer k env f allocated s (Slot (n + 1) data) d } })"
  by pat_completeness auto

termination packed_pointer
proof (relation "measure (\<lambda>(k, env, f, allocated, s, slot, d). case slot of Slot n _ \<Rightarrow> 2 ^ 32 - unat n)", goal_cases)
  case 2
  then show ?case by (simp add: count_up_down)
qed simp

definition decode_pointer_field :: "'i decoder \<Rightarrow> pb_env \<Rightarrow> u32 \<Rightarrow> pb_field \<Rightarrow> (pb_slot, 'i) dec" where
  "decode_pointer_field k env wire_type f slot d =
     (if htype f = HT_REPEATED then (case slot of Slot pSize data \<Rightarrow>
        if wire_type = PB_WT_STRING \<and> packable (ltype f) then
          (case pb_make_string_substream (stream d) of
             (None, s) \<Rightarrow> Some (False, slot, d\<lparr>stream := s\<rparr>)
           | (Some substream, s) \<Rightarrow> do {
               (status, slot, d, s) \<leftarrow> packed_pointer k env f (unat pSize) s slot (d\<lparr>stream := substream\<rparr>);
               close_substream s status slot d })
        else if pSize = PB_SIZE_MAX then dec_error ''too many array entries'' slot d
        else do {
          (ok, data, d) \<leftarrow> on_item 0 (allocate_field env (grow_items env f (unat (pSize + 1))) (data_size f) (unat (pSize + 1))) data d;
          if \<not> ok then Some (False, Slot pSize data, d)
          else on_data (decode_entry k env f (unat pSize)) (Slot (pSize + 1) data) d })
      else do {
        (slot, m) \<leftarrow> (case slot of Slot pSize data \<Rightarrow>
          if ltype f = LT_SUBMESSAGE \<and> data \<noteq> [Ptr_item None] then pb_release_single_field (pb_release env) env f slot (live d)
          else Some (slot, live d));
        case slot of Slot pSize data \<Rightarrow> on_data
          (if ltype f = LT_STRING \<or> ltype f = LT_BYTES then on_item 0 (pb_decoder k env f)
           else dec_then (on_item 0 (allocate_field env (grow_items env f 1) (data_size f) 1)) (decode_entry k env f 0))
          (Slot (if htype f = HT_ONEOF then tag f else pSize) data) (d\<lparr>live := m\<rparr>) })"

definition pb_release_union_field :: "pb_env \<Rightarrow> pb_field list \<Rightarrow> (pb_field_iter \<times> pb_slot list, 'i) dec" where
  "pb_release_union_field env flds x d = (case x of (iter, slots) \<Rightarrow>
     if slot_no iter \<ge> length slots then None
     else (case slots ! slot_no iter of Slot old_tag _ \<Rightarrow>
       let new_tag = tag (field_at flds (position iter)) in
       if old_tag = 0 \<or> old_tag = new_tag then Some (True, (iter, slots), d)
       else (case pb_field_iter_find flds iter old_tag of
           (False, iter) \<Rightarrow> dec_error ''invalid union tag'' (iter, slots) d
         | (True, iter) \<Rightarrow>
             if slot_no iter \<ge> length slots then None
             else do {
               (slot, m) \<leftarrow> pb_release_single_field (pb_release env) env (field_at flds (position iter)) (slots ! slot_no iter) (live d);
               let slots = slots[slot_no iter := slot];
               let d = d\<lparr>live := m\<rparr>;
               case pb_field_iter_find flds iter new_tag of
                 (False, iter) \<Rightarrow> dec_error ''iterator error'' (iter, slots) d
               | (True, iter) \<Rightarrow>
                   if slot_no iter \<ge> length slots then None
                   else let slots = (if atype (field_at flds (position iter)) = AT_POINTER
                       then slots[slot_no iter := (case slots ! slot_no iter of Slot n _ \<Rightarrow> Slot n [Ptr_item None])] else slots) in
                     Some (True, (iter, slots), d) })))"

definition decode_field :: "'i decoder \<Rightarrow> pb_env \<Rightarrow> pb_field list \<Rightarrow> u32 \<Rightarrow> (pb_field_iter \<times> pb_slot list, 'i) dec" where
  "decode_field k env flds wire_type x d = dec_then
     (\<lambda>(iter, slots). if htype (field_at flds (position iter)) = HT_ONEOF then pb_release_union_field env flds (iter, slots)
        else (\<lambda>d. Some (True, (iter, slots), d)))
     (\<lambda>(iter, slots) d.
        let f = field_at flds (position iter); i = slot_no iter in
        if i \<ge> length slots then None
        else do {
          (ok, slot, d) \<leftarrow> (case atype f of AT_STATIC \<Rightarrow> decode_static_field k env wire_type f | AT_POINTER \<Rightarrow> decode_pointer_field k env wire_type f)
            (slots ! i) d;
          Some (ok, (iter, slots[i := slot]), d) })
     x d"

section \<open>Messages\<close>

text \<open>\<open>fields_seen\<close> has 64 bits in words of 32.\<close>

definition mark_seen :: "pb_field \<Rightarrow> nat \<Rightarrow> u32 list \<Rightarrow> u32 list" where
  "mark_seen f i seen =
     (if htype f = HT_REQUIRED \<and> i < 64 then seen[i div 32 := seen ! (i div 32) OR push_bit (i mod 32) 1] else seen)"

fun fields_loop :: "nat \<Rightarrow> 'i decoder \<Rightarrow> pb_env \<Rightarrow> pb_field list \<Rightarrow> (u32 list \<times> pb_field_iter \<times> pb_slot list, 'i) dec" where
  "fields_loop 0 k env flds (seen, iter, slots) d = None"
| "fields_loop (Suc n) k env flds (seen, iter, slots) d =
     (if bytes_left (stream d) = 0 then Some (True, (seen, iter, slots), d)
      else (case pb_decode_tag (stream d) of
          (None, eof, s) \<Rightarrow> Some (eof, (seen, iter, slots), d\<lparr>stream := s\<rparr>)
        | (Some (wire_type, t), eof, s) \<Rightarrow> (case pb_field_iter_find flds iter t of
            (False, iter) \<Rightarrow> (case pb_skip_field wire_type s of
                (None, s) \<Rightarrow> Some (False, (seen, iter, slots), d\<lparr>stream := s\<rparr>)
              | (Some _, s) \<Rightarrow> fields_loop n k env flds (seen, iter, slots) (d\<lparr>stream := s\<rparr>))
          | (True, iter) \<Rightarrow> do {
              let seen = mark_seen (field_at flds (position iter)) (required_field_index iter) seen;
              (ok, (iter, slots), d) \<leftarrow> decode_field k env flds wire_type (iter, slots) (d\<lparr>stream := s\<rparr>);
              if ok then fields_loop n k env flds (seen, iter, slots) d else Some (False, (seen, iter, slots), d) })))"

lemma iter_next_more: "(True, iter') = pb_field_iter_next flds iter \<Longrightarrow> position iter' = position iter + 1 \<and> position iter < length flds"
  by (auto simp: pb_field_iter_next_def Let_def field_at_def PB_LAST_FIELD_def split: if_splits)

text \<open>The number of required fields, which the code counts from where the iterator is.\<close>

function count_required :: "pb_field list \<Rightarrow> pb_field_iter \<Rightarrow> nat" where
  "count_required flds iter = (case pb_field_iter_next flds iter of
     (True, iter') \<Rightarrow> count_required flds iter'
   | (False, iter') \<Rightarrow>
       if htype (field_at flds (position iter)) = HT_REQUIRED \<and> tag (field_at flds (position iter')) \<noteq> 0
       then required_field_index iter + 1 else required_field_index iter)"
  by pat_completeness auto

termination count_required
  by (relation "measure (\<lambda>(flds, iter). length flds - position iter)") (auto dest: iter_next_more)

definition all_seen :: "u32 list \<Rightarrow> nat \<Rightarrow> bool" where
  "all_seen seen n \<longleftrightarrow> (let n = min n 64 in
     list_all (\<lambda>i. seen ! i = 0xFFFFFFFF) [0..<n div 32] \<and>
     (n mod 32 \<noteq> 0 \<longrightarrow> seen ! (n div 32) = drop_bit (32 - n mod 32) 0xFFFFFFFF))"

text \<open>Every message takes at least one byte of the stream around it, so the length of the stream bounds the recursion.\<close>

fun decode_nested :: "nat \<Rightarrow> pb_env \<Rightarrow> 'i decoder" where
  "decode_nested 0 env init flds dest_struct d = None"
| "decode_nested (Suc n) env init flds dest_struct d = do {
     slots \<leftarrow> (if init then pb_message_set_to_defaults env flds dest_struct else Some dest_struct);
     (ok, (seen, iter, slots), d) \<leftarrow> fields_loop (Suc n) (decode_nested n env) env flds ([0, 0], iter_start, slots) d;
     (ok, slots, d) \<leftarrow> (if \<not> ok then Some (False, slots, d)
       else if all_seen seen (count_required flds iter) then Some (True, slots, d)
       else dec_error ''missing required field'' slots d);
     if init \<and> \<not> ok then do {
       (slots, m) \<leftarrow> pb_release env flds slots (live d);
       Some (False, slots, d\<lparr>live := m\<rparr>) }
     else Some (ok, slots, d) }"

definition pb_decode_noinit :: "pb_env \<Rightarrow> pb_field list \<Rightarrow> (pb_slot list, 'i) dec" where
  "pb_decode_noinit env flds dest_struct d = decode_nested (Suc (bytes_left (stream d))) env False flds dest_struct d"

definition pb_decode :: "pb_env \<Rightarrow> pb_field list \<Rightarrow> (pb_slot list, 'i) dec" where
  "pb_decode env flds dest_struct d = decode_nested (Suc (bytes_left (stream d))) env True flds dest_struct d"

definition in_delimited :: "(pb_slot list, 'i) dec \<Rightarrow> (pb_slot list, 'i) dec" where
  "in_delimited decode dest_struct d = (case pb_make_string_substream (stream d) of
     (None, s) \<Rightarrow> Some (False, dest_struct, d\<lparr>stream := s\<rparr>)
   | (Some substream, s) \<Rightarrow> do {
       (status, dest_struct, d) \<leftarrow> decode dest_struct (d\<lparr>stream := substream\<rparr>);
       close_substream s status dest_struct d })"

definition pb_decode_delimited_noinit :: "pb_env \<Rightarrow> pb_field list \<Rightarrow> (pb_slot list, 'i) dec" where
  "pb_decode_delimited_noinit env flds = in_delimited (pb_decode_noinit env flds)"

definition pb_decode_delimited :: "pb_env \<Rightarrow> pb_field list \<Rightarrow> (pb_slot list, 'i) dec" where
  "pb_decode_delimited env flds = in_delimited (pb_decode env flds)"

definition pb_decode_nullterminated :: "pb_env \<Rightarrow> pb_field list \<Rightarrow> (pb_slot list, 'i) dec" where
  "pb_decode_nullterminated = pb_decode"

end
