(* ===== verification/Pb_Types.thy ===== *)
theory Pb_Types
  imports Pb_Iter Pb_Encode Pb_Decode
begin

text \<open>
  Protocol buffers: when a structure has the layout and the contents that a description says (\<open>struct_ok\<close>), when it may be
  handed to \<open>pb_decode\<close>, which does not rely on its contents (\<open>struct_raw\<close>), and how many blocks it owns (\<open>struct_ptrs\<close>).
\<close>

section \<open>Blocks that a structure owns\<close>

definition datum_ptrs :: "(pb_field list \<Rightarrow> pb_slot list \<Rightarrow> nat) \<Rightarrow> pb_env \<Rightarrow> pb_field \<Rightarrow> pb_item \<Rightarrow> nat" where
  "datum_ptrs R env f x = (if ltype f = LT_SUBMESSAGE then R (fields_of env f) (item_slots x) else 0)"

definition entry_ptrs :: "(pb_field list \<Rightarrow> pb_slot list \<Rightarrow> nat) \<Rightarrow> pb_env \<Rightarrow> pb_field \<Rightarrow> pb_item \<Rightarrow> nat" where
  "entry_ptrs R env f x = (if ltype f = LT_STRING \<or> ltype f = LT_BYTES then (if item_block x = None then 0 else 1) else datum_ptrs R env f x)"

text \<open>Only what is in use counts: the first items of an array, the current member of a union.\<close>

definition slot_ptrs :: "(pb_field list \<Rightarrow> pb_slot list \<Rightarrow> nat) \<Rightarrow> pb_env \<Rightarrow> pb_field \<Rightarrow> pb_slot \<Rightarrow> nat" where
  "slot_ptrs R env f slot = (case slot of Slot n data \<Rightarrow>
     if htype f = HT_ONEOF \<and> n \<noteq> tag f then 0
     else (case atype f of
         AT_STATIC \<Rightarrow> sum_list (map (datum_ptrs R env f) (if htype f = HT_REPEATED then take (unat n) data else data))
       | AT_POINTER \<Rightarrow> (case item_block (data_item data) of
             None \<Rightarrow> 0
           | Some block \<Rightarrow> 1 + sum_list (if htype f = HT_REPEATED then map (entry_ptrs R env f) (take (unat n) block)
               else map (datum_ptrs R env f) block))))"

lemma datum_ptrs_cong:
  assumes "\<And>fs sl. size_list size sl \<le> size x \<Longrightarrow> R fs sl = R' fs sl"
  shows "datum_ptrs R env f x = datum_ptrs R' env f x" "entry_ptrs R env f x = entry_ptrs R' env f x"
  using assms [OF size_item_slots] by (simp_all add: datum_ptrs_def entry_ptrs_def)

lemma slot_ptrs_cong [fundef_cong]:
  assumes "env = env'" "f = f'" "slot = slot'"
    and R: "\<And>fs sl. size_list size sl < size slot' \<Longrightarrow> R fs sl = R' fs sl"
  shows "slot_ptrs R env f slot = slot_ptrs R' env' f' slot'"
proof -
  obtain n data where slot: "slot' = Slot n data" by (cases slot')
  have item: "R fs sl = R' fs sl" if "x \<in> set items" "size_list size items < size slot'" "size_list size sl \<le> size x" for x items fs sl
  proof (rule R)
    have "size x \<le> size_list size items" using that(1) by (rule size_list_estimation') simp
    with that show "size_list size sl < size slot'" by simp
  qed
  have data: "map (datum_ptrs R env' f') items = map (datum_ptrs R' env' f') items"
    "map (entry_ptrs R env' f') items = map (entry_ptrs R' env' f') items" if "set items \<subseteq> set big" "size_list size big < size slot'" for items big
    using that item [OF subsetD [OF that(1)] that(2)] by (auto intro!: datum_ptrs_cong)
  have d: "map (datum_ptrs R env' f') (take (unat n) data) = map (datum_ptrs R' env' f') (take (unat n) data)"
    "map (datum_ptrs R env' f') data = map (datum_ptrs R' env' f') data"
    by (rule data(1) [of _ data]; simp add: set_take_subset slot)+
  show ?thesis
  proof (cases "item_block (data_item data)")
    case None
    then show ?thesis unfolding assms(1-3) slot_ptrs_def slot pb_slot.case by (cases "atype f'") (simp_all add: d del: map_eq_conv)
  next
    case (Some block)
    then have "size_list size block < size slot'" using size_data_block [of data block] slot by simp
    then have b: "map (entry_ptrs R env' f') (take (unat n) block) = map (entry_ptrs R' env' f') (take (unat n) block)"
      "map (datum_ptrs R env' f') block = map (datum_ptrs R' env' f') block"
      by (rule data(2) [of _ block, rotated] data(1) [of _ block, rotated]; simp add: set_take_subset)+
    show ?thesis unfolding assms(1-3) slot_ptrs_def slot pb_slot.case Some by (cases "atype f'") (simp_all add: d b del: map_eq_conv)
  qed
qed

function struct_ptrs :: "pb_env \<Rightarrow> pb_field list \<Rightarrow> pb_slot list \<Rightarrow> nat" where
  "struct_ptrs env flds slots = sum_list (map (\<lambda>(f, slot). slot_ptrs (struct_ptrs env) env f slot) (visits flds slots))"
  by pat_completeness auto

termination struct_ptrs
proof (relation "measure (\<lambda>(env, flds, slots). size_list size slots)")
  fix env flds slots x f slot and fs and sl :: "pb_slot list"
  assume "x \<in> set (visits flds slots)" "(f, slot) = x" "size_list size sl < size slot"
  moreover from this have "slot \<in> set slots" using visits_mem by metis
  then have "size slot \<le> size_list size slots" by (simp add: size_list_estimation')
  ultimately show "((env, fs, sl), env, flds, slots) \<in> measure (\<lambda>(env, flds, slots). size_list size slots)" by simp
qed simp

declare struct_ptrs.simps [simp del]

section \<open>Layout\<close>

type_synonym struct_pred = "pb_field list \<Rightarrow> pb_slot list \<Rightarrow> bool"

definition word_item_ok :: "nat \<Rightarrow> pb_item \<Rightarrow> bool" where
  "word_item_ok n x \<longleftrightarrow> (case x of Word_item w \<Rightarrow> take_bit (8 * n) w = w | _ \<Rightarrow> False)"

definition chars_ok :: "nat \<Rightarrow> pb_item \<Rightarrow> bool" where
  "chars_ok n x \<longleftrightarrow> (case x of Chars_item cs \<Rightarrow> length cs = n | _ \<Rightarrow> False)"

text \<open>One datum in place; what a pointer to one datum, and an entry of an array behind a pointer, holds.\<close>

definition datum_ok :: "struct_pred \<Rightarrow> pb_env \<Rightarrow> pb_field \<Rightarrow> pb_item \<Rightarrow> bool" where
  "datum_ok P env f x \<longleftrightarrow> (case ltype f of
     LT_BOOL \<Rightarrow> (case x of Bool_item _ \<Rightarrow> True | _ \<Rightarrow> False)
   | LT_FIXED32 \<Rightarrow> word_item_ok 4 x
   | LT_FIXED64 \<Rightarrow> word_item_ok 8 x
   | LT_BYTES \<Rightarrow> (case x of Bytes_item _ bs \<Rightarrow> length bs + 4 = data_size f | _ \<Rightarrow> False)
   | LT_STRING \<Rightarrow> chars_ok (data_size f) x
   | LT_FIXED_LENGTH_BYTES \<Rightarrow> chars_ok (data_size f) x
   | LT_SUBMESSAGE \<Rightarrow> (case x of Struct_item slots \<Rightarrow> P (fields_of env f) slots | _ \<Rightarrow> False)
   | _ \<Rightarrow> word_item_ok (data_size f) x)"

definition block_ok :: "struct_pred \<Rightarrow> pb_env \<Rightarrow> pb_field \<Rightarrow> pb_item list \<Rightarrow> bool" where
  "block_ok P env f block \<longleftrightarrow>
     (if ltype f = LT_BYTES then (\<exists>n bs. block = [Bytes_item n bs] \<and> unat n \<le> length bs)
      else if ltype f = LT_STRING then (\<exists>cs. block = [Chars_item cs] \<and> 0 \<in> set cs)
      else (\<exists>x. block = [x] \<and> datum_ok P env f x))"

definition pointer_ok :: "struct_pred \<Rightarrow> pb_env \<Rightarrow> pb_field \<Rightarrow> pb_item \<Rightarrow> bool" where
  "pointer_ok P env f x \<longleftrightarrow> (case x of Ptr_item p \<Rightarrow> (\<forall>block. p = Some block \<longrightarrow> block_ok P env f block) | _ \<Rightarrow> False)"

definition entry_ok :: "struct_pred \<Rightarrow> pb_env \<Rightarrow> pb_field \<Rightarrow> pb_item \<Rightarrow> bool" where
  "entry_ok P env f x \<longleftrightarrow> (if ltype f = LT_BYTES \<or> ltype f = LT_STRING then pointer_ok P env f x else datum_ok P env f x)"

definition array_ok :: "struct_pred \<Rightarrow> pb_env \<Rightarrow> pb_field \<Rightarrow> u32 \<Rightarrow> pb_item \<Rightarrow> bool" where
  "array_ok P env f n x \<longleftrightarrow> (case x of
     Ptr_item None \<Rightarrow> n = 0
   | Ptr_item (Some block) \<Rightarrow> unat n \<le> length block \<and> (\<forall>y \<in> set block. entry_ok P env f y)
   | _ \<Rightarrow> False)"

text \<open>The elements of a static array that are not in use own nothing.\<close>

definition slot_ok :: "struct_pred \<Rightarrow> pb_env \<Rightarrow> pb_field \<Rightarrow> pb_slot \<Rightarrow> bool" where
  "slot_ok P env f slot \<longleftrightarrow> (case slot of Slot n data \<Rightarrow> (case atype f of
     AT_STATIC \<Rightarrow>
       if htype f = HT_REPEATED then
         length data = unat (array_size f) \<and> (\<forall>x \<in> set data. datum_ok P env f x) \<and>
         (\<forall>x \<in> set (drop (unat n) data). datum_ptrs (struct_ptrs env) env f x = 0)
       else (\<exists>x. data = [x] \<and> (htype f = HT_ONEOF \<and> n \<noteq> tag f \<or> datum_ok P env f x))
   | AT_POINTER \<Rightarrow>
       (\<exists>x. data = [x] \<and> (if htype f = HT_REPEATED then array_ok P env f n x
         else (htype f = HT_ONEOF \<and> n \<noteq> tag f \<or> pointer_ok P env f x) \<and> (htype f = HT_ONEOF \<and> n = 0 \<longrightarrow> x = Ptr_item None)))))"

definition field_groups :: "pb_field list \<Rightarrow> pb_field list list" where
  "field_groups flds = (if flds = [] then [[PB_LAST_FIELD]] else groups flds)"

lemma datum_ok_mono: "(\<And>fs sl. P fs sl \<longrightarrow> Q fs sl) \<Longrightarrow> datum_ok P env f x \<longrightarrow> datum_ok Q env f x"
  by (auto simp: datum_ok_def split: pb_ltype.splits pb_item.splits)

lemma block_ok_mono: "(\<And>fs sl. P fs sl \<longrightarrow> Q fs sl) \<Longrightarrow> block_ok P env f b \<longrightarrow> block_ok Q env f b"
  using datum_ok_mono [of P Q env f] by (auto simp: block_ok_def)

lemma pointer_ok_mono: "(\<And>fs sl. P fs sl \<longrightarrow> Q fs sl) \<Longrightarrow> pointer_ok P env f x \<longrightarrow> pointer_ok Q env f x"
  using block_ok_mono [of P Q env f] by (auto simp: pointer_ok_def split: pb_item.splits)

lemma array_ok_mono: "(\<And>fs sl. P fs sl \<longrightarrow> Q fs sl) \<Longrightarrow> array_ok P env f n x \<longrightarrow> array_ok Q env f n x"
  using pointer_ok_mono [of P Q env f] datum_ok_mono [of P Q env f]
  by (auto simp: array_ok_def entry_ok_def split: pb_item.splits option.splits)

lemma slot_ok_mono [mono]: "(\<And>fs sl. P fs sl \<longrightarrow> Q fs sl) \<Longrightarrow> slot_ok P env f s \<longrightarrow> slot_ok Q env f s"
  using datum_ok_mono [of P Q env f] pointer_ok_mono [of P Q env f] array_ok_mono [of P Q env f]
  by (auto simp: slot_ok_def split: pb_slot.splits pb_atype.splits)

inductive struct_ok :: "pb_env \<Rightarrow> struct_pred" for env where
  "list_all2 (\<lambda>g s. \<forall>f \<in> set g. slot_ok (struct_ok env) env f s) (field_groups flds) slots \<Longrightarrow> struct_ok env flds slots"

text \<open>Pointers and unions may hold anything.\<close>

definition slot_raw :: "struct_pred \<Rightarrow> pb_env \<Rightarrow> pb_field \<Rightarrow> pb_slot \<Rightarrow> bool" where
  "slot_raw P env f slot \<longleftrightarrow> (case slot of Slot n data \<Rightarrow> (case atype f of
     AT_STATIC \<Rightarrow>
       if htype f = HT_REPEATED then
         length data = unat (array_size f) \<and> (\<forall>x \<in> set data. datum_ok (struct_ok env) env f x \<and> datum_ptrs (struct_ptrs env) env f x = 0)
       else (\<exists>x. data = [x] \<and> (htype f = HT_ONEOF \<or> datum_ok P env f x))
   | AT_POINTER \<Rightarrow> True))"

lemma slot_raw_mono [mono]: "(\<And>fs sl. P fs sl \<longrightarrow> Q fs sl) \<Longrightarrow> slot_raw P env f s \<longrightarrow> slot_raw Q env f s"
  using datum_ok_mono [of P Q env f] by (auto simp: slot_raw_def split: pb_slot.splits pb_atype.splits)

inductive struct_raw :: "pb_env \<Rightarrow> struct_pred" for env where
  "list_all2 (\<lambda>g s. \<forall>f \<in> set g. slot_raw (struct_raw env) env f s) (field_groups flds) slots \<Longrightarrow> struct_raw env flds slots"

inductive_simps struct_ok_iff: "struct_ok env flds slots"
inductive_simps struct_raw_iff: "struct_raw env flds slots"

section \<open>Descriptions\<close>

definition field_wf :: "pb_env \<Rightarrow> pb_field \<Rightarrow> bool" where
  "field_wf env f \<longleftrightarrow> tag f \<noteq> 0 \<and> 0 < data_size f \<and> (ltype f = LT_BYTES \<longrightarrow> 4 \<le> data_size f) \<and>
     (htype f = HT_REPEATED \<or> htype f = HT_ONEOF \<longrightarrow> size_offset f \<noteq> 0) \<and>
     (case ptr f of
        Fields_ptr _ \<Rightarrow> ltype f = LT_SUBMESSAGE
      | Default_ptr y \<Rightarrow> ltype f \<noteq> LT_SUBMESSAGE \<and> datum_ok (\<lambda>_ _. False) env f y
      | Null_ptr \<Rightarrow> ltype f \<noteq> LT_SUBMESSAGE)"

definition fields_wf :: "pb_env \<Rightarrow> pb_field list \<Rightarrow> bool" where
  "fields_wf env flds \<longleftrightarrow> distinct (map tag flds) \<and> (\<forall>f \<in> set flds. field_wf env f)"

text \<open>Whatever new memory holds, as an integer or as bytes it is one.\<close>

definition env_wf :: "pb_env \<Rightarrow> bool" where
  "env_wf env \<longleftrightarrow> (\<forall>a. fields_wf env (fields_at env a) \<and> struct_raw env (fields_at env a) (zeros_at env a)) \<and>
     (\<forall>f. field_wf env f \<and> ltype f \<noteq> LT_SUBMESSAGE \<longrightarrow> datum_ok (\<lambda>_ _. False) env f (junk_item env f))"

end
