(* ===== verification/Pb_Release.thy ===== *)
theory Pb_Release
  imports Pb_Types
begin

text \<open>
  Protocol buffers: releasing a structure frees every block it owns and leaves it owning none; setting it to its default values
  does not look at pointers and leaves it owning none.
\<close>

section \<open>Depths\<close>

lemma greatest_le: "greatest ns \<le> k \<longleftrightarrow> (\<forall>n \<in> set ns. n \<le> k)"
proof -
  have "fold max ns m \<le> k \<longleftrightarrow> m \<le> k \<and> (\<forall>n \<in> set ns. n \<le> k)" for m :: nat
    by (induction ns arbitrary: m) auto
  then show ?thesis by (simp add: greatest_def)
qed

lemma struct_depth_le: "struct_depth slots \<le> k \<longleftrightarrow> (\<forall>s \<in> set slots. slot_depth s \<le> k)"
  by (simp add: struct_depth_def greatest_le)

lemma slot_depth_le: "slot_depth (Slot n data) \<le> k \<longleftrightarrow> (\<forall>x \<in> set data. item_depth x \<le> k)"
  by (simp add: greatest_le)

lemma item_depth_struct: "item_depth (Struct_item slots) = Suc (struct_depth slots)"
  by (simp add: struct_depth_def)

lemma item_depth_block: "item_depth (Ptr_item (Some block)) \<le> k \<longleftrightarrow> (\<forall>x \<in> set block. item_depth x \<le> k)"
  by (simp add: greatest_le)

section \<open>Groups\<close>

lemma struct_ptrs_groups:
  "struct_ptrs env flds slots = sum_list (map2 (\<lambda>g s. sum_list (map (\<lambda>f. slot_ptrs (struct_ptrs env) env f s) g)) (groups flds) slots)"
proof -
  have "sum_list (map h (concat (map2 (\<lambda>g s. map (\<lambda>f. (f, s)) g) gs slots))) = sum_list (map2 (\<lambda>g s. sum_list (map (\<lambda>f. h (f, s)) g)) gs slots)"
    for h :: "pb_field \<times> pb_slot \<Rightarrow> nat" and gs
    by (induction gs slots rule: list_induct2') (simp_all add: o_def)
  from this [of "\<lambda>(f, slot). slot_ptrs (struct_ptrs env) env f slot" "groups flds"]
  show ?thesis by (simp add: struct_ptrs.simps visits_groups)
qed

text \<open>In a union at most one member is the current one.\<close>

lemma union_members:
  assumes "distinct (map tag g)" "\<forall>f \<in> set g. htype f = HT_ONEOF" "f \<in> set g" "n = tag f"
  shows "sum_list (map (\<lambda>f. slot_ptrs R env f (Slot n data)) g) = slot_ptrs R env f (Slot n data)"
    "\<And>f'. f' \<in> set g \<Longrightarrow> f' \<noteq> f \<Longrightarrow> tag f' \<noteq> n"
proof -
  show other: "tag f' \<noteq> n" if "f' \<in> set g" "f' \<noteq> f" for f'
    using that assms by (auto simp: distinct_map dest: inj_onD)
  have "sum_list (map (\<lambda>f. slot_ptrs R env f (Slot n data)) g) = (\<Sum>f' \<in> set g. slot_ptrs R env f' (Slot n data))"
    using assms(1) by (intro sum_list_distinct_conv_sum_set) (simp add: distinct_map)
  also have "\<dots> = (\<Sum>f' \<in> {f}. slot_ptrs R env f' (Slot n data))"
    using assms(2,3) other by (intro sum.mono_neutral_right) (auto simp: slot_ptrs_def)
  finally show "sum_list (map (\<lambda>f. slot_ptrs R env f (Slot n data)) g) = slot_ptrs R env f (Slot n data)" by simp
qed

lemma union_none:
  assumes "\<forall>f \<in> set g. htype f = HT_ONEOF" "\<forall>f \<in> set g. tag f \<noteq> n"
  shows "sum_list (map (\<lambda>f. slot_ptrs R env f (Slot n data)) g) = 0"
proof -
  have "slot_ptrs R env f (Slot n data) = 0" if "f \<in> set g" for f
    using that assms by (auto simp: slot_ptrs_def)
  then show ?thesis by (induction g) simp_all
qed

section \<open>Releasing\<close>

definition rel_good :: "pb_env \<Rightarrow> nat \<Rightarrow> releaser \<Rightarrow> bool" where
  "rel_good env n rel \<longleftrightarrow> (\<forall>flds slots m. fields_wf env flds \<longrightarrow> struct_ok env flds slots \<longrightarrow> struct_depth slots < n \<longrightarrow>
     (\<exists>slots'. rel flds slots m = Some (slots', m - int (struct_ptrs env flds slots)) \<and> struct_ok env flds slots' \<and>
       struct_ptrs env flds slots' = 0))"

lemma env_fields_wf: "env_wf env \<Longrightarrow> fields_ptr env f = Some flds \<Longrightarrow> fields_wf env flds \<and> fields_of env f = flds"
  by (auto simp: env_wf_def fields_ptr_def fields_of_def split: pb_ptr.splits)

lemma field_wf_submessage: "field_wf env f \<Longrightarrow> ltype f = LT_SUBMESSAGE \<Longrightarrow> fields_ptr env f = Some (fields_of env f)"
  by (auto simp: field_wf_def fields_ptr_def fields_of_def split: pb_ptr.splits)

lemma release_items_good:
  assumes "rel_good env n rel" "env_wf env" "field_wf env f" "ltype f = LT_SUBMESSAGE"
    and "\<forall>x \<in> set items. datum_ok (struct_ok env) env f x \<and> item_depth x \<le> n" "count \<le> length items"
  shows "\<exists>items'. release_items (rel (fields_of env f)) count items m =
      Some (items', m - int (sum_list (map (datum_ptrs (struct_ptrs env) env f) (take count items)))) \<and>
    length items' = length items \<and> (\<forall>x \<in> set items'. datum_ok (struct_ok env) env f x) \<and>
    (\<forall>x \<in> set (take count items'). datum_ptrs (struct_ptrs env) env f x = 0) \<and> drop count items' = drop count items"
  using assms(5,6)
proof (induction items arbitrary: count m)
  case (Cons x items)
  obtain slots where x: "x = Struct_item slots" "struct_ok env (fields_of env f) slots" "struct_depth slots < n"
    using Cons.prems(1) assms(4) by (cases x) (auto simp: datum_ok_def item_depth_struct simp del: item_depth.simps)
  have wf: "fields_wf env (fields_of env f)" using env_fields_wf [OF assms(2)] field_wf_submessage [OF assms(3,4)] by blast
  show ?case
  proof (cases count)
    case (Suc k)
    obtain slots' where slots': "rel (fields_of env f) slots m = Some (slots', m - int (struct_ptrs env (fields_of env f) slots))"
      "struct_ok env (fields_of env f) slots'" "struct_ptrs env (fields_of env f) slots' = 0"
      using assms(1) wf x(2,3) unfolding rel_good_def by blast
    have "k \<le> length items" using Cons.prems(2) Suc by simp
    with Cons.IH [of k "m - int (struct_ptrs env (fields_of env f) slots)"] Cons.prems(1)
    obtain items' where "release_items (rel (fields_of env f)) k items (m - int (struct_ptrs env (fields_of env f) slots)) =
        Some (items', m - int (struct_ptrs env (fields_of env f) slots) - int (sum_list (map (datum_ptrs (struct_ptrs env) env f) (take k items))))"
      "length items' = length items" "\<forall>x \<in> set items'. datum_ok (struct_ok env) env f x"
      "\<forall>x \<in> set (take k items'). datum_ptrs (struct_ptrs env) env f x = 0" "drop k items' = drop k items" by auto
    moreover have "datum_ptrs (struct_ptrs env) env f (Struct_item sl) = struct_ptrs env (fields_of env f) sl"
      "datum_ok (struct_ok env) env f (Struct_item sl) = struct_ok env (fields_of env f) sl" for sl
      using assms(4) by (simp_all add: datum_ptrs_def datum_ok_def)
    ultimately show ?thesis using slots' x(1) Suc by simp
  qed (use Cons.prems in simp)
qed simp

lemma free_entries_good:
  assumes "ltype f = LT_STRING \<or> ltype f = LT_BYTES" "\<forall>x \<in> set items. \<exists>p. x = Ptr_item p" "count \<le> length items"
  shows "\<exists>items'. free_entries count items m = Some (items', m - int (sum_list (map (entry_ptrs R env f) (take count items))))"
  using assms(2,3)
proof (induction items arbitrary: count m)
  case (Cons x items)
  obtain p where x: "x = Ptr_item p" using Cons.prems(1) by auto
  show ?case
  proof (cases count)
    case (Suc k)
    have "pb_free p m = m - int (entry_ptrs R env f x)" using assms(1) x by (auto simp: pb_free_def entry_ptrs_def)
    moreover obtain items' where "free_entries k items (m - int (entry_ptrs R env f x)) =
        Some (items', m - int (entry_ptrs R env f x) - int (sum_list (map (entry_ptrs R env f) (take k items))))"
      using Cons.IH [of k "m - int (entry_ptrs R env f x)"] Cons.prems Suc by auto
    ultimately show ?thesis using Suc by (simp add: x diff_diff_eq)
  qed simp
qed simp

lemma data_item_Cons [simp]: "data_item (x # xs) = x"
  by (simp add: data_item_def src_item_def item_at_def)

text \<open>The last step, when what the block points to has been released.\<close>

lemma release_pointer_good:
  assumes "atype f = AT_POINTER" "htype f = HT_ONEOF \<longrightarrow> k = tag f" "slot_ok (struct_ok env) env f (Slot k data)" "tag f \<noteq> 0"
    and "ltype f = LT_SUBMESSAGE \<longrightarrow> slot_ptrs (struct_ptrs env) env f (Slot k data) \<le> 1"
  shows "\<exists>k'. release_pointer f (Slot k data) m = Some (Slot k' [Ptr_item None], m - int (slot_ptrs (struct_ptrs env) env f (Slot k data))) \<and>
    slot_ok (struct_ok env) env f (Slot k' [Ptr_item None]) \<and> slot_ptrs (struct_ptrs env) env f (Slot k' [Ptr_item None]) = 0 \<and>
    (htype f \<noteq> HT_REPEATED \<longrightarrow> k' = k)"
proof -
  obtain p where data: "data = [Ptr_item p]"
    using assms(1-3) by (auto simp: slot_ok_def array_ok_def pointer_ok_def split: if_splits pb_item.splits)
  define k' where "k' = (if htype f = HT_REPEATED then 0 else k)"
  have done': "slot_ok (struct_ok env) env f (Slot k' [Ptr_item None])" "slot_ptrs (struct_ptrs env) env f (Slot k' [Ptr_item None]) = 0"
    using assms(1) by (simp_all add: slot_ok_def slot_ptrs_def array_ok_def pointer_ok_def k'_def)
  have "release_pointer f (Slot k data) m = Some (Slot k' [Ptr_item None], m - int (slot_ptrs (struct_ptrs env) env f (Slot k data)))"
  proof (cases p)
    case None
    then have "htype f = HT_REPEATED \<longrightarrow> k = 0" using assms(1,3) by (auto simp: data slot_ok_def array_ok_def)
    then show ?thesis using assms(1) None by (auto simp: release_pointer_def data pb_free_def slot_ptrs_def k'_def)
  next
    case (Some block)
    note unf = release_pointer_def data Some slot_ptrs_def
    show ?thesis
    proof (cases "htype f = HT_REPEATED \<and> (ltype f = LT_STRING \<or> ltype f = LT_BYTES)")
      case True
      then have "\<forall>x \<in> set block. \<exists>p. x = Ptr_item p" "unat k \<le> length block"
        using assms(1,3) by (auto simp: data Some slot_ok_def array_ok_def entry_ok_def pointer_ok_def split: pb_item.splits)
      then obtain block' where "free_entries (unat k) block m =
          Some (block', m - int (sum_list (map (entry_ptrs (struct_ptrs env) env f) (take (unat k) block))))"
        using free_entries_good True by blast
      moreover have "take (unat k) block = []" if "k = 0" using that by simp
      ultimately show ?thesis
        using assms(1) True by (cases "k = 0") (auto simp: unf at_block_def pb_free_def k'_def)
    next
      case False
      have "slot_ptrs (struct_ptrs env) env f (Slot k data) = 1"
      proof (cases "ltype f = LT_SUBMESSAGE")
        case True
        have "1 \<le> slot_ptrs (struct_ptrs env) env f (Slot k data)" using assms(1,2) by (auto simp: data Some slot_ptrs_def)
        with True assms(5) show ?thesis by simp
      next
        case notsub: False
        have "map (entry_ptrs (struct_ptrs env) env f) xs = replicate (length xs) 0" if "htype f = HT_REPEATED" for xs
          using that notsub False by (intro replicate_eqI) (auto simp: entry_ptrs_def datum_ptrs_def)
        moreover have "map (datum_ptrs (struct_ptrs env) env f) xs = replicate (length xs) 0" for xs
          using notsub by (intro replicate_eqI) (auto simp: datum_ptrs_def)
        ultimately show ?thesis using assms(1,2) by (auto simp: data Some slot_ptrs_def sum_list_replicate)
      qed
      then show ?thesis using False by (auto simp: release_pointer_def data Some pb_free_def k'_def)
    qed
  qed
  then show ?thesis using done' by (auto simp: k'_def)
qed

definition rel_step :: "pb_env \<Rightarrow> pb_field \<Rightarrow> pb_slot \<Rightarrow> int \<Rightarrow> (pb_slot \<times> int) option \<Rightarrow> bool" where
  "rel_step env f s m r \<longleftrightarrow> (\<exists>k data k' data'. s = Slot k data \<and>
     r = Some (Slot k' data', m - int (slot_ptrs (struct_ptrs env) env f s)) \<and>
     slot_ok (struct_ok env) env f (Slot k' data') \<and> slot_ptrs (struct_ptrs env) env f (Slot k' data') = 0 \<and>
     (htype f \<noteq> HT_REPEATED \<longrightarrow> k' = k))"

lemma release_submessages_good:
  assumes "rel_good env n rel" "env_wf env" "field_wf env f" "ltype f = LT_SUBMESSAGE" "htype f = HT_ONEOF \<longrightarrow> k = tag f"
    and "slot_ok (struct_ok env) env f (Slot k data)" "\<forall>x \<in> set data. item_depth x \<le> n"
  shows "\<exists>data' c. release_submessages rel env f (Slot k data) m = Some (Slot k data', m - int c) \<and>
    slot_ok (struct_ok env) env f (Slot k data') \<and>
    slot_ptrs (struct_ptrs env) env f (Slot k data') \<le> (if atype f = AT_POINTER then 1 else 0) \<and>
    slot_ptrs (struct_ptrs env) env f (Slot k data) = c + slot_ptrs (struct_ptrs env) env f (Slot k data')"
proof -
  let ?p = "datum_ptrs (struct_ptrs env) env f" and ?ok = "datum_ok (struct_ok env) env f"
  define count where "count = (if htype f = HT_REPEATED then (if atype f = AT_STATIC \<and> k > array_size f then array_size f else k) else 1)"
  note ptr = field_wf_submessage [OF assms(3,4)]
  have entry: "entry_ok (struct_ok env) env f = ?ok" "entry_ptrs (struct_ptrs env) env f = ?p"
    using assms(4) by (auto simp: entry_ok_def entry_ptrs_def)
  have zeros: "sum_list (map ?p xs) = 0" if "\<forall>x \<in> set xs. ?p x = 0" for xs
    using that by (induction xs) simp_all
  note items = release_items_good [OF assms(1-4)]
  show ?thesis
  proof (cases "atype f")
    case AT_STATIC
    have ok: "\<forall>x \<in> set data. ?ok x \<and> item_depth x \<le> n" "unat count \<le> length data"
      using assms(5-7) AT_STATIC by (auto simp: slot_ok_def count_def word_le_nat_alt not_less split: if_splits)
    obtain data' where data': "release_items (rel (fields_of env f)) (unat count) data m =
        Some (data', m - int (sum_list (map ?p (take (unat count) data))))" "length data' = length data" "\<forall>x \<in> set data'. ?ok x"
      "\<forall>x \<in> set (take (unat count) data'). ?p x = 0" "drop (unat count) data' = drop (unat count) data"
      using items [OF ok] by blast
    have used: "(if htype f = HT_REPEATED then take (unat k) xs else xs) = take (unat count) xs" if "length xs = length data" for xs :: "pb_item list"
      using that AT_STATIC assms(5,6) by (auto simp: slot_ok_def count_def word_less_nat_alt not_less split: if_splits)
    have rest: "drop (unat k) data' = drop (unat k) data" if "htype f = HT_REPEATED"
      using that AT_STATIC assms(6) data'(2,5) by (auto simp: slot_ok_def count_def word_less_nat_alt not_less split: if_splits)
    have "slot_ok (struct_ok env) env f (Slot k data')"
      using AT_STATIC assms(6) data'(2,3) rest by (auto simp: slot_ok_def length_Suc_conv split: if_splits)
    moreover have "slot_ptrs (struct_ptrs env) env f (Slot k data') = 0"
      using AT_STATIC assms(5) zeros [OF data'(4)] used [OF data'(2)] by (simp add: slot_ptrs_def)
    moreover have "slot_ptrs (struct_ptrs env) env f (Slot k data) = sum_list (map ?p (take (unat count) data))"
      using AT_STATIC assms(5) used [of data] by (cases "htype f = HT_ONEOF") (simp_all add: slot_ptrs_def)
    moreover have "release_submessages rel env f (Slot k data) m = Some (Slot k data', m - int (sum_list (map ?p (take (unat count) data))))"
      using AT_STATIC data'(1) ptr by (simp add: release_submessages_def count_def Let_def)
    ultimately show ?thesis using AT_STATIC by auto
  next
    case AT_POINTER
    obtain p where data: "data = [Ptr_item p]"
      using AT_POINTER assms(5,6) by (auto simp: slot_ok_def array_ok_def pointer_ok_def split: if_splits pb_item.splits)
    show ?thesis
    proof (cases p)
      case None
      then show ?thesis using AT_POINTER assms(6)
        by (intro exI [of _ data] exI [of _ 0]) (simp add: release_submessages_def at_block_def data slot_ptrs_def Let_def)
    next
      case (Some block)
      have ok: "\<forall>x \<in> set block. ?ok x \<and> item_depth x \<le> n" "unat count \<le> length block"
        using AT_POINTER assms(4-7) item_depth_block [of block n]
        by (auto simp: data Some slot_ok_def array_ok_def pointer_ok_def block_ok_def count_def entry simp del: item_depth.simps split: if_splits)
      obtain block' where block': "release_items (rel (fields_of env f)) (unat count) block m =
          Some (block', m - int (sum_list (map ?p (take (unat count) block))))" "length block' = length block" "\<forall>x \<in> set block'. ?ok x"
        "\<forall>x \<in> set (take (unat count) block'). ?p x = 0"
        using items [OF ok] by blast
      have used: "(if htype f = HT_REPEATED then take (unat k) xs else xs) = take (unat count) xs" if "length xs = length block" for xs :: "pb_item list"
        using that AT_POINTER assms(4-6)
        by (auto simp: data Some slot_ok_def array_ok_def pointer_ok_def block_ok_def count_def split: if_splits)
      have "slot_ok (struct_ok env) env f (Slot k [Ptr_item (Some block')])"
        using AT_POINTER assms(4-6) block'(2,3)
        by (auto simp: data Some slot_ok_def array_ok_def pointer_ok_def block_ok_def entry length_Suc_conv split: if_splits)
      moreover have "slot_ptrs (struct_ptrs env) env f (Slot k [Ptr_item (Some block')]) = 1"
        using AT_POINTER assms(5) zeros [OF block'(4)] used [OF block'(2)] by (auto simp: slot_ptrs_def entry split: if_splits)
      moreover have "slot_ptrs (struct_ptrs env) env f (Slot k data) = sum_list (map ?p (take (unat count) block)) + 1"
        using AT_POINTER assms(5) used [of block] by (auto simp: data Some slot_ptrs_def entry split: if_splits)
      moreover have "release_submessages rel env f (Slot k data) m =
          Some (Slot k [Ptr_item (Some block')], m - int (sum_list (map ?p (take (unat count) block))))"
        using AT_POINTER block'(1) ptr by (simp add: release_submessages_def at_block_def data Some count_def Let_def)
      ultimately show ?thesis using AT_POINTER by auto
    qed
  qed
qed

lemma release_single_good:
  assumes "rel_good env n rel" "env_wf env" "field_wf env f" "slot_ok (struct_ok env) env f s" "slot_depth s \<le> n"
  shows "rel_step env f s m (pb_release_single_field rel env f s m)"
proof -
  obtain k data where s: "s = Slot k data" by (cases s)
  have depth: "\<forall>x \<in> set data. item_depth x \<le> n" using assms(5) by (simp add: s slot_depth_le del: slot_depth.simps)
  show ?thesis
  proof (cases "htype f = HT_ONEOF \<and> k \<noteq> tag f")
    case True
    then show ?thesis using assms(4) by (auto simp: rel_step_def s pb_release_single_field_def slot_ptrs_def)
  next
    case False
    obtain data' c where sub: "(if ltype f = LT_SUBMESSAGE then release_submessages rel env f s m else Some (s, m)) = Some (Slot k data', m - int c)"
      "slot_ok (struct_ok env) env f (Slot k data')"
      "ltype f = LT_SUBMESSAGE \<longrightarrow> slot_ptrs (struct_ptrs env) env f (Slot k data') \<le> (if atype f = AT_POINTER then 1 else 0)"
      "slot_ptrs (struct_ptrs env) env f s = c + slot_ptrs (struct_ptrs env) env f (Slot k data')"
    proof (cases "ltype f = LT_SUBMESSAGE")
      case True
      with release_submessages_good [OF assms(1-3) True _ assms(4) [unfolded s] depth, of m] False show ?thesis
        by (auto intro: that simp: s)
    next
      case False
      then show ?thesis using assms(4) by (intro that [of data 0]) (simp_all add: s)
    qed
    have nz: "tag f \<noteq> 0" using assms(3) by (simp add: field_wf_def)
    show ?thesis
    proof (cases "atype f")
      case AT_STATIC
      have "slot_ptrs (struct_ptrs env) env f (Slot k data') = 0"
      proof (cases "ltype f = LT_SUBMESSAGE")
        case notsub: False
        have "map (datum_ptrs (struct_ptrs env) env f) xs = replicate (length xs) 0" for xs
          using notsub by (intro replicate_eqI) (auto simp: datum_ptrs_def)
        then show ?thesis using AT_STATIC by (auto simp: slot_ptrs_def sum_list_replicate)
      qed (use sub(3) AT_STATIC in simp)
      then show ?thesis using sub AT_STATIC False by (auto simp: rel_step_def s pb_release_single_field_def)
    next
      case AT_POINTER
      have one: "htype f = HT_ONEOF \<longrightarrow> k = tag f" using False by blast
      obtain k' where "release_pointer f (Slot k data') (m - int c) =
          Some (Slot k' [Ptr_item None], m - int c - int (slot_ptrs (struct_ptrs env) env f (Slot k data')))"
        "slot_ok (struct_ok env) env f (Slot k' [Ptr_item None])" "slot_ptrs (struct_ptrs env) env f (Slot k' [Ptr_item None]) = 0"
        "htype f \<noteq> HT_REPEATED \<longrightarrow> k' = k"
        using release_pointer_good [OF AT_POINTER one sub(2) nz, of "m - int c"] sub(3) AT_POINTER by auto
      then show ?thesis using sub AT_POINTER False by (auto simp: rel_step_def s pb_release_single_field_def)
    qed
  qed
qed


text \<open>All members of a group: at most one of them, the current one, does anything.\<close>

definition group_ok :: "pb_env \<Rightarrow> pb_field list \<Rightarrow> pb_slot \<Rightarrow> bool" where
  "group_ok env g s \<longleftrightarrow> (\<forall>f \<in> set g. slot_ok (struct_ok env) env f s)"

definition group_ptrs :: "pb_env \<Rightarrow> pb_field list \<Rightarrow> pb_slot \<Rightarrow> nat" where
  "group_ptrs env g s = sum_list (map (\<lambda>f. slot_ptrs (struct_ptrs env) env f s) g)"

definition group_wf :: "pb_env \<Rightarrow> pb_field list \<Rightarrow> bool" where
  "group_wf env g \<longleftrightarrow> g \<noteq> [] \<and> distinct (map tag g) \<and> (\<forall>f \<in> set g. field_wf env f) \<and> ((\<exists>f. g = [f]) \<or> (\<forall>f \<in> set g. htype f = HT_ONEOF))"

lemma visit_all_append: "visit_all visit (g @ h) s a = do { (s, a) \<leftarrow> visit_all visit g s a; visit_all visit h s a }"
  by (induction g arbitrary: s a) (simp_all add: bind_assoc split_def)

lemma visit_all_skip: "\<forall>f \<in> set g. visit f s a = Some (s, a) \<Longrightarrow> visit_all visit g s a = Some (s, a)"
  by (induction g) simp_all

lemma fields_groups_wf: "fields_wf env flds \<Longrightarrow> g \<in> set (groups flds) \<Longrightarrow> group_wf env g"
proof -
  assume wf: "fields_wf env flds" and g: "g \<in> set (groups flds)"
  obtain xs ys where split: "groups flds = xs @ g # ys" using split_list [OF g] by blast
  have "flds = concat xs @ g @ concat ys" using concat_groups [of flds] split by simp
  with wf have "distinct (map tag g) \<and> (\<forall>f \<in> set g. field_wf env f)" by (simp add: fields_wf_def)
  with groups_members [OF g] groups_union [OF g] show ?thesis by (simp add: group_wf_def)
qed

text \<open>The current member of a group is where its blocks are; the others do not mind what is stored in place of it.\<close>

lemma group_current:
  assumes "group_wf env g" "f \<in> set g" "htype f = HT_ONEOF \<longrightarrow> n = tag f"
  shows "group_ptrs env g (Slot n data) = slot_ptrs (struct_ptrs env) env f (Slot n data)"
    "\<And>f'. f' \<in> set g \<Longrightarrow> f' \<noteq> f \<Longrightarrow> htype f' = HT_ONEOF \<and> tag f' \<noteq> n"
    "group_ok env g (Slot n [x]) \<longleftrightarrow> slot_ok (struct_ok env) env f (Slot n [x])"
proof -
  show other: "htype f' = HT_ONEOF \<and> tag f' \<noteq> n" if "f' \<in> set g" "f' \<noteq> f" for f'
    using that assms union_members(2) [of g f n f'] by (auto simp: group_wf_def)
  show "group_ptrs env g (Slot n data) = slot_ptrs (struct_ptrs env) env f (Slot n data)"
  proof (cases "\<exists>f. g = [f]")
    case True
    then show ?thesis using assms(2) by (auto simp: group_ptrs_def)
  next
    case False
    then show ?thesis using assms union_members(1) [of g f n] by (auto simp: group_ptrs_def group_wf_def)
  qed
  have "n \<noteq> 0" if "f' \<in> set g" "f' \<noteq> f" for f'
  proof -
    have "htype f = HT_ONEOF" using assms(1,2) that by (auto simp: group_wf_def)
    then show ?thesis using assms by (auto simp: group_wf_def field_wf_def)
  qed
  then have "slot_ok (struct_ok env) env f' (Slot n [x])" if "f' \<in> set g" "f' \<noteq> f" for f'
    using other [OF that] that by (cases "atype f'") (auto simp: slot_ok_def)
  then show "group_ok env g (Slot n [x]) \<longleftrightarrow> slot_ok (struct_ok env) env f (Slot n [x])"
    using assms(2) by (auto simp: group_ok_def)
qed

lemma oneof_single: "slot_ok P env f (Slot n data) \<Longrightarrow> htype f = HT_ONEOF \<Longrightarrow> \<exists>x. data = [x]"
  by (auto simp: slot_ok_def split: pb_atype.splits)

lemma release_group_good:
  assumes "rel_good env n rel" "env_wf env" "group_wf env g" "group_ok env g s" "slot_depth s \<le> n"
  shows "\<exists>s'. visit_all (pb_release_single_field rel env) g s m = Some (s', m - int (group_ptrs env g s)) \<and>
    group_ok env g s' \<and> group_ptrs env g s' = 0"
proof -
  obtain k data where s: "s = Slot k data" by (cases s)
  have skip: "pb_release_single_field rel env f (Slot k xs) m = Some (Slot k xs, m)" if "htype f = HT_ONEOF" "tag f \<noteq> k" for f xs m
    using that by (simp add: pb_release_single_field_def)
  show ?thesis
  proof (cases "\<exists>f \<in> set g. htype f = HT_ONEOF \<longrightarrow> k = tag f")
    case True
    then obtain f where f: "f \<in> set g" "htype f = HT_ONEOF \<longrightarrow> k = tag f" by blast
    note current = group_current [OF assms(3) f]
    have "rel_step env f s m (pb_release_single_field rel env f s m)"
      using assms(3,4) f(1) by (intro release_single_good [OF assms(1,2) _ _ assms(5)]) (auto simp: group_wf_def group_ok_def)
    then obtain k' data' where step: "pb_release_single_field rel env f s m = Some (Slot k' data', m - int (slot_ptrs (struct_ptrs env) env f s))"
      "slot_ok (struct_ok env) env f (Slot k' data')" "slot_ptrs (struct_ptrs env) env f (Slot k' data') = 0" "htype f \<noteq> HT_REPEATED \<longrightarrow> k' = k"
      by (auto simp: rel_step_def s)
    have ptrs: "group_ptrs env g s = slot_ptrs (struct_ptrs env) env f s" unfolding s by (rule current(1))
    show ?thesis
    proof (cases "htype f = HT_ONEOF")
      case True
      with step(2,4) obtain x where x: "k' = k" "data' = [x]" using oneof_single by fastforce
      obtain xs ys where g: "g = xs @ f # ys" "f \<notin> set xs" "f \<notin> set ys"
      proof -
        have "distinct g" using assms(3) by (auto simp: group_wf_def distinct_map)
        with split_list [OF f(1)] that show ?thesis by fastforce
      qed
      have "visit_all (pb_release_single_field rel env) xs (Slot k data) m = Some (Slot k data, m)"
        "visit_all (pb_release_single_field rel env) ys (Slot k data') a = Some (Slot k data', a)" for a
        using g current(2) by (auto intro!: visit_all_skip skip)
      then have "visit_all (pb_release_single_field rel env) g s m = Some (Slot k data', m - int (group_ptrs env g s))"
        using step(1) x ptrs by (simp add: g(1) visit_all_append s)
      then show ?thesis using x step(2,3) current(1) [of data'] current(3) [of x] by auto
    next
      case False
      with assms(3) f(1) have "g = [f]" by (auto simp: group_wf_def)
      with step ptrs show ?thesis by (simp add: group_ok_def group_ptrs_def)
    qed
  next
    case False
    then have "group_ptrs env g s = 0" unfolding s group_ptrs_def by (intro union_none) auto
    moreover have "visit_all (pb_release_single_field rel env) g s m = Some (s, m)"
      using False skip by (intro visit_all_skip) (auto simp: s)
    ultimately show ?thesis using assms(4) by auto
  qed
qed

lemma struct_ok_groups: "flds \<noteq> [] \<Longrightarrow> struct_ok env flds slots \<longleftrightarrow> list_all2 (group_ok env) (groups flds) slots"
  by (simp add: struct_ok_iff field_groups_def group_ok_def [abs_def])

lemma struct_ptrs_sum: "struct_ptrs env flds slots = sum_list (map2 (group_ptrs env) (groups flds) slots)"
  by (subst struct_ptrs_groups) (simp add: group_ptrs_def [abs_def])

lemma sum_list_int: "sum_list (map2 (\<lambda>x y. int (h x y)) xs ys) = int (sum_list (map2 h xs ys))"
  by (induction xs ys rule: list_induct2') simp_all

lemma sum_list2_0: "list_all2 (\<lambda>x y. P x y \<and> h x y = (0 :: nat)) xs ys \<Longrightarrow> sum_list (map2 h xs ys) = 0"
  by (induction rule: list_all2_induct) auto

lemma release_nested_good: "env_wf env \<Longrightarrow> rel_good env n (release_nested n env)"
proof (induction n)
  case (Suc n)
  show ?case
    unfolding rel_good_def
  proof (intro allI impI)
    fix flds slots m
    assume wf: "fields_wf env flds" and ok: "struct_ok env flds slots" and depth: "struct_depth slots < Suc n"
    show "\<exists>slots'. release_nested (Suc n) env flds slots m = Some (slots', m - int (struct_ptrs env flds slots)) \<and>
      struct_ok env flds slots' \<and> struct_ptrs env flds slots' = 0"
    proof (cases "flds = []")
      case True
      then show ?thesis using ok by (simp add: struct_ptrs.simps)
    next
      case False
      have "\<exists>slots'. each_group (visit_all (pb_release_single_field (release_nested n env) env)) (groups flds) slots m =
          Some (slots', m - sum_list (map2 (\<lambda>g s. int (group_ptrs env g s)) (groups flds) slots)) \<and>
        list_all2 (\<lambda>g s. group_ok env g s \<and> group_ptrs env g s = 0) (groups flds) slots'"
      proof (rule each_group_total)
        show "list_all2 (group_ok env) (groups flds) slots" using ok False by (simp add: struct_ok_groups)
        fix g s a
        assume gs: "g \<in> set (groups flds)" "s \<in> set slots" "group_ok env g s"
        have "slot_depth s \<le> n" using depth gs(2) struct_depth_le [of slots n] by simp
        then show "\<exists>s'. visit_all (pb_release_single_field (release_nested n env) env) g s a = Some (s', a - int (group_ptrs env g s)) \<and>
            (group_ok env g s' \<and> group_ptrs env g s' = 0)"
          using Suc gs fields_groups_wf [OF wf] by (intro release_group_good) auto
      qed
      then show ?thesis
        using False sum_list2_0 by (fastforce simp: each_slot_groups struct_ok_groups struct_ptrs_sum sum_list_int elim: list_all2_mono)
    qed
  qed
qed (simp add: rel_good_def)

theorem pb_release_good:
  assumes "env_wf env" "fields_wf env flds" "struct_ok env flds slots"
  shows "\<exists>slots'. pb_release env flds slots m = Some (slots', m - int (struct_ptrs env flds slots)) \<and> struct_ok env flds slots' \<and>
    struct_ptrs env flds slots' = 0"
  using release_nested_good [OF assms(1), of "Suc (struct_depth slots)"] assms(2,3) unfolding rel_good_def pb_release_def by simp

end
