(* ===== verification/Pb_Defaults.thy ===== *)
theory Pb_Defaults
  imports Pb_Release
begin

text \<open>
  Protocol buffers: setting a structure to its default values does not look at its pointers and unions and leaves a structure
  that owns nothing; such a structure may be handed to \<open>pb_decode\<close> again.
\<close>

definition def_good :: "pb_env \<Rightarrow> nat \<Rightarrow> defaulter \<Rightarrow> bool" where
  "def_good env n def \<longleftrightarrow> (\<forall>flds slots. fields_wf env flds \<longrightarrow> struct_raw env flds slots \<longrightarrow> struct_depth slots < n \<longrightarrow>
     (\<exists>slots'. def flds slots = Some slots' \<and> struct_ok env flds slots' \<and> struct_ptrs env flds slots' = 0))"

lemma datum_ok_basic: "ltype f \<noteq> LT_SUBMESSAGE \<Longrightarrow> datum_ok P env f x \<longleftrightarrow> datum_ok Q env f x"
  by (simp add: datum_ok_def split: pb_ltype.split)

lemma datum_ptrs_basic: "ltype f \<noteq> LT_SUBMESSAGE \<Longrightarrow> datum_ptrs R env f x = 0"
  by (simp add: datum_ptrs_def)

lemma zero_item_ok: "ltype f \<noteq> LT_SUBMESSAGE \<Longrightarrow> datum_ok P env f x \<Longrightarrow> datum_ok P env f (zero_item x)"
  by (cases x) (simp_all add: datum_ok_def word_item_ok_def chars_ok_def split: pb_ltype.splits)

lemma init_data_good:
  assumes "def_good env n def" "env_wf env" "field_wf env f" "datum_ok (struct_raw env) env f x" "item_depth x \<le> n"
  shows "\<exists>y. init_data def env f [x] = Some [y] \<and> datum_ok (struct_ok env) env f y \<and> datum_ptrs (struct_ptrs env) env f y = 0"
proof (cases "ltype f = LT_SUBMESSAGE")
  case True
  obtain slots where x: "x = Struct_item slots" "struct_raw env (fields_of env f) slots" "struct_depth slots < n"
    using assms(4,5) True by (cases x) (auto simp: datum_ok_def item_depth_struct simp del: item_depth.simps)
  note ptr = field_wf_submessage [OF assms(3) True]
  then have "fields_wf env (fields_of env f)" using env_fields_wf [OF assms(2)] by blast
  with assms(1) x(2,3) obtain slots' where "def (fields_of env f) slots = Some slots'" "struct_ok env (fields_of env f) slots'"
    "struct_ptrs env (fields_of env f) slots' = 0"
    unfolding def_good_def by blast
  then show ?thesis using True ptr x(1) by (simp add: init_data_def datum_ok_def datum_ptrs_def)
next
  case False
  have d: "datum_ok (struct_ok env) env f y" if "ptr f = Default_ptr y" for y
    using that assms(3) datum_ok_mono [of "\<lambda>_ _. False" "struct_ok env" env f y] by (simp add: field_wf_def)
  have "datum_ok (struct_ok env) env f x" using assms(4) datum_ok_basic [OF False] by metis
  then have z: "datum_ok (struct_ok env) env f (zero_item x)" by (rule zero_item_ok [OF False])
  have "datum_ok (struct_ok env) env f (case ptr f of Default_ptr y \<Rightarrow> y | _ \<Rightarrow> zero_item x)"
    using d z by (cases "ptr f") simp_all
  then show ?thesis using False by (simp add: init_data_def datum_ptrs_basic)
qed

text \<open>A member of a union loses it, or finds it lost; any other field has its slot to itself.\<close>

lemma default_field_good:
  assumes "def_good env n def" "env_wf env" "field_wf env f" "slot_raw (struct_raw env) env f (Slot k data)" "\<forall>x \<in> set data. item_depth x \<le> n"
    and "htype f \<noteq> HT_ONEOF"
  shows "\<exists>s'. pb_field_set_to_default def env f (Slot k data) = Some s' \<and> slot_ok (struct_ok env) env f s' \<and>
    slot_ptrs (struct_ptrs env) env f s' = 0"
proof (cases "atype f")
  case AT_STATIC
  show ?thesis
  proof (cases "htype f = HT_REPEATED")
    case True
    then show ?thesis using AT_STATIC assms(4) by (simp add: pb_field_set_to_default_def slot_ok_def slot_raw_def slot_ptrs_def)
  next
    case False
    with AT_STATIC assms(4,6) obtain x where x: "data = [x]" "datum_ok (struct_raw env) env f x" by (auto simp: slot_raw_def)
    with assms(5) obtain y where "init_data def env f data = Some [y]" "datum_ok (struct_ok env) env f y" "datum_ptrs (struct_ptrs env) env f y = 0"
      using init_data_good [OF assms(1-3), of x] by auto
    then show ?thesis using AT_STATIC False assms(6) by (auto simp: pb_field_set_to_default_def slot_ok_def slot_ptrs_def)
  qed
next
  case AT_POINTER
  then show ?thesis using assms(6) by (simp add: pb_field_set_to_default_def slot_ok_def slot_ptrs_def array_ok_def pointer_ok_def)
qed

lemma default_union:
  assumes "\<forall>f \<in> set g. htype f = HT_ONEOF" "g \<noteq> []" "(\<forall>f \<in> set g. atype f = AT_STATIC) \<longrightarrow> (\<exists>x. data = [x])"
  shows "\<exists>x. visit_all (\<lambda>f slot u. map_option (\<lambda>slot. (slot, u)) (pb_field_set_to_default def env f slot)) g (Slot k data) u =
      Some (Slot 0 [x], u) \<and> ((\<exists>f \<in> set g. atype f = AT_POINTER) \<longrightarrow> x = Ptr_item None)"
proof -
  let ?visit = "\<lambda>f slot u. map_option (\<lambda>slot. (slot, u)) (pb_field_set_to_default def env f slot)"
  have "visit_all ?visit g (Slot k data) u =
      Some (Slot 0 (if \<exists>f \<in> set g. atype f = AT_POINTER then [Ptr_item None] else data), u)"
    using assms(1,2)
  proof (induction g arbitrary: k data)
    case (Cons f g)
    have one: "?visit f (Slot k data) u = Some (Slot 0 (if atype f = AT_POINTER then [Ptr_item None] else data), u)"
      using Cons.prems by (cases "atype f") (simp_all add: pb_field_set_to_default_def)
    show ?case
    proof (cases "g = []")
      case False
      then show ?thesis using Cons one by auto
    qed (use one in simp)
  qed simp
  moreover have "atype f \<noteq> AT_POINTER \<longleftrightarrow> atype f = AT_STATIC" for f by (cases "atype f") simp_all
  ultimately show ?thesis using assms(3) by auto
qed

lemma default_group_good:
  assumes "def_good env n def" "env_wf env" "group_wf env g" "\<forall>f \<in> set g. slot_raw (struct_raw env) env f s" "slot_depth s \<le> n"
  shows "\<exists>s'. visit_all (\<lambda>f slot u. map_option (\<lambda>slot. (slot, u)) (pb_field_set_to_default def env f slot)) g s u = Some (s', u) \<and>
    group_ok env g s' \<and> group_ptrs env g s' = 0"
proof -
  obtain k data where s: "s = Slot k data" by (cases s)
  have depth: "\<forall>x \<in> set data. item_depth x \<le> n" using assms(5) by (simp add: s slot_depth_le del: slot_depth.simps)
  show ?thesis
  proof (cases "\<forall>f \<in> set g. htype f = HT_ONEOF")
    case True
    have raw: "(\<forall>f \<in> set g. atype f = AT_STATIC) \<longrightarrow> (\<exists>x. data = [x])"
      using assms(3,4) True by (cases g) (auto simp: group_wf_def s slot_raw_def)
    obtain x where x: "visit_all (\<lambda>f slot u. map_option (\<lambda>slot. (slot, u)) (pb_field_set_to_default def env f slot)) g (Slot k data) u =
        Some (Slot 0 [x], u)" "(\<exists>f \<in> set g. atype f = AT_POINTER) \<longrightarrow> x = Ptr_item None"
      using default_union [OF True _ raw, of "def" env k u] assms(3) unfolding group_wf_def by blast
    have nz: "tag f \<noteq> 0" if "f \<in> set g" for f using that assms(3) by (auto simp: group_wf_def field_wf_def)
    have "slot_ok (struct_ok env) env f (Slot 0 [x])" if "f \<in> set g" for f
      using that x(2) True nz [OF that] by (cases "atype f") (auto simp: slot_ok_def)
    moreover have "group_ptrs env g (Slot 0 [x]) = 0" unfolding group_ptrs_def using True nz by (intro union_none) auto
    ultimately show ?thesis using x(1) by (auto simp: s group_ok_def)
  next
    case False
    then obtain f where g: "g = [f]" "htype f \<noteq> HT_ONEOF" using assms(3) by (auto simp: group_wf_def)
    then show ?thesis using default_field_good [OF assms(1,2) _ _ depth g(2), of k] assms(3,4)
      by (auto simp: s group_wf_def group_ok_def group_ptrs_def)
  qed
qed

lemma each_group_some:
  assumes "list_all2 I gs ss"
    and "\<And>g s a. g \<in> set gs \<Longrightarrow> s \<in> set ss \<Longrightarrow> I g s \<Longrightarrow> \<exists>s'. visit g s a = Some (s', a) \<and> J g s'"
  shows "\<exists>ss'. each_group visit gs ss a = Some (ss', a) \<and> list_all2 J gs ss'"
  using assms
proof (induction gs ss rule: list_all2_induct)
  case (Cons g gs s ss)
  obtain s' where "visit g s a = Some (s', a)" "J g s'" using Cons.prems(1) [of g s a] Cons.hyps(1) by auto
  moreover have "\<exists>ss'. each_group visit gs ss a = Some (ss', a) \<and> list_all2 J gs ss'" using Cons.prems by (intro Cons.IH) auto
  ultimately show ?case by auto
qed simp

lemma struct_ok_zero_groups:
  assumes "flds \<noteq> []"
  shows "struct_ok env flds slots \<and> struct_ptrs env flds slots = 0 \<longleftrightarrow>
    list_all2 (\<lambda>g s. group_ok env g s \<and> group_ptrs env g s = 0) (groups flds) slots"
proof -
  have "list_all2 P gs ss \<and> sum_list (map2 h gs ss) = 0 \<longleftrightarrow> list_all2 (\<lambda>g s. P g s \<and> h g s = 0) gs ss"
    for P and h :: "pb_field list \<Rightarrow> pb_slot \<Rightarrow> nat" and gs ss
    by (induction gs ss rule: list_induct2') auto
  then show ?thesis unfolding struct_ok_groups [OF assms] struct_ptrs_sum [of env flds] by blast
qed

lemma empty_raw_ok: "struct_raw env [] slots \<Longrightarrow> struct_ok env [] slots \<and> struct_ptrs env [] slots = 0"
  by (auto simp: struct_raw_iff [of env "[]"] struct_ok_iff [of env "[]"] struct_ptrs.simps field_groups_def slot_raw_def slot_ok_def
      PB_LAST_FIELD_def datum_ok_def list_all2_Cons1 split: pb_slot.splits)

lemma defaults_nested_good: "env_wf env \<Longrightarrow> def_good env n (defaults_nested n env)"
proof (induction n)
  case (Suc n)
  show ?case
    unfolding def_good_def
  proof (intro allI impI)
    fix flds slots
    assume wf: "fields_wf env flds" and raw: "struct_raw env flds slots" and depth: "struct_depth slots < Suc n"
    show "\<exists>slots'. defaults_nested (Suc n) env flds slots = Some slots' \<and> struct_ok env flds slots' \<and> struct_ptrs env flds slots' = 0"
    proof (cases "flds = []")
      case True
      then show ?thesis using raw empty_raw_ok by simp
    next
      case False
      let ?visit = "\<lambda>f slot u :: unit. map_option (\<lambda>slot. (slot, u)) (pb_field_set_to_default (defaults_nested n env) env f slot)"
      have "\<exists>slots'. each_group (visit_all ?visit) (groups flds) slots () = Some (slots', ()) \<and>
        list_all2 (\<lambda>g s. group_ok env g s \<and> group_ptrs env g s = 0) (groups flds) slots'"
      proof (rule each_group_some)
        show "list_all2 (\<lambda>g s. \<forall>f \<in> set g. slot_raw (struct_raw env) env f s) (groups flds) slots"
          using raw False by (simp add: struct_raw_iff [of env flds] field_groups_def)
        fix g s a
        assume gs: "g \<in> set (groups flds)" "s \<in> set slots" "\<forall>f \<in> set g. slot_raw (struct_raw env) env f s"
        have "slot_depth s \<le> n" using depth gs(2) struct_depth_le [of slots n] by simp
        then show "\<exists>s'. visit_all ?visit g s a = Some (s', a) \<and> (group_ok env g s' \<and> group_ptrs env g s' = 0)"
          using Suc gs fields_groups_wf [OF wf] by (intro default_group_good) auto
      qed
      then show ?thesis unfolding struct_ok_zero_groups [OF False, symmetric] by (auto simp: each_slot_groups)
    qed
  qed
qed (simp add: def_good_def)

lemma defaults_good:
  assumes "env_wf env" "fields_wf env flds" "struct_raw env flds slots"
  shows "\<exists>slots'. pb_message_set_to_defaults env flds slots = Some slots' \<and> struct_ok env flds slots' \<and> struct_ptrs env flds slots' = 0"
  using defaults_nested_good [OF assms(1), of "Suc (struct_depth slots)"] assms(2,3)
  unfolding def_good_def pb_message_set_to_defaults_def by simp

text \<open>What owns nothing may be decoded into.\<close>

lemma datum_raw:
  assumes "datum_ok (\<lambda>fs sl. struct_ok env fs sl \<and> (struct_ptrs env fs sl = 0 \<longrightarrow> struct_raw env fs sl)) env f x"
    "datum_ptrs (struct_ptrs env) env f x = 0"
  shows "datum_ok (struct_raw env) env f x" "datum_ok (struct_ok env) env f x"
  using assms by (auto simp: datum_ok_def datum_ptrs_def split: pb_ltype.splits pb_item.splits)

lemma slot_raw_good:
  assumes "slot_ok (\<lambda>fs sl. struct_ok env fs sl \<and> (struct_ptrs env fs sl = 0 \<longrightarrow> struct_raw env fs sl)) env f s"
    "slot_ptrs (struct_ptrs env) env f s = 0"
  shows "slot_raw (struct_raw env) env f s"
proof -
  obtain k data where s: "s = Slot k data" by (cases s)
  show ?thesis
  proof (cases "atype f")
    case AT_STATIC
    show ?thesis
    proof (cases "htype f = HT_REPEATED")
      case True
      have "datum_ptrs (struct_ptrs env) env f x = 0" if "x \<in> set data" for x
      proof -
        from that have "x \<in> set (take (unat k) data) \<or> x \<in> set (drop (unat k) data)"
          by (metis append_take_drop_id Un_iff set_append)
        then show ?thesis using True AT_STATIC assms by (auto simp: s slot_ok_def slot_ptrs_def)
      qed
      then show ?thesis using True AT_STATIC assms(1) datum_raw(2) by (simp add: s slot_ok_def slot_raw_def)
    next
      case False
      then show ?thesis using AT_STATIC assms datum_raw(1) [of env f]
        by (cases "htype f = HT_ONEOF") (auto simp: s slot_ok_def slot_raw_def slot_ptrs_def)
    qed
  qed (simp add: slot_raw_def s)
qed

lemma struct_ok_raw: "struct_ok env flds slots \<Longrightarrow> struct_ptrs env flds slots = 0 \<longrightarrow> struct_raw env flds slots"
proof (induction rule: struct_ok.induct)
  case (1 flds slots)
  show ?case
  proof
    assume zero: "struct_ptrs env flds slots = 0"
    show "struct_raw env flds slots"
    proof (cases "flds = []")
      case True
      then show ?thesis using 1
        by (auto simp: struct_raw_iff [of env "[]"] field_groups_def list_all2_Cons1 slot_ok_def slot_raw_def PB_LAST_FIELD_def datum_ok_def split: pb_slot.splits)
    next
      case False
      have "list_all2 (\<lambda>g s. group_ptrs env g s = 0) (groups flds) slots"
      proof -
        have "length (groups flds) = length slots" using 1 False by (auto dest: list_all2_lengthD simp: field_groups_def)
        moreover have "\<forall>n \<in> set (map2 (group_ptrs env) (groups flds) slots). n = 0" using zero by (simp add: struct_ptrs_sum)
        ultimately show ?thesis by (auto simp: list_all2_iff)
      qed
      with 1 False have "list_all2 (\<lambda>g s. \<forall>f \<in> set g. slot_raw (struct_raw env) env f s) (groups flds) slots"
        by (auto simp: list_all2_conv_all_nth field_groups_def group_ptrs_def intro!: slot_raw_good)
      then show ?thesis using False by (simp add: struct_raw_iff [of env flds] field_groups_def)
    qed
  qed
qed

lemma struct_ok_fresh: "struct_ok env flds slots \<Longrightarrow> struct_ptrs env flds slots = 0 \<Longrightarrow> struct_raw env flds slots"
  using struct_ok_raw by blast

end
