(* ===== verification/Pb_Contract.thy ===== *)
theory Pb_Contract
  imports Pb_Advance Pb_Defaults
begin

text \<open>
  Protocol buffers: the contract of the decoders of \<open>nanopb/pb_decode.c\<close>, and that the decoders of single values, of entries of
  arrays and of what pointers point to meet it.
\<close>

section \<open>The contract\<close>

lemma ex_ok [simp]: "(\<exists>ok. ok \<and> P ok) \<longleftrightarrow> P True" "(\<exists>ok. \<not> ok \<and> P ok) \<longleftrightarrow> P False" "\<exists>ok. ok" "\<exists>ok. \<not> ok"
  by (metis (full_types))+

text \<open>
  On a place that owns \<open>m\<close> blocks and a stream with fewer than \<open>n\<close> bytes left the operation returns; the stream has only moved
  on, the place is then as \<open>S\<close> says and the number of blocks allocated has changed as that of the blocks the place owns.\<close>

definition dec_safe :: "nat \<Rightarrow> (bool \<Rightarrow> 'x \<Rightarrow> bool) \<Rightarrow> ('x \<Rightarrow> nat) \<Rightarrow> nat \<Rightarrow> ('x, 'i) dec \<Rightarrow> 'x \<Rightarrow> bool" where
  "dec_safe n S own m work x \<longleftrightarrow> (\<forall>d. in_ok (stream d) \<longrightarrow> bytes_left (stream d) < n \<longrightarrow>
     (\<exists>ok x' d'. work x d = Some (ok, x', d') \<and> S ok x' \<and> advanced (stream d) (stream d') \<and> live d' + int m = live d + int (own x')))"

lemma dec_safeD:
  assumes "dec_safe n S own m work x" "in_ok (stream d)" "bytes_left (stream d) < n"
  obtains ok x' d' where "work x d = Some (ok, x', d')" "S ok x'" "advanced (stream d) (stream d')" "live d' + int m = live d + int (own x')"
  using assms unfolding dec_safe_def by blast

lemma dec_safe_weaken:
  assumes "dec_safe n S own m work x" "\<And>ok x'. S ok x' \<Longrightarrow> S' ok x' \<and> own' x' + m = own x' + m'"
  shows "dec_safe n S' own' m' work x"
  unfolding dec_safe_def
proof (intro allI impI)
  fix d :: "'b dstate"
  assume "in_ok (stream d)" "bytes_left (stream d) < n"
  then obtain ok x' d' where r: "work x d = Some (ok, x', d')" "S ok x'" "advanced (stream d) (stream d')"
    "live d' + int m = live d + int (own x')" by (rule dec_safeD [OF assms(1)])
  moreover have "own' x' + m = own x' + m'" using assms(2) [OF r(2)] by blast
  then have "int (own' x') + int m = int (own x') + int m'" by linarith
  ultimately have "live d' + int m' = live d + int (own' x')" by linarith
  with r assms(2) [OF r(2)] show "\<exists>ok x' d'. work x d = Some (ok, x', d') \<and> S' ok x' \<and> advanced (stream d) (stream d') \<and>
      live d' + int m' = live d + int (own' x')" by blast
qed

lemma dec_safe_error: "S False x \<Longrightarrow> own x = m \<Longrightarrow> dec_safe n S own m (dec_error msg) x"
  by (simp add: dec_safe_def dec_error_def set_error_def)

lemma dec_safe_store: "S True y \<Longrightarrow> own y = m \<Longrightarrow> dec_safe n S own m (dec_store y) x"
  by (simp add: dec_safe_def dec_store_def)

lemma dec_safe_read:
  fixes rd :: "('a, 'i) inp" and k :: "'a \<Rightarrow> ('x, 'i) dec"
  assumes "reader rd" "S False x" "own x = m" "\<And>v. dec_safe n S own m (k v) x"
  shows "dec_safe n S own m (dec_read rd k) x"
  unfolding dec_safe_def
proof (intro allI impI)
  fix d :: "'i dstate"
  assume ok: "in_ok (stream d)" and left: "bytes_left (stream d) < n"
  obtain r t where r: "rd (stream d) = (r, t)" by (cases "rd (stream d)")
  have t: "advanced (stream d) t" by (rule readerD [OF assms(1) r ok])
  show "\<exists>ok x' d'. dec_read rd k x d = Some (ok, x', d') \<and> S ok x' \<and> advanced (stream d) (stream d') \<and> live d' + int m = live d + int (own x')"
  proof (cases r)
    case (Some v)
    have "in_ok (stream (d\<lparr>stream := t\<rparr>))" "bytes_left (stream (d\<lparr>stream := t\<rparr>)) < n"
      using advanced_ok [OF ok t] advanced_left [OF t] left by simp_all
    from dec_safeD [OF assms(4) [of v] this] show ?thesis
      using advanced_trans [OF t] by (fastforce simp: dec_read_def r Some)
  qed (use t assms(2,3) in \<open>simp add: dec_read_def r\<close>)
qed

lemma dec_safe_then:
  assumes "dec_safe n S own m a x" "\<And>x'. S True x' \<Longrightarrow> dec_safe n S' own' (own x') b x'"
    "\<And>x'. S False x' \<Longrightarrow> S' False x' \<and> own' x' = own x'"
  shows "dec_safe n S' own' m (dec_then a b) x"
  unfolding dec_safe_def
proof (intro allI impI)
  fix d :: "'b dstate"
  assume ok: "in_ok (stream d)" and left: "bytes_left (stream d) < n"
  then obtain r x' d' where a: "a x d = Some (r, x', d')" "S r x'" "advanced (stream d) (stream d')"
    "live d' + int m = live d + int (own x')" by (rule dec_safeD [OF assms(1)])
  show "\<exists>ok x' d'. dec_then a b x d = Some (ok, x', d') \<and> S' ok x' \<and> advanced (stream d) (stream d') \<and> live d' + int m = live d + int (own' x')"
  proof (cases r)
    case True
    have "in_ok (stream d')" "bytes_left (stream d') < n" using advanced_ok [OF ok a(3)] advanced_left [OF a(3)] left by simp_all
    moreover have "S True x'" using a(2) True by simp
    ultimately obtain r2 y d2 where b: "b x' d' = Some (r2, y, d2)" "S' r2 y" "advanced (stream d') (stream d2)"
      "live d2 + int (own x') = live d' + int (own' y)" using dec_safeD [OF assms(2)] by metis
    then show ?thesis using a True advanced_trans [OF a(3) b(3)] by (simp add: dec_then_def)
  next
    case False
    then show ?thesis using a assms(3) [of x'] by (simp add: dec_then_def)
  qed
qed

lemma dec_safe_eq: "dec_safe n S own m work' x \<Longrightarrow> (\<And>d. work x d = work' x d) \<Longrightarrow> dec_safe n S own m work x"
  by (simp add: dec_safe_def)

lemma dec_safe_if:
  assumes "\<And>d. c x d \<Longrightarrow> dec_safe n S own m a x" "\<And>d. \<not> c x d \<Longrightarrow> dec_safe n S own m b x"
  shows "dec_safe n S own m (\<lambda>x d. if c x d then a x d else b x d) x"
  using assms unfolding dec_safe_def by (metis (full_types))

text \<open>An operation on a part of a place; \<open>whole\<close> is the place around the part.\<close>

lemma dec_safe_part:
  assumes "dec_safe n S own m work y"
    and "\<And>d. whole_work x d = map_option (\<lambda>(ok, y, d). (ok, whole y, d)) (work y d)"
    and "\<And>ok y. S ok y \<Longrightarrow> S' ok (whole y) \<and> own' (whole y) + m = own y + m'"
  shows "dec_safe n S' own' m' whole_work x"
  unfolding dec_safe_def
proof (intro allI impI)
  fix d :: "'b dstate"
  assume "in_ok (stream d)" "bytes_left (stream d) < n"
  then obtain ok y' d' where r: "work y d = Some (ok, y', d')" "S ok y'" "advanced (stream d) (stream d')"
    "live d' + int m = live d + int (own y')" by (rule dec_safeD [OF assms(1)])
  have "own' (whole y') + m = own y' + m'" using assms(3) [OF r(2)] by blast
  then have "int (own' (whole y')) + int m = int (own y') + int m'" by linarith
  with r(4) have "live d' + int m' = live d + int (own' (whole y'))" by linarith
  then show "\<exists>ok x' d'. whole_work x d = Some (ok, x', d') \<and> S' ok x' \<and> advanced (stream d) (stream d') \<and> live d' + int m' = live d + int (own' x')"
    using r(1,3) assms(2) [of d] assms(3) [OF r(2)] by simp
qed

lemma on_item_part: "i < length items \<Longrightarrow> on_item i work items d = map_option (\<lambda>(ok, y, d). (ok, items[i := y], d)) (work (items ! i) d)"
  by (cases "work (items ! i) d") (auto simp: on_item_def)

lemma on_data_part: "on_data work (Slot n data) d = map_option (\<lambda>(ok, data, d). (ok, Slot n data, d)) (work data d)"
  by (cases "work data d") (auto simp: on_data_def)

lemma on_block_part: "on_block work (Ptr_item (Some block)) d = map_option (\<lambda>(ok, block, d). (ok, Ptr_item (Some block), d)) (work block d)"
  by (cases "work block d") (auto simp: on_block_def)

lemma dec_safe_item:
  assumes "dec_safe n S own m work (items ! i)" "i < length items"
    and "\<And>ok y. S ok y \<Longrightarrow> S' ok (items[i := y]) \<and> own' (items[i := y]) + m = own y + m'"
  shows "dec_safe n S' own' m' (on_item i work) items"
  by (rule dec_safe_part [OF assms(1), where whole = "\<lambda>y. items[i := y]"]) (simp_all only: on_item_part assms)

lemma dec_safe_data:
  assumes "dec_safe n S own m work data" "\<And>ok y. S ok y \<Longrightarrow> S' ok (Slot k y) \<and> own' (Slot k y) + m = own y + m'"
  shows "dec_safe n S' own' m' (on_data work) (Slot k data)"
  by (rule dec_safe_part [OF assms(1), where whole = "Slot k"]) (simp_all only: on_data_part assms)

lemma dec_safe_block:
  assumes "dec_safe n S own m work block" "\<And>ok y. S ok y \<Longrightarrow> S' ok (Ptr_item (Some y)) \<and> own' (Ptr_item (Some y)) + m = own y + m'"
  shows "dec_safe n S' own' m' (on_block work) (Ptr_item (Some block))"
  by (rule dec_safe_part [OF assms(1), where whole = "\<lambda>b. Ptr_item (Some b)"]) (simp_all only: on_block_part assms)

section \<open>Reading and allocating\<close>

lemma read_into_safe: "count \<le> length buf \<Longrightarrow> dec_safe n (\<lambda>_ buf'. length buf' = length buf) (\<lambda>_. 0) 0 (read_into count) buf"
  unfolding dec_safe_def
proof (intro allI impI)
  fix d :: "'a dstate"
  assume count: "count \<le> length buf" and ok: "in_ok (stream d)"
  obtain r t where r: "pb_read count (stream d) = (r, t)" by (cases "pb_read count (stream d)")
  have t: "advanced (stream d) t" by (rule readerD [OF reader_read r ok])
  show "\<exists>ok x' d'. read_into count buf d = Some (ok, x', d') \<and> length x' = length buf \<and> advanced (stream d) (stream d') \<and>
      live d' + int 0 = live d + int 0"
  proof (cases r)
    case (Some bs)
    then have "length bs = count" using read_length [OF ok] r by blast
    then show ?thesis using t count Some by (simp add: read_into_def r)
  qed (use t count in \<open>simp add: read_into_def r ex_ok\<close>)
qed

definition block_count :: "pb_item \<Rightarrow> nat" where
  "block_count x = (if item_block x = None then 0 else 1)"

lemma block_count_Ptr [simp]: "block_count (Ptr_item None) = 0" "block_count (Ptr_item (Some b)) = 1"
  by (simp_all add: block_count_def)

definition grown :: "(pb_item list \<Rightarrow> pb_item list) \<Rightarrow> pb_item list option \<Rightarrow> pb_item" where
  "grown grow p = Ptr_item (Some (grow (case p of None \<Rightarrow> [] | Some old \<Rightarrow> old)))"

lemma allocate_safe:
  "dec_safe n (\<lambda>ok x. x = (if ok then grown grow p else Ptr_item p)) block_count (block_count (Ptr_item p)) (allocate_field env grow size_of_item k) (Ptr_item p)"
  by (cases p) (auto simp: dec_safe_def allocate_field_def dec_error_def set_error_def Let_def grown_def)

section \<open>Values in place\<close>

abbreviation datum_safe :: "nat \<Rightarrow> pb_env \<Rightarrow> pb_field \<Rightarrow> (pb_item, 'i) dec \<Rightarrow> pb_item \<Rightarrow> bool" where
  "datum_safe n env f work x \<equiv> dec_safe n (\<lambda>_. datum_ok (struct_ok env) env f) (datum_ptrs (struct_ptrs env) env f)
     (datum_ptrs (struct_ptrs env) env f x) work x"

lemma size_add_4: "size_add (unat (n :: u32)) 4 = unat n + 4"
  using unat_u32_less [of n] by (intro size_add_eq) (simp del: unat_u32_less)

lemma store_bytes_safe:
  "unat n \<le> length bs \<Longrightarrow> dec_safe b (\<lambda>_ x. \<exists>bs'. x = Bytes_item n bs' \<and> length bs' = length bs) (\<lambda>_. 0) 0 (store_bytes n) (Bytes_item k bs)"
  by (rule dec_safe_part [OF read_into_safe, where whole = "Bytes_item n"]) (auto simp: store_bytes_def map_option_case split_def split: option.split)

lemma store_chars_safe:
  assumes "n < length cs"
  shows "dec_safe b (\<lambda>_ x. \<exists>cs'. x = Chars_item cs' \<and> length cs' = length cs \<and> 0 \<in> set cs') (\<lambda>_. 0) 0 (store_chars n) (Chars_item cs)"
  unfolding dec_safe_def
proof (intro allI impI)
  fix d :: "'a dstate"
  assume "in_ok (stream d)" "bytes_left (stream d) < b"
  then obtain ok cs' d' where r: "read_into n cs d = Some (ok, cs', d')" "length cs' = length cs" "advanced (stream d) (stream d')"
    "live d' + int 0 = live d + int 0" by (rule dec_safeD [OF read_into_safe [OF less_imp_le [OF assms]]]) auto
  moreover have "0 \<in> set (cs'[n := 0])" using r(2) assms by (auto intro: set_update_memI)
  ultimately show "\<exists>ok x' d'. store_chars n (Chars_item cs) d = Some (ok, x', d') \<and>
      (\<exists>cs'. x' = Chars_item cs' \<and> length cs' = length cs \<and> 0 \<in> set cs') \<and> advanced (stream d) (stream d') \<and> live d' + int 0 = live d + int 0"
    using assms by (auto simp: store_chars_def)
qed

lemma store_clamped_safe:
  assumes "ltype f \<in> {LT_VARINT, LT_UVARINT, LT_SVARINT}" "datum_ok (struct_ok env) env f x"
  shows "datum_safe n env f (store_clamped f c v) x"
proof -
  have "datum_ok (struct_ok env) env f (Word_item (take_bit (8 * data_size f) c))"
    using assms(1) by (auto simp: datum_ok_def word_item_ok_def)
  moreover have "datum_ptrs (struct_ptrs env) env f y = 0" for y using assms(1) by (auto simp: datum_ptrs_def)
  ultimately show ?thesis using assms(2)
    by (auto simp: dec_safe_def store_clamped_def dec_error_def dec_store_def set_error_def)
qed

lemma datum_read_safe:
  assumes "reader rd" "datum_ok (struct_ok env) env f x" "\<And>v. datum_safe n env f (k v) x"
  shows "datum_safe n env f (dec_read rd k) x"
  using assms by (intro dec_safe_read) auto

lemma words_safe:
  assumes "datum_ok (struct_ok env) env f x"
  shows "ltype f = LT_BOOL \<Longrightarrow> datum_safe n env f pb_dec_bool_field x"
    and "ltype f = LT_VARINT \<Longrightarrow> datum_safe n env f (pb_dec_varint f) x"
    and "ltype f = LT_UVARINT \<Longrightarrow> datum_safe n env f (pb_dec_uvarint f) x"
    and "ltype f = LT_SVARINT \<Longrightarrow> datum_safe n env f (pb_dec_svarint f) x"
    and "ltype f = LT_FIXED32 \<Longrightarrow> datum_safe n env f pb_dec_fixed32 x"
    and "ltype f = LT_FIXED64 \<Longrightarrow> datum_safe n env f pb_dec_fixed64 x"
proof -
  show "datum_safe n env f pb_dec_bool_field x" if "ltype f = LT_BOOL"
    unfolding pb_dec_bool_field_def
    by (rule datum_read_safe [OF _ assms]; (simp add: readers)?)
      (rule dec_safe_store; simp add: that datum_ok_def datum_ptrs_def word_item_ok_def take_bit_word_eq_self unsigned_take_bit_eq [symmetric])
  show "datum_safe n env f (pb_dec_varint f) x" if "ltype f = LT_VARINT"
    unfolding pb_dec_varint_def Let_def
    by (rule datum_read_safe [OF _ assms]; (simp add: readers)?)
      (simp add: store_clamped_safe [OF _ assms] that)
  show "datum_safe n env f (pb_dec_uvarint f) x" if "ltype f = LT_UVARINT"
    unfolding pb_dec_uvarint_def Let_def
    by (rule datum_read_safe [OF _ assms]; (simp add: readers)?)
      (simp add: store_clamped_safe [OF _ assms] that)
  show "datum_safe n env f (pb_dec_svarint f) x" if "ltype f = LT_SVARINT"
    unfolding pb_dec_svarint_def Let_def
    by (rule datum_read_safe [OF _ assms]; (simp add: readers)?)
      (simp add: store_clamped_safe [OF _ assms] that)
  show "datum_safe n env f pb_dec_fixed32 x" if "ltype f = LT_FIXED32"
    unfolding pb_dec_fixed32_def
    by (rule datum_read_safe [OF _ assms]; (simp add: readers)?)
      (rule dec_safe_store; simp add: that datum_ok_def datum_ptrs_def word_item_ok_def take_bit_word_eq_self unsigned_take_bit_eq [symmetric])
  show "datum_safe n env f pb_dec_fixed64 x" if "ltype f = LT_FIXED64"
    unfolding pb_dec_fixed64_def
    by (rule datum_read_safe [OF _ assms]; (simp add: readers)?)
      (rule dec_safe_store; simp add: that datum_ok_def datum_ptrs_def word_item_ok_def take_bit_word_eq_self unsigned_take_bit_eq [symmetric])
qed

lemma bytes_in_place_safe:
  assumes "ltype f = LT_BYTES" "atype f \<noteq> AT_POINTER" "datum_ok (struct_ok env) env f x"
  shows "datum_safe n env f (pb_dec_bytes env f) x"
  unfolding pb_dec_bytes_def Let_def PB_BYTES_ARRAY_T_ALLOCSIZE_def size_add_4
proof (rule datum_read_safe [OF reader_varint32 assms(3)])
  fix v :: u32
  obtain k bs where x: "x = Bytes_item k bs" "length bs + 4 = data_size f"
    using assms(1,3) by (auto simp: datum_ok_def split: pb_item.splits)
  have ptrs: "datum_ptrs (struct_ptrs env) env f y = 0" for y using assms(1) by (simp add: datum_ptrs_def)
  have store: "datum_safe n env f (store_bytes v) x" if "unat v \<le> length bs"
    by (rule dec_safe_weaken [OF store_bytes_safe [OF that, of n k, folded x(1)]]) (use x assms(1) ptrs in \<open>auto simp: datum_ok_def\<close>)
  have err: "datum_safe n env f (dec_error msg) x" for msg by (rule dec_safe_error) (simp_all add: assms)
  show "datum_safe n env f (\<lambda>dest d. if PB_SIZE_MAX < v then dec_error ''bytes overflow'' dest d
      else if unat v + 4 < unat v then dec_error ''size too large'' dest d
      else if atype f = AT_POINTER then
        if bytes_left (stream d) < unat v then dec_error ''end-of-stream'' dest d
        else dec_then (allocate_field env (\<lambda>old. [Bytes_item v (grow_bytes env (unat v) (block_bytes old))]) (unat v + 4) 1)
          (on_block (on_item 0 (store_bytes v))) dest d
      else if data_size f < unat v + 4 then dec_error ''bytes overflow'' dest d
      else store_bytes v dest d) x"
    using err store assms(2) x(2) by (cases "data_size f < unat v + 4"; cases "PB_SIZE_MAX < v") simp_all
qed

lemma string_in_place_safe:
  assumes "ltype f = LT_STRING" "atype f \<noteq> AT_POINTER" "datum_ok (struct_ok env) env f x"
  shows "datum_safe n env f (pb_dec_string env f) x"
  unfolding pb_dec_string_def Let_def
proof (rule datum_read_safe [OF reader_varint32 assms(3)])
  fix v :: u32
  obtain cs where x: "x = Chars_item cs" "length cs = data_size f"
    using assms(1,3) by (auto simp: datum_ok_def chars_ok_def split: pb_item.splits)
  have ptrs: "datum_ptrs (struct_ptrs env) env f y = 0" for y using assms(1) by (simp add: datum_ptrs_def)
  have store: "datum_safe n env f (store_chars (unat v)) x" if "unat v < length cs"
    by (rule dec_safe_weaken [OF store_chars_safe [OF that, of n, folded x(1)]]) (use x assms(1) ptrs in \<open>auto simp: datum_ok_def chars_ok_def\<close>)
  have err: "datum_safe n env f (dec_error msg) x" for msg by (rule dec_safe_error) (simp_all add: assms)
  have up: "unat v < length cs" if "\<not> unat (v + 1) < unat v" "\<not> data_size f < unat (v + 1)"
  proof -
    have "v \<noteq> PB_SIZE_MAX" using that(1) by auto
    then show ?thesis using count_up_max [of v] that(2) x(2) by simp
  qed
  show "datum_safe n env f (\<lambda>dest d. if unat (v + 1) < unat v then dec_error ''size too large'' dest d
      else if atype f = AT_POINTER then
        if bytes_left (stream d) < unat v then dec_error ''end-of-stream'' dest d
        else dec_then (allocate_field env (\<lambda>old. [Chars_item (grow_bytes env (unat (v + 1)) (block_bytes old))]) (unat (v + 1)) 1)
          (on_block (on_item 0 (store_chars (unat v)))) dest d
      else if data_size f < unat (v + 1) then dec_error ''string overflow'' dest d
      else store_chars (unat v) dest d) x"
    using err store up assms(2) by (cases "data_size f < unat (v + 1)"; cases "unat (v + 1) < unat v") simp_all
qed

lemma fixed_length_safe:
  assumes "ltype f = LT_FIXED_LENGTH_BYTES" "datum_ok (struct_ok env) env f x"
  shows "datum_safe n env f (pb_dec_fixed_length_bytes f) x"
  unfolding pb_dec_fixed_length_bytes_def
proof (rule datum_read_safe [OF reader_varint32 assms(2)])
  fix v :: u32
  obtain cs where x: "x = Chars_item cs" "length cs = data_size f"
    using assms by (auto simp: datum_ok_def chars_ok_def split: pb_item.splits)
  have ptrs: "datum_ptrs (struct_ptrs env) env f y = 0" for y using assms(1) by (simp add: datum_ptrs_def)
  have good: "datum_ok (struct_ok env) env f (Chars_item cs')" if "length cs' = data_size f" for cs'
    using assms(1) that by (simp add: datum_ok_def chars_ok_def)
  have all: "datum_safe n env f (\<lambda>_ d. do { (ok, cs, d) \<leftarrow> read_into (data_size f) cs d; Some (ok, Chars_item cs, d) }) x"
    by (rule dec_safe_part [OF read_into_safe [of "data_size f" cs], where whole = Chars_item])
      (use x good ptrs in \<open>auto simp: map_option_case split_def split: option.split\<close>)
  have err: "datum_safe n env f (dec_error msg) x" for msg by (rule dec_safe_error) (simp_all add: assms)
  have zero: "datum_safe n env f (dec_store (Chars_item (replicate (data_size f) 0))) x"
    by (rule dec_safe_store) (simp_all add: good ptrs)
  show "datum_safe n env f (\<lambda>dest d. case dest of
       Chars_item cs \<Rightarrow>
         if PB_SIZE_MAX < v then dec_error ''bytes overflow'' dest d
         else if v = 0 then dec_store (Chars_item (replicate (data_size f) 0)) dest d
         else if unat v \<noteq> data_size f then dec_error ''incorrect fixed length bytes size'' dest d
         else do { (ok, cs, d) \<leftarrow> read_into (data_size f) cs d; Some (ok, Chars_item cs, d) }
     | _ \<Rightarrow> None) x"
  proof (cases "PB_SIZE_MAX < v")
    case False
    show ?thesis
    proof (cases "v = 0")
      case True
      then show ?thesis using False by (intro dec_safe_eq [OF zero]) (simp add: x(1))
    next
      case nz: False
      show ?thesis
      proof (cases "unat v = data_size f")
        case True
        then show ?thesis using False nz by (intro dec_safe_eq [OF all]) (simp add: x(1))
      next
        case other: False
        show ?thesis by (rule dec_safe_eq [OF err [of "''incorrect fixed length bytes size''"]]) (use False nz other in \<open>simp add: x(1)\<close>)
      qed
    qed
  next
    case True
    show ?thesis by (rule dec_safe_eq [OF err [of "''bytes overflow''"]]) (use True in \<open>simp add: x(1)\<close>)
  qed
qed

end
