(* ===== verification/Pb_Fields.thy ===== *)
theory Pb_Fields
  imports Pb_Contract
begin

text \<open>
  Protocol buffers: the decoders of fields meet the contract, for submessages, for fields in place and for fields behind pointers,
  if the decoder of messages does.
\<close>

section \<open>Pointers to bytes and strings\<close>

abbreviation pointer_safe :: "nat \<Rightarrow> pb_env \<Rightarrow> pb_field \<Rightarrow> (pb_item, 'i) dec \<Rightarrow> pb_item \<Rightarrow> bool" where
  "pointer_safe n env f work x \<equiv> dec_safe n (\<lambda>_. pointer_ok (struct_ok env) env f) block_count (block_count x) work x"

lemma pointer_okE: "pointer_ok P env f x \<Longrightarrow> (\<And>p. x = Ptr_item p \<Longrightarrow> thesis) \<Longrightarrow> thesis"
  by (auto simp: pointer_ok_def split: pb_item.splits)

lemma pointer_read_safe:
  assumes "reader rd" "pointer_ok (struct_ok env) env f x" "\<And>v. pointer_safe n env f (k v) x"
  shows "pointer_safe n env f (dec_read rd k) x"
  using assms by (intro dec_safe_read) auto

lemma grow_then_safe:
  assumes "pointer_ok (struct_ok env) env f x" "\<And>old. grow old = [new old]"
    and "\<And>old. dec_safe n (\<lambda>_ y. block_ok (struct_ok env) env f [y]) (\<lambda>_. 0) 0 work (new old)"
  shows "pointer_safe n env f (dec_then (allocate_field env grow sz k) (on_block (on_item 0 work))) x"
proof -
  obtain p where x: "x = Ptr_item p" using assms(1) by (rule pointer_okE)
  show ?thesis
    unfolding x
  proof (rule dec_safe_then [OF allocate_safe])
    fix x'
    assume "x' = (if True then grown grow p else Ptr_item p)"
    then obtain y where y: "x' = Ptr_item (Some [y])" "dec_safe n (\<lambda>_ y. block_ok (struct_ok env) env f [y]) (\<lambda>_. 0) 0 work y"
      using assms(2,3) by (auto simp: grown_def)
    have "dec_safe n (\<lambda>_ ys. \<exists>y. ys = [y] \<and> block_ok (struct_ok env) env f [y]) (\<lambda>_. 0) 0 (on_item 0 work) [y]"
      by (rule dec_safe_part [OF y(2), where whole = "\<lambda>y. [y]"]) (simp_all add: on_item_part)
    then show "pointer_safe n env f (on_block (on_item 0 work)) x'"
      unfolding y(1) by (rule dec_safe_block) (auto simp: pointer_ok_def)
  qed (use assms(1) x in simp)
qed

lemma bytes_pointer_safe:
  assumes "ltype f = LT_BYTES" "atype f = AT_POINTER" "pointer_ok (struct_ok env) env f x"
  shows "pointer_safe n env f (pb_dec_bytes env f) x"
  unfolding pb_dec_bytes_def Let_def PB_BYTES_ARRAY_T_ALLOCSIZE_def size_add_4
proof (rule pointer_read_safe [OF reader_varint32 assms(3)])
  fix v :: u32
  have err: "pointer_safe n env f (dec_error msg) x" for msg by (rule dec_safe_error) (simp_all add: assms)
  let ?grow = "\<lambda>old. [Bytes_item v (grow_bytes env (unat v) (block_bytes old))]"
  have len: "length (grow_bytes env k bs) = k" for k bs by (simp add: grow_bytes_def)
  have "dec_safe n (\<lambda>_ y. block_ok (struct_ok env) env f [y]) (\<lambda>_. 0) 0 (store_bytes v) (Bytes_item v (grow_bytes env (unat v) (block_bytes old)))" for old
    using assms(1) by (intro dec_safe_weaken [OF store_bytes_safe]) (auto simp: block_ok_def len)
  then have grow: "pointer_safe n env f (dec_then (allocate_field env ?grow (unat v + 4) 1) (on_block (on_item 0 (store_bytes v)))) x"
    by (intro grow_then_safe [where new = "\<lambda>old. Bytes_item v (grow_bytes env (unat v) (block_bytes old))"] assms(3) refl)
  show "pointer_safe n env f (\<lambda>dest d. if PB_SIZE_MAX < v then dec_error ''bytes overflow'' dest d
      else if unat v + 4 < unat v then dec_error ''size too large'' dest d
      else if atype f = AT_POINTER then
        if bytes_left (stream d) < unat v then dec_error ''end-of-stream'' dest d
        else dec_then (allocate_field env ?grow (unat v + 4) 1) (on_block (on_item 0 (store_bytes v))) dest d
      else if data_size f < unat v + 4 then dec_error ''bytes overflow'' dest d
      else store_bytes v dest d) x"
    by (intro dec_safe_if err grow) (use assms(2) in simp_all)
qed

lemma string_pointer_safe:
  assumes "ltype f = LT_STRING" "atype f = AT_POINTER" "pointer_ok (struct_ok env) env f x"
  shows "pointer_safe n env f (pb_dec_string env f) x"
  unfolding pb_dec_string_def Let_def
proof (rule pointer_read_safe [OF reader_varint32 assms(3)])
  fix v :: u32
  have err: "pointer_safe n env f (dec_error msg) x" for msg by (rule dec_safe_error) (simp_all add: assms)
  let ?grow = "\<lambda>old. [Chars_item (grow_bytes env (unat (v + 1)) (block_bytes old))]"
  have grow: "pointer_safe n env f (dec_then (allocate_field env ?grow (unat (v + 1)) 1) (on_block (on_item 0 (store_chars (unat v))))) x"
    if "\<not> unat (v + 1) < unat v"
  proof -
    have "v \<noteq> PB_SIZE_MAX" using that by auto
    then have len: "unat v < length (grow_bytes env (unat (v + 1)) bs)" for bs using count_up_max [of v] by (simp add: grow_bytes_def)
    have "dec_safe n (\<lambda>_ y. block_ok (struct_ok env) env f [y]) (\<lambda>_. 0) 0 (store_chars (unat v))
        (Chars_item (grow_bytes env (unat (v + 1)) (block_bytes old)))" for old
      using assms(1) by (intro dec_safe_weaken [OF store_chars_safe [OF len]]) (auto simp: block_ok_def)
    then show ?thesis by (intro grow_then_safe [where new = "\<lambda>old. Chars_item (grow_bytes env (unat (v + 1)) (block_bytes old))"] assms(3) refl)
  qed
  show "pointer_safe n env f (\<lambda>dest d. if unat (v + 1) < unat v then dec_error ''size too large'' dest d
      else if atype f = AT_POINTER then
        if bytes_left (stream d) < unat v then dec_error ''end-of-stream'' dest d
        else dec_then (allocate_field env ?grow (unat (v + 1)) 1) (on_block (on_item 0 (store_chars (unat v)))) dest d
      else if data_size f < unat (v + 1) then dec_error ''string overflow'' dest d
      else store_chars (unat v) dest d) x"
    by (intro dec_safe_if err grow) (use assms(2) in simp_all)
qed

section \<open>Submessages\<close>

text \<open>What a decoder of messages owes; \<open>pb_decode\<close> does not look at what is there and leaves nothing allocated when it fails.\<close>

definition flat_fields :: "pb_field list \<Rightarrow> bool" where
  "flat_fields flds \<longleftrightarrow> (\<forall>f \<in> set flds. atype f = AT_STATIC \<and> htype f = HT_REPEATED \<longrightarrow> ltype f \<noteq> LT_SUBMESSAGE)"

definition env_flat :: "pb_env \<Rightarrow> bool" where
  "env_flat env \<longleftrightarrow> (\<forall>a. flat_fields (fields_at env a))"

abbreviation message_safe :: "nat \<Rightarrow> pb_env \<Rightarrow> bool \<Rightarrow> pb_field list \<Rightarrow> (pb_slot list, 'i) dec \<Rightarrow> pb_slot list \<Rightarrow> bool" where
  "message_safe n env init flds work slots \<equiv>
     dec_safe n (\<lambda>ok slots'. struct_ok env flds slots' \<and> (init \<and> \<not> ok \<longrightarrow> struct_ptrs env flds slots' = 0))
       (struct_ptrs env flds) (if init then 0 else struct_ptrs env flds slots) work slots"

definition k_good :: "pb_env \<Rightarrow> nat \<Rightarrow> 'i decoder \<Rightarrow> bool" where
  "k_good env n k \<longleftrightarrow> (\<forall>init flds slots. fields_wf env flds \<longrightarrow> flat_fields flds \<longrightarrow>
     (if init then struct_raw env flds slots else struct_ok env flds slots) \<longrightarrow> message_safe n env init flds (k init flds) slots)"

lemma close_errmsg:
  "pb_close_string_substream sub (t\<lparr>i_errmsg := m\<rparr>) = (q, u) \<Longrightarrow>
    \<exists>u0. pb_close_string_substream sub t = (q, u0) \<and> (u = u0 \<or> u = u0\<lparr>i_errmsg := m\<rparr>)"
  by (cases "bytes_left sub = 0") (auto simp: pb_close_string_substream_def split: prod.splits option.splits)

lemma close_safe:
  assumes "in_ok s" "pb_make_string_substream s = (Some sub, t)" "advanced sub (stream d)" "t' = t \<or> t' = t\<lparr>i_errmsg := m\<rparr>"
  shows "\<exists>ok u. close_substream t' status x d = Some (ok, x, d\<lparr>stream := u\<rparr>) \<and> (ok \<longrightarrow> status) \<and> advanced s u"
proof -
  obtain q u where u: "pb_close_string_substream (stream d) t' = (q, u)" by fastforce
  then obtain u0 where u0: "pb_close_string_substream (stream d) t = (q, u0)" "u = u0 \<or> u = u0\<lparr>i_errmsg := m\<rparr>"
    using assms(4) close_errmsg by blast
  have "advanced s u0" by (rule make_substream_advanced(3) [OF assms(1,2) refl assms(3) u0(1)])
  then have "advanced s u" using u0(2) by auto
  then show ?thesis by (cases q) (auto simp: close_substream_def u)
qed

lemma in_substream_safe:
  assumes "dec_safe n S own m work x" "S False x" "own x = m" "\<And>x'. S True x' \<Longrightarrow> S False x'"
  shows "dec_safe (Suc n) S own m (\<lambda>x d. case pb_make_string_substream (stream d) of
      (None, s) \<Rightarrow> Some (False, x, d\<lparr>stream := s\<rparr>)
    | (Some substream, s) \<Rightarrow> do { (status, x, d) \<leftarrow> work x (d\<lparr>stream := substream\<rparr>); close_substream s status x d }) x"
  unfolding dec_safe_def
proof (intro allI impI)
  fix d :: "'b dstate"
  assume ok: "in_ok (stream d)" and left: "bytes_left (stream d) < Suc n"
  obtain r t where r: "pb_make_string_substream (stream d) = (r, t)" by fastforce
  note t = make_substream_advanced [OF ok r]
  show "\<exists>ok x' d'. (case pb_make_string_substream (stream d) of
      (None, s) \<Rightarrow> Some (False, x, d\<lparr>stream := s\<rparr>)
    | (Some substream, s) \<Rightarrow> do { (status, x, d) \<leftarrow> work x (d\<lparr>stream := substream\<rparr>); close_substream s status x d }) = Some (ok, x', d') \<and>
    S ok x' \<and> advanced (stream d) (stream d') \<and> live d' + int m = live d + int (own x')"
  proof (cases r)
    case (Some sub)
    have sub: "in_ok (stream (d\<lparr>stream := sub\<rparr>))" "bytes_left (stream (d\<lparr>stream := sub\<rparr>)) < n" using t(2) [OF Some] left by simp_all
    obtain status x' d' where w: "work x (d\<lparr>stream := sub\<rparr>) = Some (status, x', d')" "S status x'" "advanced sub (stream d')"
      "live d' + int m = live d + int (own x')" by (rule dec_safeD [OF assms(1) sub]) auto
    from close_safe [OF ok r [unfolded Some] w(3) disjI1 [OF refl], of status x']
    obtain ok' u where u: "close_substream t status x' d' = Some (ok', x', d'\<lparr>stream := u\<rparr>)" "ok' \<longrightarrow> status" "advanced (stream d) u" by blast
    have "S ok' x'" using w(2) u(2) assms(4) by (cases ok'; cases status) auto
    then show ?thesis using u(1,3) w by (simp add: r Some)
  qed (use t(1) assms(2,3) in \<open>simp add: r\<close>)
qed

lemma submessage_safe:
  assumes "k_good env n k" "env_wf env" "env_flat env" "field_wf env f" "ltype f = LT_SUBMESSAGE"
    and "datum_ok (struct_ok env) env f x" "htype f = HT_REPEATED \<longrightarrow> datum_ptrs (struct_ptrs env) env f x = 0"
  shows "datum_safe (Suc n) env f (pb_dec_submessage k env f) x"
proof -
  note ptr = field_wf_submessage [OF assms(4,5)]
  have wf: "fields_wf env (fields_of env f)" "flat_fields (fields_of env f)"
    using env_fields_wf [OF assms(2) ptr] ptr assms(3) by (auto simp: env_flat_def fields_ptr_def fields_of_def split: pb_ptr.splits)
  obtain slots where x: "x = Struct_item slots" "struct_ok env (fields_of env f) slots"
    using assms(5,6) by (auto simp: datum_ok_def split: pb_item.splits)
  have ptrs: "datum_ptrs (struct_ptrs env) env f (Struct_item sl) = struct_ptrs env (fields_of env f) sl"
    "datum_ok (struct_ok env) env f (Struct_item sl) = struct_ok env (fields_of env f) sl" for sl
    using assms(5) by (simp_all add: datum_ptrs_def datum_ok_def)
  let ?init = "htype f = HT_REPEATED"
  have "message_safe n env ?init (fields_of env f) (k ?init (fields_of env f)) slots"
    using assms(1,7) wf x struct_ok_fresh unfolding k_good_def by (auto simp: ptrs)
  then have "dec_safe n (\<lambda>_. struct_ok env (fields_of env f)) (struct_ptrs env (fields_of env f))
      (struct_ptrs env (fields_of env f) slots) (k ?init (fields_of env f)) slots"
    by (rule dec_safe_weaken) (use assms(7) in \<open>auto simp: x(1) ptrs\<close>)
  then have "datum_safe n env f (\<lambda>x d. do { (ok, slots, d) \<leftarrow> k ?init (fields_of env f) (item_slots x) d; Some (ok, Struct_item slots, d) }) x"
    by (rule dec_safe_part [where whole = Struct_item]) (use x ptrs in \<open>auto simp: map_option_case split_def split: option.split\<close>)
  from in_substream_safe [OF this]
  have "datum_safe (Suc n) env f (\<lambda>x d. case pb_make_string_substream (stream d) of
      (None, s) \<Rightarrow> Some (False, x, d\<lparr>stream := s\<rparr>)
    | (Some substream, s) \<Rightarrow> do { (status, x, d) \<leftarrow> (\<lambda>x d. do { (ok, slots, d) \<leftarrow> k ?init (fields_of env f) (item_slots x) d; Some (ok, Struct_item slots, d) })
        x (d\<lparr>stream := substream\<rparr>); close_substream s status x d }) x"
    using assms(6) by auto
  then show ?thesis
    by (rule dec_safe_eq) (simp add: pb_dec_submessage_def ptr x(1) bind_assoc split_def split: prod.split option.split)
qed

section \<open>Any value\<close>

lemma decoder_datum_safe:
  assumes "k_good env n k" "env_wf env" "env_flat env" "field_wf env f" "datum_ok (struct_ok env) env f x"
    and "ltype f = LT_STRING \<or> ltype f = LT_BYTES \<Longrightarrow> atype f \<noteq> AT_POINTER" "htype f = HT_REPEATED \<longrightarrow> datum_ptrs (struct_ptrs env) env f x = 0"
  shows "datum_safe (Suc n) env f (pb_decoder k env f) x"
  using words_safe [OF assms(5)] bytes_in_place_safe [OF _ _ assms(5)] string_in_place_safe [OF _ _ assms(5)] fixed_length_safe [OF _ assms(5)]
    submessage_safe [OF assms(1-4) _ assms(5,7)] assms(6)
  unfolding pb_decoder_def by (cases "ltype f") simp_all

abbreviation entry_safe :: "nat \<Rightarrow> pb_env \<Rightarrow> pb_field \<Rightarrow> (pb_item, 'i) dec \<Rightarrow> pb_item \<Rightarrow> bool" where
  "entry_safe n env f work x \<equiv> dec_safe n (\<lambda>_. entry_ok (struct_ok env) env f) (entry_ptrs (struct_ptrs env) env f)
     (entry_ptrs (struct_ptrs env) env f x) work x"

lemma decoder_entry_safe:
  assumes "k_good env n k" "env_wf env" "env_flat env" "field_wf env f" "atype f = AT_POINTER" "entry_ok (struct_ok env) env f x"
    and "htype f = HT_REPEATED \<longrightarrow> datum_ptrs (struct_ptrs env) env f x = 0"
  shows "entry_safe (Suc n) env f (pb_decoder k env f) x"
proof (cases "ltype f = LT_STRING \<or> ltype f = LT_BYTES")
  case True
  then have e: "entry_ok (struct_ok env) env f = pointer_ok (struct_ok env) env f" "entry_ptrs (struct_ptrs env) env f = block_count"
    by (auto simp: entry_ok_def [abs_def] entry_ptrs_def [abs_def] block_count_def [abs_def])
  show ?thesis
    using True assms(5,6) bytes_pointer_safe [of f env x "Suc n"] string_pointer_safe [of f env x "Suc n"] unfolding e pb_decoder_def by auto
next
  case False
  then have e: "entry_ok (struct_ok env) env f = datum_ok (struct_ok env) env f" "entry_ptrs (struct_ptrs env) env f = datum_ptrs (struct_ptrs env) env f"
    by (auto simp: entry_ok_def [abs_def] entry_ptrs_def [abs_def])
  show ?thesis unfolding e by (rule decoder_datum_safe [OF assms(1-4)]) (use False assms(6,7) e in auto)
qed

section \<open>Fields in place\<close>

text \<open>A member of a union may find the remains of another one.\<close>

definition field_pre :: "pb_env \<Rightarrow> pb_field \<Rightarrow> pb_slot \<Rightarrow> bool" where
  "field_pre env f slot \<longleftrightarrow> (case slot of Slot k data \<Rightarrow>
     if htype f = HT_ONEOF \<and> k \<noteq> tag f then atype f = AT_POINTER \<longrightarrow> data = [Ptr_item None] else slot_ok (struct_ok env) env f slot)"

definition field_post :: "pb_env \<Rightarrow> pb_field \<Rightarrow> pb_slot \<Rightarrow> bool" where
  "field_post env f slot \<longleftrightarrow> slot_ok (struct_ok env) env f slot \<and> (htype f = HT_ONEOF \<longrightarrow> (\<exists>x. slot = Slot (tag f) [x]))"

abbreviation field_safe :: "nat \<Rightarrow> pb_env \<Rightarrow> pb_field \<Rightarrow> (pb_slot, 'i) dec \<Rightarrow> pb_slot \<Rightarrow> bool" where
  "field_safe n env f work slot \<equiv> dec_safe n (\<lambda>_. field_post env f) (slot_ptrs (struct_ptrs env) env f) (slot_ptrs (struct_ptrs env) env f slot) work slot"

lemma static_slot:
  assumes "atype f = AT_STATIC" "htype f \<noteq> HT_REPEATED" "htype f = HT_ONEOF \<longrightarrow> k = tag f"
  shows "slot_ok (struct_ok env) env f (Slot k [x]) \<longleftrightarrow> datum_ok (struct_ok env) env f x"
    "slot_ptrs (struct_ptrs env) env f (Slot k [x]) = datum_ptrs (struct_ptrs env) env f x"
  using assms by (auto simp: slot_ok_def slot_ptrs_def)

lemma static_array:
  assumes "atype f = AT_STATIC" "htype f = HT_REPEATED" "ltype f \<noteq> LT_SUBMESSAGE"
  shows "slot_ok (struct_ok env) env f (Slot k data) \<longleftrightarrow> length data = unat (array_size f) \<and> (\<forall>x \<in> set data. datum_ok (struct_ok env) env f x)"
    "slot_ptrs (struct_ptrs env) env f (Slot k data) = 0"
proof -
  have "map (datum_ptrs (struct_ptrs env) env f) xs = replicate (length xs) 0" for xs
    using assms(3) by (intro replicate_eqI) (auto simp: datum_ptrs_def)
  then show "slot_ptrs (struct_ptrs env) env f (Slot k data) = 0" using assms by (simp add: slot_ptrs_def sum_list_replicate)
  show "slot_ok (struct_ok env) env f (Slot k data) \<longleftrightarrow> length data = unat (array_size f) \<and> (\<forall>x \<in> set data. datum_ok (struct_ok env) env f x)"
    using assms by (auto simp: slot_ok_def datum_ptrs_def)
qed

text \<open>An element of an array in place, whatever its count is then set to.\<close>

lemma static_element_safe:
  assumes "k_good env n k" "env_wf env" "env_flat env" "field_wf env f"
    and "atype f = AT_STATIC" "htype f = HT_REPEATED" "ltype f \<noteq> LT_SUBMESSAGE" "slot_ok (struct_ok env) env f (Slot c data)" "i < length data"
  shows "dec_safe (Suc n) (\<lambda>_ data. slot_ok (struct_ok env) env f (Slot c data)) (\<lambda>_. 0) 0 (on_item i (pb_decoder k env f)) data"
proof -
  have "datum_safe (Suc n) env f (pb_decoder k env f) (data ! i)"
    using assms by (intro decoder_datum_safe) (auto simp: static_array(1) datum_ptrs_def)
  then show ?thesis
    by (rule dec_safe_item) (use assms in \<open>auto simp: static_array(1) datum_ptrs_def dest: subsetD [OF set_update_subset_insert]\<close>)
qed

lemma packed_static_safe:
  fixes k :: "'i decoder"
  assumes "k_good env n k" "env_wf env" "env_flat env" "field_wf env f" "atype f = AT_STATIC" "htype f = HT_REPEATED" "ltype f \<noteq> LT_SUBMESSAGE"
    and "slot_ok (struct_ok env) env f slot"
  shows "dec_safe (Suc n) (\<lambda>_. slot_ok (struct_ok env) env f) (\<lambda>_. 0) 0 (packed_static k env f) slot"
  unfolding dec_safe_def
proof (intro allI impI)
  fix d :: "'i dstate"
  assume "in_ok (stream d)" "bytes_left (stream d) < Suc n"
  with assms show "\<exists>ok s d'. packed_static k env f slot d = Some (ok, s, d') \<and> slot_ok (struct_ok env) env f s \<and>
      advanced (stream d) (stream d') \<and> live d' + int 0 = live d + int 0"
  proof (induction k env f slot d rule: packed_static.induct)
    case (1 k env f c items d)
    show ?case
    proof (cases "bytes_left (stream d) > 0 \<and> c < array_size f")
      case True
      note prems = 1(2-11)
      have "unat c < length items" using True prems(8) static_array(1) [OF prems(5-7)] by (simp add: word_less_nat_alt)
      from dec_safeD [OF static_element_safe [OF prems(1-8) this] prems(9,10)]
      obtain ok items' d' where step: "on_item (unat c) (pb_decoder k env f) items d = Some (ok, items', d')"
        "slot_ok (struct_ok env) env f (Slot c items')" "advanced (stream d) (stream d')" "live d' + int 0 = live d + int 0" by metis
      show ?thesis
      proof (cases ok)
        case ok: True
        have "slot_ok (struct_ok env) env f (Slot (c + 1) items')" using step(2) static_array(1) [OF prems(5-7)] by blast
        moreover have "in_ok (stream d')" "bytes_left (stream d') < Suc n"
          using advanced_ok [OF prems(9) step(3)] advanced_left [OF step(3)] prems(10) by simp_all
        ultimately obtain ok2 s d2 where "packed_static k env f (Slot (c + 1) items') d' = Some (ok2, s, d2)" "slot_ok (struct_ok env) env f s"
          "advanced (stream d') (stream d2)" "live d2 + int 0 = live d' + int 0"
          using 1(1) [OF True step(1) refl refl _ prems(1-7)] ok by auto
        then show ?thesis using True step ok advanced_trans [OF step(3)] by (auto simp: packed_static.simps [of k])
      qed (use True step in \<open>simp add: packed_static.simps [of k]\<close>)
    qed (use 1(9) in \<open>auto simp: packed_static.simps [of k]\<close>)
  qed
qed

lemma static_datum_safe:
  assumes "k_good env n k" "env_wf env" "env_flat env" "field_wf env f" "atype f = AT_STATIC" "htype f \<noteq> HT_REPEATED"
    and "htype f = HT_ONEOF \<longrightarrow> c = tag f" "datum_ok (struct_ok env) env f x"
  shows "dec_safe (Suc n) (\<lambda>_. field_post env f) (slot_ptrs (struct_ptrs env) env f) (datum_ptrs (struct_ptrs env) env f x)
    (on_data (on_item 0 (pb_decoder k env f))) (Slot c [x])"
proof -
  have "datum_safe (Suc n) env f (pb_decoder k env f) x" using assms by (intro decoder_datum_safe) auto
  then have "dec_safe (Suc n) (\<lambda>_ data. \<exists>y. data = [y] \<and> datum_ok (struct_ok env) env f y) (\<lambda>data. datum_ptrs (struct_ptrs env) env f (data ! 0))
      (datum_ptrs (struct_ptrs env) env f x) (on_item 0 (pb_decoder k env f)) [x]"
    by (rule dec_safe_part [where whole = "\<lambda>y. [y]"]) (auto simp: on_item_part)
  then show ?thesis
    by (rule dec_safe_data) (use static_slot [OF assms(5-7)] assms(7) in \<open>auto simp: field_post_def\<close>)
qed

lemma env_junk: "env_wf env \<Longrightarrow> field_wf env f \<Longrightarrow> ltype f \<noteq> LT_SUBMESSAGE \<Longrightarrow> datum_ok (struct_ok env) env f (junk_item env f)"
  using datum_ok_mono [of "\<lambda>_ _. False" "struct_ok env" env f] by (auto simp: env_wf_def)

lemma env_zeros:
  assumes "env_wf env" "field_wf env f" "ltype f = LT_SUBMESSAGE"
  obtains a slots where "ptr f = Fields_ptr a" "pb_message_set_to_defaults env (fields_at env a) (zeros_at env a) = Some slots"
    "datum_ok (struct_ok env) env f (Struct_item slots)" "datum_ptrs (struct_ptrs env) env f (Struct_item slots) = 0"
proof -
  obtain a where a: "ptr f = Fields_ptr a" using assms(2,3) by (auto simp: field_wf_def split: pb_ptr.splits)
  have "fields_wf env (fields_at env a)" "struct_raw env (fields_at env a) (zeros_at env a)" using assms(1) by (auto simp: env_wf_def)
  from defaults_good [OF assms(1) this] that a assms(3) show ?thesis by (auto simp: datum_ok_def datum_ptrs_def fields_of_def)
qed

lemma packed_field_safe:
  assumes "k_good env n k" "env_wf env" "env_flat env" "field_wf env f" "atype f = AT_STATIC" "htype f = HT_REPEATED" "ltype f \<noteq> LT_SUBMESSAGE"
    and "slot_ok (struct_ok env) env f slot"
  shows "dec_safe (Suc n) (\<lambda>_. slot_ok (struct_ok env) env f) (\<lambda>_. 0) 0 (\<lambda>slot d. case pb_make_string_substream (stream d) of
      (None, s) \<Rightarrow> Some (False, slot, d\<lparr>stream := s\<rparr>)
    | (Some substream, s) \<Rightarrow> do {
        (status, slot, d) \<leftarrow> packed_static k env f slot (d\<lparr>stream := substream\<rparr>);
        if bytes_left (stream d) \<noteq> 0 then dec_error ''array overflow'' slot (d\<lparr>stream := s\<rparr>)
        else close_substream s status slot d }) slot"
  unfolding dec_safe_def
proof (intro allI impI)
  fix d :: "'a dstate"
  assume ok: "in_ok (stream d)" and left: "bytes_left (stream d) < Suc n"
  obtain r t where r: "pb_make_string_substream (stream d) = (r, t)" by fastforce
  note t = make_substream_advanced [OF ok r]
  show "\<exists>ok x' d'. (case pb_make_string_substream (stream d) of
      (None, s) \<Rightarrow> Some (False, slot, d\<lparr>stream := s\<rparr>)
    | (Some substream, s) \<Rightarrow> do {
        (status, slot, d) \<leftarrow> packed_static k env f slot (d\<lparr>stream := substream\<rparr>);
        if bytes_left (stream d) \<noteq> 0 then dec_error ''array overflow'' slot (d\<lparr>stream := s\<rparr>)
        else close_substream s status slot d }) = Some (ok, x', d') \<and>
    slot_ok (struct_ok env) env f x' \<and> advanced (stream d) (stream d') \<and> live d' + int 0 = live d + int 0"
  proof (cases r)
    case (Some sub)
    have sub: "in_ok (stream (d\<lparr>stream := sub\<rparr>))" "bytes_left (stream (d\<lparr>stream := sub\<rparr>)) < Suc n" using t(2) [OF Some] left by simp_all
    obtain status x' d' where w: "packed_static k env f slot (d\<lparr>stream := sub\<rparr>) = Some (status, x', d')" "slot_ok (struct_ok env) env f x'"
      "advanced sub (stream d')" "live d' = live d"
      by (rule dec_safeD [OF packed_static_safe [OF assms] sub]) auto
    show ?thesis
    proof (cases "bytes_left (stream d') = 0")
      case True
      from close_safe [OF ok r [unfolded Some] w(3) disjI1 [OF refl], of status x'] True w show ?thesis
        by (auto simp: r Some)
    next
      case False
      then show ?thesis using w t(1) by (simp add: r Some dec_error_def set_error_def)
    qed
  qed (use t(1) assms(8) in \<open>simp add: r\<close>)
qed

theorem decode_static_field_safe:
  assumes "k_good env n k" "env_wf env" "env_flat env" "field_wf env f" "flat_fields [f]" "atype f = AT_STATIC" "field_pre env f slot"
  shows "field_safe (Suc n) env f (decode_static_field k env wt f) slot"
proof -
  obtain c data where slot: "slot = Slot c data" by (cases slot)
  let ?own = "slot_ptrs (struct_ptrs env) env f"
  show ?thesis
  proof (cases "htype f")
    case HT_REQUIRED
    then obtain x where x: "data = [x]" "datum_ok (struct_ok env) env f x" using assms(6,7) by (auto simp: field_pre_def slot slot_ok_def)
    have "field_safe (Suc n) env f (on_data (on_item 0 (pb_decoder k env f))) slot"
      using static_datum_safe [OF assms(1-4,6) _ _ x(2), of c] static_slot(2) [OF assms(6), of c env x] HT_REQUIRED by (simp add: slot x(1))
    then show ?thesis by (rule dec_safe_eq) (simp add: decode_static_field_def slot HT_REQUIRED)
  next
    case HT_OPTIONAL
    then obtain x where x: "data = [x]" "datum_ok (struct_ok env) env f x" using assms(6,7) by (auto simp: field_pre_def slot slot_ok_def)
    let ?c = "if size_offset f \<noteq> 0 then 1 else c"
    have "dec_safe (Suc n) (\<lambda>_. field_post env f) ?own (?own slot) (on_data (on_item 0 (pb_decoder k env f))) (Slot ?c data)"
      using static_datum_safe [OF assms(1-4,6) _ _ x(2), of ?c] static_slot(2) [OF assms(6), of c env x] HT_OPTIONAL by (simp add: slot x(1))
    then show ?thesis unfolding dec_safe_def by (simp add: decode_static_field_def slot HT_OPTIONAL)
  next
    case HT_REPEATED
    then have basic: "ltype f \<noteq> LT_SUBMESSAGE" using assms(5,6) by (simp add: flat_fields_def)
    note arr = static_array [OF assms(6) HT_REPEATED basic]
    have ok: "slot_ok (struct_ok env) env f slot" using assms(7) HT_REPEATED by (simp add: field_pre_def slot)
    have any: "slot_ok (struct_ok env) env f (Slot c' data)" for c' using ok arr(1) unfolding slot by blast
    have "dec_safe (Suc n) (\<lambda>_. slot_ok (struct_ok env) env f) (\<lambda>_. 0) 0 (decode_static_field k env wt f) slot"
    proof (cases "wt = PB_WT_STRING \<and> packable (ltype f)")
      case True
      show ?thesis
        by (rule dec_safe_eq [OF packed_field_safe [OF assms(1-4,6) HT_REPEATED basic ok]]) (use True in \<open>simp add: decode_static_field_def HT_REPEATED slot split: option.split prod.split\<close>)
    next
      case False
      show ?thesis
      proof (cases "c \<ge> array_size f")
        case True
        have "dec_safe (Suc n) (\<lambda>_. slot_ok (struct_ok env) env f) (\<lambda>_. 0) 0 (dec_error ''array overflow'') (Slot (c + 1) data)"
          using any by (intro dec_safe_error) auto
        then show ?thesis using True False unfolding dec_safe_def by (auto simp: decode_static_field_def HT_REPEATED slot)
      next
        case less: False
        then have "unat c < length data" using any arr(1) by (simp add: word_less_nat_alt not_le)
        have "dec_safe (Suc n) (\<lambda>_. slot_ok (struct_ok env) env f) (\<lambda>_. 0) 0 (on_data (on_item (unat c) (pb_decoder k env f))) (Slot (c + 1) data)"
          by (rule dec_safe_data [OF static_element_safe [OF assms(1-4,6) HT_REPEATED basic any \<open>unat c < length data\<close>]]) simp
        then show ?thesis using less False unfolding dec_safe_def by (auto simp: decode_static_field_def HT_REPEATED slot)
      qed
    qed
    moreover have none: "?own s = 0" for s by (cases s) (simp add: arr(2))
    ultimately show ?thesis by (elim dec_safe_weaken) (simp add: field_post_def HT_REPEATED none)
  next
    case HT_ONEOF
    obtain data' x where x: "(if c = tag f then Some data
           else if ltype f = LT_SUBMESSAGE then (case ptr f of
               Fields_ptr a \<Rightarrow> do { slots \<leftarrow> pb_message_set_to_defaults env (fields_at env a) (zeros_at env a); Some [Struct_item slots] }
             | _ \<Rightarrow> None)
           else Some [junk_item env f]) = Some data'" "data' = [x]" "datum_ok (struct_ok env) env f x" "?own slot = datum_ptrs (struct_ptrs env) env f x"
    proof (cases "c = tag f")
      case True
      then obtain x where "data = [x]" "datum_ok (struct_ok env) env f x" using assms(6,7) HT_ONEOF by (auto simp: field_pre_def slot slot_ok_def)
      then show ?thesis using that [of "[x]" x] True static_slot(2) [OF assms(6), of c env x] HT_ONEOF by (simp add: slot)
    next
      case False
      then have none: "?own slot = 0" using HT_ONEOF by (simp add: slot slot_ptrs_def)
      show ?thesis
      proof (cases "ltype f = LT_SUBMESSAGE")
        case True
        obtain a slots where z: "ptr f = Fields_ptr a" "pb_message_set_to_defaults env (fields_at env a) (zeros_at env a) = Some slots"
          "datum_ok (struct_ok env) env f (Struct_item slots)" "datum_ptrs (struct_ptrs env) env f (Struct_item slots) = 0"
          by (rule env_zeros [OF assms(2,4) True])
        then show ?thesis using that [of "[Struct_item slots]" "Struct_item slots"] False True none by simp
      next
        case basic: False
        show ?thesis using that [of "[junk_item env f]" "junk_item env f"] False basic none env_junk [OF assms(2,4) basic] by (simp add: datum_ptrs_def)
      qed
    qed
    have "dec_safe (Suc n) (\<lambda>_. field_post env f) ?own (?own slot) (on_data (on_item 0 (pb_decoder k env f))) (Slot (tag f) data')"
      using static_datum_safe [OF assms(1-4,6) _ _ x(3), of "tag f"] HT_ONEOF by (simp add: x(2,4))
    then show ?thesis unfolding dec_safe_def by (simp add: decode_static_field_def slot HT_ONEOF x(1))
  qed
qed

end
