(* ===== verification/Pb_Pointers.thy ===== *)
theory Pb_Pointers
  imports Pb_Fields
begin

text \<open>
  Protocol buffers: the decoders of fields behind pointers meet the contract.
\<close>

lemma dec_safe_seq:
  fixes a :: "('y, 'i) dec" and b work :: "('x, 'i) dec"
  assumes a: "dec_safe n S1 own1 m a y0" and b: "\<And>y. S1 True y \<Longrightarrow> dec_safe n S own (own1 y) b (g y)"
    and h: "\<And>y. S1 False y \<Longrightarrow> S False (h y) \<and> own (h y) = own1 y"
    and work: "\<And>d. work x d = do { (ok, y, d) \<leftarrow> a y0 d; if ok then b (g y) d else Some (False, h y, d) }"
  shows "dec_safe n S own m work x"
  unfolding dec_safe_def
proof (intro allI impI)
  fix d :: "'i dstate"
  assume ok: "in_ok (stream d)" and left: "bytes_left (stream d) < n"
  then obtain r y d' where a: "a y0 d = Some (r, y, d')" "S1 r y" "advanced (stream d) (stream d')"
    "live d' + int m = live d + int (own1 y)" by (rule dec_safeD [OF a])
  show "\<exists>ok x' d'. work x d = Some (ok, x', d') \<and> S ok x' \<and> advanced (stream d) (stream d') \<and> live d' + int m = live d + int (own x')"
  proof (cases r)
    case True
    have in': "in_ok (stream d')" "bytes_left (stream d') < n" using advanced_ok [OF ok a(3)] advanced_left [OF a(3)] left by simp_all
    have "S1 True y" using a(2) True by simp
    then obtain r2 z d2 where b: "b (g y) d' = Some (r2, z, d2)" "S r2 z" "advanced (stream d') (stream d2)"
      "live d2 + int (own1 y) = live d' + int (own z)" by (rule dec_safeD [OF b in'])
    then show ?thesis using a True advanced_trans [OF a(3) b(3)] by (simp add: work)
  next
    case False
    then show ?thesis using a h [of y] by (simp add: work)
  qed
qed

declare packed_pointer.simps [simp del] packed_static.simps [simp del]

section \<open>Entries\<close>

definition basic :: "pb_field \<Rightarrow> bool" where
  "basic f \<longleftrightarrow> ltype f \<notin> {LT_STRING, LT_BYTES, LT_SUBMESSAGE}"

lemma basic_entry:
  assumes "basic f"
  shows "entry_ok P env f = datum_ok P env f" "entry_ptrs R env f x = 0" "datum_ptrs R env f x = 0"
  using assms by (auto simp: basic_def entry_ok_def [abs_def] entry_ptrs_def datum_ptrs_def)

lemma initialize_safe:
  assumes "env_wf env" "field_wf env f" "basic f \<longrightarrow> datum_ok (struct_ok env) env f y"
  shows "dec_safe n (\<lambda>ok x. ok \<and> entry_ok (struct_ok env) env f x \<and> entry_ptrs (struct_ptrs env) env f x = 0 \<and> datum_ptrs (struct_ptrs env) env f x = 0)
    (entry_ptrs (struct_ptrs env) env f) 0 (initialize_pointer_field env f) y"
proof -
  consider (pointer) "ltype f = LT_STRING \<or> ltype f = LT_BYTES" | (message) "ltype f = LT_SUBMESSAGE" | (basic) "basic f"
    by (auto simp: basic_def)
  then show ?thesis
  proof cases
    case pointer
    then show ?thesis
      by (auto simp: dec_safe_def initialize_pointer_field_def dec_store_def entry_ok_def entry_ptrs_def datum_ptrs_def pointer_ok_def)
  next
    case message
    obtain a slots where z: "ptr f = Fields_ptr a" "pb_message_set_to_defaults env (fields_at env a) (zeros_at env a) = Some slots"
      "datum_ok (struct_ok env) env f (Struct_item slots)" "datum_ptrs (struct_ptrs env) env f (Struct_item slots) = 0"
      by (rule env_zeros [OF assms(1,2) message])
    then show ?thesis using message
      by (simp add: dec_safe_def initialize_pointer_field_def dec_store_def entry_ok_def entry_ptrs_def)
  next
    case basic
    then show ?thesis using assms(3) basic_entry [OF basic] by (auto simp: dec_safe_def initialize_pointer_field_def basic_def)
  qed
qed

lemma decode_entry_safe:
  assumes "k_good env n k" "env_wf env" "env_flat env" "field_wf env f" "atype f = AT_POINTER"
    and "i < length block" "basic f \<longrightarrow> datum_ok (struct_ok env) env f (block ! i)"
  shows "dec_safe (Suc n) (\<lambda>_ data. \<exists>y. data = [Ptr_item (Some (block[i := y]))] \<and> entry_ok (struct_ok env) env f y)
    (\<lambda>data. entry_ptrs (struct_ptrs env) env f (the (item_block (data ! 0)) ! i)) 0 (decode_entry k env f i) [Ptr_item (Some block)]"
proof -
  have "dec_safe (Suc n) (\<lambda>_. entry_ok (struct_ok env) env f) (entry_ptrs (struct_ptrs env) env f) 0
      (dec_then (initialize_pointer_field env f) (pb_decoder k env f)) (block ! i)"
    by (rule dec_safe_then [OF initialize_safe [OF assms(2,4,7)]]; elim conjE) (rule decoder_entry_safe [OF assms(1-5)], assumption, simp_all)
  then have "dec_safe (Suc n) (\<lambda>_ b. \<exists>y. b = block[i := y] \<and> entry_ok (struct_ok env) env f y) (\<lambda>b. entry_ptrs (struct_ptrs env) env f (b ! i)) 0
      (on_item i (dec_then (initialize_pointer_field env f) (pb_decoder k env f))) block"
    by (rule dec_safe_item) (use assms(6) in auto)
  then have "dec_safe (Suc n) (\<lambda>_ x. \<exists>y. x = Ptr_item (Some (block[i := y])) \<and> entry_ok (struct_ok env) env f y)
      (\<lambda>x. entry_ptrs (struct_ptrs env) env f (the (item_block x) ! i)) 0
      (on_block (on_item i (dec_then (initialize_pointer_field env f) (pb_decoder k env f)))) (Ptr_item (Some block))"
    by (rule dec_safe_block) auto
  then show ?thesis
    unfolding decode_entry_def by (rule dec_safe_part [where whole = "\<lambda>y. [y]"]) (auto simp: on_item_part)
qed

section \<open>Arrays\<close>

lemma pointer_array:
  assumes "atype f = AT_POINTER" "htype f = HT_REPEATED"
  shows "slot_ok (struct_ok env) env f (Slot c [Ptr_item (Some block)]) \<longleftrightarrow> unat c \<le> length block \<and> (\<forall>y \<in> set block. entry_ok (struct_ok env) env f y)"
    "slot_ptrs (struct_ptrs env) env f (Slot c [Ptr_item (Some block)]) = 1 + sum_list (map (entry_ptrs (struct_ptrs env) env f) (take (unat c) block))"
    "slot_ok (struct_ok env) env f (Slot c [Ptr_item None]) \<longleftrightarrow> c = 0"
    "slot_ptrs (struct_ptrs env) env f (Slot c [Ptr_item None]) = 0"
  using assms by (simp_all add: slot_ok_def slot_ptrs_def array_ok_def)

lemma pointer_arrayE:
  assumes "atype f = AT_POINTER" "htype f = HT_REPEATED" "slot_ok (struct_ok env) env f (Slot c data)"
  obtains p where "data = [Ptr_item p]"
proof -
  obtain x where "data = [x]" "array_ok (struct_ok env) env f c x" using assms by (auto simp: slot_ok_def)
  then show ?thesis using that by (cases x) (auto simp: array_ok_def)
qed

lemma next_entry_safe:
  assumes "k_good env n k" "env_wf env" "env_flat env" "field_wf env f" "atype f = AT_POINTER" "htype f = HT_REPEATED"
    and "c \<noteq> PB_SIZE_MAX" "unat c < length block" "\<And>j. j < length block \<Longrightarrow> j \<noteq> unat c \<Longrightarrow> entry_ok (struct_ok env) env f (block ! j)"
    and "basic f \<longrightarrow> datum_ok (struct_ok env) env f (block ! unat c)"
  shows "dec_safe (Suc n) (\<lambda>_ s. slot_ok (struct_ok env) env f s \<and> (\<exists>block'. s = Slot (c + 1) [Ptr_item (Some block')] \<and> length block' = length block))
    (slot_ptrs (struct_ptrs env) env f)
    (1 + sum_list (map (entry_ptrs (struct_ptrs env) env f) (take (unat c) block))) (on_data (decode_entry k env f (unat c))) (Slot (c + 1) [Ptr_item (Some block)])"
proof (rule dec_safe_data [OF decode_entry_safe [OF assms(1-5,8,10)]])
  fix ok data
  assume "\<exists>y. data = [Ptr_item (Some (block[unat c := y]))] \<and> entry_ok (struct_ok env) env f y"
  then obtain y where y: "data = [Ptr_item (Some (block[unat c := y]))]" "entry_ok (struct_ok env) env f y" by blast
  have all: "entry_ok (struct_ok env) env f z" if "z \<in> set (block[unat c := y])" for z
    using that assms(8,9) y(2) by (auto simp: in_set_conv_nth nth_list_update split: if_splits)
  have c: "unat (c + 1) = unat c + 1" by (rule count_up_max [OF assms(7)])
  have "take (unat c + 1) (block[unat c := y]) = take (unat c) block @ [y]"
    using assms(8) by (simp add: take_Suc_conv_app_nth)
  then show "(slot_ok (struct_ok env) env f (Slot (c + 1) data) \<and> (\<exists>block'. Slot (c + 1) data = Slot (c + 1) [Ptr_item (Some block')] \<and> length block' = length block)) \<and>
      slot_ptrs (struct_ptrs env) env f (Slot (c + 1) data) + 0 =
      entry_ptrs (struct_ptrs env) env f (the (item_block (data ! 0)) ! unat c) +
      (1 + sum_list (map (entry_ptrs (struct_ptrs env) env f) (take (unat c) block)))"
    using all assms(8) by (simp add: y(1) pointer_array [OF assms(5,6)] c)
qed

lemma grow_items_facts:
  "length (grow_items env f m old) = m"
  "j < m \<Longrightarrow> grow_items env f m old ! j = (if j < length old then old ! j else junk_item env f)"
  "c \<le> m \<Longrightarrow> c \<le> length old \<Longrightarrow> take c (grow_items env f m old) = take c old"
  by (auto simp: grow_items_def nth_append min_def)

text \<open>More room for an array: the entries in use stay as they are.\<close>

lemma grow_array_safe:
  assumes "env_wf env" "field_wf env f" "atype f = AT_POINTER" "htype f = HT_REPEATED" "slot_ok (struct_ok env) env f (Slot c [Ptr_item p])" "unat c < m"
    and "basic f \<or> m = unat c + 1"
  shows "dec_safe n (\<lambda>ok data. if ok then \<exists>block. data = [Ptr_item (Some block)] \<and> length block = m \<and>
        (\<forall>j < length block. j \<noteq> unat c \<longrightarrow> entry_ok (struct_ok env) env f (block ! j)) \<and> (basic f \<longrightarrow> datum_ok (struct_ok env) env f (block ! unat c))
      else data = [Ptr_item p])
    (\<lambda>data. slot_ptrs (struct_ptrs env) env f (Slot c data)) (slot_ptrs (struct_ptrs env) env f (Slot c [Ptr_item p]))
    (on_item 0 (allocate_field env (grow_items env f m) sz k)) [Ptr_item p]"
proof (rule dec_safe_part [OF allocate_safe [of n "grow_items env f m"], where whole = "\<lambda>y. [y]"])
  fix ok y
  assume y: "y = (if ok then grown (grow_items env f m) p else Ptr_item p)"
  define old where "old = (case p of None \<Rightarrow> [] | Some old \<Rightarrow> old)"
  have old: "unat c \<le> length old" "\<forall>y \<in> set old. entry_ok (struct_ok env) env f y"
    "slot_ptrs (struct_ptrs env) env f (Slot c [Ptr_item p]) = block_count (Ptr_item p) + sum_list (map (entry_ptrs (struct_ptrs env) env f) (take (unat c) old))"
    using assms(5) pointer_array [OF assms(3,4)] by (cases p; simp add: old_def)+
  have ok_at: "entry_ok (struct_ok env) env f (grow_items env f m old ! j)" if "j < m" "j \<noteq> unat c \<or> basic f" for j
  proof (cases "j < length old")
    case True
    then show ?thesis using old(2) that(1) by (simp add: grow_items_facts)
  next
    case False
    then have "basic f" using that assms(7) old(1) by auto
    then show ?thesis using False that(1) env_junk [OF assms(1,2)] by (simp add: grow_items_facts basic_entry basic_def)
  qed
  have "basic f \<longrightarrow> datum_ok (struct_ok env) env f (grow_items env f m old ! unat c)"
    using ok_at [OF assms(6)] basic_entry(1) by metis
  then show "(if ok then \<exists>block. [y] = [Ptr_item (Some block)] \<and> length block = m \<and>
        (\<forall>j < length block. j \<noteq> unat c \<longrightarrow> entry_ok (struct_ok env) env f (block ! j)) \<and> (basic f \<longrightarrow> datum_ok (struct_ok env) env f (block ! unat c))
      else [y] = [Ptr_item p]) \<and>
      slot_ptrs (struct_ptrs env) env f (Slot c [y]) + block_count (Ptr_item p) = block_count y + slot_ptrs (struct_ptrs env) env f (Slot c [Ptr_item p])"
    using ok_at old assms(6) by (cases ok)
      (simp_all add: y grown_def old_def [symmetric] grow_items_facts pointer_array(2) [OF assms(3,4)])
qed (simp add: on_item_part)

text \<open>A packed array in a block of its own.\<close>

definition room :: "pb_item list option \<Rightarrow> nat" where
  "room p = (case p of None \<Rightarrow> 0 | Some block \<Rightarrow> length block)"

lemma packed_pointer_safe:
  fixes k :: "'i decoder"
  assumes "k_good env n k" "env_wf env" "env_flat env" "field_wf env f" "atype f = AT_POINTER" "htype f = HT_REPEATED" "basic f"
    and "slot = Slot c [Ptr_item p]" "slot_ok (struct_ok env) env f slot" "unat c \<le> allocated" "allocated \<le> room p"
    and "in_ok (stream d)" "bytes_left (stream d) < Suc n"
  shows "\<exists>ok slot' d' s'. packed_pointer k env f allocated s slot d = Some (ok, slot', d', s') \<and> slot_ok (struct_ok env) env f slot' \<and>
    advanced (stream d) (stream d') \<and> live d' + int (slot_ptrs (struct_ptrs env) env f slot) = live d + int (slot_ptrs (struct_ptrs env) env f slot') \<and>
    (\<exists>m. s' = s \<or> s' = s\<lparr>i_errmsg := m\<rparr>)"
  using assms
proof (induction k env f allocated s slot d arbitrary: c p rule: packed_pointer.induct)
  case (1 k env f allocated s c0 data d)
  note prems = 1(2-14)
  let ?own = "slot_ptrs (struct_ptrs env) env f" and ?ok = "slot_ok (struct_ok env) env f"
  have data: "c0 = c" "data = [Ptr_item p]" using prems(8) by simp_all
  have now: "\<exists>m. s = s \<or> s = s\<lparr>i_errmsg := m\<rparr>" by simp
  define remain where "remain = (bytes_left (stream d) - 1) div data_size f + 1"
  define more where "more \<longleftrightarrow> unat c + 1 > allocated"
  define a' where "a' = (if \<not> more then allocated else if remain < unat PB_SIZE_MAX - allocated then allocated + remain else allocated + 1)"
  let ?grow = "\<lambda>d. if more then on_item 0 (allocate_field env (grow_items env f a') (data_size f) a') data d else Some (True, data, d)"
  have a': "unat c < a'" using prems(10) by (auto simp: a'_def more_def remain_def)
  have "dec_safe (Suc n) (\<lambda>ok data. if ok then \<exists>block. data = [Ptr_item (Some block)] \<and> a' \<le> length block \<and>
        (\<forall>y \<in> set block. datum_ok (struct_ok env) env f y) else ?ok (Slot c data) \<and> (\<exists>p. data = [Ptr_item p]))
      (\<lambda>data. ?own (Slot c data)) (?own (Slot c data)) (\<lambda>data d. ?grow d) data"
  proof (cases more)
    case True
    have "dec_safe (Suc n) (\<lambda>ok data. if ok then \<exists>block. data = [Ptr_item (Some block)] \<and> a' \<le> length block \<and>
        (\<forall>y \<in> set block. datum_ok (struct_ok env) env f y) else ?ok (Slot c data) \<and> (\<exists>p. data = [Ptr_item p]))
      (\<lambda>data. ?own (Slot c data)) (?own (Slot c data)) (on_item 0 (allocate_field env (grow_items env f a') (data_size f) a')) data"
      unfolding data(2)
    proof (rule dec_safe_weaken [OF grow_array_safe [OF prems(2,4-6) _ a']])
      show "?ok (Slot c [Ptr_item p])" using prems(8,9) by simp
      show "basic f \<or> a' = unat c + 1" using prems(7) by blast
    next
      fix ok xs
      assume S: "if ok then \<exists>block. xs = [Ptr_item (Some block)] \<and> length block = a' \<and>
          (\<forall>j < length block. j \<noteq> unat c \<longrightarrow> entry_ok (struct_ok env) env f (block ! j)) \<and> (basic f \<longrightarrow> datum_ok (struct_ok env) env f (block ! unat c))
        else xs = [Ptr_item p]"
      show "(if ok then \<exists>block. xs = [Ptr_item (Some block)] \<and> a' \<le> length block \<and> (\<forall>y \<in> set block. datum_ok (struct_ok env) env f y)
          else ?ok (Slot c xs) \<and> (\<exists>p. xs = [Ptr_item p])) \<and>
        ?own (Slot c xs) + ?own (Slot c [Ptr_item p]) = ?own (Slot c xs) + ?own (Slot c [Ptr_item p])"
      proof (cases ok)
        case True
        then obtain block where b: "xs = [Ptr_item (Some block)]" "length block = a'"
          "\<And>j. j < length block \<Longrightarrow> datum_ok (struct_ok env) env f (block ! j)"
          using S prems(7) basic_entry(1) [OF prems(7)] by (auto; metis)
        then have "\<forall>y \<in> set block. datum_ok (struct_ok env) env f y" by (auto simp: in_set_conv_nth)
        then show ?thesis using True b by simp
      qed (use S prems(8,9) in simp)
    qed
    then show ?thesis using True by (simp add: dec_safe_def data)
  next
    case False
    then obtain block where p: "p = Some block" "unat c < length block" using prems(10,11) by (cases p) (auto simp: more_def room_def)
    then have "\<forall>y \<in> set block. datum_ok (struct_ok env) env f y"
      using prems(7-9) pointer_array [OF prems(5,6)] by (auto simp: basic_entry)
    then show ?thesis using False prems(11) by (simp add: dec_safe_def data p a'_def room_def)
  qed
  note grow = dec_safeD [OF this prems(12,13)]
  show ?case
  proof (cases "bytes_left (stream d) = 0 \<or> c = PB_SIZE_MAX")
    case True
    then show ?thesis using prems(8,9) now by (auto simp: packed_pointer.simps [of k])
  next
    case False
    obtain ok data' d1 where g: "?grow d = Some (ok, data', d1)"
      "if ok then \<exists>block. data' = [Ptr_item (Some block)] \<and> a' \<le> length block \<and> (\<forall>y \<in> set block. datum_ok (struct_ok env) env f y)
       else ?ok (Slot c data') \<and> (\<exists>p. data' = [Ptr_item p])"
      "advanced (stream d) (stream d1)" "live d1 + int (?own (Slot c data)) = live d + int (?own (Slot c data'))"
      by (rule grow)
    have unf: "packed_pointer k env f allocated s (Slot c0 data) d = (do {
        (ok, data, d) \<leftarrow> ?grow d;
        if \<not> ok then Some (False, Slot c data, d, s)
        else do {
          (ok, data, d) \<leftarrow> decode_entry k env f (unat c) data d;
          if \<not> ok then Some (False, Slot c data, d, s) else packed_pointer k env f a' s (Slot (c + 1) data) d } })"
      using False unfolding data(1)
      by (subst packed_pointer.simps) (simp only: if_False de_Morgan_disj simp_thms remain_def [symmetric] more_def [symmetric] a'_def [symmetric] Let_def)
    show ?thesis
    proof (cases ok)
      case True
      then obtain block where b: "data' = [Ptr_item (Some block)]" "a' \<le> length block" "\<forall>y \<in> set block. datum_ok (struct_ok env) env f y"
        using g(2) by auto
      have d1: "in_ok (stream d1)" "bytes_left (stream d1) < Suc n"
        using advanced_ok [OF prems(12) g(3)] advanced_left [OF g(3)] prems(13) by simp_all
      have c: "unat c < length block" "unat (c + 1) = unat c + 1" using a' b(2) count_up_max [of c] False by auto
      have "basic f \<longrightarrow> datum_ok (struct_ok env) env f (block ! unat c)" using b(3) c(1) by simp
      note entry = decode_entry_safe [OF prems(1-5) c(1) this]
      obtain ok2 y d2 where e: "decode_entry k env f (unat c) data' d1 = Some (ok2, [Ptr_item (Some (block[unat c := y]))], d2)"
        "datum_ok (struct_ok env) env f y" "advanced (stream d1) (stream d2)" "live d2 = live d1"
        by (rule dec_safeD [OF entry d1]) (auto simp: b(1) basic_entry [OF prems(7)])
      have all: "?ok (Slot c2 [Ptr_item (Some (block[unat c := y]))]) \<and> ?own (Slot c2 [Ptr_item (Some (block[unat c := y]))]) = 1"
        if "unat c2 \<le> length block" for c2
      proof -
        have "map (entry_ptrs (struct_ptrs env) env f) xs = replicate (length xs) 0" for xs
          using basic_entry [OF prems(7)] by (intro replicate_eqI) auto
        moreover have "\<forall>z \<in> set (block[unat c := y]). datum_ok (struct_ok env) env f z"
          using b(3) e(2) by (auto dest: subsetD [OF set_update_subset_insert])
        ultimately show ?thesis using that by (simp add: pointer_array [OF prems(5,6)] basic_entry [OF prems(7)] sum_list_replicate)
      qed
      have one: "?own (Slot c data') = 1"
      proof -
        have "map (entry_ptrs (struct_ptrs env) env f) xs = replicate (length xs) 0" for xs
          using basic_entry [OF prems(7)] by (intro replicate_eqI) auto
        then show ?thesis by (simp add: b(1) pointer_array [OF prems(5,6)] sum_list_replicate)
      qed
      show ?thesis
      proof (cases ok2)
        case ok2: True
        have d2: "in_ok (stream d2)" "bytes_left (stream d2) < Suc n"
          using advanced_ok [OF d1(1) e(3)] advanced_left [OF e(3)] d1(2) by simp_all
        have "\<exists>ok slot' d' s'. packed_pointer k env f a' s (Slot (c + 1) [Ptr_item (Some (block[unat c := y]))]) d2 = Some (ok, slot', d', s') \<and> ?ok slot' \<and>
          advanced (stream d2) (stream d') \<and> live d' + int (?own (Slot (c + 1) [Ptr_item (Some (block[unat c := y]))])) = live d2 + int (?own slot') \<and>
          (\<exists>m. s' = s \<or> s' = s\<lparr>i_errmsg := m\<rparr>)"
        proof (rule 1(1) [unfolded data(1), OF _ _ remain_def more_def a'_def g(1) refl refl _ e(1) refl refl])
          show "bytes_left (stream d) \<noteq> 0" "c \<noteq> PB_SIZE_MAX" using False by simp_all
          show "\<not> \<not> ok" "\<not> \<not> ok2" using True ok2 by simp_all
          show "?ok (Slot (c + 1) [Ptr_item (Some (block[unat c := y]))])" using all [of "c + 1"] c by simp
          show "unat (c + 1) \<le> a'" "a' \<le> room (Some (block[unat c := y]))" using c(2) a' b(2) by (simp_all add: room_def)
        qed (use prems(1-7) d2 in \<open>simp_all add: data(1)\<close>)
        then obtain ok3 slot' d' s' where r: "packed_pointer k env f a' s (Slot (c + 1) [Ptr_item (Some (block[unat c := y]))]) d2 = Some (ok3, slot', d', s')"
          "?ok slot'" "advanced (stream d2) (stream d')" "live d' + 1 = live d2 + int (?own slot')" "\<exists>m. s' = s \<or> s' = s\<lparr>i_errmsg := m\<rparr>"
          using all [of "c + 1"] c by fastforce
        show ?thesis
          unfolding unf g(1) using r True ok2 g(4) e(4) one advanced_trans [OF g(3) advanced_trans [OF e(3) r(3)]]
          by (simp add: e(1) data(1))
      next
        case False
        then show ?thesis
          unfolding unf g(1) using True g(4) e(4) one all [of c] c(1) now advanced_trans [OF g(3) e(3)] by (simp add: e(1) data(1))
      qed
    next
      case False
      then show ?thesis using g now unfolding unf by (simp add: data(1))
    qed
  qed
qed

section \<open>Fields behind pointers\<close>

lemma array_field_safe:
  assumes "k_good env n k" "env_wf env" "env_flat env" "field_wf env f" "atype f = AT_POINTER" "htype f = HT_REPEATED"
    and "slot_ok (struct_ok env) env f slot"
  shows "dec_safe (Suc n) (\<lambda>_. slot_ok (struct_ok env) env f) (slot_ptrs (struct_ptrs env) env f) (slot_ptrs (struct_ptrs env) env f slot)
    (decode_pointer_field k env wt f) slot"
proof -
  obtain c p where slot: "slot = Slot c [Ptr_item p]" using assms(7) pointer_arrayE [OF assms(5,6)] by (cases slot) metis
  let ?own = "slot_ptrs (struct_ptrs env) env f" and ?ok = "slot_ok (struct_ok env) env f"
  show ?thesis
  proof (cases "wt = PB_WT_STRING \<and> packable (ltype f)")
    case True
    then have basic: "basic f" by (auto simp: basic_def packable_def)
    have room: "unat c \<le> room p" using assms(7) pointer_array [OF assms(5,6)] by (cases p) (auto simp: slot room_def)
    show ?thesis
      unfolding dec_safe_def
    proof (intro allI impI)
      fix d :: "'a dstate"
      assume ok: "in_ok (stream d)" and left: "bytes_left (stream d) < Suc n"
      obtain r t where r: "pb_make_string_substream (stream d) = (r, t)" by fastforce
      note t = make_substream_advanced [OF ok r]
      show "\<exists>ok x' d'. decode_pointer_field k env wt f slot d = Some (ok, x', d') \<and> ?ok x' \<and> advanced (stream d) (stream d') \<and>
          live d' + int (?own slot) = live d + int (?own x')"
      proof (cases r)
        case (Some sub)
        have sub: "in_ok (stream (d\<lparr>stream := sub\<rparr>))" "bytes_left (stream (d\<lparr>stream := sub\<rparr>)) < Suc n" using t(2) [OF Some] left by simp_all
        obtain status slot' d' t' m where w: "packed_pointer k env f (unat c) t slot (d\<lparr>stream := sub\<rparr>) = Some (status, slot', d', t')" "?ok slot'"
          "advanced sub (stream d')" "live d' + int (?own slot) = live d + int (?own slot')" "t' = t \<or> t' = t\<lparr>i_errmsg := m\<rparr>"
          using packed_pointer_safe [OF assms(1-6) basic slot assms(7) order_refl room sub, of t] by simp blast
        from close_safe [OF ok r [unfolded Some] w(3,5), of status slot'] w show ?thesis
          using True by (auto simp: decode_pointer_field_def assms(6) slot r Some)
      qed (use True t(1) assms(7) in \<open>simp add: decode_pointer_field_def assms(6) slot r\<close>)
    qed
  next
    case notpacked: False
    show ?thesis
    proof (cases "c = PB_SIZE_MAX")
      case True
      have "dec_safe (Suc n) (\<lambda>_. ?ok) ?own (?own slot) (dec_error ''too many array entries'') slot"
        by (rule dec_safe_error) (simp_all add: assms(7))
      then show ?thesis by (rule dec_safe_eq) (use True notpacked in \<open>auto simp: decode_pointer_field_def assms(6) slot\<close>)
    next
      case False
      have c: "unat (c + 1) = unat c + 1" by (rule count_up_max [OF False])
      have up: "unat c < unat (c + 1)" "basic f \<or> unat (c + 1) = unat c + 1" using c by simp_all
      note alloc = grow_array_safe [OF assms(2,4-6) assms(7) [unfolded slot] up, of "Suc n" "data_size f" "unat (c + 1)"]
      show ?thesis
        unfolding slot
      proof (rule dec_safe_seq [OF alloc, where b = "on_data (decode_entry k env f (unat c))" and g = "Slot (c + 1)" and h = "Slot c"])
        fix data
        assume "if True then \<exists>block. data = [Ptr_item (Some block)] \<and> length block = unat (c + 1) \<and>
            (\<forall>j < length block. j \<noteq> unat c \<longrightarrow> entry_ok (struct_ok env) env f (block ! j)) \<and> (basic f \<longrightarrow> datum_ok (struct_ok env) env f (block ! unat c))
          else data = [Ptr_item p]"
        then obtain block where b: "data = [Ptr_item (Some block)]" "unat c < length block"
          "\<And>j. j < length block \<Longrightarrow> j \<noteq> unat c \<Longrightarrow> entry_ok (struct_ok env) env f (block ! j)" "basic f \<longrightarrow> datum_ok (struct_ok env) env f (block ! unat c)"
          using c by auto
        show "dec_safe (Suc n) (\<lambda>_. ?ok) ?own (?own (Slot c data)) (on_data (decode_entry k env f (unat c))) (Slot (c + 1) data)"
          unfolding b(1) pointer_array(2) [OF assms(5,6)]
          by (rule dec_safe_weaken [OF next_entry_safe [OF assms(1-6) False b(2-4)]]) auto
      next
        fix d :: "'a dstate"
        show "decode_pointer_field k env wt f (Slot c [Ptr_item p]) d = do {
          (ok, data, d) \<leftarrow> on_item 0 (allocate_field env (grow_items env f (unat (c + 1))) (data_size f) (unat (c + 1))) [Ptr_item p] d;
          if ok then on_data (decode_entry k env f (unat c)) (Slot (c + 1) data) d else Some (False, Slot c data, d) }"
          using False notpacked by (auto simp: decode_pointer_field_def assms(6) slot split_def intro!: Option.bind_cong)
      qed (use c assms(7) slot in auto)
    qed
  qed
qed

lemma single_slot:
  assumes "atype f = AT_POINTER" "htype f \<noteq> HT_REPEATED" "htype f = HT_ONEOF \<longrightarrow> c = tag f" "tag f \<noteq> 0"
  shows "slot_ok (struct_ok env) env f (Slot c [x]) \<longleftrightarrow> pointer_ok (struct_ok env) env f x"
    "slot_ptrs (struct_ptrs env) env f (Slot c [Ptr_item None]) = 0"
    "slot_ptrs (struct_ptrs env) env f (Slot c [Ptr_item (Some [y])]) = 1 + datum_ptrs (struct_ptrs env) env f y"
  using assms by (auto simp: slot_ok_def slot_ptrs_def)

lemma single_slotE:
  assumes "atype f = AT_POINTER" "htype f \<noteq> HT_REPEATED" "htype f = HT_ONEOF \<longrightarrow> c = tag f" "slot_ok (struct_ok env) env f (Slot c data)"
  obtains p where "data = [Ptr_item p]" "pointer_ok (struct_ok env) env f (Ptr_item p)"
proof -
  obtain x where "data = [x]" "pointer_ok (struct_ok env) env f x" using assms by (auto simp: slot_ok_def)
  moreover from this obtain p where "x = Ptr_item p" using pointer_okE by blast
  ultimately show ?thesis using that by simp
qed

text \<open>A pointer of which nothing is released: to bytes or a string; to anything else.\<close>

lemma single_text_safe:
  assumes "k_good env n k" "env_wf env" "env_flat env" "field_wf env f" "atype f = AT_POINTER" "htype f \<noteq> HT_REPEATED"
    and "htype f = HT_ONEOF \<longrightarrow> c = tag f" "pointer_ok (struct_ok env) env f x" "ltype f = LT_STRING \<or> ltype f = LT_BYTES"
  shows "field_safe (Suc n) env f (on_data (on_item 0 (pb_decoder k env f))) (Slot c [x])"
proof -
  have nz: "tag f \<noteq> 0" using assms(4) by (simp add: field_wf_def)
  have e: "entry_ok (struct_ok env) env f y = pointer_ok (struct_ok env) env f y" for y using assms(9) by (auto simp: entry_ok_def)
  have own: "slot_ptrs (struct_ptrs env) env f (Slot c [y]) = entry_ptrs (struct_ptrs env) env f y" if "pointer_ok (struct_ok env) env f y" for y
  proof -
    have "datum_ptrs (struct_ptrs env) env f z = 0" for z using assms(9) by (auto simp: datum_ptrs_def)
    then show ?thesis using that assms(9) single_slot [OF assms(5-7) nz]
      by (auto simp: pointer_ok_def block_ok_def entry_ptrs_def split: pb_item.splits option.splits)
  qed
  have "entry_safe (Suc n) env f (pb_decoder k env f) x"
    using assms(6,8) e by (intro decoder_entry_safe [OF assms(1-5)]) auto
  then have "dec_safe (Suc n) (\<lambda>_ data. \<exists>y. data = [y] \<and> pointer_ok (struct_ok env) env f y) (\<lambda>data. entry_ptrs (struct_ptrs env) env f (data ! 0))
      (entry_ptrs (struct_ptrs env) env f x) (on_item 0 (pb_decoder k env f)) [x]"
    by (rule dec_safe_part [where whole = "\<lambda>y. [y]"]) (auto simp: on_item_part e)
  then show ?thesis
    by (rule dec_safe_data) (use assms(7) own [OF assms(8)] own single_slot(1) [OF assms(5-7) nz] in \<open>auto simp: field_post_def\<close>)
qed

lemma single_other_safe:
  assumes "k_good env n k" "env_wf env" "env_flat env" "field_wf env f" "atype f = AT_POINTER" "htype f \<noteq> HT_REPEATED"
    and "htype f = HT_ONEOF \<longrightarrow> c = tag f" "pointer_ok (struct_ok env) env f (Ptr_item p)" "\<not> (ltype f = LT_STRING \<or> ltype f = LT_BYTES)"
    and "ltype f = LT_SUBMESSAGE \<longrightarrow> p = None"
  shows "field_safe (Suc n) env f
    (on_data (dec_then (on_item 0 (allocate_field env (grow_items env f 1) (data_size f) 1)) (decode_entry k env f 0))) (Slot c [Ptr_item p])"
proof -
  have nz: "tag f \<noteq> 0" using assms(4) by (simp add: field_wf_def)
  note slot = single_slot [OF assms(5-7) nz]
  have e: "entry_ok (struct_ok env) env f y = datum_ok (struct_ok env) env f y" "entry_ptrs (struct_ptrs env) env f y = datum_ptrs (struct_ptrs env) env f y" for y
    using assms(9) by (auto simp: entry_ok_def entry_ptrs_def)
  have own: "slot_ptrs (struct_ptrs env) env f (Slot c [Ptr_item p]) = block_count (Ptr_item p)"
  proof (cases p)
    case (Some b)
    then obtain y where "b = [y]" using assms(8,9) by (auto simp: pointer_ok_def block_ok_def)
    moreover have "datum_ptrs (struct_ptrs env) env f y = 0" using Some assms(10) by (auto simp: datum_ptrs_def)
    ultimately show ?thesis using Some slot(3) by simp
  qed (use slot(2) in simp)
  let ?grow = "grow_items env f 1"
  have "dec_safe (Suc n) (\<lambda>ok data. data = [if ok then grown ?grow p else Ptr_item p]) (\<lambda>data. block_count (data ! 0)) (block_count (Ptr_item p))
      (on_item 0 (allocate_field env ?grow (data_size f) 1)) [Ptr_item p]"
    by (rule dec_safe_part [OF allocate_safe, where whole = "\<lambda>y. [y]"]) (auto simp: on_item_part)
  then have "dec_safe (Suc n) (\<lambda>_ data. \<exists>x. data = [x] \<and> pointer_ok (struct_ok env) env f x)
      (\<lambda>data. slot_ptrs (struct_ptrs env) env f (Slot c data)) (block_count (Ptr_item p))
      (dec_then (on_item 0 (allocate_field env ?grow (data_size f) 1)) (decode_entry k env f 0)) [Ptr_item p]"
  proof (rule dec_safe_then)
    fix data
    assume d: "data = [if True then grown ?grow p else Ptr_item p]"
    define old where "old = (case p of None \<Rightarrow> [] | Some old \<Rightarrow> old)"
    obtain y where y: "?grow old = [y]" using grow_items_facts(1) [of env f 1 old] by (auto simp: length_Suc_conv)
    have data: "data = [Ptr_item (Some [y])]" using d y by (simp add: grown_def old_def)
    have "basic f \<longrightarrow> datum_ok (struct_ok env) env f ([y] ! 0)"
    proof
      assume basic: "basic f"
      show "datum_ok (struct_ok env) env f ([y] ! 0)"
      proof (cases p)
        case None
        then show ?thesis using y env_junk [OF assms(2,4)] basic by (auto simp: old_def grow_items_def basic_def)
      next
        case (Some b)
        then show ?thesis using y assms(8) basic by (auto simp: old_def grow_items_def basic_def pointer_ok_def block_ok_def)
      qed
    qed
    then have "dec_safe (Suc n) (\<lambda>_ data. \<exists>z. data = [Ptr_item (Some ([y][0 := z]))] \<and> entry_ok (struct_ok env) env f z)
        (\<lambda>data. entry_ptrs (struct_ptrs env) env f (the (item_block (data ! 0)) ! 0)) 0 (decode_entry k env f 0) data"
      unfolding data by (intro decode_entry_safe [OF assms(1-5)]) auto
    then show "dec_safe (Suc n) (\<lambda>_ data. \<exists>x. data = [x] \<and> pointer_ok (struct_ok env) env f x)
        (\<lambda>data. slot_ptrs (struct_ptrs env) env f (Slot c data)) (block_count (data ! 0)) (decode_entry k env f 0) data"
      by (rule dec_safe_weaken) (use assms(9) slot(3) in \<open>auto simp: data e pointer_ok_def block_ok_def\<close>)
  qed (use assms(8) own in simp)
  then show ?thesis
    by (rule dec_safe_data) (use own assms(7) slot(1) in \<open>auto simp: field_post_def\<close>)
qed

lemma pb_release_rel_good: "env_wf env \<Longrightarrow> rel_good env n (pb_release env)"
  unfolding rel_good_def using pb_release_good by blast

lemma release_before_safe:
  assumes "env_wf env" "field_wf env f" "atype f = AT_POINTER" "htype f \<noteq> HT_REPEATED" "field_pre env f (Slot c data)"
  obtains p m where "(if ltype f = LT_SUBMESSAGE \<and> data \<noteq> [Ptr_item None] then pb_release_single_field (pb_release env) env f (Slot c data) l
      else Some (Slot c data, l)) = Some (Slot c [Ptr_item p], m)"
    "pointer_ok (struct_ok env) env f (Ptr_item p)" "ltype f = LT_SUBMESSAGE \<longrightarrow> p = None"
    "m + int (slot_ptrs (struct_ptrs env) env f (Slot c data)) =
      l + int (slot_ptrs (struct_ptrs env) env f (Slot (if htype f = HT_ONEOF then tag f else c) [Ptr_item p]))"
proof -
  let ?own = "slot_ptrs (struct_ptrs env) env f" and ?c = "if htype f = HT_ONEOF then tag f else c"
  have nz: "tag f \<noteq> 0" using assms(2) by (simp add: field_wf_def)
  have none: "?own (Slot ?c [Ptr_item None]) = 0" using single_slot(2) [OF assms(3,4) _ nz, of ?c] by simp
  show ?thesis
  proof (cases "htype f = HT_ONEOF \<and> c \<noteq> tag f")
    case True
    then have "data = [Ptr_item None]" "?own (Slot c data) = 0" using assms(3,5) by (auto simp: field_pre_def slot_ptrs_def)
    then show ?thesis using that [of None l] none by (simp add: pointer_ok_def)
  next
    case False
    then have ok: "slot_ok (struct_ok env) env f (Slot c data)" "?c = c" using assms(5) by (auto simp: field_pre_def)
    obtain p where p: "data = [Ptr_item p]" "pointer_ok (struct_ok env) env f (Ptr_item p)"
      using single_slotE [OF assms(3,4) _ ok(1)] False by blast
    show ?thesis
    proof (cases "ltype f = LT_SUBMESSAGE \<and> p \<noteq> None")
      case True
      obtain k' data' where r: "pb_release_single_field (pb_release env) env f (Slot c data) l = Some (Slot k' data', l - int (?own (Slot c data)))"
        "slot_ok (struct_ok env) env f (Slot k' data')" "?own (Slot k' data') = 0" "k' = c"
        using release_single_good [OF pb_release_rel_good [OF assms(1)] assms(1,2) ok(1) order_refl, of l] assms(4) unfolding rel_step_def by auto
      obtain q where q: "data' = [Ptr_item q]" using single_slotE [OF assms(3,4) _ r(2)] False r(4) by blast
      have "q = None" using r(2-4) assms(3) False by (cases q) (auto simp: q slot_ptrs_def)
      then show ?thesis using that [of None "l - int (?own (Slot c data))"] True r q none p(1) by (simp add: pointer_ok_def)
    next
      case nothing: False
      then show ?thesis using that [of p l] p ok(2) by auto
    qed
  qed
qed

theorem decode_pointer_field_safe:
  assumes "k_good env n k" "env_wf env" "env_flat env" "field_wf env f" "atype f = AT_POINTER" "field_pre env f slot"
  shows "field_safe (Suc n) env f (decode_pointer_field k env wt f) slot"
proof (cases "htype f = HT_REPEATED")
  case True
  then have "slot_ok (struct_ok env) env f slot" using assms(6) by (auto simp: field_pre_def split: pb_slot.splits)
  then show ?thesis by (rule dec_safe_weaken [OF array_field_safe [OF assms(1-5) True]]) (simp add: field_post_def True)
next
  case False
  obtain c data where slot: "slot = Slot c data" by (cases slot)
  let ?own = "slot_ptrs (struct_ptrs env) env f" and ?c = "if htype f = HT_ONEOF then tag f else c"
  let ?work = "on_data (if ltype f = LT_STRING \<or> ltype f = LT_BYTES then on_item 0 (pb_decoder k env f)
           else dec_then (on_item 0 (allocate_field env (grow_items env f 1) (data_size f) 1)) (decode_entry k env f 0))"
  show ?thesis
    unfolding dec_safe_def
  proof (intro allI impI)
    fix d :: "'a dstate"
    assume ok: "in_ok (stream d)" and left: "bytes_left (stream d) < Suc n"
    obtain p m where r: "(if ltype f = LT_SUBMESSAGE \<and> data \<noteq> [Ptr_item None] then pb_release_single_field (pb_release env) env f (Slot c data) (live d)
        else Some (Slot c data, live d)) = Some (Slot c [Ptr_item p], m)"
      "pointer_ok (struct_ok env) env f (Ptr_item p)" "ltype f = LT_SUBMESSAGE \<longrightarrow> p = None"
      "m + int (?own (Slot c data)) = live d + int (?own (Slot ?c [Ptr_item p]))"
      by (rule release_before_safe [OF assms(2,4,5) False assms(6) [unfolded slot]])
    have "field_safe (Suc n) env f ?work (Slot ?c [Ptr_item p])"
    proof (cases "ltype f = LT_STRING \<or> ltype f = LT_BYTES")
      case True
      with single_text_safe [OF assms(1-5) False _ r(2) True, of ?c] show ?thesis by simp
    next
      case other: False
      with single_other_safe [OF assms(1-5) False _ r(2) other r(3), of ?c] show ?thesis by simp
    qed
    moreover have "in_ok (stream (d\<lparr>live := m\<rparr>))" "bytes_left (stream (d\<lparr>live := m\<rparr>)) < Suc n" using ok left by simp_all
    ultimately obtain ok2 s' d' where w: "?work (Slot ?c [Ptr_item p]) (d\<lparr>live := m\<rparr>) = Some (ok2, s', d')" "field_post env f s'"
      "advanced (stream (d\<lparr>live := m\<rparr>)) (stream d')" "live d' + int (?own (Slot ?c [Ptr_item p])) = live (d\<lparr>live := m\<rparr>) + int (?own s')"
      by (rule dec_safeD)
    have "decode_pointer_field k env wt f slot d = ?work (Slot ?c [Ptr_item p]) (d\<lparr>live := m\<rparr>)"
      using r(1) False unfolding decode_pointer_field_def slot by simp
    then show "\<exists>ok x' d'. decode_pointer_field k env wt f slot d = Some (ok, x', d') \<and> field_post env f x' \<and> advanced (stream d) (stream d') \<and>
        live d' + int (?own slot) = live d + int (?own x')"
      using w r(4) by (simp add: slot)
  qed
qed

end
