(* ===== verification/Pb_Safety.thy ===== *)
theory Pb_Safety
  imports Pb_Pointers
begin

text \<open>
  Protocol buffers: \<open>pb_decode\<close> on any bytes returns, leaves a structure of the layout that the description says, accounts for every
  block it allocates and leaves none behind when it fails.
\<close>

section \<open>One slot of a structure\<close>

lemma sum_list2_update:
  fixes h :: "'a \<Rightarrow> 'b \<Rightarrow> nat"
  shows "i < length ys \<Longrightarrow> length xs = length ys \<Longrightarrow>
    sum_list (map2 h xs (ys[i := y])) + h (xs ! i) (ys ! i) = sum_list (map2 h xs ys) + h (xs ! i) y"
  by (induction xs ys arbitrary: i rule: list_induct2') (auto split: nat.split simp: nth_Cons')

lemma slots_length: "flds \<noteq> [] \<Longrightarrow> struct_ok env flds slots \<Longrightarrow> length slots = length (groups flds)"
  using struct_ok_groups [of flds env slots] by (simp add: list_all2_lengthD)

lemma slot_group_ok: "flds \<noteq> [] \<Longrightarrow> struct_ok env flds slots \<Longrightarrow> i < length slots \<Longrightarrow> group_ok env (groups flds ! i) (slots ! i)"
  using struct_ok_groups [of flds env slots] by (simp add: list_all2_conv_all_nth)

lemma slot_update_ok:
  "flds \<noteq> [] \<Longrightarrow> struct_ok env flds slots \<Longrightarrow> i < length slots \<Longrightarrow> group_ok env (groups flds ! i) s \<Longrightarrow> struct_ok env flds (slots[i := s])"
  using struct_ok_groups [of flds env slots] struct_ok_groups [of flds env "slots[i := s]"]
  by (auto simp: list_all2_conv_all_nth nth_list_update)

lemma slot_update_ptrs:
  assumes "flds \<noteq> []" "struct_ok env flds slots" "i < length slots"
  shows "struct_ptrs env flds (slots[i := s]) + group_ptrs env (groups flds ! i) (slots ! i) =
    struct_ptrs env flds slots + group_ptrs env (groups flds ! i) s"
  unfolding struct_ptrs_sum [of env flds slots] struct_ptrs_sum [of env flds "slots[i := s]"]
  using assms slots_length [OF assms(1,2)] by (intro sum_list2_update) simp_all

lemma field_slot:
  assumes "struct_ok env flds slots" "fields_wf env flds" "p < length flds"
  shows "group_no flds p < length slots" "group_wf env (groups flds ! group_no flds p)" "flds ! p \<in> set (groups flds ! group_no flds p)"
    "field_wf env (flds ! p)"
proof -
  have "flds \<noteq> []" using assms(3) by auto
  then show "group_no flds p < length slots" "group_wf env (groups flds ! group_no flds p)" "flds ! p \<in> set (groups flds ! group_no flds p)"
    "field_wf env (flds ! p)"
    using group_no_member [OF assms(3)] slots_length [OF _ assms(1)] fields_groups_wf [OF assms(2)] assms by (auto simp: fields_wf_def)
qed

lemma same_tag: "fields_wf env flds \<Longrightarrow> p < length flds \<Longrightarrow> q < length flds \<Longrightarrow> tag (flds ! p) = tag (flds ! q) \<Longrightarrow> p = q"
  unfolding fields_wf_def by (metis distinct_conv_nth length_map nth_map)

lemma group_unique:
  assumes "fields_wf env flds" "q < length flds" "i < length (groups flds)" "flds ! q \<in> set (groups flds ! i)"
  shows "i = group_no flds q"
proof (rule ccontr)
  assume ne: "i \<noteq> group_no flds q"
  note member = group_no_member [OF assms(2)]
  have "distinct flds" using assms(1) by (simp add: fields_wf_def distinct_map)
  then have d: "distinct (removeAll [] (groups flds))" "\<And>g h. g \<in> set (groups flds) \<Longrightarrow> h \<in> set (groups flds) \<Longrightarrow> g \<noteq> h \<Longrightarrow> set g \<inter> set h = {}"
    using distinct_concat_iff [of "groups flds"] by (simp_all add: concat_groups)
  have "[] \<notin> set (groups flds)" using groups_members by blast
  then have "distinct (groups flds)" using d(1) by simp
  then have "groups flds ! i \<noteq> groups flds ! group_no flds q" using ne assms(3) member by (simp add: nth_eq_iff_index_eq)
  then show False using d(2) [of "groups flds ! i" "groups flds ! group_no flds q"] assms(3,4) member by auto
qed

text \<open>Releasing a field of a structure.\<close>

lemma release_field_safe:
  assumes "env_wf env" "fields_wf env flds" "struct_ok env flds slots" "q < length flds" "slots ! group_no flds q = Slot k data"
  obtains k' data' m where "pb_release_single_field (pb_release env) env (flds ! q) (Slot k data) l = Some (Slot k' data', m)"
    "struct_ok env flds (slots[group_no flds q := Slot k' data'])"
    "m + int (struct_ptrs env flds slots) = l + int (struct_ptrs env flds (slots[group_no flds q := Slot k' data']))"
    "htype (flds ! q) = HT_ONEOF \<longrightarrow> k' = k"
    "htype (flds ! q) = HT_ONEOF \<longrightarrow> k = tag (flds ! q) \<Longrightarrow> group_ptrs env (groups flds ! group_no flds q) (Slot k' data') = 0"
proof -
  have ne: "flds \<noteq> []" using assms(4) by auto
  let ?j = "group_no flds q" and ?f = "flds ! q"
  let ?g = "groups flds ! ?j"
  note qs = field_slot [OF assms(3,2,4)]
  have g_ok: "group_ok env ?g (Slot k data)" using slot_group_ok [OF ne assms(3) qs(1)] assms(5) by simp
  then have f_ok: "slot_ok (struct_ok env) env ?f (Slot k data)" using qs(3) by (simp add: group_ok_def)
  show ?thesis
  proof (cases "htype ?f = HT_ONEOF \<longrightarrow> k = tag ?f")
    case True
    note current = group_current [OF qs(2,3)]
    have "rel_step env ?f (Slot k data) l (pb_release_single_field (pb_release env) env ?f (Slot k data) l)"
      by (rule release_single_good [OF pb_release_rel_good [OF assms(1)] assms(1) qs(4) f_ok order_refl])
    then obtain k' data' where r: "pb_release_single_field (pb_release env) env ?f (Slot k data) l =
        Some (Slot k' data', l - int (slot_ptrs (struct_ptrs env) env ?f (Slot k data)))"
      "slot_ok (struct_ok env) env ?f (Slot k' data')" "slot_ptrs (struct_ptrs env) env ?f (Slot k' data') = 0" "htype ?f \<noteq> HT_REPEATED \<longrightarrow> k' = k"
      unfolding rel_step_def by auto
    have new: "group_ok env ?g (Slot k' data') \<and> group_ptrs env ?g (Slot k' data') = 0"
    proof (cases "htype ?f = HT_ONEOF")
      case oneof: True
      then have "k' = k" using r(4) by simp
      moreover obtain x where "data' = [x]" using oneof_single [OF r(2) oneof] by blast
      ultimately show ?thesis using current(1) [of k' data'] current(3) [of k' x] r(2,3) True by simp
    next
      case False
      then have "?g = [?f]" using qs(2,3) by (auto simp: group_wf_def)
      then show ?thesis using r(2,3) by (simp add: group_ok_def group_ptrs_def)
    qed
    have "group_ptrs env ?g (Slot k data) = slot_ptrs (struct_ptrs env) env ?f (Slot k data)" by (rule current(1) [OF True])
    then show ?thesis
      using that [OF r(1)] slot_update_ok [OF ne assms(3) qs(1)] slot_update_ptrs [OF ne assms(3) qs(1), of "Slot k' data'"] new r(4) assms(5) by auto
  next
    case False
    then have "pb_release_single_field (pb_release env) env ?f (Slot k data) l = Some (Slot k data, l)"
      by (simp add: pb_release_single_field_def)
    moreover have "slots[?j := Slot k data] = slots" using assms(5) by (metis list_update_id)
    ultimately show ?thesis using that [of k data l] assms(3) False by simp
  qed
qed

section \<open>Unions\<close>

text \<open>A group of a union none of whose members is the current one.\<close>

lemma group_stale:
  assumes "group_wf env g" "f \<in> set g" "htype f = HT_ONEOF" "\<forall>f' \<in> set g. tag f' \<noteq> n"
  shows "group_ptrs env g (Slot n data) = 0"
proof -
  have "\<forall>f' \<in> set g. htype f' = HT_ONEOF" using assms(1-3) by (auto simp: group_wf_def)
  then show ?thesis using assms(4) unfolding group_ptrs_def by (intro union_none)
qed

text \<open>What is left of a union that is not at its field: the field may take it over.\<close>

lemma union_pre:
  assumes "atype f = AT_POINTER \<longrightarrow> data = [Ptr_item None]" "htype f = HT_ONEOF" "n \<noteq> tag f"
  shows "field_pre env f (Slot n data)" "slot_ptrs (struct_ptrs env) env f (Slot n data) = 0"
  using assms by (simp_all add: field_pre_def slot_ptrs_def)

lemma union_stale:
  assumes "fields_wf env flds" "struct_ok env flds slots" "p < length flds" "htype (flds ! p) = HT_ONEOF" "slots ! group_no flds p = Slot old data"
    and "q < length flds" "tag (flds ! q) = old" "slots ! group_no flds q = Slot k data0"
    and "htype (flds ! q) = HT_ONEOF \<longrightarrow> k' = k"
    and "htype (flds ! q) = HT_ONEOF \<longrightarrow> k = tag (flds ! q) \<Longrightarrow> group_ptrs env (groups flds ! group_no flds q) (Slot k' data') = 0"
    and "old \<noteq> tag (flds ! p)"
  shows "\<exists>data1. slots[group_no flds q := Slot k' data'] ! group_no flds p = Slot old data1 \<and>
    group_ptrs env (groups flds ! group_no flds p) (Slot old data1) = 0"
proof (cases "group_no flds q = group_no flds p")
  case True
  note fs = field_slot [OF assms(2,1,3)]
  have "flds ! q \<noteq> flds ! p" using assms(7,11) by auto
  moreover have "flds ! q \<in> set (groups flds ! group_no flds p)" using field_slot(3) [OF assms(2,1,6)] True by simp
  ultimately have "htype (flds ! q) = HT_ONEOF" using fs(2,3) by (auto simp: group_wf_def)
  moreover have "k = old" using assms(5,8) True by simp
  ultimately have "k' = old" "group_ptrs env (groups flds ! group_no flds q) (Slot k' data') = 0" using assms(7,9,10) by simp_all
  then show ?thesis using True fs(1) by (intro exI [of _ data']) simp
next
  case False
  note fs = field_slot [OF assms(2,1,3)]
  have "tag f' \<noteq> old" if "f' \<in> set (groups flds ! group_no flds p)" for f'
  proof
    assume t: "tag f' = old"
    have i: "group_no flds p < length (groups flds)" using group_no_member [OF assms(3)] by simp
    then have "f' \<in> set (concat (groups flds))" using that nth_mem [OF i] by auto
    then have "f' \<in> set flds" by (simp only: concat_groups)
    then obtain r where r: "r < length flds" "flds ! r = f'" by (auto simp: in_set_conv_nth)
    have "r = q" using t r(2) assms(7) by (intro same_tag [OF assms(1) r(1) assms(6)]) simp
    then have "flds ! q \<in> set (groups flds ! group_no flds p)" using that r(2) by simp
    then show False using group_unique [OF assms(1,6) i] False by simp
  qed
  then have "group_ptrs env (groups flds ! group_no flds p) (Slot old data) = 0" by (intro group_stale [OF fs(2,3) assms(4)]) blast
  then show ?thesis using False assms(5) by (intro exI [of _ data]) simp
qed

lemma find_back:
  assumes "fields_wf env flds" "p < length flds" "q < length flds"
  shows "pb_field_iter_find flds (iter_at flds q) (tag (flds ! p)) = (True, iter_at flds p)"
proof -
  have nz: "0 \<notin> tag ` set flds" using assms(1) by (auto simp: fields_wf_def field_wf_def)
  show ?thesis
  proof (cases rule: find_at [OF nz assms(3), of "tag (flds ! p)"])
    case (1 r)
    have "r = p" by (rule same_tag [OF assms(1) 1(1) assms(2) 1(2)])
    then show ?thesis using 1(3) by simp
  next
    case 2
    then show ?thesis using assms(2) by simp
  qed
qed

definition union_released :: "pb_env \<Rightarrow> pb_field list \<Rightarrow> nat \<Rightarrow> pb_slot list \<Rightarrow> bool \<Rightarrow> pb_field_iter \<Rightarrow> pb_slot list \<Rightarrow> pb_slot list \<Rightarrow> bool" where
  "union_released env flds p slots ok iter' slots' slots1 \<longleftrightarrow> struct_ok env flds slots1 \<and>
    (if ok then iter' = iter_at flds p \<and> (\<exists>s. slots' = slots1[group_no flds p := s] \<and> field_pre env (flds ! p) s \<and>
        slot_ptrs (struct_ptrs env) env (flds ! p) s = group_ptrs env (groups flds ! group_no flds p) (slots1 ! group_no flds p))
     else slots' = slots1)"

lemma release_union_safe:
  assumes "env_wf env" "fields_wf env flds" "struct_ok env flds slots" "p < length flds" "htype (flds ! p) = HT_ONEOF"
  shows "\<exists>ok iter' slots' d' slots1. pb_release_union_field env flds (iter_at flds p, slots) d = Some (ok, (iter', slots'), d') \<and>
    union_released env flds p slots ok iter' slots' slots1 \<and> (stream d' = stream d \<or> stream d' = set_error ''invalid union tag'' (stream d)) \<and>
    live d' + int (struct_ptrs env flds slots) = live d + int (struct_ptrs env flds slots1)"
proof -
  have ne: "flds \<noteq> []" using assms(4) by auto
  have nz: "0 \<notin> tag ` set flds" using assms(2) by (auto simp: fields_wf_def field_wf_def)
  let ?i = "group_no flds p" and ?f = "flds ! p"
  let ?g = "groups flds ! ?i"
  note fs = field_slot [OF assms(3,2,4)]
  obtain old data where s: "slots ! ?i = Slot old data" by (cases "slots ! ?i")
  have ok_i: "group_ok env ?g (Slot old data)" using slot_group_ok [OF ne assms(3) fs(1)] s by simp
  then have f_ok: "slot_ok (struct_ok env) env ?f (Slot old data)" using fs(3) by (auto simp: group_ok_def)
  note unf = pb_release_union_field_def field_at_less [OF assms(4)] s
  show ?thesis
  proof (cases "old = 0 \<or> old = tag ?f")
    case True
    have "field_pre env ?f (Slot old data) \<and> slot_ptrs (struct_ptrs env) env ?f (Slot old data) = group_ptrs env ?g (Slot old data)"
    proof (cases "old = tag ?f")
      case True
      then show ?thesis using f_ok group_current(1) [OF fs(2,3), of old data] assms(5) by (simp add: field_pre_def)
    next
      case False
      then have "old = 0" using True by simp
      moreover have "\<forall>f' \<in> set ?g. tag f' \<noteq> 0" using fs(2) by (auto simp: group_wf_def field_wf_def)
      ultimately have "group_ptrs env ?g (Slot old data) = 0" using fs(2,3) assms(5) by (intro group_stale) auto
      moreover have "atype ?f = AT_POINTER \<longrightarrow> data = [Ptr_item None]" using f_ok assms(5) \<open>old = 0\<close> by (auto simp: slot_ok_def)
      ultimately show ?thesis using union_pre [of ?f data old] assms(5) False by simp
    qed
    then have "union_released env flds p slots True (iter_at flds p) slots slots"
      using s assms(3) list_update_id [of slots ?i] unfolding union_released_def by (auto intro!: exI [of _ "Slot old data"])
    moreover have "pb_release_union_field env flds (iter_at flds p, slots) d = Some (True, (iter_at flds p, slots), d)"
      using True fs(1) by (auto simp: unf Let_def)
    ultimately show ?thesis by blast
  next
    case other: False
    show ?thesis
    proof (cases rule: find_at [OF nz assms(4), of old])
      case 2
      then have "pb_release_union_field env flds (iter_at flds p, slots) d =
          Some (False, (iter_at flds p, slots), d\<lparr>stream := set_error ''invalid union tag'' (stream d)\<rparr>)"
        using other fs(1) by (simp add: unf Let_def dec_error_def)
      moreover have "union_released env flds p slots False (iter_at flds p) slots slots" using assms(3) by (simp add: union_released_def)
      ultimately show ?thesis
        by (intro exI [of _ False] exI [of _ "iter_at flds p"] exI [of _ slots]
            exI [of _ "d\<lparr>stream := set_error ''invalid union tag'' (stream d)\<rparr>"] conjI) simp_all
    next
      case found: (1 q)
      let ?j = "group_no flds q"
      note qs = field_slot [OF assms(3,2) found(1)]
      obtain k data0 where sj: "slots ! ?j = Slot k data0" by (cases "slots ! ?j")
      obtain k' data' m where r: "pb_release_single_field (pb_release env) env (flds ! q) (Slot k data0) (live d) = Some (Slot k' data', m)"
        "struct_ok env flds (slots[?j := Slot k' data'])"
        "m + int (struct_ptrs env flds slots) = live d + int (struct_ptrs env flds (slots[?j := Slot k' data']))"
        "htype (flds ! q) = HT_ONEOF \<longrightarrow> k' = k"
        "htype (flds ! q) = HT_ONEOF \<longrightarrow> k = tag (flds ! q) \<Longrightarrow> group_ptrs env (groups flds ! ?j) (Slot k' data') = 0"
        using release_field_safe [OF assms(1-3) found(1) sj, of "live d"] by blast
      let ?slots1 = "slots[?j := Slot k' data']"
      have stale: "\<exists>data1. ?slots1 ! ?i = Slot old data1 \<and> group_ptrs env ?g (Slot old data1) = 0"
        using r(4,5) by (rule union_stale [OF assms(2,3,4,5) s found(1,2) sj]) (use other in simp_all)
      then obtain data1 where d1: "?slots1 ! ?i = Slot old data1" "group_ptrs env ?g (Slot old data1) = 0" by blast
      note return = find_back [OF assms(2,4) found(1)]
      define slots' where "slots' = (if atype ?f = AT_POINTER then ?slots1[?i := Slot old [Ptr_item None]] else ?slots1)"
      have "pb_release_union_field env flds (iter_at flds p, slots) d = Some (True, (iter_at flds p, slots'), d\<lparr>live := m\<rparr>)"
        using other fs(1) qs(1) found(3) r(1) return d1(1)
        by (simp add: unf Let_def sj field_at_less [OF found(1)] slots'_def)
      moreover have "union_released env flds p slots True (iter_at flds p) slots' ?slots1"
      proof -
        have "?slots1 = ?slots1[?i := Slot old data1]" using d1(1) list_update_id [of ?slots1 ?i] by simp
        then obtain x where x: "slots' = ?slots1[?i := Slot old x]" "atype ?f = AT_POINTER \<longrightarrow> x = [Ptr_item None]"
          unfolding slots'_def by (cases "atype ?f = AT_POINTER") auto
        then show ?thesis using union_pre [of ?f x old] other assms(5) d1 r(2) by (auto simp: union_released_def)
      qed
      ultimately show ?thesis using r(3)
        by (intro exI [of _ True] exI [of _ "iter_at flds p"] exI [of _ slots'] exI [of _ "d\<lparr>live := m\<rparr>"] exI [of _ ?slots1] conjI) simp_all
    qed
  qed
qed

section \<open>Fields of a message\<close>

lemma flat_field: "flat_fields flds \<Longrightarrow> f \<in> set flds \<Longrightarrow> flat_fields [f]"
  by (simp add: flat_fields_def)

lemma group_post:
  assumes "group_wf env g" "f \<in> set g" "field_post env f s"
  shows "group_ok env g s" "group_ptrs env g s = slot_ptrs (struct_ptrs env) env f s"
proof -
  have "group_ok env g s \<and> group_ptrs env g s = slot_ptrs (struct_ptrs env) env f s"
  proof (cases "htype f = HT_ONEOF")
    case True
    with assms(3) obtain x where "s = Slot (tag f) [x]" "slot_ok (struct_ok env) env f s" by (auto simp: field_post_def)
    then show ?thesis using group_current(1,3) [OF assms(1,2)] by simp
  next
    case False
    then have "g = [f]" using assms(1,2) by (auto simp: group_wf_def)
    then show ?thesis using assms(3) by (simp add: field_post_def group_ok_def group_ptrs_def)
  qed
  then show "group_ok env g s" "group_ptrs env g s = slot_ptrs (struct_ptrs env) env f s" by blast+
qed

lemma decode_field_safe:
  fixes k :: "'i decoder"
  assumes "k_good env n k" "env_wf env" "env_flat env" "fields_wf env flds" "flat_fields flds" "struct_ok env flds slots" "p < length flds"
    and "in_ok (stream d)" "bytes_left (stream d) < Suc n"
  shows "\<exists>ok iter' slots' d'. decode_field k env flds wt (iter_at flds p, slots) d = Some (ok, (iter', slots'), d') \<and>
    struct_ok env flds slots' \<and> advanced (stream d) (stream d') \<and>
    live d' + int (struct_ptrs env flds slots) = live d + int (struct_ptrs env flds slots') \<and> (ok \<longrightarrow> iter' = iter_at flds p)"
proof -
  have ne: "flds \<noteq> []" using assms(7) by auto
  let ?i = "group_no flds p" and ?f = "flds ! p"
  let ?g = "groups flds ! ?i" and ?own = "slot_ptrs (struct_ptrs env) env (flds ! p)"
  let ?first = "(\<lambda>(iter, slots). if htype (field_at flds (position iter)) = HT_ONEOF then pb_release_union_field env flds (iter, slots)
        else (\<lambda>d. Some (True, (iter, slots), d)))"
  note fs = field_slot [OF assms(6,4,7)]
  have flat: "flat_fields [?f]" using assms(5) nth_mem [OF assms(7)] by (rule flat_field)
  have "\<exists>ok iter' slots' d' slots1. ?first (iter_at flds p, slots) d = Some (ok, (iter', slots'), d') \<and>
    union_released env flds p slots ok iter' slots' slots1 \<and> (stream d' = stream d \<or> stream d' = set_error ''invalid union tag'' (stream d)) \<and>
    live d' + int (struct_ptrs env flds slots) = live d + int (struct_ptrs env flds slots1)"
  proof (cases "htype ?f = HT_ONEOF")
    case True
    with release_union_safe [OF assms(2,4,6,7) True, of d] show ?thesis by (simp add: field_at_less [OF assms(7)])
  next
    case False
    then have g: "?g = [?f]" using fs(2,3) by (auto simp: group_wf_def)
    have "slot_ok (struct_ok env) env ?f (slots ! ?i)" using slot_group_ok [OF ne assms(6) fs(1)] g by (simp add: group_ok_def)
    then have "field_pre env ?f (slots ! ?i)" using False by (auto simp: field_pre_def split: pb_slot.split)
    then have "union_released env flds p slots True (iter_at flds p) slots slots"
      using assms(6) g list_update_id [of slots ?i] by (auto simp: union_released_def group_ptrs_def intro!: exI [of _ "slots ! ?i"])
    then show ?thesis using False by (force simp: field_at_less [OF assms(7)])
  qed
  then obtain ok iter1 slots2 d1 slots1 where u: "?first (iter_at flds p, slots) d = Some (ok, (iter1, slots2), d1)"
    "union_released env flds p slots ok iter1 slots2 slots1" "stream d1 = stream d \<or> stream d1 = set_error ''invalid union tag'' (stream d)"
    "live d1 + int (struct_ptrs env flds slots) = live d + int (struct_ptrs env flds slots1)" by blast
  have adv: "advanced (stream d) (stream d1)" using u(3) by (auto simp: set_error_def)
  show ?thesis
  proof (cases ok)
    case False
    then show ?thesis using u adv by (simp add: decode_field_def dec_then_def union_released_def)
  next
    case True
    then obtain s where s: "iter1 = iter_at flds p" "slots2 = slots1[?i := s]" "field_pre env ?f s" "?own s = group_ptrs env ?g (slots1 ! ?i)"
      "struct_ok env flds slots1"
      using u(2) by (auto simp: union_released_def)
    have len: "?i < length slots1" using field_slot [OF s(5) assms(4,7)] by blast
    let ?work = "case atype ?f of AT_STATIC \<Rightarrow> decode_static_field k env wt ?f | AT_POINTER \<Rightarrow> decode_pointer_field k env wt ?f"
    have "field_safe (Suc n) env ?f ?work s"
      using decode_static_field_safe [OF assms(1-3) fs(4) flat _ s(3)] decode_pointer_field_safe [OF assms(1-3) fs(4) _ s(3)] by (cases "atype ?f") simp_all
    moreover have "in_ok (stream d1)" "bytes_left (stream d1) < Suc n"
      using advanced_ok [OF assms(8) adv] advanced_left [OF adv] assms(9) by simp_all
    ultimately obtain ok2 s' d2 where w: "?work s d1 = Some (ok2, s', d2)" "field_post env ?f s'" "advanced (stream d1) (stream d2)"
      "live d2 + int (?own s) = live d1 + int (?own s')" by (rule dec_safeD)
    note post = group_post [OF fs(2,3) w(2)]
    have "decode_field k env flds wt (iter_at flds p, slots) d = Some (ok2, (iter_at flds p, slots1[?i := s']), d2)"
      using u(1) w(1) len True s(1,2) unfolding decode_field_def dec_then_def Let_def
      by (cases "atype ?f") (simp_all add: field_at_less [OF assms(7)])
    moreover have "struct_ok env flds (slots1[?i := s'])" by (rule slot_update_ok [OF ne s(5) len post(1)])
    moreover have "live d2 + int (struct_ptrs env flds slots) = live d + int (struct_ptrs env flds (slots1[?i := s']))"
      using slot_update_ptrs [OF ne s(5) len, of s'] post(2) s(4) u(4) w(4) by linarith
    ultimately show ?thesis using advanced_trans [OF adv w(3)] by blast
  qed
qed

text \<open>A message without fields has a byte of its own, which a field with the number 0 would set.\<close>

lemma empty_field_safe:
  assumes "struct_ok env [] slots" "in_ok (stream d)"
  shows "\<exists>ok slots' d'. decode_field k env [] wt (iter_start, slots) d = Some (ok, (iter_start, slots'), d') \<and>
    struct_ok env [] slots' \<and> advanced (stream d) (stream d') \<and> live d' = live d"
proof -
  obtain z where z: "slots = [z]" "slot_ok (struct_ok env) env PB_LAST_FIELD z"
    using assms(1) by (auto simp: struct_ok_iff [of env "[]"] field_groups_def list_all2_Cons1)
  obtain c x where x: "z = Slot c [x]" "datum_ok (struct_ok env) env PB_LAST_FIELD x"
    using z(2) by (cases z) (auto simp: slot_ok_def PB_LAST_FIELD_def)
  obtain b where "x = Bool_item b" using x(2) by (cases x) (simp_all add: datum_ok_def PB_LAST_FIELD_def)
  then have slots: "slots = [Slot c [Bool_item b]]" using z(1) x(1) by simp
  have ok: "struct_ok env [] [Slot c [Bool_item b']]" for b'
    by (auto simp: struct_ok_iff [of env "[]"] field_groups_def slot_ok_def PB_LAST_FIELD_def datum_ok_def)
  obtain r t where r: "pb_dec_bool (stream d) = (r, t)" by (cases "pb_dec_bool (stream d)")
  have "advanced (stream d) t" by (rule readerD [OF reader_values(2) r assms(2)])
  moreover have "field_at [] 0 = PB_LAST_FIELD" by (simp add: field_at_def)
  ultimately show ?thesis
    using ok r by (cases r) (auto simp: decode_field_def dec_then_def iter_start_def slots decode_static_field_def PB_LAST_FIELD_def
        pb_decoder_def pb_dec_bool_field_def dec_read_def dec_store_def on_data_def on_item_def Let_def)
qed

section \<open>Messages\<close>

definition at_field :: "pb_field list \<Rightarrow> nat \<Rightarrow> bool" where
  "at_field flds p \<longleftrightarrow> p < length flds \<or> flds = [] \<and> p = 0"

lemma find_any:
  assumes "fields_wf env flds" "at_field flds p"
  obtains b q where "pb_field_iter_find flds (iter_at flds p) t = (b, iter_at flds q)" "at_field flds q"
proof (cases "flds = []")
  case True
  then have "pb_field_iter_find flds (iter_at flds p) t = (t = 0, iter_at flds p)"
    using assms(2) by (auto simp: at_field_def pb_field_iter_find_def field_at_def pb_field_iter_next_def PB_LAST_FIELD_def Let_def)
  then show ?thesis using that assms(2) by blast
next
  case False
  then have p: "p < length flds" using assms(2) by (simp add: at_field_def)
  have nz: "0 \<notin> tag ` set flds" using assms(1) by (auto simp: fields_wf_def field_wf_def)
  show ?thesis
  proof (cases rule: find_at [OF nz p, of t])
    case (1 q)
    then show ?thesis using that [of True q] by (simp add: at_field_def)
  next
    case 2
    then show ?thesis using that [of False p] assms(2) by simp
  qed
qed

lemma decode_any_field_safe:
  fixes k :: "'i decoder"
  assumes "k_good env n k" "env_wf env" "env_flat env" "fields_wf env flds" "flat_fields flds" "struct_ok env flds slots" "at_field flds p"
    and "in_ok (stream d)" "bytes_left (stream d) < Suc n"
  shows "\<exists>ok iter' slots' d'. decode_field k env flds wt (iter_at flds p, slots) d = Some (ok, (iter', slots'), d') \<and>
    struct_ok env flds slots' \<and> advanced (stream d) (stream d') \<and>
    live d' + int (struct_ptrs env flds slots) = live d + int (struct_ptrs env flds slots') \<and> (ok \<longrightarrow> iter' = iter_at flds p)"
proof (cases "flds = []")
  case True
  have "struct_ptrs env [] slots = 0" for slots by (simp add: struct_ptrs.simps)
  with empty_field_safe [OF assms(6) [unfolded True] assms(8), of k wt] assms(7) True show ?thesis
    by (auto simp: at_field_def iter_at_0)
next
  case False
  then show ?thesis using decode_field_safe [OF assms(1-6) _ assms(8,9)] assms(7) by (simp add: at_field_def)
qed

lemma fields_loop_safe:
  fixes k :: "'i decoder"
  assumes "k_good env n k" "env_wf env" "env_flat env" "fields_wf env flds" "flat_fields flds"
  shows "struct_ok env flds slots \<Longrightarrow> at_field flds p \<Longrightarrow> in_ok (stream d) \<Longrightarrow> bytes_left (stream d) < m \<Longrightarrow> m \<le> Suc n \<Longrightarrow>
    \<exists>ok seen' iter' slots' d'. fields_loop m k env flds (seen, iter_at flds p, slots) d = Some (ok, (seen', iter', slots'), d') \<and>
      struct_ok env flds slots' \<and> advanced (stream d) (stream d') \<and> live d' + int (struct_ptrs env flds slots) = live d + int (struct_ptrs env flds slots')"
proof (induction m arbitrary: seen p slots d)
  case (Suc m)
  note prems = Suc.prems
  show ?case
  proof (cases "bytes_left (stream d) = 0")
    case nonempty: False
    obtain r eof t where tag: "pb_decode_tag (stream d) = (r, eof, t)" by (cases "pb_decode_tag (stream d)")
    have t: "advanced (stream d) t" by (rule decode_tag_advanced(1) [OF prems(3) tag])
    note ok_t = advanced_ok [OF prems(3) t]
    show ?thesis
    proof (cases r)
      case (Some v)
      obtain wt f where v: "v = (wt, f)" by (cases v)
      have less: "bytes_left t < m" using decode_tag_advanced(2) [OF prems(3) tag Some] prems(4) by simp
      have m: "m \<le> Suc n" using prems(5) by simp
      let ?again = "\<lambda>seen q slots d. \<exists>ok seen' iter' slots' d'. fields_loop m k env flds (seen, iter_at flds q, slots) d = Some (ok, (seen', iter', slots'), d') \<and>
        struct_ok env flds slots' \<and> advanced (stream d) (stream d') \<and> live d' + int (struct_ptrs env flds slots) = live d + int (struct_ptrs env flds slots')"
      have again: "?again seen q slots d" if "struct_ok env flds slots" "at_field flds q" "advanced t (stream d)" for seen q slots d
      proof (rule Suc.IH [OF that(1,2) _ _ m])
        show "in_ok (stream d)" by (rule advanced_ok [OF ok_t that(3)])
        show "bytes_left (stream d) < m" using advanced_left [OF that(3)] less by simp
      qed
      obtain b q where q: "pb_field_iter_find flds (iter_at flds p) f = (b, iter_at flds q)" "at_field flds q"
        by (rule find_any [OF assms(4) prems(2)])
      show ?thesis
      proof (cases b)
        case True
        let ?seen = "mark_seen (field_at flds (position (iter_at flds q))) (required_field_index (iter_at flds q)) seen"
        have "in_ok (stream (d\<lparr>stream := t\<rparr>))" "bytes_left (stream (d\<lparr>stream := t\<rparr>)) < Suc n" using ok_t less m by simp_all
        from decode_any_field_safe [OF assms prems(1) q(2) this, of wt]
        obtain ok iter1 slots1 d1 where f: "decode_field k env flds wt (iter_at flds q, slots) (d\<lparr>stream := t\<rparr>) = Some (ok, (iter1, slots1), d1)"
          "struct_ok env flds slots1" "advanced t (stream d1)" "live d1 + int (struct_ptrs env flds slots) = live d + int (struct_ptrs env flds slots1)"
          "ok \<longrightarrow> iter1 = iter_at flds q" by auto
        have unf: "fields_loop (Suc m) k env flds (seen, iter_at flds p, slots) d =
            (if ok then fields_loop m k env flds (?seen, iter1, slots1) d1 else Some (False, (?seen, iter1, slots1), d1))"
          using nonempty tag q(1) True f(1) by (simp add: Some v Let_def del: position_iter_at)
        show ?thesis
        proof (cases ok)
          case True
          from again [OF f(2) q(2) f(3), of ?seen]
          obtain ok2 seen2 iter2 slots2 d2 where l: "fields_loop m k env flds (?seen, iter_at flds q, slots1) d1 = Some (ok2, (seen2, iter2, slots2), d2)"
            "struct_ok env flds slots2" "advanced (stream d1) (stream d2)" "live d2 + int (struct_ptrs env flds slots1) = live d1 + int (struct_ptrs env flds slots2)"
            by blast
          have "advanced (stream d) (stream d2)" by (rule advanced_trans [OF t advanced_trans [OF f(3) l(3)]])
          then show ?thesis using unf True f(4,5) l by simp
        next
          case False
          then show ?thesis using unf f advanced_trans [OF t f(3)] by simp
        qed
      next
        case False
        obtain u w where w: "pb_skip_field wt t = (u, w)" by (cases "pb_skip_field wt t")
        have tw: "advanced t w" by (rule readerD [OF reader_skip_field w ok_t])
        have unf: "fields_loop (Suc m) k env flds (seen, iter_at flds p, slots) d =
            (case u of None \<Rightarrow> Some (False, (seen, iter_at flds q, slots), d\<lparr>stream := w\<rparr>)
              | Some _ \<Rightarrow> fields_loop m k env flds (seen, iter_at flds q, slots) (d\<lparr>stream := w\<rparr>))"
          using nonempty tag q(1) False w by (simp add: Some v)
        show ?thesis
        proof (cases u)
          case None
          then show ?thesis using unf prems(1) advanced_trans [OF t tw] by simp
        next
          case (Some z)
          have "advanced t (stream (d\<lparr>stream := w\<rparr>))" using tw by simp
          from again [OF prems(1) q(2) this, of seen]
          obtain ok2 seen2 iter2 slots2 d2 where l: "fields_loop m k env flds (seen, iter_at flds q, slots) (d\<lparr>stream := w\<rparr>) = Some (ok2, (seen2, iter2, slots2), d2)"
            "struct_ok env flds slots2" "advanced w (stream d2)" "live d2 + int (struct_ptrs env flds slots) = live d + int (struct_ptrs env flds slots2)"
            by auto
          have "advanced (stream d) (stream d2)" by (rule advanced_trans [OF t advanced_trans [OF tw l(3)]])
          then show ?thesis using unf Some l by simp
        qed
      qed
    qed (use nonempty tag t prems(1) in simp)
  qed (use prems(1) in simp)
qed simp

theorem decode_nested_good:
  assumes "env_wf env" "env_flat env"
  shows "k_good env n (decode_nested n env :: 'i decoder)"
proof (induction n)
  case (Suc n)
  show ?case
    unfolding k_good_def
  proof (intro allI impI)
    fix init flds and slots :: "pb_slot list"
    assume wf: "fields_wf env flds" and flat: "flat_fields flds"
      and pre: "if init then struct_raw env flds slots else struct_ok env flds slots"
    obtain slots0 where s0: "(if init then pb_message_set_to_defaults env flds slots else Some slots) = Some slots0" "struct_ok env flds slots0"
      "struct_ptrs env flds slots0 = (if init then 0 else struct_ptrs env flds slots)"
      using pre defaults_good [OF assms(1) wf, of slots] by (cases init) auto
    show "message_safe (Suc n) env init flds (decode_nested (Suc n) env init flds :: (pb_slot list, 'i) dec) slots"
      unfolding dec_safe_def
    proof (intro allI impI)
      fix d :: "'i dstate"
      assume d: "in_ok (stream d)" "bytes_left (stream d) < Suc n"
      have at: "at_field flds 0" by (simp add: at_field_def)
      from fields_loop_safe [OF Suc assms wf flat s0(2) at d order_refl, of "[0, 0]"]
      obtain ok seen iter slots1 d1 where l: "fields_loop (Suc n) (decode_nested n env) env flds ([0, 0], iter_start, slots0) d = Some (ok, (seen, iter, slots1), d1)"
        "struct_ok env flds slots1" "advanced (stream d) (stream d1)" "live d1 + int (struct_ptrs env flds slots0) = live d + int (struct_ptrs env flds slots1)"
        unfolding iter_at_0 by blast
      obtain ok2 d2 where c: "(if \<not> ok then Some (False, slots1, d1)
          else if all_seen seen (count_required flds iter) then Some (True, slots1, d1)
          else dec_error ''missing required field'' slots1 d1) = Some (ok2, slots1, d2)" "advanced (stream d) (stream d2)" "live d2 = live d1"
        using l(3) by (cases ok; cases "all_seen seen (count_required flds iter)") (simp_all add: dec_error_def set_error_def)
      have unf: "decode_nested (Suc n) env init flds slots d = (if init \<and> \<not> ok2 then do {
          (slots, m) \<leftarrow> pb_release env flds slots1 (live d2);
          Some (False, slots, d2\<lparr>live := m\<rparr>) } else Some (ok2, slots1, d2))"
        using s0(1) l(1) c(1) by (simp del: fields_loop.simps)
      show "\<exists>ok x' d'. decode_nested (Suc n) env init flds slots d = Some (ok, x', d') \<and>
          (struct_ok env flds x' \<and> (init \<and> \<not> ok \<longrightarrow> struct_ptrs env flds x' = 0)) \<and> advanced (stream d) (stream d') \<and>
          live d' + int (if init then 0 else struct_ptrs env flds slots) = live d + int (struct_ptrs env flds x')"
      proof (cases "init \<and> \<not> ok2")
        case True
        obtain slots2 where r: "pb_release env flds slots1 (live d2) = Some (slots2, live d2 - int (struct_ptrs env flds slots1))" "struct_ok env flds slots2"
          "struct_ptrs env flds slots2 = 0" using pb_release_good [OF assms(1) wf l(2)] by blast
        show ?thesis unfolding unf using True r c(2,3) l(4) s0(3) by simp
      next
        case False
        then show ?thesis unfolding unf using c(2,3) l(2,4) s0(3) by auto
      qed
    qed
  qed
qed (simp add: k_good_def dec_safe_def)

section \<open>The whole decoder\<close>

lemma pb_decode_safe:
  fixes d :: "'i dstate"
  assumes "env_wf env" "env_flat env" "fields_wf env flds" "flat_fields flds" "struct_raw env flds dest_struct" "in_ok (stream d)"
  obtains ok slots d' where "pb_decode env flds dest_struct d = Some (ok, slots, d')" "struct_ok env flds slots" "advanced (stream d) (stream d')"
    "live d' = live d + int (struct_ptrs env flds slots)" "\<not> ok \<Longrightarrow> struct_ptrs env flds slots = 0"
proof -
  define n where "n = Suc (bytes_left (stream d))"
  have "message_safe n env True flds (decode_nested n env True flds :: (pb_slot list, 'i) dec) dest_struct"
    using decode_nested_good [OF assms(1,2), unfolded k_good_def, rule_format, of flds True dest_struct n] assms(3-5) by simp
  moreover have "bytes_left (stream d) < n" by (simp add: n_def)
  ultimately obtain ok slots d' where "decode_nested n env True flds dest_struct d = Some (ok, slots, d')"
    "struct_ok env flds slots \<and> (True \<and> \<not> ok \<longrightarrow> struct_ptrs env flds slots = 0)" "advanced (stream d) (stream d')"
    "live d' + int (if True then 0 else struct_ptrs env flds dest_struct) = live d + int (struct_ptrs env flds slots)"
    using assms(6) by (elim dec_safeD)
  then show ?thesis by (intro that [of ok slots d']) (auto simp: pb_decode_def n_def simp del: decode_nested.simps)
qed

lemma pb_decode_noinit_safe:
  fixes d :: "'i dstate"
  assumes "env_wf env" "env_flat env" "fields_wf env flds" "flat_fields flds" "struct_ok env flds dest_struct" "in_ok (stream d)"
  obtains ok slots d' where "pb_decode_noinit env flds dest_struct d = Some (ok, slots, d')" "struct_ok env flds slots" "advanced (stream d) (stream d')"
    "live d' + int (struct_ptrs env flds dest_struct) = live d + int (struct_ptrs env flds slots)"
proof -
  define n where "n = Suc (bytes_left (stream d))"
  have "message_safe n env False flds (decode_nested n env False flds :: (pb_slot list, 'i) dec) dest_struct"
    using decode_nested_good [OF assms(1,2), unfolded k_good_def, rule_format, of flds False dest_struct n] assms(3-5) by simp
  moreover have "bytes_left (stream d) < n" by (simp add: n_def)
  ultimately obtain ok slots d' where "decode_nested n env False flds dest_struct d = Some (ok, slots, d')"
    "struct_ok env flds slots \<and> (False \<and> \<not> ok \<longrightarrow> struct_ptrs env flds slots = 0)" "advanced (stream d) (stream d')"
    "live d' + int (if False then 0 else struct_ptrs env flds dest_struct) = live d + int (struct_ptrs env flds slots)"
    using assms(6) by (elim dec_safeD)
  then show ?thesis by (intro that [of ok slots d']) (auto simp: pb_decode_noinit_def n_def simp del: decode_nested.simps)
qed

end
