(* ===== verification/Pb_Firestore.thy ===== *)
theory Pb_Firestore
  imports Pb_Safety
begin

text \<open>
  Protocol buffers: the descriptions of Firestore documents (\<open>google/firestore/v1/document.nanopb.cc\<close>, \<open>google/protobuf/timestamp.nanopb.cc\<close>,
  \<open>google/type/latlng.nanopb.cc\<close>), with the sizes and offsets of a target with pointers of eight bytes, and what the decoder
  guarantees for them and in general.
\<close>

section \<open>Descriptions\<close>

definition PB_SINGULAR_STATIC :: "u32 \<Rightarrow> pb_ltype \<Rightarrow> u32 \<Rightarrow> nat \<Rightarrow> pb_ptr \<Rightarrow> pb_field" where
  "PB_SINGULAR_STATIC t lt fd membersize p = \<lparr>tag = t, ltype = lt, htype = HT_OPTIONAL, atype = AT_STATIC, data_offset = fd, size_offset = 0,
     data_size = membersize, array_size = 0, ptr = p\<rparr>"

definition PB_OPTIONAL_STATIC :: "u32 \<Rightarrow> pb_ltype \<Rightarrow> u32 \<Rightarrow> int \<Rightarrow> nat \<Rightarrow> pb_ptr \<Rightarrow> pb_field" where
  "PB_OPTIONAL_STATIC t lt fd delta membersize p = \<lparr>tag = t, ltype = lt, htype = HT_OPTIONAL, atype = AT_STATIC, data_offset = fd, size_offset = delta,
     data_size = membersize, array_size = 0, ptr = p\<rparr>"

definition PB_SINGULAR_POINTER :: "u32 \<Rightarrow> pb_ltype \<Rightarrow> u32 \<Rightarrow> nat \<Rightarrow> pb_ptr \<Rightarrow> pb_field" where
  "PB_SINGULAR_POINTER t lt fd membersize p = \<lparr>tag = t, ltype = lt, htype = HT_OPTIONAL, atype = AT_POINTER, data_offset = fd, size_offset = 0,
     data_size = membersize, array_size = 0, ptr = p\<rparr>"

definition PB_REPEATED_POINTER :: "u32 \<Rightarrow> pb_ltype \<Rightarrow> u32 \<Rightarrow> int \<Rightarrow> nat \<Rightarrow> pb_ptr \<Rightarrow> pb_field" where
  "PB_REPEATED_POINTER t lt fd delta membersize p = \<lparr>tag = t, ltype = lt, htype = HT_REPEATED, atype = AT_POINTER, data_offset = fd, size_offset = delta,
     data_size = membersize, array_size = 0, ptr = p\<rparr>"

definition PB_REPEATED_STATIC :: "u32 \<Rightarrow> pb_ltype \<Rightarrow> u32 \<Rightarrow> int \<Rightarrow> nat \<Rightarrow> u32 \<Rightarrow> pb_ptr \<Rightarrow> pb_field" where
  "PB_REPEATED_STATIC t lt fd delta membersize arraysize p = \<lparr>tag = t, ltype = lt, htype = HT_REPEATED, atype = AT_STATIC, data_offset = fd,
     size_offset = delta, data_size = membersize, array_size = arraysize, ptr = p\<rparr>"

definition PB_ANONYMOUS_ONEOF_STATIC :: "u32 \<Rightarrow> pb_ltype \<Rightarrow> u32 \<Rightarrow> int \<Rightarrow> nat \<Rightarrow> pb_ptr \<Rightarrow> pb_field" where
  "PB_ANONYMOUS_ONEOF_STATIC t lt fd delta membersize p = \<lparr>tag = t, ltype = lt, htype = HT_ONEOF, atype = AT_STATIC, data_offset = fd, size_offset = delta,
     data_size = membersize, array_size = 0, ptr = p\<rparr>"

definition PB_ANONYMOUS_ONEOF_POINTER :: "u32 \<Rightarrow> pb_ltype \<Rightarrow> u32 \<Rightarrow> int \<Rightarrow> nat \<Rightarrow> pb_ptr \<Rightarrow> pb_field" where
  "PB_ANONYMOUS_ONEOF_POINTER t lt fd delta membersize p = \<lparr>tag = t, ltype = lt, htype = HT_ONEOF, atype = AT_POINTER, data_offset = fd, size_offset = delta,
     data_size = membersize, array_size = 0, ptr = p\<rparr>"

lemmas pb_field_macros = PB_SINGULAR_STATIC_def PB_OPTIONAL_STATIC_def PB_SINGULAR_POINTER_def PB_REPEATED_POINTER_def PB_REPEATED_STATIC_def
  PB_ANONYMOUS_ONEOF_STATIC_def PB_ANONYMOUS_ONEOF_POINTER_def

section \<open>Firestore documents\<close>

text \<open>The tables by number: 0 is a timestamp, 1 a point, 2 a value, 3 an array, 4 a map, 5 its entries, 6 the fields of a document.\<close>

definition google_protobuf_Timestamp_fields :: "pb_field list" where
  "google_protobuf_Timestamp_fields = [
     PB_SINGULAR_STATIC 1 LT_VARINT 0 8 Null_ptr,
     PB_SINGULAR_STATIC 2 LT_VARINT 0 4 Null_ptr]"

definition google_type_LatLng_fields :: "pb_field list" where
  "google_type_LatLng_fields = [
     PB_SINGULAR_STATIC 1 LT_FIXED64 0 8 Null_ptr,
     PB_SINGULAR_STATIC 2 LT_FIXED64 0 8 Null_ptr]"

definition google_firestore_v1_Value_fields :: "pb_field list" where
  "google_firestore_v1_Value_fields = [
     PB_ANONYMOUS_ONEOF_STATIC 1 LT_BOOL 8 (-8) 1 Null_ptr,
     PB_ANONYMOUS_ONEOF_STATIC 2 LT_VARINT PB_SIZE_MAX (-8) 8 Null_ptr,
     PB_ANONYMOUS_ONEOF_STATIC 3 LT_FIXED64 PB_SIZE_MAX (-8) 8 Null_ptr,
     PB_ANONYMOUS_ONEOF_POINTER 5 LT_BYTES PB_SIZE_MAX (-8) 8 Null_ptr,
     PB_ANONYMOUS_ONEOF_STATIC 6 LT_SUBMESSAGE PB_SIZE_MAX (-8) 16 (Fields_ptr 4),
     PB_ANONYMOUS_ONEOF_STATIC 8 LT_SUBMESSAGE PB_SIZE_MAX (-8) 16 (Fields_ptr 1),
     PB_ANONYMOUS_ONEOF_STATIC 9 LT_SUBMESSAGE PB_SIZE_MAX (-8) 16 (Fields_ptr 3),
     PB_ANONYMOUS_ONEOF_STATIC 10 LT_SUBMESSAGE PB_SIZE_MAX (-8) 16 (Fields_ptr 0),
     PB_ANONYMOUS_ONEOF_STATIC 11 LT_UVARINT PB_SIZE_MAX (-8) 4 Null_ptr,
     PB_ANONYMOUS_ONEOF_POINTER 17 LT_BYTES PB_SIZE_MAX (-8) 8 Null_ptr,
     PB_ANONYMOUS_ONEOF_POINTER 18 LT_BYTES PB_SIZE_MAX (-8) 8 Null_ptr]"

definition google_firestore_v1_ArrayValue_fields :: "pb_field list" where
  "google_firestore_v1_ArrayValue_fields = [PB_REPEATED_POINTER 1 LT_SUBMESSAGE 8 (-8) 24 (Fields_ptr 2)]"

definition google_firestore_v1_MapValue_fields :: "pb_field list" where
  "google_firestore_v1_MapValue_fields = [PB_REPEATED_POINTER 1 LT_SUBMESSAGE 8 (-8) 32 (Fields_ptr 5)]"

definition google_firestore_v1_MapValue_FieldsEntry_fields :: "pb_field list" where
  "google_firestore_v1_MapValue_FieldsEntry_fields = [
     PB_SINGULAR_POINTER 1 LT_BYTES 0 8 Null_ptr,
     PB_SINGULAR_STATIC 2 LT_SUBMESSAGE 0 24 (Fields_ptr 2)]"

definition google_firestore_v1_Document_FieldsEntry_fields :: "pb_field list" where
  "google_firestore_v1_Document_FieldsEntry_fields = [
     PB_SINGULAR_POINTER 1 LT_BYTES 0 8 Null_ptr,
     PB_SINGULAR_STATIC 2 LT_SUBMESSAGE 0 24 (Fields_ptr 2)]"

definition google_firestore_v1_Document_fields :: "pb_field list" where
  "google_firestore_v1_Document_fields = [
     PB_SINGULAR_POINTER 1 LT_BYTES 0 8 Null_ptr,
     PB_REPEATED_POINTER 2 LT_SUBMESSAGE 8 (-8) 32 (Fields_ptr 6),
     PB_SINGULAR_STATIC 3 LT_SUBMESSAGE 0 16 (Fields_ptr 0),
     PB_OPTIONAL_STATIC 4 LT_SUBMESSAGE 8 (-8) 16 (Fields_ptr 0)]"

definition firestore_tables :: "pb_field list list" where
  "firestore_tables = [google_protobuf_Timestamp_fields, google_type_LatLng_fields, google_firestore_v1_Value_fields,
     google_firestore_v1_ArrayValue_fields, google_firestore_v1_MapValue_fields, google_firestore_v1_MapValue_FieldsEntry_fields,
     google_firestore_v1_Document_FieldsEntry_fields]"

text \<open>\<open>init_zero\<close>\<close>

definition google_firestore_v1_Value_init_zero :: "pb_slot list" where
  "google_firestore_v1_Value_init_zero = [Slot 0 [Word_item 0]]"

definition google_firestore_v1_Document_init_zero :: "pb_slot list" where
  "google_firestore_v1_Document_init_zero = [Slot 0 [Ptr_item None], Slot 0 [Ptr_item None],
     Slot 0 [Struct_item [Slot 0 [Word_item 0], Slot 0 [Word_item 0]]], Slot 0 [Struct_item [Slot 0 [Word_item 0], Slot 0 [Word_item 0]]]]"

definition firestore_zeros :: "pb_slot list list" where
  "firestore_zeros = [[Slot 0 [Word_item 0], Slot 0 [Word_item 0]], [Slot 0 [Word_item 0], Slot 0 [Word_item 0]],
     google_firestore_v1_Value_init_zero, [Slot 0 [Ptr_item None]], [Slot 0 [Ptr_item None]],
     [Slot 0 [Ptr_item None], Slot 0 [Struct_item google_firestore_v1_Value_init_zero]],
     [Slot 0 [Ptr_item None], Slot 0 [Struct_item google_firestore_v1_Value_init_zero]]]"

text \<open>An allocator that grants what it likes, and whose memory holds what it held before.\<close>

definition any_item :: "u64 \<Rightarrow> u8 \<Rightarrow> pb_field \<Rightarrow> pb_item" where
  "any_item w b f = (case ltype f of
     LT_BOOL \<Rightarrow> Bool_item (b \<noteq> 0)
   | LT_FIXED32 \<Rightarrow> Word_item (take_bit 32 w)
   | LT_FIXED64 \<Rightarrow> Word_item w
   | LT_BYTES \<Rightarrow> Bytes_item (ucast b) (replicate (data_size f - 4) b)
   | LT_STRING \<Rightarrow> Chars_item (replicate (data_size f) b)
   | LT_FIXED_LENGTH_BYTES \<Rightarrow> Chars_item (replicate (data_size f) b)
   | _ \<Rightarrow> Word_item (take_bit (8 * data_size f) w))"

definition firestore_env :: "(nat \<Rightarrow> nat \<Rightarrow> bool) \<Rightarrow> u64 \<Rightarrow> u8 \<Rightarrow> pb_env" where
  "firestore_env grant w b = \<lparr>fields_at = (\<lambda>a. if a < length firestore_tables then firestore_tables ! a else []),
     zeros_at = (\<lambda>a. if a < length firestore_tables then firestore_zeros ! a else [Slot 0 [Bool_item False]]),
     grants = grant, junk_item = any_item w b, junk_byte = b\<rparr>"

lemmas firestore_fields = google_protobuf_Timestamp_fields_def google_type_LatLng_fields_def google_firestore_v1_Value_fields_def
  google_firestore_v1_ArrayValue_fields_def google_firestore_v1_MapValue_fields_def google_firestore_v1_MapValue_FieldsEntry_fields_def
  google_firestore_v1_Document_FieldsEntry_fields_def google_firestore_v1_Document_fields_def

lemma any_item_ok: "field_wf env f \<Longrightarrow> ltype f \<noteq> LT_SUBMESSAGE \<Longrightarrow> datum_ok P env f (any_item w b f)"
  by (auto simp: field_wf_def any_item_def datum_ok_def word_item_ok_def chars_ok_def take_bit_word_eq_self split: pb_ltype.split)

lemma firestore_fields_wf:
  "\<forall>flds \<in> set (google_firestore_v1_Document_fields # firestore_tables). fields_wf (firestore_env g w b) flds \<and> flat_fields flds"
  by (simp add: firestore_tables_def firestore_fields pb_field_macros fields_wf_def field_wf_def flat_fields_def)

lemma firestore_fields_at [simp]:
  "fields_at (firestore_env g w b) 0 = google_protobuf_Timestamp_fields" "fields_at (firestore_env g w b) (Suc 0) = google_type_LatLng_fields"
  "fields_at (firestore_env g w b) 2 = google_firestore_v1_Value_fields" "fields_at (firestore_env g w b) 3 = google_firestore_v1_ArrayValue_fields"
  "fields_at (firestore_env g w b) 4 = google_firestore_v1_MapValue_fields" "fields_at (firestore_env g w b) 5 = google_firestore_v1_MapValue_FieldsEntry_fields"
  "fields_at (firestore_env g w b) 6 = google_firestore_v1_Document_FieldsEntry_fields"
  by (simp_all add: firestore_env_def firestore_tables_def)

lemmas raw_by_fields = field_groups_def same_union_def slot_raw_def datum_ok_def word_item_ok_def fields_of_def firestore_fields pb_field_macros
  google_firestore_v1_Value_init_zero_def google_firestore_v1_Document_init_zero_def

lemma raw_timestamp: "struct_raw (firestore_env g w b) google_protobuf_Timestamp_fields [Slot 0 [Word_item 0], Slot 0 [Word_item 0]]"
  by (rule struct_raw.intros) (simp add: raw_by_fields)

lemma raw_point: "struct_raw (firestore_env g w b) google_type_LatLng_fields [Slot 0 [Word_item 0], Slot 0 [Word_item 0]]"
  by (rule struct_raw.intros) (simp add: raw_by_fields)

lemma raw_value: "struct_raw (firestore_env g w b) google_firestore_v1_Value_fields google_firestore_v1_Value_init_zero"
  by (rule struct_raw.intros) (simp add: raw_by_fields)

lemma raw_pointer:
  "struct_raw (firestore_env g w b) google_firestore_v1_ArrayValue_fields [Slot 0 [Ptr_item None]]"
  "struct_raw (firestore_env g w b) google_firestore_v1_MapValue_fields [Slot 0 [Ptr_item None]]"
  by (rule struct_raw.intros; simp add: raw_by_fields)+

lemma raw_entry:
  "struct_raw (firestore_env g w b) google_firestore_v1_MapValue_FieldsEntry_fields [Slot 0 [Ptr_item None], Slot 0 [Struct_item google_firestore_v1_Value_init_zero]]"
  "struct_raw (firestore_env g w b) google_firestore_v1_Document_FieldsEntry_fields [Slot 0 [Ptr_item None], Slot 0 [Struct_item google_firestore_v1_Value_init_zero]]"
  by (rule struct_raw.intros; use raw_value in \<open>simp add: raw_by_fields\<close>)+

lemma raw_document: "struct_raw (firestore_env g w b) google_firestore_v1_Document_fields google_firestore_v1_Document_init_zero"
  by (rule struct_raw.intros) (use raw_timestamp in \<open>simp add: raw_by_fields\<close>)

lemma raw_empty: "struct_raw env [] [Slot 0 [Bool_item False]]"
  by (rule struct_raw.intros) (simp add: field_groups_def slot_raw_def PB_LAST_FIELD_def datum_ok_def)

lemma firestore_zeros_raw: "list_all2 (struct_raw (firestore_env g w b)) firestore_tables firestore_zeros"
  using raw_timestamp raw_point raw_value raw_pointer raw_entry by (simp add: firestore_tables_def firestore_zeros_def)

lemma firestore_env_wf: "env_wf (firestore_env g w b)" and firestore_env_flat: "env_flat (firestore_env g w b)"
proof -
  have at: "fields_at (firestore_env g w b) a = (if a < length firestore_tables then firestore_tables ! a else [])"
    "zeros_at (firestore_env g w b) a = (if a < length firestore_tables then firestore_zeros ! a else [Slot 0 [Bool_item False]])" for a
    by (simp_all add: firestore_env_def)
  have wf: "fields_wf (firestore_env g w b) (fields_at (firestore_env g w b) a) \<and> flat_fields (fields_at (firestore_env g w b) a)" for a
    using firestore_fields_wf [of g w b] nth_mem [of a firestore_tables]
    by (cases "a < length firestore_tables") (simp_all add: at fields_wf_def [of _ "[]"] flat_fields_def [of "[]"])
  have raw: "struct_raw (firestore_env g w b) (fields_at (firestore_env g w b) a) (zeros_at (firestore_env g w b) a)" for a
    using list_all2_nthD [OF firestore_zeros_raw] raw_empty by (simp add: at)
  have "junk_item (firestore_env g w b) = any_item w b" by (simp add: firestore_env_def)
  then show "env_wf (firestore_env g w b)" using wf raw any_item_ok unfolding env_wf_def by simp
  show "env_flat (firestore_env g w b)" using wf by (simp add: env_flat_def)
qed

section \<open>What the decoder guarantees\<close>

text \<open>A state that reads \<open>bytes\<close> from a buffer, with nothing allocated.\<close>

definition reading :: "u8 list \<Rightarrow> unit dstate" where
  "reading bytes = \<lparr>stream = pb_istream_from_buffer bytes (length bytes), live = 0, requests = 0\<rparr>"

lemma reading_ok [simp]: "in_ok (stream (reading bytes))"
  by (simp add: reading_def pb_istream_from_buffer_def in_ok_def)

lemma document_wf: "fields_wf (firestore_env g w b) google_firestore_v1_Document_fields" "flat_fields google_firestore_v1_Document_fields"
  using firestore_fields_wf by simp_all

lemmas document_facts = firestore_env_wf firestore_env_flat document_wf raw_document reading_ok

text \<open>
  C2: for descriptions in which arrays of submessages are all behind pointers (\<open>flat_fields\<close>; below is what happens for one in
  place), decoding any bytes into a structure whose pointers and unions hold anything returns: no access is outside an array or of
  the wrong type, no block is freed twice and the nesting is bounded; afterwards the blocks allocated are those the structure owns,
  and none when decoding has failed.\<close>

theorem pb_decode_returns:
  assumes "env_wf env" "env_flat env" "fields_wf env flds" "flat_fields flds" "struct_raw env flds dest_struct" "in_ok (stream d)"
  shows "\<exists>ok slots d'. pb_decode env flds dest_struct d = Some (ok, slots, d') \<and>
    live d' = live d + int (struct_ptrs env flds slots) \<and> (\<not> ok \<longrightarrow> struct_ptrs env flds slots = 0)"
  using pb_decode_safe [OF assms] by metis

theorem pb_decode_returns_witness:
  "\<exists>ok slots d'. pb_decode (firestore_env (\<lambda>_ _. True) 7 7) google_firestore_v1_Document_fields google_firestore_v1_Document_init_zero
      (reading [10, 1, 65]) = Some (ok, slots, d') \<and>
    live d' = live (reading [10, 1, 65]) + int (struct_ptrs (firestore_env (\<lambda>_ _. True) 7 7) google_firestore_v1_Document_fields slots) \<and>
    (\<not> ok \<longrightarrow> struct_ptrs (firestore_env (\<lambda>_ _. True) 7 7) google_firestore_v1_Document_fields slots = 0)"
  by (rule pb_decode_returns [OF document_facts])

text \<open>C12: for such descriptions, what \<open>pb_decode\<close> leaves in the structure has the layout and the types that the description says.\<close>

theorem pb_decode_typed:
  assumes "env_wf env" "env_flat env" "fields_wf env flds" "flat_fields flds" "struct_raw env flds dest_struct" "in_ok (stream d)"
    and "pb_decode env flds dest_struct d = Some (ok, slots, d')"
  shows "struct_ok env flds slots"
  using pb_decode_safe [OF assms(1-6)] assms(7) by (metis option.inject prod.inject)

lemma decode_timestamp_example:
  "map_option (\<lambda>(ok, slots, d). (ok, slots, live d)) (pb_decode (firestore_env (\<lambda>_ _. True) 7 7) google_protobuf_Timestamp_fields
     [Slot 0 [Word_item 0], Slot 0 [Word_item 0]] (reading [8, 150, 1, 16, 7])) = Some (True, [Slot 0 [Word_item 150], Slot 0 [Word_item 7]], 0)"
  by code_simp

text \<open>Equations that evaluate.\<close>

lemma size_add_code [code]: "size_add a b = nat ((int a + int b) mod 18446744073709551616)"
  by (simp add: size_add_def nat_mod_distrib nat_add_distrib)

lemma allocate_field_code [code]:
  "allocate_field env grow size_of_item n x d = (case x of
     Ptr_item p \<Rightarrow>
       if size_of_item = 0 \<or> n = 0 then dec_error ''invalid size'' x d
       else if (if int size_of_item \<ge> 4294967296 \<or> int n \<ge> 4294967296 then (size_bound - 1) div n < size_of_item else False)
         then dec_error ''size too large'' x d
       else let d = d\<lparr>requests := requests d + 1\<rparr> in
         if \<not> grants env (requests d) (n * size_of_item) then dec_error ''realloc failed'' x d
         else (case p of
             None \<Rightarrow> Some (True, Ptr_item (Some (grow [])), d\<lparr>live := live d + 1\<rparr>)
           | Some old \<Rightarrow> Some (True, Ptr_item (Some (grow old)), d))
   | _ \<Rightarrow> None)"
proof -
  have "(4294967296 \<le> int k) = (2 ^ 32 \<le> k)" for k by simp
  moreover have "(if b then c else False) = (b \<and> c)" for b c by simp
  ultimately show ?thesis by (simp only: allocate_field_def)
qed
definition document_bytes :: "u8 list" where
  "document_bytes = [10, 1, 65, 18, 9, 10, 1, 98, 18, 4, 138, 1, 1, 99]"

definition document_slots :: "pb_slot list" where
  "document_slots = [Slot 0 [Ptr_item (Some [Bytes_item 1 [65]])],
     Slot 1 [Ptr_item (Some [Struct_item [Slot 0 [Ptr_item (Some [Bytes_item 1 [98]])], Slot 0 [Struct_item [Slot 17 [Ptr_item (Some [Bytes_item 1 [99]])]]]]])],
     Slot 0 [Struct_item [Slot 0 [Word_item 0], Slot 0 [Word_item 0]]], Slot 0 [Struct_item [Slot 0 [Word_item 0], Slot 0 [Word_item 0]]]]"

lemma decode_document_example:
  "map_option (\<lambda>(ok, slots, d). (ok, slots, bytes_left (stream d), live d)) (pb_decode (firestore_env (\<lambda>_ _. True) 7 7) google_firestore_v1_Document_fields
     google_firestore_v1_Document_init_zero (reading document_bytes)) = Some (True, document_slots, 0, 4)"
  by code_simp

lemma result_state: "map_option (\<lambda>(a, b, c). (a, b, h c)) x = Some (a, b, y) \<Longrightarrow> \<exists>c. x = Some (a, b, c) \<and> h c = y"
  by (cases x) auto

lemma decode_document_state:
  "\<exists>d'. pb_decode (firestore_env (\<lambda>_ _. True) 7 7) google_firestore_v1_Document_fields google_firestore_v1_Document_init_zero
      (reading document_bytes) = Some (True, document_slots, d') \<and> (bytes_left (stream d'), live d') = (0, 4)"
  by (rule result_state [OF decode_document_example])

theorem pb_decode_typed_witness: "struct_ok (firestore_env (\<lambda>_ _. True) 7 7) google_firestore_v1_Document_fields document_slots"
  using decode_document_state by (blast intro: pb_decode_typed [OF document_facts])

text \<open>C14: for such descriptions and reading from a buffer, \<open>pb_decode\<close> takes nothing from behind its end: the bytes it has taken and those left are no
  more than there were.\<close>

theorem pb_decode_in_buffer:
  assumes "env_wf env" "env_flat env" "fields_wf env flds" "flat_fields flds" "struct_raw env flds dest_struct"
    and "i_source (stream d) = Buffer buf" "bytes_left (stream d) \<le> length buf" "pb_decode env flds dest_struct d = Some (ok, slots, d')"
  shows "\<exists>j. i_source (stream d') = Buffer (drop j buf) \<and> j + bytes_left (stream d') \<le> bytes_left (stream d)"
proof -
  have "in_ok (stream d)" using assms(6,7) by (simp add: in_ok_def)
  then have "advanced (stream d) (stream d')" using pb_decode_safe [OF assms(1-5)] assms(8) by (metis option.inject prod.inject)
  then show ?thesis using assms(6) by (auto simp: advanced_def)
qed

theorem pb_decode_in_buffer_witness:
  "\<exists>d' j. pb_decode (firestore_env (\<lambda>_ _. True) 7 7) google_firestore_v1_Document_fields google_firestore_v1_Document_init_zero
      (reading document_bytes) = Some (True, document_slots, d') \<and>
    i_source (stream d') = Buffer (drop j document_bytes) \<and> j + bytes_left (stream d') \<le> length document_bytes"
proof -
  obtain d' where d: "pb_decode (firestore_env (\<lambda>_ _. True) 7 7) google_firestore_v1_Document_fields google_firestore_v1_Document_init_zero
      (reading document_bytes) = Some (True, document_slots, d')" using decode_document_state by blast
  have "i_source (stream (reading document_bytes)) = Buffer document_bytes" "bytes_left (stream (reading document_bytes)) = length document_bytes"
    by (simp_all add: reading_def pb_istream_from_buffer_def)
  with pb_decode_in_buffer [OF firestore_env_wf firestore_env_flat document_wf raw_document _ _ d, of document_bytes] d show ?thesis by auto
qed

text \<open>C13: \<open>pb_release\<close> on a structure of the right layout frees every block it owns, each once, and leaves it owning none.\<close>

theorem pb_release_frees_all:
  assumes "env_wf env" "fields_wf env flds" "struct_ok env flds slots"
  shows "\<exists>slots'. pb_release env flds slots m = Some (slots', m - int (struct_ptrs env flds slots)) \<and> struct_ok env flds slots' \<and>
    struct_ptrs env flds slots' = 0"
  by (rule pb_release_good [OF assms])

theorem pb_release_frees_all_witness:
  "\<exists>slots'. pb_release (firestore_env (\<lambda>_ _. True) 7 7) google_firestore_v1_ArrayValue_fields [Slot 0 [Ptr_item None]] 5 =
      Some (slots', 5 - int (struct_ptrs (firestore_env (\<lambda>_ _. True) 7 7) google_firestore_v1_ArrayValue_fields [Slot 0 [Ptr_item None]])) \<and>
    struct_ok (firestore_env (\<lambda>_ _. True) 7 7) google_firestore_v1_ArrayValue_fields slots' \<and>
    struct_ptrs (firestore_env (\<lambda>_ _. True) 7 7) google_firestore_v1_ArrayValue_fields slots' = 0"
proof (rule pb_release_frees_all [OF firestore_env_wf])
  show "fields_wf (firestore_env (\<lambda>_ _. True) 7 7) google_firestore_v1_ArrayValue_fields"
    using firestore_fields_wf by (simp add: firestore_tables_def)
  show "struct_ok (firestore_env (\<lambda>_ _. True) 7 7) google_firestore_v1_ArrayValue_fields [Slot 0 [Ptr_item None]]"
    by (rule struct_ok.intros) (simp add: field_groups_def google_firestore_v1_ArrayValue_fields_def pb_field_macros slot_ok_def array_ok_def)
qed

text \<open>Setting a structure to its default values looks at none of its pointers and unions and leaves a structure of the right
  layout that owns nothing.\<close>

theorem pb_message_set_to_defaults_clean:
  assumes "env_wf env" "fields_wf env flds" "struct_raw env flds slots"
  shows "\<exists>slots'. pb_message_set_to_defaults env flds slots = Some slots' \<and> struct_ok env flds slots' \<and> struct_ptrs env flds slots' = 0"
  by (rule defaults_good [OF assms])

theorem pb_message_set_to_defaults_clean_witness:
  "\<exists>slots'. pb_message_set_to_defaults (firestore_env (\<lambda>_ _. True) 7 7) google_firestore_v1_Document_fields google_firestore_v1_Document_init_zero = Some slots' \<and>
    struct_ok (firestore_env (\<lambda>_ _. True) 7 7) google_firestore_v1_Document_fields slots' \<and>
    struct_ptrs (firestore_env (\<lambda>_ _. True) 7 7) google_firestore_v1_Document_fields slots' = 0"
  by (rule pb_message_set_to_defaults_clean [OF firestore_env_wf document_wf(1) raw_document])

text \<open>C3: a Firestore document decoded from any bytes, whatever the allocator grants and new memory holds, has the layout of a
  document and can be released; nothing is allocated then.\<close>

theorem firestore_document_decode_release:
  "\<exists>ok slots d' slots'. pb_decode (firestore_env grant w b) google_firestore_v1_Document_fields google_firestore_v1_Document_init_zero (reading bytes) =
      Some (ok, slots, d') \<and>
    struct_ok (firestore_env grant w b) google_firestore_v1_Document_fields slots \<and>
    pb_release (firestore_env grant w b) google_firestore_v1_Document_fields slots (live d') = Some (slots', 0)"
proof -
  obtain ok slots d' where d: "pb_decode (firestore_env grant w b) google_firestore_v1_Document_fields google_firestore_v1_Document_init_zero (reading bytes) =
      Some (ok, slots, d')" "struct_ok (firestore_env grant w b) google_firestore_v1_Document_fields slots"
    "live d' = live (reading bytes) + int (struct_ptrs (firestore_env grant w b) google_firestore_v1_Document_fields slots)"
    by (rule pb_decode_safe [OF document_facts])
  from pb_release_good [OF firestore_env_wf document_wf(1) d(2), of "live d'"] d(1-3) show ?thesis by (auto simp: reading_def)
qed

text \<open>C15: looking for a field from any position finds it when the message has it, with its slot and the number of required fields
  before it, and stays where it is otherwise.\<close>

theorem pb_field_iter_find_correct:
  assumes "0 \<notin> tag ` set flds" "p < length flds"
  shows "case pb_field_iter_find flds (iter_at flds p) t of
      (True, iter) \<Rightarrow> \<exists>q < length flds. tag (flds ! q) = t \<and> iter = iter_at flds q
    | (False, iter) \<Rightarrow> t \<notin> tag ` set flds \<and> iter = iter_at flds p"
  by (cases rule: find_at [OF assms, of t]) auto

theorem pb_field_iter_find_correct_witness:
  "case pb_field_iter_find google_firestore_v1_Document_fields (iter_at google_firestore_v1_Document_fields 2) 1 of
      (True, iter) \<Rightarrow> \<exists>q < length google_firestore_v1_Document_fields. tag (google_firestore_v1_Document_fields ! q) = 1 \<and>
        iter = iter_at google_firestore_v1_Document_fields q
    | (False, iter) \<Rightarrow> (1 :: u32) \<notin> tag ` set google_firestore_v1_Document_fields \<and> iter = iter_at google_firestore_v1_Document_fields 2"
  by (rule pb_field_iter_find_correct) (simp_all add: google_firestore_v1_Document_fields_def pb_field_macros)

text \<open>One field that the input ends after.\<close>

lemma find_only_field: "pb_field_iter_find [f] iter_start (tag f) = (True, iter_start)"
  by (simp add: pb_field_iter_find_def iter_start_def field_at_def)

lemma substream_at_end: "bytes_left s = 0 \<Longrightarrow> i_source s = Buffer xs \<Longrightarrow> \<exists>s'. pb_make_string_substream s = (None, s')"
  by (simp add: pb_make_string_substream_def in_bind_def pb_decode_varint32_def pb_decode_varint32_eof_def pb_readbyte_def in_error_def)

lemma element_at_end:
  assumes "htype f = HT_REPEATED" "ltype f = LT_SUBMESSAGE" "0 < array_size f" "items \<noteq> []"
    and "bytes_left (stream d) = 0" "i_source (stream d) = Buffer xs"
  shows "\<exists>d'. decode_static_field k env PB_WT_STRING f (Slot 0 items) d = Some (False, Slot 1 items, d') \<and> live d' = live d"
proof -
  obtain s' where "pb_make_string_substream (stream d) = (None, s')" using substream_at_end [OF assms(5,6)] by blast
  then show ?thesis
    using assms(1,2,4) assms(3) [unfolded word_gt_0] by (simp add: decode_static_field_def packable_def on_data_def on_item_def pb_decoder_def pb_dec_submessage_def)
qed

lemma loop_at_end:
  assumes "htype f = HT_REPEATED" "atype f = AT_STATIC" "ltype f = LT_SUBMESSAGE" "unat (tag f) < 2 ^ 29" "tag f \<noteq> 0" "0 < array_size f"
    and "items \<noteq> []" "i_source (stream d) = Buffer (tag_bytes PB_WT_STRING (tag f))" "bytes_left (stream d) = length (tag_bytes PB_WT_STRING (tag f))"
  shows "\<exists>r d'. fields_loop (Suc n) k env [f] (seen, iter_start, [Slot 0 items]) d = Some (False, r, d') \<and> snd (snd r) = [Slot 1 items] \<and> live d' = live d"
proof -
  let ?bytes = "tag_bytes PB_WT_STRING (tag f)"
  have ne: "bytes_left (stream d) \<noteq> 0" using assms(9) leb128_u64(2) by (simp add: tag_bytes_def)
  have t: "pb_decode_tag (stream d) = (Some (PB_WT_STRING, tag f), False, moved (length ?bytes) [] (stream d))"
    by (rule decode_tag_reads) (use assms in simp_all)
  obtain d' where "decode_static_field k env PB_WT_STRING f (Slot 0 items) (d\<lparr>stream := moved (length ?bytes) [] (stream d)\<rparr>) =
      Some (False, Slot 1 items, d')" "live d' = live d"
    using element_at_end [OF assms(1,3,6,7), of "d\<lparr>stream := moved (length ?bytes) [] (stream d)\<rparr>" "[]" k env] assms(9) by (auto simp: moved_def)
  moreover have "position iter_start = 0" "slot_no iter_start = 0" by (simp_all add: iter_start_def)
  ultimately show ?thesis
    using ne assms(1,2) by (simp add: t find_only_field mark_seen_def decode_field_def dec_then_def field_at_def)
qed

text \<open>
  C16: an array of submessages in place must hold valid structures before \<open>pb_decode\<close>, which gets memory that is not
  initialised: the count is increased before the element is.  Whatever the description of the elements and whatever structures the bytes in
  the memory of the array make up, when the input ends after the tag, \<open>pb_decode\<close> fails and releases what the first one seems to own:
  all those blocks are freed though none was ever allocated.\<close>

theorem pb_decode_static_array_frees_garbage:
  assumes "env_wf env" "field_wf env f" "htype f = HT_REPEATED" "atype f = AT_STATIC" "ltype f = LT_SUBMESSAGE"
    and "unat (tag f) < 2 ^ 29" "0 < array_size f" "struct_ok env [f] [Slot 1 items]"
  shows "\<exists>slots d'. pb_decode env [f] [Slot n items] (reading (tag_bytes PB_WT_STRING (tag f))) = Some (False, slots, d') \<and>
    live d' = - int (struct_ptrs env [f] [Slot 1 items])"
proof -
  let ?d = "reading (tag_bytes PB_WT_STRING (tag f))"
  have wf: "fields_wf env [f]" "tag f \<noteq> 0" using assms(2) by (simp_all add: fields_wf_def field_wf_def)
  have "0 < unat (array_size f)" using assms(7) by (simp add: word_less_nat_alt)
  then have items: "items \<noteq> []" using assms(3,4,8) by (auto simp: struct_ok_iff field_groups_def slot_ok_def)
  have d: "i_source (stream ?d) = Buffer (tag_bytes PB_WT_STRING (tag f))"
    "bytes_left (stream ?d) = length (tag_bytes PB_WT_STRING (tag f))" "live ?d = 0"
    by (simp_all add: reading_def pb_istream_from_buffer_def)
  obtain r d' where "fields_loop (Suc (bytes_left (stream ?d))) (decode_nested (bytes_left (stream ?d)) env) env [f]
      ([0, 0], iter_start, [Slot 0 items]) ?d = Some (False, r, d')" "snd (snd r) = [Slot 1 items]" "live d' = live ?d"
    using loop_at_end [OF assms(3-6) wf(2) assms(7) items d(1,2)] by blast
  moreover obtain seen iter slots where "r = (seen, iter, slots)" by (cases r)
  ultimately have l: "fields_loop (Suc (bytes_left (stream ?d))) (decode_nested (bytes_left (stream ?d)) env) env [f]
      ([0, 0], iter_start, [Slot 0 items]) ?d = Some (False, (seen, iter, [Slot 1 items]), d')" "live d' = 0"
    using d(3) by simp_all
  have "pb_message_set_to_defaults env [f] [Slot n items] = Some [Slot 0 items]"
    using assms(3,4) by (simp add: pb_message_set_to_defaults_def pb_field_set_to_default_def)
  moreover obtain slots where "pb_release env [f] [Slot 1 items] 0 = Some (slots, - int (struct_ptrs env [f] [Slot 1 items]))"
    using pb_release_good [OF assms(1) wf(1) assms(8), of 0] by auto
  ultimately show ?thesis using l by (simp add: pb_decode_def del: fields_loop.simps)
qed

definition garbage_entry :: pb_item where
  "garbage_entry = Struct_item [Slot 0 [Ptr_item (Some [Bytes_item 0 []])], Slot 0 [Struct_item [Slot 0 [Ptr_item None]]]]"

theorem pb_decode_static_array_frees_garbage_witness:
  "\<exists>slots d'. pb_decode (firestore_env (\<lambda>_ _. True) 7 7) [PB_REPEATED_STATIC 1 LT_SUBMESSAGE 8 (-4) 32 1 (Fields_ptr 6)] [Slot 5 [garbage_entry]]
      (reading (tag_bytes PB_WT_STRING 1)) = Some (False, slots, d') \<and> live d' = - 1"
proof -
  let ?env = "firestore_env (\<lambda>_ _. True) 7 7" and ?f = "PB_REPEATED_STATIC 1 LT_SUBMESSAGE 8 (-4) 32 1 (Fields_ptr 6)"
  have t: "tag ?f = 1" by (simp add: pb_field_macros)
  have "struct_ok ?env google_firestore_v1_Value_fields [Slot 0 [Ptr_item None]]"
    by (rule struct_ok.intros)
      (simp add: field_groups_def google_firestore_v1_Value_fields_def pb_field_macros slot_ok_def same_union_def pointer_ok_def)
  then have "struct_ok ?env google_firestore_v1_Document_FieldsEntry_fields [Slot 0 [Ptr_item (Some [Bytes_item 0 []])], Slot 0 [Struct_item [Slot 0 [Ptr_item None]]]]"
    by (intro struct_ok.intros)
      (simp add: field_groups_def google_firestore_v1_Document_FieldsEntry_fields_def pb_field_macros slot_ok_def same_union_def pointer_ok_def
        block_ok_def datum_ok_def fields_of_def firestore_env_def firestore_tables_def)
  then have ok: "struct_ok ?env [?f] [Slot 1 [garbage_entry]]"
    by (intro struct_ok.intros)
      (simp add: field_groups_def pb_field_macros slot_ok_def datum_ok_def garbage_entry_def fields_of_def firestore_env_def firestore_tables_def)
  have k: "struct_ptrs ?env [?f] [Slot 1 [garbage_entry]] = 1" by code_simp
  show ?thesis
    using pb_decode_static_array_frees_garbage [OF firestore_env_wf _ _ _ _ _ _ ok, of 5] k unfolding t
    by (simp add: pb_field_macros field_wf_def)
qed

text \<open>A message without fields takes a field with the number 0 for its own and stores a value in its only byte.\<close>

theorem pb_decode_empty_takes_field_0:
  "map_option (\<lambda>(ok, slots, d). (ok, slots)) (pb_decode (firestore_env (\<lambda>_ _. True) 7 7) [] [Slot 0 [Bool_item False]] (reading [1, 1])) =
    Some (True, [Slot 0 [Bool_item True]])"
  by code_simp

end
