(* ===== verification/Mem.thy ===== *)
theory Mem
  imports BSSL_Prelude
begin

text \<open>
  The string and memory helpers of \<open>crypto/mem.c\<close> and the byte-swap and comparison
  helpers of \<open>crypto/internal.h\<close>.  A pointer to memory is the list of the bytes from
  the pointer to the end of its object; a C string is such a list that holds a zero.
  Reading past the object is undefined behaviour in C: the equations for an exhausted
  list stand for such reads and no property relies on them.
\<close>

section \<open>Constant-time comparison, hashing\<close>

definition CRYPTO_memcmp :: "u8 list \<Rightarrow> u8 list \<Rightarrow> nat \<Rightarrow> u8" where
  "CRYPTO_memcmp a b len = foldl (\<lambda>x i. x OR (a ! i XOR b ! i)) 0 [0..<len]"

definition OPENSSL_hash32 :: "u8 list \<Rightarrow> u32" where
  "OPENSSL_hash32 in' = foldl (\<lambda>h c. (h XOR ucast c) * 16777619) 2166136261 in'"

definition OPENSSL_memchr :: "u8 list \<Rightarrow> u8 \<Rightarrow> nat \<Rightarrow> nat option" where
  "OPENSSL_memchr s c n = (if n = 0 then None else List.find (\<lambda>i. s ! i = c) [0..<n])"

text \<open>\<open>memcmp\<close> of the C library: the sign of the difference at the first index where the
  two objects differ.\<close>

fun memcmp :: "u8 list \<Rightarrow> u8 list \<Rightarrow> int" where
  "memcmp (x # xs) (y # ys) =
     (if x = y then memcmp xs ys else if unat x < unat y then -1 else 1)"
| "memcmp _ _ = 0"

definition OPENSSL_memcmp :: "u8 list \<Rightarrow> u8 list \<Rightarrow> nat \<Rightarrow> int" where
  "OPENSSL_memcmp s1 s2 n = (if n = 0 then 0 else memcmp (take n s1) (take n s2))"

definition CRYPTO_bswap2 :: "u16 \<Rightarrow> u16" where
  "CRYPTO_bswap2 x = drop_bit 8 x OR push_bit 8 x"

definition CRYPTO_bswap4 :: "u32 \<Rightarrow> u32" where
  "CRYPTO_bswap4 x =
     (let x = drop_bit 16 x OR push_bit 16 x
      in drop_bit 8 (x AND 0xff00ff00) OR push_bit 8 (x AND 0x00ff00ff))"

definition CRYPTO_bswap8 :: "u64 \<Rightarrow> u64" where
  "CRYPTO_bswap8 x =
     ucast (CRYPTO_bswap4 (ucast (drop_bit 32 x))) OR push_bit 32 (ucast (CRYPTO_bswap4 (ucast x)))"

section \<open>C strings\<close>

definition strlen :: "u8 list \<Rightarrow> nat" where
  "strlen s = length (takeWhile (\<lambda>c. c \<noteq> 0) s)"

fun OPENSSL_strnlen :: "u8 list \<Rightarrow> nat \<Rightarrow> nat" where
  "OPENSSL_strnlen s 0 = 0"
| "OPENSSL_strnlen (c # s) (Suc len) = (if c = 0 then 0 else Suc (OPENSSL_strnlen s len))"
| "OPENSSL_strnlen [] (Suc len) = 0"

definition OPENSSL_strdup :: "allocator \<Rightarrow> u8 list \<Rightarrow> u8 list option" where
  "OPENSSL_strdup alloc s =
     (let len = strlen s + 1 in if \<not> alloc len then None else Some (take len s))"

definition OPENSSL_tolower :: "int \<Rightarrow> int" where
  "OPENSSL_tolower c = (if c \<ge> 65 \<and> c \<le> 90 then c + (97 - 65) else c)"

text \<open>\<open>char\<close> is signed on the targets of the application.\<close>

fun OPENSSL_strcasecmp :: "u8 list \<Rightarrow> u8 list \<Rightarrow> int" where
  "OPENSSL_strcasecmp (a # as) (b # bs) =
     (let aa = OPENSSL_tolower (sint a); bb = OPENSSL_tolower (sint b)
      in if aa < bb then -1 else if aa > bb then 1 else if aa = 0 then 0
         else OPENSSL_strcasecmp as bs)"
| "OPENSSL_strcasecmp _ _ = 0"

fun OPENSSL_strncasecmp :: "u8 list \<Rightarrow> u8 list \<Rightarrow> nat \<Rightarrow> int" where
  "OPENSSL_strncasecmp (a # as) (b # bs) (Suc n) =
     (let aa = OPENSSL_tolower (sint a); bb = OPENSSL_tolower (sint b)
      in if aa < bb then -1 else if aa > bb then 1 else if aa = 0 then 0
         else OPENSSL_strncasecmp as bs n)"
| "OPENSSL_strncasecmp _ _ _ = 0"

definition OPENSSL_strndup :: "allocator \<Rightarrow> u8 list \<Rightarrow> nat \<Rightarrow> u8 list option" where
  "OPENSSL_strndup alloc str max_size =
     (let len = OPENSSL_strnlen str max_size; alloc_size = size_add len 1
      in if alloc_size < len then None
         else if \<not> alloc alloc_size then None
         else Some (take len str @ [0]))"

text \<open>The copying loop works on the destination array, whose first \<open>dst_size\<close> bytes it may
  write; the result is the return value and the array afterwards.\<close>

fun OPENSSL_strlcpy :: "u8 list \<Rightarrow> u8 list \<Rightarrow> nat \<Rightarrow> nat \<times> u8 list" where
  "OPENSSL_strlcpy (d # dst) (c # src) dst_size =
     (if dst_size > 1 \<and> c \<noteq> 0
      then (case OPENSSL_strlcpy dst src (dst_size - 1) of (l, dst') \<Rightarrow> (Suc l, c # dst'))
      else (strlen (c # src), if dst_size \<noteq> 0 then 0 # dst else d # dst))"
| "OPENSSL_strlcpy dst src dst_size = (strlen src, dst)"

fun OPENSSL_strlcat :: "u8 list \<Rightarrow> u8 list \<Rightarrow> nat \<Rightarrow> nat \<times> u8 list" where
  "OPENSSL_strlcat (d # dst) src dst_size =
     (if dst_size > 0 \<and> d \<noteq> 0
      then (case OPENSSL_strlcat dst src (dst_size - 1) of (l, dst') \<Rightarrow> (Suc l, d # dst'))
      else OPENSSL_strlcpy (d # dst) src dst_size)"
| "OPENSSL_strlcat [] src dst_size = OPENSSL_strlcpy [] src dst_size"

definition OPENSSL_memdup :: "allocator \<Rightarrow> u8 list \<Rightarrow> nat \<Rightarrow> u8 list option" where
  "OPENSSL_memdup alloc data len =
     (if len = 0 then None else if \<not> alloc len then None else Some (take len data))"

section \<open>Lemmas\<close>

lemma CRYPTO_memcmp_fold:
  "foldl (\<lambda>x i. x OR (a ! i XOR b ! i)) x0 is = (0 :: u8)
     \<longleftrightarrow> x0 = 0 \<and> (\<forall>i \<in> set is. a ! i = b ! i)"
proof (induction "is" arbitrary: x0)
  case (Cons i "is")
  have "x0 OR (a ! i XOR b ! i) = 0 \<longleftrightarrow> x0 = 0 \<and> a ! i = b ! i"
    by (auto simp: or_eq_0_iff bit_eq_iff bit_simps)
  with Cons show ?case by auto
qed simp

lemma CRYPTO_memcmp_0_iff:
  "len \<le> length a \<Longrightarrow> len \<le> length b \<Longrightarrow> CRYPTO_memcmp a b len = 0 \<longleftrightarrow> take len a = take len b"
  by (auto simp: CRYPTO_memcmp_def CRYPTO_memcmp_fold list_eq_iff_nth_eq)

lemma memcmp_0_iff: "length xs = length ys \<Longrightarrow> memcmp xs ys = 0 \<longleftrightarrow> xs = ys"
  by (induction xs ys rule: memcmp.induct) auto

lemma memcmp_swap: "memcmp ys xs = - memcmp xs ys"
  by (induction xs ys rule: memcmp.induct) (auto simp: word_unat_eq_iff)

lemma strnlen_le: "OPENSSL_strnlen s n \<le> n"
  by (induction s n rule: OPENSSL_strnlen.induct) auto

lemma strnlen_eq: "n \<le> length s \<Longrightarrow> OPENSSL_strnlen s n = min n (strlen s)"
  by (induction s n rule: OPENSSL_strnlen.induct) (auto simp: strlen_def)

lemma strlen_less: "0 \<in> set s \<Longrightarrow> strlen s < length s"
  unfolding strlen_def
  by (metis (mono_tags, lifting) length_takeWhile_le le_neq_implies_less takeWhile_eq_all_conv
      takeWhile_eq_take take_all_iff le_refl)

lemma CRYPTO_bswap2_bytes:
  "CRYPTO_bswap2 (push_bit 8 (ucast (a :: u8)) OR ucast (b :: u8)) = push_bit 8 (ucast b) OR ucast a"
  unfolding CRYPTO_bswap2_def
  by (rule bit_word_eqI) (auto simp: bit_simps dest: bit_imp_le_length)

text \<open>Copying into an array of \<open>dst_size\<close> bytes returns the length of the source and
  leaves the longest prefix of the source that fits, a terminator and the rest of the
  array as it was.\<close>

lemma strlcpy_spec:
  assumes "dst_size \<le> length dst" "0 \<in> set src"
  shows "OPENSSL_strlcpy dst src dst_size =
    (strlen src,
     if dst_size = 0 then dst
     else take (min (dst_size - 1) (strlen src)) src @ [0]
        @ drop (min (dst_size - 1) (strlen src) + 1) dst)"
  using assms
proof (induction dst src dst_size rule: OPENSSL_strlcpy.induct)
  case (1 d dst c src n)
  consider "n = 0" | "n \<noteq> 0" "n = 1 \<or> c = 0" | m where "n = Suc (Suc m)" "c \<noteq> 0"
    by (metis One_nat_def not0_implies_Suc)
  then show ?case
  proof cases
    case 1
    then show ?thesis by simp
  next
    case 2
    then show ?thesis by (auto simp: strlen_def)
  next
    case 3
    have "OPENSSL_strlcpy dst src (Suc m) =
      (strlen src, take (min m (strlen src)) src @ [0] @ drop (min m (strlen src) + 1) dst)"
      using 1 3 by simp
    with 3 show ?thesis by (simp add: strlen_def)
  qed
qed auto

end
