(* ===== verification/Byte_Codec.thy ===== *)
theory Byte_Codec
  imports BSSL_Prelude
begin

text \<open>
  The interfaces between byte readers, byte encoders and the loops that run a reader
  until its input is used up.  A \<^emph>\<open>prefix reader\<close> consumes a non-empty prefix of its
  input and its result depends on that prefix alone; a \<^emph>\<open>codec\<close> reads back what an
  encoder wrote; a \<^emph>\<open>canonical codec\<close> accepts nothing but what the encoder writes.
  Each is interpreted on the functions of the bytestring and Unicode components.
\<close>

type_synonym 'a reader = "u8 list \<Rightarrow> 'a option \<times> u8 list"

text \<open>The loop \<open>while (CBS_len(&cbs) != 0) { if (!read(&cbs, &x)) return 0; ... }\<close>.
  The fuel bounds the number of rounds; the length of the input is enough for every
  prefix reader (\<open>read_many_fuel\<close> below).\<close>

fun read_many :: "nat \<Rightarrow> 'a reader \<Rightarrow> u8 list \<Rightarrow> 'a list option" where
  "read_many fuel rd [] = Some []"
| "read_many 0 rd (b # s) = None"
| "read_many (Suc fuel) rd (b # s) =
     (case rd (b # s) of
        (None, _) \<Rightarrow> None
      | (Some a, s') \<Rightarrow> map_option (Cons a) (read_many fuel rd s'))"

definition read_all :: "'a reader \<Rightarrow> u8 list \<Rightarrow> 'a list option" where
  "read_all rd s = read_many (length s) rd s"

lemma read_all_Nil [simp]: "read_all rd [] = Some []"
  by (simp add: read_all_def)

locale prefix_reader =
  fixes rd :: "u8 list \<Rightarrow> 'a option \<times> u8 list"
  assumes consumes:
    "rd s = (Some a, s') \<Longrightarrow> \<exists>p. p \<noteq> [] \<and> s = p @ s' \<and> (\<forall>t. rd (p @ t) = (Some a, t))"
begin

lemma progress: "rd s = (Some a, s') \<Longrightarrow> length s' < length s"
  by (drule consumes) auto

lemma extends: "rd s = (Some a, s') \<Longrightarrow> rd (s @ t) = (Some a, s' @ t)"
  by (drule consumes) auto

lemma read_many_fuel: "length s \<le> n \<Longrightarrow> length s \<le> m \<Longrightarrow> read_many n rd s = read_many m rd s"
proof (induction n arbitrary: m s)
  case 0
  then show ?case by (cases m) auto
next
  case (Suc n)
  show ?case
  proof (cases s)
    case (Cons b t)
    with Suc.prems obtain m' where m: "m = Suc m'" by (cases m) auto
    have "read_many n rd s' = read_many m' rd s'" if "rd s = (Some a, s')" for a s'
      using Suc progress [OF that] m by simp
    then show ?thesis
      by (auto simp: Cons m split: option.splits prod.splits)
  qed simp
qed

lemma read_all_step:
  "s \<noteq> [] \<Longrightarrow> read_all rd s = (case rd s of
     (None, _) \<Rightarrow> None | (Some a, s') \<Rightarrow> map_option (Cons a) (read_all rd s'))"
proof (cases s)
  case (Cons b t)
  have "read_many (length t) rd s' = read_all rd s'" if "rd s = (Some a, s')" for a s'
    using progress [OF that] Cons unfolding read_all_def by (intro read_many_fuel) auto
  with Cons show ?thesis
    unfolding read_all_def [of rd s] by (auto split: option.splits prod.splits)
qed simp

lemma read_all_append:
  "read_all rd s = Some xs \<Longrightarrow> read_all rd (s @ t) = map_option ((@) xs) (read_all rd t)"
proof (induction xs arbitrary: s)
  case Nil
  then show ?case
    by (cases "s = []") (auto simp: read_all_step option.map_ident split: option.splits prod.splits)
next
  case (Cons x xs)
  then have "s \<noteq> []" by auto
  with Cons.prems obtain s' where s': "rd s = (Some x, s')" "read_all rd s' = Some xs"
    by (auto simp: read_all_step split: option.splits prod.splits)
  show ?case
    using \<open>s \<noteq> []\<close> extends [OF s'(1)] Cons.IH [OF s'(2)]
    by (simp add: read_all_step option.map_comp comp_def)
qed

end

locale codec = prefix_reader rd
  for rd :: "u8 list \<Rightarrow> 'a option \<times> u8 list" +
  fixes enc :: "'a \<Rightarrow> u8 list" and ok :: "'a \<Rightarrow> bool"
  assumes rd_enc: "ok a \<Longrightarrow> rd (enc a @ t) = (Some a, t)"
begin

lemma enc_nonempty: "ok a \<Longrightarrow> enc a \<noteq> []"
  using rd_enc [of a "[]"] progress by fastforce

lemma prefix_free:
  assumes "ok a" "ok b" "enc a = enc b @ t"
  shows "a = b \<and> t = []"
proof -
  have "rd (enc a @ []) = (Some b, t)"
    using assms rd_enc by simp
  then show ?thesis
    using rd_enc [OF assms(1), of "[]"] by simp
qed

lemma enc_inj: "ok a \<Longrightarrow> ok b \<Longrightarrow> enc a = enc b \<Longrightarrow> a = b"
  using prefix_free [of a b "[]"] by simp

lemma read_all_concat: "\<forall>a \<in> set as. ok a \<Longrightarrow> read_all rd (concat (map enc as)) = Some as"
proof (induction as)
  case (Cons a as)
  then have "rd (enc a @ concat (map enc as)) = (Some a, concat (map enc as))"
    and "enc a @ concat (map enc as) \<noteq> []"
    using rd_enc enc_nonempty by auto
  with Cons show ?case by (simp add: read_all_step)
qed simp

end

locale canonical_codec =
  fixes rd :: "u8 list \<Rightarrow> 'a option \<times> u8 list"
    and enc :: "'a \<Rightarrow> u8 list" and ok :: "'a \<Rightarrow> bool"
  assumes rd_enc_canonical: "ok a \<Longrightarrow> rd (enc a @ t) = (Some a, t)"
    and canonical: "rd s = (Some a, s') \<Longrightarrow> ok a \<and> s = enc a @ s'"
    and enc_not_Nil: "ok a \<Longrightarrow> enc a \<noteq> []"

sublocale canonical_codec \<subseteq> codec rd enc ok
proof unfold_locales
  show "\<exists>p. p \<noteq> [] \<and> s = p @ s' \<and> (\<forall>t. rd (p @ t) = (Some a, t))"
    if "rd s = (Some a, s')" for s a s'
    using canonical [OF that] enc_not_Nil rd_enc_canonical by blast
qed (rule rd_enc_canonical)

context canonical_codec
begin

lemma rd_iff: "rd s = (Some a, s') \<longleftrightarrow> ok a \<and> s = enc a @ s'"
  using canonical rd_enc by blast

lemma read_all_iff: "read_all rd s = Some as \<longleftrightarrow> (\<forall>a \<in> set as. ok a) \<and> s = concat (map enc as)"
proof
  show "read_all rd s = Some as \<Longrightarrow> (\<forall>a \<in> set as. ok a) \<and> s = concat (map enc as)"
  proof (induction as arbitrary: s)
    case Nil
    then show ?case
      by (cases "s = []") (auto simp: read_all_step split: option.splits prod.splits)
  next
    case (Cons a as)
    then have "s \<noteq> []" by auto
    with Cons.prems obtain s' where "rd s = (Some a, s')" "read_all rd s' = Some as"
      by (auto simp: read_all_step split: option.splits prod.splits)
    with Cons.IH canonical show ?case by fastforce
  qed
qed (use read_all_concat in blast)

end

text \<open>The interface that the builder offers to the code that writes with it: operations
  that each append known bytes, run one after the other.\<close>

locale byte_writer =
  fixes writes :: "'op \<Rightarrow> u8 list \<Rightarrow> bool"
    and seq :: "'op \<Rightarrow> 'op \<Rightarrow> 'op" and nop :: "'op"
  assumes writes_nop: "writes nop []"
    and writes_seq: "writes f xs \<Longrightarrow> writes g ys \<Longrightarrow> writes (seq f g) (xs @ ys)"
begin

lemma writes_foldr:
  "(\<And>a. a \<in> set as \<Longrightarrow> writes (add a) (enc a)) \<Longrightarrow>
     writes (foldr (\<lambda>a. seq (add a)) as nop) (concat (map enc as))"
  by (induction as) (auto intro: writes_nop writes_seq)

lemma writes_bytes:
  "(\<And>a. a \<in> set as \<Longrightarrow> writes (add a) [enc a]) \<Longrightarrow> writes (foldr (\<lambda>a. seq (add a)) as nop) (map enc as)"
  using writes_foldr [of as add "\<lambda>a. [enc a]"] by (simp add: concat_map_singleton)

lemma writes_if:
  "writes f xs \<Longrightarrow> writes (if c then f else nop) (if c then xs else [])"
  by (simp add: writes_nop)

end

end
