(* ===== verification/Cbs.thy ===== *)
theory Cbs
  imports Byte_Codec Mem
begin

text \<open>
  The byte-string reader \<open>CBS\<close> of \<open>crypto/bytestring/cbs.c\<close>.  A \<open>CBS\<close> is a pointer
  and a length into memory that the reader never writes: the list of the bytes it still
  holds.  Every function of the file is here but \<open>CBS_asn1_oid_to_text\<close>, which also
  uses the builder and is in theory \<open>Oid_Text\<close>.  A function that returns an \<open>int\<close>
  and moves the \<open>CBS\<close> is a reader; output parameters are the value of a success, and
  what they hold after a failure is not modelled.
\<close>

section \<open>Data\<close>

type_synonym cbs = "u8 list"

definition CBS_init :: "u8 list \<Rightarrow> nat \<Rightarrow> cbs" where
  "CBS_init data len = take len data"

definition CBS_data :: "cbs \<Rightarrow> u8 list" where
  "CBS_data s = s"

definition CBS_len :: "cbs \<Rightarrow> nat" where
  "CBS_len s = length s"

text \<open>The tag constants of \<open>bytestring.h\<close>.\<close>

abbreviation CBS_ASN1_TAG_SHIFT :: nat where "CBS_ASN1_TAG_SHIFT \<equiv> 24"
abbreviation CBS_ASN1_CONSTRUCTED :: u32 where "CBS_ASN1_CONSTRUCTED \<equiv> 0x20000000"
abbreviation CBS_ASN1_TAG_NUMBER_MASK :: u32 where "CBS_ASN1_TAG_NUMBER_MASK \<equiv> 0x1fffffff"
abbreviation CBS_ASN1_BOOLEAN :: u32 where "CBS_ASN1_BOOLEAN \<equiv> 0x1"
abbreviation CBS_ASN1_INTEGER :: u32 where "CBS_ASN1_INTEGER \<equiv> 0x2"
abbreviation CBS_ASN1_BITSTRING :: u32 where "CBS_ASN1_BITSTRING \<equiv> 0x3"
abbreviation CBS_ASN1_OCTETSTRING :: u32 where "CBS_ASN1_OCTETSTRING \<equiv> 0x4"
abbreviation CBS_ASN1_SEQUENCE :: u32 where "CBS_ASN1_SEQUENCE \<equiv> 0x20000010"

section \<open>Fixed-size reads\<close>

definition cbs_get :: "nat \<Rightarrow> u8 list reader" where
  "cbs_get n s = (if length s < n then (None, s) else (Some (take n s), drop n s))"

definition CBS_skip :: "nat \<Rightarrow> unit reader" where
  "CBS_skip len s = (case cbs_get len s of (None, s) \<Rightarrow> (None, s) | (Some _, s) \<Rightarrow> (Some (), s))"

text \<open>\<open>CBS_stow\<close> returns whether it succeeded and the new value of \<open>*out_ptr\<close>
  (\<open>None\<close> for NULL); the old one has been freed.\<close>

definition CBS_stow :: "allocator \<Rightarrow> cbs \<Rightarrow> bool \<times> u8 list option" where
  "CBS_stow alloc s =
     (if length s = 0 then (True, None)
      else case OPENSSL_memdup alloc s (length s) of
             None \<Rightarrow> (False, None) | Some p \<Rightarrow> (True, Some p))"

definition CBS_strdup :: "allocator \<Rightarrow> cbs \<Rightarrow> u8 list option" where
  "CBS_strdup alloc s = OPENSSL_strndup alloc s (length s)"

definition CBS_contains_zero_byte :: "cbs \<Rightarrow> bool" where
  "CBS_contains_zero_byte s = (OPENSSL_memchr s 0 (length s) \<noteq> None)"

definition CBS_mem_equal :: "cbs \<Rightarrow> u8 list \<Rightarrow> nat \<Rightarrow> bool" where
  "CBS_mem_equal s data len = (if len \<noteq> length s then False else CRYPTO_memcmp s data len = 0)"

definition cbs_get_u :: "nat \<Rightarrow> u64 reader" where
  "cbs_get_u len s = (case cbs_get len s of
     (None, s) \<Rightarrow> (None, s) | (Some data, s) \<Rightarrow> (Some (be_u64 data), s))"

definition CBS_get_u8 :: "u8 reader" where
  "CBS_get_u8 s = (case cbs_get 1 s of (None, s) \<Rightarrow> (None, s) | (Some v, s) \<Rightarrow> (Some (v ! 0), s))"

definition CBS_get_u16 :: "u16 reader" where
  "CBS_get_u16 s = (case cbs_get_u 2 s of (None, s) \<Rightarrow> (None, s) | (Some v, s) \<Rightarrow> (Some (ucast v), s))"

definition CBS_get_u16le :: "u16 reader" where
  "CBS_get_u16le s = (case CBS_get_u16 s of
     (None, s) \<Rightarrow> (None, s) | (Some out, s) \<Rightarrow> (Some (CRYPTO_bswap2 out), s))"

definition CBS_get_u24 :: "u32 reader" where
  "CBS_get_u24 s = (case cbs_get_u 3 s of (None, s) \<Rightarrow> (None, s) | (Some v, s) \<Rightarrow> (Some (ucast v), s))"

definition CBS_get_u32 :: "u32 reader" where
  "CBS_get_u32 s = (case cbs_get_u 4 s of (None, s) \<Rightarrow> (None, s) | (Some v, s) \<Rightarrow> (Some (ucast v), s))"

definition CBS_get_u32le :: "u32 reader" where
  "CBS_get_u32le s = (case CBS_get_u32 s of
     (None, s) \<Rightarrow> (None, s) | (Some out, s) \<Rightarrow> (Some (CRYPTO_bswap4 out), s))"

definition CBS_get_u64 :: "u64 reader" where
  "CBS_get_u64 s = cbs_get_u 8 s"

definition CBS_get_u64le :: "u64 reader" where
  "CBS_get_u64le s = (case cbs_get_u 8 s of
     (None, s) \<Rightarrow> (None, s) | (Some out, s) \<Rightarrow> (Some (CRYPTO_bswap8 out), s))"

definition CBS_get_last_u8 :: "u8 reader" where
  "CBS_get_last_u8 s =
     (if length s = 0 then (None, s) else (Some (s ! (length s - 1)), take (length s - 1) s))"

definition CBS_get_bytes :: "nat \<Rightarrow> cbs reader" where
  "CBS_get_bytes len s = (case cbs_get len s of
     (None, s) \<Rightarrow> (None, s) | (Some v, s) \<Rightarrow> (Some (CBS_init v len), s))"

definition CBS_copy_bytes :: "nat \<Rightarrow> u8 list reader" where
  "CBS_copy_bytes len s = (case cbs_get len s of (None, s) \<Rightarrow> (None, s) | (Some v, s) \<Rightarrow> (Some (take len v), s))"

definition cbs_get_length_prefixed :: "nat \<Rightarrow> cbs reader" where
  "cbs_get_length_prefixed len_len s = (case cbs_get_u len_len s of
     (None, s) \<Rightarrow> (None, s) | (Some len, s) \<Rightarrow> CBS_get_bytes (unat len) s)"

definition CBS_get_u8_length_prefixed :: "cbs reader" where
  "CBS_get_u8_length_prefixed s = cbs_get_length_prefixed 1 s"

definition CBS_get_u16_length_prefixed :: "cbs reader" where
  "CBS_get_u16_length_prefixed s = cbs_get_length_prefixed 2 s"

definition CBS_get_u24_length_prefixed :: "cbs reader" where
  "CBS_get_u24_length_prefixed s = cbs_get_length_prefixed 3 s"

section \<open>Base-128 integers and ASN.1 elements\<close>

text \<open>The loop of \<open>parse_base128_integer\<close>; every round consumes a byte.\<close>

lemma CBS_get_u8_simps [reader_simps]:
  "CBS_get_u8 [] = (None, [])"
  "CBS_get_u8 (b # s) = (Some b, s)"
  by (simp_all add: CBS_get_u8_def cbs_get_def)

lemma CBS_get_u8_length: "CBS_get_u8 s = (Some b, s') \<Longrightarrow> length s' < length s"
  by (cases s) (auto simp: reader_simps)

function base128_loop :: "u64 \<Rightarrow> u64 reader" where
  "base128_loop v s = (case CBS_get_u8 s of
     (None, s) \<Rightarrow> (None, s)
   | (Some b, s) \<Rightarrow>
       if drop_bit (64 - 7) v \<noteq> 0 then (None, s)
       else if v = 0 \<and> b = 0x80 then (None, s)
       else let v = push_bit 7 v OR ucast (b AND 0x7f)
            in if b AND 0x80 \<noteq> 0 then base128_loop v s else (Some v, s))"
  by pat_completeness auto
termination
  by (relation "measure (\<lambda>(v, s). length s)") (auto dest!: sym [of "(Some _, _)"] CBS_get_u8_length)

declare base128_loop.simps [simp del]

definition parse_base128_integer :: "u64 reader" where
  "parse_base128_integer s = base128_loop 0 s"

definition parse_asn1_tag :: "u32 reader" where
  "parse_asn1_tag s = (case CBS_get_u8 s of
     (None, s) \<Rightarrow> (None, s)
   | (Some tag_byte, s) \<Rightarrow>
       let tag = push_bit CBS_ASN1_TAG_SHIFT (ucast tag_byte AND 0xe0 :: u32);
           tag_number = ucast (tag_byte AND 0x1f) :: u32
       in if tag_number = 0x1f
          then (case parse_base128_integer s of
                  (None, s) \<Rightarrow> (None, s)
                | (Some v, s) \<Rightarrow>
                    if v > ucast CBS_ASN1_TAG_NUMBER_MASK \<or> v < 0x1f then (None, s)
                    else (Some (tag OR ucast v), s))
          else (Some (tag OR tag_number), s))"

text \<open>\<open>cbs_get_any_asn1_element\<close> works on a copy of its argument until the final
  \<open>CBS_get_bytes\<close>, so a failure leaves the argument as it was.  The value is the
  element with its header, the tag and the length of the header.\<close>

definition cbs_get_any_asn1_element :: "bool \<Rightarrow> (cbs \<times> u32 \<times> nat) reader" where
  "cbs_get_any_asn1_element ber_ok s = (case parse_asn1_tag s of
     (None, _) \<Rightarrow> (None, s)
   | (Some tag, header) \<Rightarrow> (case CBS_get_u8 header of
       (None, _) \<Rightarrow> (None, s)
     | (Some length_byte, header) \<Rightarrow>
         let header_len = CBS_len s - CBS_len header;
             get = (\<lambda>len hl. case CBS_get_bytes len s of
                      (None, s) \<Rightarrow> (None, s) | (Some out, s) \<Rightarrow> (Some (out, tag, hl), s))
         in if length_byte AND 0x80 = 0
            then get (size_add (unat length_byte) header_len) header_len
            else let num_bytes = unat (length_byte AND 0x7f)
                 in if ber_ok \<and> tag AND CBS_ASN1_CONSTRUCTED \<noteq> 0 \<and> num_bytes = 0
                    then get header_len header_len
                    else if num_bytes = 0 \<or> num_bytes > 4 then (None, s)
                    else (case cbs_get_u num_bytes header of
                        (None, _) \<Rightarrow> (None, s)
                      | (Some len64, _) \<Rightarrow>
                          if len64 < 128 then (None, s)
                          else if drop_bit ((num_bytes - 1) * 8) len64 = 0 then (None, s)
                          else let len = unat len64
                               in if size_add (size_add len header_len) num_bytes < len
                                  then (None, s)
                                  else get (size_add len (size_add header_len num_bytes))
                                           (size_add header_len num_bytes))))"

definition CBS_get_any_asn1_element :: "(cbs \<times> u32 \<times> nat) reader" where
  "CBS_get_any_asn1_element s = cbs_get_any_asn1_element False s"

definition CBS_get_any_ber_asn1_element :: "(cbs \<times> u32 \<times> nat) reader" where
  "CBS_get_any_ber_asn1_element s = cbs_get_any_asn1_element True s"

definition CBS_get_any_asn1 :: "(cbs \<times> u32) reader" where
  "CBS_get_any_asn1 s = (case CBS_get_any_asn1_element s of
     (None, s) \<Rightarrow> (None, s)
   | (Some (out, tag, header_len), s) \<Rightarrow> (case CBS_skip header_len out of
       (None, _) \<Rightarrow> (None, s) | (Some _, out) \<Rightarrow> (Some (out, tag), s)))"

definition cbs_get_asn1 :: "u32 \<Rightarrow> bool \<Rightarrow> cbs reader" where
  "cbs_get_asn1 tag_value skip_header s = (case CBS_get_any_asn1_element s of
     (None, s) \<Rightarrow> (None, s)
   | (Some (out, tag, header_len), s) \<Rightarrow>
       if tag \<noteq> tag_value then (None, s)
       else if skip_header
            then (case CBS_skip header_len out of
                    (None, _) \<Rightarrow> (None, s) | (Some _, out) \<Rightarrow> (Some out, s))
            else (Some out, s))"

definition CBS_get_asn1 :: "u32 \<Rightarrow> cbs reader" where
  "CBS_get_asn1 tag_value s = cbs_get_asn1 tag_value True s"

definition CBS_get_asn1_element :: "u32 \<Rightarrow> cbs reader" where
  "CBS_get_asn1_element tag_value s = cbs_get_asn1 tag_value False s"

definition CBS_peek_asn1_tag :: "cbs \<Rightarrow> u32 \<Rightarrow> bool" where
  "CBS_peek_asn1_tag s tag_value =
     (if CBS_len s < 1 then False
      else case parse_asn1_tag s of
             (None, _) \<Rightarrow> False | (Some actual_tag, _) \<Rightarrow> tag_value = actual_tag)"

section \<open>ASN.1 values\<close>

fun uint64_loop :: "u64 \<Rightarrow> u8 list \<Rightarrow> u64 option" where
  "uint64_loop out [] = Some out"
| "uint64_loop out (d # data) =
     (if drop_bit 56 out \<noteq> 0 then None else uint64_loop (push_bit 8 out OR ucast d) data)"

definition CBS_get_asn1_uint64 :: "u64 reader" where
  "CBS_get_asn1_uint64 s = (case CBS_get_asn1 CBS_ASN1_INTEGER s of
     (None, s) \<Rightarrow> (None, s)
   | (Some data, s) \<Rightarrow>
       let len = CBS_len data
       in if len = 0 then (None, s)
          else if data ! 0 AND 0x80 \<noteq> 0 then (None, s)
          else if data ! 0 = 0 \<and> len > 1 \<and> data ! 1 AND 0x80 = 0 then (None, s)
          else (uint64_loop 0 data, s))"

text \<open>The union of \<open>CBS_get_asn1_int64\<close> holds the eight bytes of an \<open>int64_t\<close> with
  the least significant byte first, as on the (little-endian) targets.  The value is a
  64-bit word that the caller reads as signed.\<close>

definition int64_of_le_bytes :: "u8 list \<Rightarrow> u64" where
  "int64_of_le_bytes bytes = be_u64 (rev bytes)"

definition CBS_get_asn1_int64 :: "u64 reader" where
  "CBS_get_asn1_int64 s = (case CBS_get_asn1 CBS_ASN1_INTEGER s of
     (None, s) \<Rightarrow> (None, s)
   | (Some data, s) \<Rightarrow>
       let len = CBS_len data
       in if len = 0 \<or> len > 8 then (None, s)
          else if len > 1 \<and> data ! 0 = 0 \<and> data ! 1 AND 0x80 = 0 then (None, s)
          else if len > 1 \<and> data ! 0 = 0xff \<and> data ! 1 AND 0x80 \<noteq> 0 then (None, s)
          else let is_negative = (data ! 0 AND 0x80 \<noteq> 0);
                   u0 = replicate 8 (if is_negative then 0xff else 0);
                   u = foldl (\<lambda>u i. u[i := data ! (len - i - 1)]) u0 [0..<len]
               in (Some (int64_of_le_bytes u), s))"

definition CBS_get_asn1_bool :: "bool reader" where
  "CBS_get_asn1_bool s = (case CBS_get_asn1 CBS_ASN1_BOOLEAN s of
     (None, s) \<Rightarrow> (None, s)
   | (Some bytes, s) \<Rightarrow>
       if CBS_len bytes \<noteq> 1 then (None, s)
       else let value = bytes ! 0
            in if value \<noteq> 0 \<and> value \<noteq> 0xff then (None, s) else (Some (value \<noteq> 0), s))"

text \<open>The optional readers: the value says whether the element was present.\<close>

definition CBS_get_optional_asn1 :: "u32 \<Rightarrow> cbs option reader" where
  "CBS_get_optional_asn1 tag s =
     (if CBS_peek_asn1_tag s tag
      then (case CBS_get_asn1 tag s of (None, s) \<Rightarrow> (None, s) | (Some out, s) \<Rightarrow> (Some (Some out), s))
      else (Some None, s))"

definition CBS_get_optional_asn1_octet_string :: "u32 \<Rightarrow> (cbs \<times> bool) reader" where
  "CBS_get_optional_asn1_octet_string tag s = (case CBS_get_optional_asn1 tag s of
     (None, s) \<Rightarrow> (None, s)
   | (Some (Some child), s) \<Rightarrow> (case CBS_get_asn1 CBS_ASN1_OCTETSTRING child of
       (None, _) \<Rightarrow> (None, s)
     | (Some out, child) \<Rightarrow> if CBS_len child \<noteq> 0 then (None, s) else (Some (out, True), s))
   | (Some None, s) \<Rightarrow> (Some (CBS_init [] 0, False), s))"

definition CBS_get_optional_asn1_uint64 :: "u32 \<Rightarrow> u64 \<Rightarrow> u64 reader" where
  "CBS_get_optional_asn1_uint64 tag default_value s = (case CBS_get_optional_asn1 tag s of
     (None, s) \<Rightarrow> (None, s)
   | (Some (Some child), s) \<Rightarrow> (case CBS_get_asn1_uint64 child of
       (None, _) \<Rightarrow> (None, s)
     | (Some out, child) \<Rightarrow> if CBS_len child \<noteq> 0 then (None, s) else (Some out, s))
   | (Some None, s) \<Rightarrow> (Some default_value, s))"

text \<open>The boolean variant writes 0, 1 or the caller's default into an \<open>int\<close>.\<close>

definition CBS_get_optional_asn1_bool :: "u32 \<Rightarrow> int \<Rightarrow> int reader" where
  "CBS_get_optional_asn1_bool tag default_value s = (case CBS_get_optional_asn1 tag s of
     (None, s) \<Rightarrow> (None, s)
   | (Some (Some child), s) \<Rightarrow> (case CBS_get_asn1 CBS_ASN1_BOOLEAN child of
       (None, _) \<Rightarrow> (None, s)
     | (Some child2, child) \<Rightarrow>
         if CBS_len child2 \<noteq> 1 \<or> CBS_len child \<noteq> 0 then (None, s)
         else let boolean = child2 ! 0
              in if boolean = 0 then (Some 0, s)
                 else if boolean = 0xff then (Some 1, s) else (None, s))
   | (Some None, s) \<Rightarrow> (Some default_value, s))"

definition CBS_is_valid_asn1_bitstring :: "cbs \<Rightarrow> bool" where
  "CBS_is_valid_asn1_bitstring s = (case CBS_get_u8 s of
     (None, _) \<Rightarrow> False
   | (Some num_unused_bits, in') \<Rightarrow>
       if num_unused_bits > 7 then False
       else if num_unused_bits = 0 then True
       else (case CBS_get_last_u8 in' of
               (None, _) \<Rightarrow> False
             | (Some last_byte, _) \<Rightarrow> last_byte AND (push_bit (unat num_unused_bits) 1 - 1) = 0))"

definition CBS_asn1_bitstring_has_bit :: "cbs \<Rightarrow> u32 \<Rightarrow> bool" where
  "CBS_asn1_bitstring_has_bit s b =
     (if \<not> CBS_is_valid_asn1_bitstring s then False
      else let byte_num = drop_bit 3 b + 1;
               bit_num = 7 - (b AND 7)
           in unat byte_num < CBS_len s \<and>
              s ! unat byte_num AND push_bit (unat bit_num) 1 \<noteq> 0)"

end
