(* ===== verification/Der.thy ===== *)
theory Der
  imports Cbs
begin

text \<open>
  The abstract side of the DER reader: what the identifier octets, the length octets and
  a whole element of a tag and a content are (X.690), and the proofs that the reader of
  theory \<open>Cbs\<close> accepts these and nothing else.  The results are interpretations of
  \<open>canonical_codec\<close>.
\<close>

section \<open>Encodings\<close>

definition continuation_octet :: "nat \<Rightarrow> u8" where
  "continuation_octet n = of_nat (n mod 128 + 128)"

fun base128_hi :: "nat \<Rightarrow> u8 list" where
  "base128_hi n = (if n = 0 then [] else base128_hi (n div 128) @ [continuation_octet n])"

declare base128_hi.simps [simp del]

definition base128 :: "nat \<Rightarrow> u8 list" where
  "base128 n = base128_hi (n div 128) @ [of_nat (n mod 128)]"

definition der_identifier :: "u32 \<Rightarrow> u8 list" where
  "der_identifier tag =
     (let tag_bits = ucast (drop_bit 24 tag) AND 0xe0;
          n = unat (tag AND CBS_ASN1_TAG_NUMBER_MASK)
      in if n < 31 then [tag_bits OR of_nat n] else (tag_bits OR 0x1f) # base128 n)"

fun nat_bytes :: "nat \<Rightarrow> nat" where
  "nat_bytes n = (if n = 0 then 0 else Suc (nat_bytes (n div 256)))"

declare nat_bytes.simps [simp del]

definition der_length :: "nat \<Rightarrow> u8 list" where
  "der_length n =
     (if n < 128 then [of_nat n] else of_nat (128 + nat_bytes n) # nat_be (nat_bytes n) n)"

definition der_header :: "u32 \<Rightarrow> nat \<Rightarrow> u8 list" where
  "der_header tag n = der_identifier tag @ der_length n"

definition der_element :: "u32 \<Rightarrow> u8 list \<Rightarrow> u8 list" where
  "der_element tag contents = der_header tag (length contents) @ contents"

section \<open>Bytes\<close>

lemma u8_eq_iff: "b = c \<longleftrightarrow> unat b = unat (c :: u8)"
  by (simp add: word_unat_eq_iff)

section \<open>Base-128 integers\<close>

lemma base128_loop_Nil: "base128_loop v [] = (None, [])"
  by (simp add: base128_loop.simps [of v "[]"] reader_simps)

lemma base128_loop_Cons:
  "base128_loop v (b # s) =
     (if 2 ^ 57 \<le> unat v \<or> (v = 0 \<and> b = 0x80) then (None, s)
      else let v = push_bit 7 v OR ucast (b AND 0x7f)
           in if 128 \<le> unat b then base128_loop v s else (Some v, s))"
  by (simp add: base128_loop.simps [of v "b # s"] reader_simps byte_simps Let_def not_less)

lemma unat_base128_step:
  assumes "unat (v :: u64) < 2 ^ 57"
  shows "unat (push_bit 7 v OR ucast ((b :: u8) AND 0x7f)) = unat v * 128 + unat b mod 128"
proof -
  have "unat (ucast (b AND 0x7f) :: u64) = unat b mod 128"
    by (simp add: unat_ucast_u8 u8_and_0x7f)
  then show ?thesis
    using assms by (subst unat_push_or) simp_all
qed

lemma unat_continuation_octet [simp]: "unat (continuation_octet n) = n mod 128 + 128"
proof -
  have "n mod 128 + 128 < 256" by simp
  then show ?thesis
    unfolding continuation_octet_def unat_of_nat by simp
qed

lemma mod_128_high: "128 \<le> x \<Longrightarrow> x < 256 \<Longrightarrow> x mod 128 + 128 = (x :: nat)"
  by (simp add: le_mod_geq)

lemma base128_loop_hi:
  "0 < n \<Longrightarrow> n < size_bound \<Longrightarrow> base128_loop 0 (base128_hi n @ s) = base128_loop (of_nat n) s"
proof (induction n arbitrary: s rule: base128_hi.induct)
  case (1 n)
  let ?b = "continuation_octet n" and ?v = "of_nat (n div 128) :: u64"
  have v: "unat ?v = n div 128"
    using 1 by (simp add: unat_of_nat)
  have "base128_loop 0 (base128_hi n @ s) = base128_loop ?v (?b # s)"
  proof (cases "n div 128 = 0")
    case True
    then show ?thesis using 1 by (simp add: base128_hi.simps [of n] base128_hi.simps [of 0])
  next
    case False
    then show ?thesis
      using 1 by (subst base128_hi.simps) simp
  qed
  also have "\<dots> = base128_loop (of_nat n) s"
  proof -
    have "\<not> (?v = 0 \<and> ?b = 0x80)"
    proof
      assume *: "?v = 0 \<and> ?b = 0x80"
      then have "n div 128 = 0" "n mod 128 + 128 = 128"
        using v unat_continuation_octet [of n] by auto
      then show False using \<open>0 < n\<close> by (simp add: div_eq_0_iff)
    qed
    moreover have "push_bit 7 ?v OR ucast (?b AND 0x7f) = of_nat n"
      using 1 v by (simp add: word_unat_eq_iff unat_base128_step unat_of_nat)
    moreover have "\<not> 2 ^ 57 \<le> n div 128"
      using 1 by simp
    ultimately show ?thesis
      using v by (auto simp: base128_loop_Cons Let_def)
  qed
  finally show ?case .
qed

lemma parse_base128: "n < size_bound \<Longrightarrow> parse_base128_integer (base128 n @ s) = (Some (of_nat n), s)"
proof -
  assume n: "n < size_bound"
  let ?v = "of_nat (n div 128) :: u64" and ?b = "of_nat (n mod 128) :: u8"
  have v: "unat ?v = n div 128" and b: "unat ?b = n mod 128"
    using n by (simp_all add: unat_of_nat)
  have "parse_base128_integer (base128 n @ s) = base128_loop ?v (?b # s)"
    using n base128_loop_hi [of "n div 128" "?b # s"]
    by (cases "n div 128 = 0") (simp_all add: parse_base128_integer_def base128_def base128_hi.simps [of 0])
  moreover have "push_bit 7 ?v OR ucast (?b AND 0x7f) = of_nat n"
    using n v b by (simp add: word_unat_eq_iff unat_base128_step unat_of_nat)
  moreover have "?b \<noteq> 0x80"
    using b by (auto simp: u8_eq_iff)
  moreover have "n div 128 < 2 ^ 57" "\<not> 128 \<le> n mod 128"
    using n by (simp_all add: not_le)
  ultimately show ?thesis
    using v b by (auto simp: base128_loop_Cons Let_def not_le)
qed

lemma base128_loop_canonical:
  "base128_loop v s = (Some r, s') \<Longrightarrow>
     \<exists>p. p \<noteq> [] \<and> s = p @ s' \<and> base128 (unat r) = base128_hi (unat v) @ p"
proof (induction v s rule: base128_loop.induct)
  case (1 v s)
  from "1.prems" obtain b t where s: "s = b # t"
    by (cases s) (auto simp: base128_loop_Nil)
  let ?v = "push_bit 7 v OR ucast (b AND 0x7f)"
  from "1.prems" s have small: "unat v < 2 ^ 57" and lead: "\<not> (v = 0 \<and> b = 0x80)"
    by (auto simp: base128_loop_Cons split: if_splits)
  have v': "unat ?v = unat v * 128 + unat b mod 128"
    using small by (rule unat_base128_step)
  show ?case
  proof (cases "128 \<le> unat b")
    case True
    then have "base128_loop ?v t = (Some r, s')"
      using "1.prems" s small lead by (simp add: base128_loop_Cons)
    moreover have "drop_bit 57 v = 0" "b AND 0x80 \<noteq> 0"
      using small True by (simp_all add: drop_bit_0_iff u8_and_0x80)
    ultimately obtain p where p: "t = p @ s'" "base128 (unat r) = base128_hi (unat ?v) @ p"
      using "1.IH" [of "Some b" t b ?v] lead s by (auto simp: reader_simps)
    have "unat ?v \<noteq> 0"
    proof
      assume "unat ?v = 0"
      then have "unat v = 0" "unat b mod 128 = 0" using v' by auto
      with True mod_128_high [of "unat b"] have "unat b = 128" by simp
      with \<open>unat v = 0\<close> lead show False by (simp add: unat_eq_0 u8_eq_iff)
    qed
    moreover have "continuation_octet (unat ?v) = b"
      using True mod_128_high [of "unat b"] by (simp add: u8_eq_iff v')
    moreover have "unat ?v div 128 = unat v"
      using v' by simp
    ultimately have "base128_hi (unat ?v) = base128_hi (unat v) @ [b]"
      by (subst base128_hi.simps) simp
    with p s show ?thesis by (intro exI [of _ "b # p"]) simp
  next
    case False
    then have r: "r = ?v" "t = s'"
      using "1.prems" s small lead by (auto simp: base128_loop_Cons Let_def)
    have "base128 (unat ?v) = base128_hi (unat v) @ [b]"
      using False v' by (simp add: base128_def)
    with r s show ?thesis by (intro exI [of _ "[b]"]) simp
  qed
qed

interpretation b128: canonical_codec parse_base128_integer "\<lambda>v. base128 (unat v)" "\<lambda>_. True"
proof unfold_locales
  show "parse_base128_integer (base128 (unat a) @ t) = (Some a, t)" for a t
    by (simp add: parse_base128)
  show "True \<and> s = base128 (unat a) @ s'" if "parse_base128_integer s = (Some a, s')" for s a s'
    using base128_loop_canonical [of 0 s a s'] that
    by (auto simp: parse_base128_integer_def base128_hi.simps [of 0])
  show "base128 (unat a) \<noteq> []" for a :: u64
    by (simp add: base128_def)
qed

section \<open>Identifier octets\<close>

lemma mask_numerals:
  "(0xe0 :: u8) = push_bit 5 (mask 3)" "(0x1f :: u8) = mask 5"
  "(0xe0 :: u32) = push_bit 5 (mask 3)" "(0x1fffffff :: u32) = mask 29"
  by (simp_all add: mask_eq_exp_minus_1)

lemma tag_byte_low: "((c AND 0xe0) OR (low AND 0x1f)) AND 0x1f = (low AND 0x1f :: u8)"
  unfolding mask_numerals by (rule bit_word_eqI) (auto simp: bit_simps)

lemma tag_byte_high:
  "ucast ((ucast (t :: u32) AND 0xe0 :: u8) OR (low AND 0x1f)) AND 0xe0 = t AND 0xe0"
  unfolding mask_numerals by (rule bit_word_eqI) (auto simp: bit_simps)

lemma tag_split: "push_bit 24 (drop_bit 24 tag AND 0xe0) OR (tag AND 0x1fffffff) = (tag :: u32)"
  unfolding mask_numerals by (rule bit_word_eqI) (auto simp: bit_simps)

lemma tag_join_bits:
  "ucast (drop_bit 24 (push_bit 24 (ucast (b :: u8) AND 0xe0) OR (n AND 0x1fffffff)) :: u32) AND 0xe0
     = b AND 0xe0"
  unfolding mask_numerals by (rule bit_word_eqI) (auto simp: bit_simps)

lemma tag_join_number:
  "(push_bit 24 (ucast (b :: u8) AND 0xe0) OR (n AND 0x1fffffff)) AND 0x1fffffff
     = (n AND 0x1fffffff :: u32)"
  unfolding mask_numerals by (rule bit_word_eqI) (auto simp: bit_simps)

lemma byte_split: "(b AND 0xe0) OR (b AND 0x1f) = (b :: u8)"
  unfolding mask_numerals by (rule bit_word_eqI) (auto simp: bit_simps)

lemma and_mask_eq: "unat n < 2 ^ k \<Longrightarrow> n AND mask k = (n :: 'a::len word)"
  by (simp add: word_unat_eq_iff unat_and_mask)

lemma tag_number_less: "unat ((tag :: u32) AND 0x1fffffff) < 2 ^ 29"
  unfolding mask_numerals unat_and_mask by simp

lemma ucast_low5: "ucast ((b :: u8) AND 0x1f) = (of_nat (unat b mod 32) :: u32)"
  unfolding mask_numerals by (simp add: word_unat_eq_iff unat_and_mask unsigned_ucast_eq unat_of_nat
      take_bit_nat_eq_self mod_less_divisor)

lemma parse_asn1_tag_Cons:
  "parse_asn1_tag (b # s) =
     (let tag = push_bit 24 (ucast b AND 0xe0); n = ucast (b AND 0x1f)
      in if n = 0x1f
         then (case parse_base128_integer s of
                 (None, s) \<Rightarrow> (None, s)
               | (Some v, s) \<Rightarrow> if unat v < 2 ^ 29 \<and> 31 \<le> unat v then (Some (tag OR ucast v), s) else (None, s))
         else (Some (tag OR n), s))"
  by (auto simp: parse_asn1_tag_def reader_simps word_less_nat_alt Let_def
      split: option.splits prod.splits)

lemma unat_ucast_u8_u32: "unat (ucast (b :: u8) :: u32) = unat b"
  by (simp add: unsigned_ucast_eq take_bit_nat_eq_self order_less_trans [OF unat_u8_less])

lemma ucast_small: "unat (v :: u64) < 2 ^ 29 \<Longrightarrow> unat (ucast v :: u32) = unat v"
  by (simp add: unsigned_ucast_eq take_bit_nat_eq_self)

lemma parse_asn1_tag_identifier: "parse_asn1_tag (der_identifier tag @ s) = (Some tag, s)"
proof -
  let ?m = "tag AND 0x1fffffff"
  let ?B = "ucast (drop_bit 24 tag) AND 0xe0 :: u8"
  show ?thesis
  proof (cases "unat ?m < 31")
    case True
    let ?low = "ucast ?m :: u8"
    have low_nat: "unat ?low = unat ?m"
      using True by (simp add: unsigned_ucast_eq take_bit_nat_eq_self)
    then have low: "?low AND 0x1f = ?low"
      using True unfolding mask_numerals(2) by (intro and_mask_eq) simp
    have 1: "ucast (?B OR ?low) AND 0xe0 = drop_bit 24 tag AND (0xe0 :: u32)"
      using tag_byte_high [of "drop_bit 24 tag" ?low] low by simp
    have 2: "(?B OR ?low) AND 0x1f = ?low"
      using tag_byte_low [of "ucast (drop_bit 24 tag)" ?low] low by simp
    have 3: "ucast ?low = ?m"
      unfolding word_unat_eq_iff unat_ucast_u8_u32 by (rule low_nat)
    have 4: "?m \<noteq> 0x1f"
      using True by auto
    show ?thesis
      using True 1 2 3 4 tag_split [of tag]
      by (simp add: der_identifier_def Let_def parse_asn1_tag_Cons)
  next
    case False
    let ?v = "ucast ?m :: u64"
    have v: "unat ?v = unat ?m"
      using tag_number_less [of tag] by (simp add: unsigned_ucast_eq take_bit_nat_eq_self)
    have 1: "ucast (?B OR 0x1f) AND 0xe0 = drop_bit 24 tag AND (0xe0 :: u32)"
      using tag_byte_high [of "drop_bit 24 tag" "0x1f"] by simp
    have 2: "(?B OR 0x1f) AND 0x1f = 0x1f"
      using tag_byte_low [of "ucast (drop_bit 24 tag)" "0x1f"] by simp
    have 3: "ucast ?v = ?m"
      using tag_number_less [of tag] v unfolding word_unat_eq_iff by (subst ucast_small) simp_all
    have "parse_base128_integer (base128 (unat ?m) @ s) = (Some ?v, s)"
      using tag_number_less [of tag] parse_base128 [of "unat ?m" s] by simp
    then show ?thesis
      using False 1 2 3 v tag_number_less [of tag] tag_split [of tag]
      by (simp add: der_identifier_def Let_def parse_asn1_tag_Cons)
  qed
qed

lemma parse_asn1_tag_canonical:
  assumes "parse_asn1_tag s = (Some tag, s')"
  shows "s = der_identifier tag @ s'"
proof -
  from assms obtain b t where s: "s = b # t"
    by (cases s) (auto simp: parse_asn1_tag_def reader_simps)
  show ?thesis
  proof (cases "ucast (b AND 0x1f) = (0x1f :: u32)")
    case True
    then have b: "b AND 0x1f = 0x1f"
      by (simp add: u8_eq_iff word_unat_eq_iff unat_ucast_u8_u32)
    from True assms s obtain v where v: "parse_base128_integer t = (Some v, s')"
        "unat v < 2 ^ 29" "31 \<le> unat v" and tag: "tag = push_bit 24 (ucast b AND 0xe0) OR ucast v"
      by (auto simp: parse_asn1_tag_Cons Let_def split: option.splits prod.splits if_splits)
    have m: "ucast v AND 0x1fffffff = (ucast v :: u32)"
      using v unfolding mask_numerals(4) by (intro and_mask_eq) (simp add: ucast_small)
    have "der_identifier tag = ((b AND 0xe0) OR 0x1f) # base128 (unat v)"
      using v tag tag_join_bits [of b "ucast v"] tag_join_number [of b "ucast v"] m
      by (simp add: der_identifier_def Let_def ucast_small)
    then show ?thesis
      using b128.canonical [OF v(1)] byte_split [of b] b s by simp
  next
    case False
    let ?n = "ucast (b AND 0x1f) :: u32"
    have tag: "tag = push_bit 24 (ucast b AND 0xe0) OR ?n" and t: "t = s'"
      using False assms s by (auto simp: parse_asn1_tag_Cons Let_def)
    have n32: "unat (b AND 0x1f) < 32"
      unfolding mask_numerals unat_and_mask by simp
    have n: "unat ?n = unat (b AND 0x1f)"
      by (rule unat_ucast_u8_u32)
    have n31: "unat ?n < 31"
    proof -
      have "unat ?n \<noteq> 31" using False by (auto simp: word_unat_eq_iff)
      with n n32 show ?thesis by simp
    qed
    have m: "?n AND 0x1fffffff = ?n"
      using n31 unfolding mask_numerals(4) by (intro and_mask_eq) simp
    have "der_identifier tag = [(b AND 0xe0) OR of_nat (unat ?n)]"
      using n31 tag tag_join_bits [of b ?n] tag_join_number [of b ?n] m
      by (simp add: der_identifier_def Let_def)
    then show ?thesis
      using byte_split [of b] n s t by simp
  qed
qed

interpretation tag: canonical_codec parse_asn1_tag der_identifier "\<lambda>_. True"
proof unfold_locales
  show "der_identifier a \<noteq> []" for a
    by (simp add: der_identifier_def Let_def)
qed (simp_all add: parse_asn1_tag_identifier parse_asn1_tag_canonical)

section \<open>Length octets\<close>

text \<open>A reference reader for the length octets alone.\<close>

definition read_der_length :: "nat reader" where
  "read_der_length r = (case r of
     [] \<Rightarrow> (None, r)
   | lb # h \<Rightarrow>
       if unat lb < 128 then (Some (unat lb), h)
       else let nb = unat lb - 128; n = be_nat (take nb h)
            in if nb = 0 \<or> nb > 4 \<or> length h < nb \<or> n < 128 \<or> n < 256 ^ (nb - 1)
               then (None, r) else (Some n, drop nb h))"

lemma nat_bytes_upper: "n < 256 ^ nat_bytes n"
proof (induction n rule: nat_bytes.induct)
  case (1 n)
  show ?case
  proof (cases "n = 0")
    case False
    then have "n div 256 < 256 ^ nat_bytes (n div 256)" by (rule 1)
    with False show ?thesis
      by (simp add: nat_bytes.simps [of n] div_less_iff_less_mult mult.commute)
  qed simp
qed

lemma nat_bytes_lower: "0 < n \<Longrightarrow> 256 ^ (nat_bytes n - 1) \<le> n"
proof (induction n rule: nat_bytes.induct)
  case (1 n)
  show ?case
  proof (cases "n div 256 = 0")
    case True
    then show ?thesis using 1 by (simp add: nat_bytes.simps [of n] nat_bytes.simps [of 0])
  next
    case False
    with 1 have "256 ^ (nat_bytes (n div 256) - 1) \<le> n div 256" by simp
    then have "256 ^ (nat_bytes (n div 256) - 1) * 256 \<le> n"
      by (simp add: less_eq_div_iff_mult_less_eq)
    moreover have "nat_bytes (n div 256) = Suc (nat_bytes (n div 256) - 1)"
      using False by (simp add: nat_bytes.simps [of "n div 256"])
    then have "(256::nat) ^ nat_bytes (n div 256) = 256 ^ (nat_bytes (n div 256) - 1) * 256"
      by (metis power_Suc2)
    ultimately show ?thesis
      using 1 by (simp add: nat_bytes.simps [of n])
  qed
qed

lemma nat_bytes_unique:
  assumes "256 ^ k \<le> n" "n < 256 ^ Suc k" 
  shows "nat_bytes n = Suc k"
proof -
  have "0 < (256 :: nat) ^ k" by simp
  with assms(1) have pos: "0 < n" by linarith
  have "(256::nat) ^ (nat_bytes n - 1) < 256 ^ Suc k"
    using nat_bytes_lower [OF pos] assms(2) by linarith
  then have "nat_bytes n - 1 < Suc k"
    by (rule power_less_imp_less_exp [rotated]) simp
  moreover have "(256::nat) ^ k < 256 ^ nat_bytes n"
    using nat_bytes_upper [of n] assms(1) by linarith
  then have "k < nat_bytes n"
    by (rule power_less_imp_less_exp [rotated]) simp
  ultimately show ?thesis by simp
qed

lemma nat_bytes_le: "n < 256 ^ k \<Longrightarrow> nat_bytes n \<le> k"
proof (rule ccontr)
  assume "n < 256 ^ k" "\<not> nat_bytes n \<le> k"
  then have "(256::nat) ^ k \<le> 256 ^ (nat_bytes n - 1)" "0 < n"
    by (auto intro!: power_increasing simp: nat_bytes.simps [of 0] intro: gr0I)
  with nat_bytes_lower [of n] \<open>n < 256 ^ k\<close> show False by linarith
qed

lemma nat_bytes_pos: "0 < n \<Longrightarrow> 0 < nat_bytes n"
  by (simp add: nat_bytes.simps [of n])

interpretation len: canonical_codec read_der_length der_length "\<lambda>n. n < 2 ^ 32"
proof unfold_locales
  show "read_der_length (der_length n @ t) = (Some n, t)" if n: "n < 2 ^ 32" for n t
  proof (cases "n < 128")
    case True
    then show ?thesis by (simp add: read_der_length_def der_length_def unat_of_nat)
  next
    case False
    have nb: "0 < nat_bytes n" "nat_bytes n \<le> 4"
      using False n by (auto intro: nat_bytes_pos nat_bytes_le)
    then have "unat (of_nat (128 + nat_bytes n) :: u8) = 128 + nat_bytes n"
      by (subst unat_of_nat) simp
    moreover have "be_nat (nat_be (nat_bytes n) n) = n"
      using nat_bytes_upper [of n] by (simp add: be_nat_nat_be)
    ultimately show ?thesis
      using False nb nat_bytes_lower [of n]
      by (simp add: read_der_length_def der_length_def Let_def)
  qed
  show "n < 2 ^ 32 \<and> s = der_length n @ s'" if rd: "read_der_length s = (Some n, s')" for s n s'
  proof -
    from rd obtain lb h where s: "s = lb # h"
      by (cases s) (auto simp: read_der_length_def)
    show ?thesis
    proof (cases "unat lb < 128")
      case True
      then show ?thesis using rd s by (auto simp: read_der_length_def der_length_def)
    next
      case False
      let ?nb = "unat lb - 128"
      have nb: "?nb \<noteq> 0" "?nb \<le> 4" "?nb \<le> length h" "128 \<le> n" "256 ^ (?nb - 1) \<le> n"
        and n: "n = be_nat (take ?nb h)" and s': "s' = drop ?nb h"
        using rd s False by (auto simp: read_der_length_def Let_def split: if_splits)
      have lt: "n < 256 ^ ?nb"
        using be_nat_bound [of "take ?nb h"] nb n by (simp add: min_absorb2)
      also have "\<dots> \<le> (256::nat) ^ 4"
        using nb by (intro power_increasing) auto
      finally have "n < 2 ^ 32" by simp
      have "nat_bytes n = ?nb"
      proof -
        have "Suc (?nb - 1) = ?nb" using nb by simp
        with nat_bytes_unique [of "?nb - 1" n] nb lt show ?thesis by metis
      qed
      moreover have "nat_be ?nb n = take ?nb h"
        using nat_be_be_nat [of "take ?nb h"] nb n by (simp add: min_absorb2)
      moreover have "of_nat (128 + ?nb) = lb"
        using False by (simp add: u8_eq_iff)
      ultimately show ?thesis
        using nb s s' \<open>n < 2 ^ 32\<close> by (simp add: der_length_def)
    qed
  qed
  show "der_length n \<noteq> []" for n by (simp add: der_length_def)
qed

section \<open>Elements\<close>

lemma cbs_get_eq: "cbs_get n s = (if n \<le> length s then (Some (take n s), drop n s) else (None, s))"
  by (simp add: cbs_get_def)

lemma cbs_get_u_eq:
  "cbs_get_u n s = (if n \<le> length s then (Some (be_u64 (take n s)), drop n s) else (None, s))"
  by (simp add: cbs_get_u_def cbs_get_eq)

lemma CBS_get_bytes_eq:
  "CBS_get_bytes n s = (if n \<le> length s then (Some (take n s), drop n s) else (None, s))"
  by (simp add: CBS_get_bytes_def cbs_get_eq CBS_init_def)

lemmas reads_eq [reader_simps] = cbs_get_eq cbs_get_u_eq CBS_get_bytes_eq

lemma length_base128_hi: "n < 128 ^ k \<Longrightarrow> length (base128_hi n) \<le> k"
proof (induction n arbitrary: k rule: base128_hi.induct)
  case (1 n)
  show ?case
  proof (cases "n = 0")
    case True
    then show ?thesis by (simp add: base128_hi.simps)
  next
    case False
    with 1 obtain j where k: "k = Suc j" by (cases k) auto
    with 1 have "n div 128 < 128 ^ j"
      by (simp add: div_less_iff_less_mult mult.commute)
    with 1 False k show ?thesis by (subst base128_hi.simps) simp
  qed
qed

lemma length_der_identifier: "length (der_identifier tag) \<le> 6"
proof -
  have "unat (tag AND 0x1fffffff) div 128 < 128 ^ 4"
    using tag_number_less [of tag] by simp
  from length_base128_hi [OF this] show ?thesis
    by (simp add: der_identifier_def Let_def base128_def)
qed

lemma long_length_octets:
  assumes "128 \<le> unat (lb :: u8)" "nb = unat (lb AND 0x7f)"
  shows "nb = unat lb - 128"
  using assms mod_128_high [of "unat lb"] by (simp add: u8_and_0x7f)

text \<open>The reader of an element is the reader of the identifier octets, then that of the
  length octets, then the cut.\<close>

definition cut_element :: "cbs \<Rightarrow> u32 \<Rightarrow> cbs \<Rightarrow> (cbs \<times> u32 \<times> nat) option \<times> cbs" where
  "cut_element s t r = (case read_der_length r of
     (None, _) \<Rightarrow> (None, s)
   | (Some n, h) \<Rightarrow>
       if length h < n then (None, s)
       else let hl = length s - length h in (Some (take (hl + n) s, t, hl), drop (hl + n) s))"

lemma long_form_bounds:
  assumes "128 \<le> unat (lb :: u8)" "k = unat (lb AND 0x7f)" "k \<noteq> 0" "k \<le> 4" "k \<le> length h"
  shows "unat (be_u64 (take k h)) = be_nat (take k h)"
    and "be_nat (take k h) < 2 ^ 32"
    and "drop_bit ((k - 1) * 8) (be_u64 (take k h)) = 0 \<longleftrightarrow> be_nat (take k h) < 256 ^ (k - 1)"
proof -
  show u: "unat (be_u64 (take k h)) = be_nat (take k h)"
    using assms by (subst unat_be_u64) auto
  have "be_nat (take k h) < 256 ^ k"
    using be_nat_bound [of "take k h"] assms(5) by (simp add: min_absorb2)
  also have "\<dots> \<le> (256::nat) ^ 4"
    using assms(4) by (intro power_increasing) auto
  finally show "be_nat (take k h) < 2 ^ 32" by simp
  have "(2::nat) ^ ((k - 1) * 8) = 256 ^ (k - 1)"
    by (simp add: power_mult mult.commute [of _ 8])
  then show "drop_bit ((k - 1) * 8) (be_u64 (take k h)) = 0 \<longleftrightarrow> be_nat (take k h) < 256 ^ (k - 1)"
    unfolding drop_bit_0_iff u by simp
qed

lemma element_long_form:
  assumes tag: "parse_asn1_tag s = (Some tg, lb # h)" and lb: "128 \<le> unat lb"
  shows "cbs_get_any_asn1_element False s = cut_element s tg (lb # h)"
proof -
  define k where "k = unat (lb AND 0x7f)"
  have k: "k = unat lb - 128"
    using lb unfolding k_def by (intro long_length_octets) simp_all
  have hb: "lb AND 0x80 \<noteq> 0"
    using lb by (simp add: u8_and_0x80)
  show ?thesis
  proof (cases "k = 0 \<or> k > 4 \<or> length h < k")
    case True
    then have "cbs_get_any_asn1_element False s = (None, s)"
      using hb tag unfolding cbs_get_any_asn1_element_def CBS_len_def k_def
      by (elim disjE) (simp_all add: reader_simps Let_def)
    moreover have "read_der_length (lb # h) = (None, lb # h)"
      using lb True k by (auto simp: read_der_length_def Let_def)
    ultimately show ?thesis by (simp add: cut_element_def)
  next
    case False
    then have ok: "k \<noteq> 0" "k \<le> 4" "k \<le> length h" by auto
    define len64 where "len64 = be_u64 (take k h)"
    define n where "n = be_nat (take k h)"
    note b = long_form_bounds [OF lb k_def ok, folded len64_def n_def]
    have s: "s = der_identifier tg @ lb # h"
      using tag tag.canonical by simp
    let ?i = "length (der_identifier tg)"
    have i: "?i \<le> 6" by (rule length_der_identifier)
    have sz: "size_add (Suc ?i) k = Suc ?i + k" "size_add (size_add n (Suc ?i)) k = n + Suc ?i + k"
        "size_add n (Suc ?i + k) = n + (Suc ?i + k)"
      using b(2) i ok by simp_all
    have small: "len64 < 128 \<longleftrightarrow> n < 128"
      using b(1) by (simp add: word_less_nat_alt)
    have "length s - length h = Suc ?i" using s by simp
    then have "cbs_get_any_asn1_element False s =
        (if n < 128 then (None, s) else if n < 256 ^ (k - 1) then (None, s)
         else case CBS_get_bytes (n + (Suc ?i + k)) s of
           (None, s) \<Rightarrow> (None, s) | (Some out, s) \<Rightarrow> (Some (out, tg, Suc ?i + k), s))"
      using tag hb ok b small sz unfolding cbs_get_any_asn1_element_def CBS_len_def
      by (simp add: reader_simps Let_def flip: k_def len64_def n_def)
    moreover have "read_der_length (lb # h) =
        (if n < 128 \<or> n < 256 ^ (k - 1) then (None, lb # h) else (Some n, drop k h))"
      using lb ok by (simp add: read_der_length_def Let_def n_def flip: k)
    moreover have "length s = Suc ?i + length h"
      using s by simp
    ultimately show ?thesis
      using ok by (auto simp: cut_element_def CBS_get_bytes_eq Let_def algebra_simps)
  qed
qed

lemma cbs_get_any_asn1_element_staged:
  "cbs_get_any_asn1_element False s = (case parse_asn1_tag s of
     (None, _) \<Rightarrow> (None, s) | (Some t, r) \<Rightarrow> cut_element s t r)"
proof (cases "\<exists>tg lb h. parse_asn1_tag s = (Some tg, lb # h)")
  case True
  then obtain tg lb h where tag: "parse_asn1_tag s = (Some tg, lb # h)" by blast
  show ?thesis
  proof (cases "unat lb < 128")
    case False
    with tag element_long_form show ?thesis by simp
  next
    case True
    have s: "s = der_identifier tg @ lb # h"
      using tag tag.canonical by simp
    let ?i = "length (der_identifier tg)"
    have "size_add (unat lb) (Suc ?i) = unat lb + Suc ?i"
      using True length_der_identifier [of tg] by (intro size_add_eq) simp
    then show ?thesis
      using True tag s
      by (simp add: cbs_get_any_asn1_element_def reader_simps read_der_length_def CBS_len_def
          u8_and_0x80 cut_element_def Let_def)
  qed
next
  case False
  then have "parse_asn1_tag s = (None, snd (parse_asn1_tag s))
      \<or> (\<exists>tg. parse_asn1_tag s = (Some tg, []))"
    by (cases "parse_asn1_tag s"; cases "snd (parse_asn1_tag s)"; cases "fst (parse_asn1_tag s)") auto
  then show ?thesis
    by (auto simp: cbs_get_any_asn1_element_def reader_simps cut_element_def read_der_length_def
        split: prod.splits)
qed

lemma der_header_not_Nil [simp]: "der_header tag n \<noteq> []" "der_element tag c \<noteq> []"
  using tag.enc_not_Nil by (simp_all add: der_header_def der_element_def)

lemma any_element_iff:
  "CBS_get_any_asn1_element s = (Some (out, tag, hl), s') \<longleftrightarrow>
     (\<exists>c. length c < 2 ^ 32 \<and> out = der_element tag c \<and> hl = length (der_header tag (length c))
        \<and> s = out @ s')"
  (is "?read \<longleftrightarrow> ?spec")
proof
  assume ?read
  then have staged: "(case parse_asn1_tag s of (None, _) \<Rightarrow> (None, s) | (Some t, r) \<Rightarrow> cut_element s t r)
      = (Some (out, tag, hl), s')"
    by (simp add: CBS_get_any_asn1_element_def cbs_get_any_asn1_element_staged)
  then obtain t r where t: "parse_asn1_tag s = (Some t, r)" and cut: "cut_element s t r = (Some (out, tag, hl), s')"
    by (auto split: option.splits prod.splits)
  from cut obtain n h where n: "read_der_length r = (Some n, h)"
    by (auto simp: cut_element_def split: option.splits prod.splits)
  with cut have tag: "t = tag" and len: "n \<le> length h" and hl: "hl = length s - length h"
      and out: "out = take (hl + n) s" and s': "s' = drop (hl + n) s"
    by (auto simp: cut_element_def Let_def split: if_splits)
  have s: "s = der_header tag n @ h" "n < 2 ^ 32"
    using tag.canonical [OF t] len.canonical [OF n] tag by (simp_all add: der_header_def)
  then have "hl = length (der_header tag n)"
    using hl by simp
  with s len out s' show ?spec
    by (intro exI [of _ "take n h"]) (simp add: der_element_def min_absorb2)
next
  assume ?spec
  then obtain c where c: "length c < 2 ^ 32" "out = der_element tag c"
      "hl = length (der_header tag (length c))" "s = out @ s'" by blast
  have "parse_asn1_tag s = (Some tag, der_length (length c) @ c @ s')"
    using c tag.rd_enc [of tag "der_length (length c) @ c @ s'"]
    by (simp add: der_element_def der_header_def)
  moreover have "read_der_length (der_length (length c) @ c @ s') = (Some (length c), c @ s')"
    using c by (intro len.rd_enc)
  ultimately show ?read
    using c by (simp add: CBS_get_any_asn1_element_def cbs_get_any_asn1_element_staged cut_element_def
        der_element_def Let_def)
qed

lemma CBS_skip_eq: "CBS_skip n s = (if n \<le> length s then (Some (), drop n s) else (None, s))"
  by (simp add: CBS_skip_def cbs_get_eq)

lemma skip_der_header [simp]:
  "CBS_skip (length (der_header tag (length c))) (der_element tag c) = (Some (), c)"
  by (simp add: CBS_skip_eq der_element_def)

lemma any_asn1_iff:
  "CBS_get_any_asn1 s = (Some (c, tag), s') \<longleftrightarrow> length c < 2 ^ 32 \<and> s = der_element tag c @ s'"
  (is "?read \<longleftrightarrow> ?spec")
proof
  assume ?read
  then obtain out hl where e: "CBS_get_any_asn1_element s = (Some (out, tag, hl), s')"
      and c: "CBS_skip hl out = (Some (), c)"
    by (auto simp: CBS_get_any_asn1_def split: option.splits prod.splits)
  from e c show ?spec unfolding any_element_iff by auto
next
  assume ?spec
  then have "CBS_get_any_asn1_element s
      = (Some (der_element tag c, tag, length (der_header tag (length c))), s')"
    unfolding any_element_iff by blast
  then show ?read by (simp add: CBS_get_any_asn1_def)
qed

interpretation any: canonical_codec CBS_get_any_asn1 "\<lambda>(c, tag). der_element tag c"
    "\<lambda>(c, tag). length c < 2 ^ 32"
  by unfold_locales (auto simp: any_asn1_iff)

text \<open>An element with its header, as \<open>CBS_get_any_asn1_element\<close> returns it.\<close>

definition element_ok :: "cbs \<times> u32 \<times> nat \<Rightarrow> bool" where
  "element_ok e = (\<exists>c. length c < 2 ^ 32 \<and> e = (der_element (fst (snd e)) c, fst (snd e),
     length (der_header (fst (snd e)) (length c))))"

interpretation elem: canonical_codec CBS_get_any_asn1_element fst element_ok
proof unfold_locales
  show "CBS_get_any_asn1_element (fst a @ t) = (Some a, t)" if "element_ok a" for a t
  proof -
    obtain out tag hl where a: "a = (out, tag, hl)" by (cases a) auto
    with that have "CBS_get_any_asn1_element (out @ t) = (Some (out, tag, hl), t)"
      unfolding any_element_iff element_ok_def by auto
    with a show ?thesis by simp
  qed
  show "element_ok a \<and> s = fst a @ s'" if "CBS_get_any_asn1_element s = (Some a, s')" for s a s'
  proof -
    obtain out tag hl where a: "a = (out, tag, hl)" by (cases a) auto
    with that show ?thesis by (auto simp: any_element_iff element_ok_def)
  qed
qed (auto simp: element_ok_def)

lemma CBS_get_asn1_iff:
  "CBS_get_asn1 t s = (Some c, s') \<longleftrightarrow> length c < 2 ^ 32 \<and> s = der_element t c @ s'"
  (is "?read \<longleftrightarrow> ?spec")
proof
  assume ?read
  then obtain out tag hl where e: "CBS_get_any_asn1_element s = (Some (out, tag, hl), s')" 
      and c: "tag = t" "CBS_skip hl out = (Some (), c)"
    by (auto simp: CBS_get_asn1_def cbs_get_asn1_def split: option.splits prod.splits if_splits)
  from e c show ?spec unfolding any_element_iff by auto
next
  assume ?spec
  then have "CBS_get_any_asn1_element s
      = (Some (der_element t c, t, length (der_header t (length c))), s')"
    unfolding any_element_iff by blast
  then show ?read by (simp add: CBS_get_asn1_def cbs_get_asn1_def)
qed

lemma CBS_get_asn1_element_iff:
  "CBS_get_asn1_element t s = (Some e, s') \<longleftrightarrow>
     (\<exists>c. length c < 2 ^ 32 \<and> e = der_element t c \<and> s = e @ s')"
proof -
  have "CBS_get_asn1_element t s = (Some e, s') \<longleftrightarrow>
      (\<exists>hl. CBS_get_any_asn1_element s = (Some (e, t, hl), s'))"
    by (auto simp: CBS_get_asn1_element_def cbs_get_asn1_def split: option.splits prod.splits if_splits)
  then show ?thesis by (auto simp: any_element_iff)
qed

lemma CBS_peek_asn1_tag_iff: "CBS_peek_asn1_tag s t \<longleftrightarrow> (\<exists>r. s = der_identifier t @ r)"
proof -
  have "CBS_peek_asn1_tag s t \<longleftrightarrow> (\<exists>r. parse_asn1_tag s = (Some t, r))"
    by (auto simp: CBS_peek_asn1_tag_def CBS_len_def parse_asn1_tag_def reader_simps
        split: option.splits prod.splits)
  then show ?thesis
    unfolding tag.rd_iff by simp
qed

section \<open>Integers\<close>

text \<open>The content of an INTEGER is two's complement, most significant byte first, without
  the leading bytes that only repeat the sign.\<close>

fun strip_sign :: "u8 list \<Rightarrow> u8 list" where
  "strip_sign (b # c # bs) =
     (if (b = 0 \<and> unat c < 128) \<or> (b = 0xff \<and> 128 \<le> unat c) then strip_sign (c # bs)
      else b # c # bs)"
| "strip_sign bs = bs"

definition sign_byte :: "u8 list \<Rightarrow> u8" where
  "sign_byte bs = (if unat (hd bs) < 128 then 0 else 0xff)"

definition minimal :: "u8 list \<Rightarrow> bool" where
  "minimal bs = (bs \<noteq> [] \<and> strip_sign bs = bs)"

definition uint64_octets :: "u64 \<Rightarrow> u8 list" where
  "uint64_octets v = strip_sign (0 # nat_be 8 (unat v))"

definition int64_octets :: "u64 \<Rightarrow> u8 list" where
  "int64_octets v = strip_sign (nat_be 8 (unat v))"

lemma strip_sign_sign:
  assumes "c # bs = replicate k (sign_byte d) @ d" "(b = 0 \<and> unat c < 128) \<or> (b = 0xff \<and> 128 \<le> unat c)"
  shows "sign_byte d = b"
proof (cases k)
  case 0
  with assms(1) have "hd d = c" by (cases d) auto
  with assms(2) show ?thesis by (auto simp: sign_byte_def)
next
  case (Suc j)
  with assms(1) have "c = sign_byte d" by simp
  with assms(2) show ?thesis by (auto simp: sign_byte_def split: if_splits)
qed

lemma strip_sign_extends:
  "bs \<noteq> [] \<Longrightarrow> minimal (strip_sign bs) \<and>
     (\<exists>k. bs = replicate k (sign_byte (strip_sign bs)) @ strip_sign bs)"
proof (induction bs rule: strip_sign.induct)
  case (1 b c bs)
  show ?case
  proof (cases "(b = 0 \<and> unat c < 128) \<or> (b = 0xff \<and> 128 \<le> unat c)")
    case True
    define d where "d = strip_sign (c # bs)"
    from "1.IH" [OF True] obtain k where k: "c # bs = replicate k (sign_byte d) @ d" and m: "minimal d"
      unfolding d_def by blast
    have "b # c # bs = replicate (Suc k) (sign_byte d) @ d"
      using strip_sign_sign [OF k True] k by simp
    moreover have "strip_sign (b # c # bs) = d"
      using True by (simp add: d_def)
    ultimately show ?thesis using m by metis
  next
    case False
    then have "strip_sign (b # c # bs) = b # c # bs" by (simp only: strip_sign.simps if_False)
    then show ?thesis by (metis minimal_def append_Nil replicate_0 list.distinct(1))
  qed
qed (auto simp: minimal_def)

lemma strip_sign_replicate:
  assumes "minimal bs"
  shows "strip_sign (replicate k (sign_byte bs) @ bs) = bs"
proof (induction k)
  case (Suc k)
  obtain c r where c: "replicate k (sign_byte bs) @ bs = c # r"
    using assms by (cases "replicate k (sign_byte bs) @ bs") (auto simp: minimal_def)
  then have "c = sign_byte bs \<or> c = hd bs"
    by (cases k) (auto simp: Cons_eq_append_conv)
  then have "(unat c < 128 \<and> sign_byte bs = 0) \<or> (128 \<le> unat c \<and> sign_byte bs = 0xff)"
    by (auto simp: sign_byte_def split: if_splits)
  with Suc c show ?case by (auto simp del: append_eq_Cons_conv)
qed (use assms in \<open>simp add: minimal_def\<close>)

lemma minimal_iff:
  "minimal (b # bs) \<longleftrightarrow> bs = [] \<or> \<not> ((b = 0 \<and> unat (hd bs) < 128) \<or> (b = 0xff \<and> 128 \<le> unat (hd bs)))"
proof (cases bs)
  case (Cons c r)
  have "length (strip_sign xs) \<le> length xs" for xs
    by (induction xs rule: strip_sign.induct) auto
  then have "strip_sign (c # r) \<noteq> b # c # r"
    by (metis Suc_n_not_le_n length_Cons)
  with Cons show ?thesis by (auto simp: minimal_def)
qed (simp add: minimal_def)

lemma be_nat_replicate_0 [simp]: "be_nat (replicate k 0 @ bs) = be_nat bs"
  by (induction k) (simp_all add: be_nat_Cons)

lemma uint64_loop_eq:
  "uint64_loop out data =
     (if unat out * 256 ^ length data + be_nat data < size_bound
      then Some (of_nat (unat out * 256 ^ length data + be_nat data)) else None)"
proof (induction data arbitrary: out)
  case (Cons d data)
  show ?case
  proof (cases "unat out < 2 ^ 56")
    case True
    then have "unat (push_bit 8 out OR ucast d) = unat out * 256 + unat d"
      by (simp add: unat_push_or unat_ucast_u8)
    with True Cons show ?thesis
      by (simp add: drop_bit_0_iff be_nat_Cons algebra_simps)
  next
    case False
    then have "2 ^ 56 * 256 \<le> unat out * 256 ^ length (d # data)"
      by (intro mult_le_mono) auto
    with False show ?thesis by (simp add: drop_bit_0_iff)
  qed
qed simp

lemma length_minimal_bound:
  assumes "minimal c" "unat (hd c) < 128" "be_nat c < 256 ^ 8"
  shows "length c \<le> 9"
proof -
  obtain b r where c: "c = b # r" using assms(1) by (cases c) (auto simp: minimal_def)
  have lower: "256 ^ length xs \<le> be_nat (x # xs)" if "x \<noteq> 0" for x xs
  proof -
    have "1 \<le> unat x" using that by (simp add: Suc_le_eq unat_gt_0)
    then have "1 * 256 ^ length xs \<le> unat x * 256 ^ length xs" by (rule mult_le_mono1)
    then show ?thesis by (simp add: be_nat_Cons trans_le_add1)
  qed
  have "length r \<le> 8"
  proof (cases "b = 0 \<and> r \<noteq> []")
    case True
    then obtain d q where r: "r = d # q" by (cases r) auto
    with True c assms(1) have "d \<noteq> 0" by (auto simp: minimal_iff)
    then have "(256::nat) ^ length q < 256 ^ 8"
      using lower [of d q] assms(3) c r True by (simp add: be_nat_Cons)
    then have "length q < 8"
      by (rule power_less_imp_less_exp [rotated]) simp
    with r show ?thesis by simp
  next
    case False
    show ?thesis
    proof (cases "b = 0")
      case True
      with False show ?thesis by simp
    next
      case b: False
      have "(256::nat) ^ length r < 256 ^ 8"
        using lower [OF b, of r] assms(3) c by simp
      then have "length r < 8"
        by (rule power_less_imp_less_exp [rotated]) simp
      then show ?thesis by simp
    qed
  qed
  with c show ?thesis by simp
qed

lemma be_nat_8: "be_nat (nat_be 8 (unat (v :: u64))) = unat v"
proof -
  have "(256::nat) ^ 8 = size_bound" by simp
  then show ?thesis
    using unat_u64_less [of v] by (simp only: be_nat_nat_be mod_less)
qed

lemma be_nat_0_Cons: "be_nat (0 # bs) = be_nat bs"
  by (simp add: be_nat_Cons)

lemma strip_sign_positive:
  assumes c: "c = strip_sign (0 # bs)"
  shows "minimal c" and "unat (hd c) < 128" and "be_nat c = be_nat bs" and "length c \<le> Suc (length bs)"
proof -
  have "minimal (strip_sign (0 # bs)) \<and>
      (\<exists>k. 0 # bs = replicate k (sign_byte (strip_sign (0 # bs))) @ strip_sign (0 # bs))"
    by (rule strip_sign_extends) simp
  then obtain k where m: "minimal c" and k: "0 # bs = replicate k (sign_byte c) @ c"
    unfolding c [symmetric] by blast
  have "hd c = 0 \<or> sign_byte c = 0"
    using k by (cases k) (auto dest: sym)
  then show hd: "unat (hd c) < 128"
    by (auto simp: sign_byte_def split: if_splits)
  then have "sign_byte c = 0" by (simp add: sign_byte_def)
  with k have k: "0 # bs = replicate k 0 @ c" by simp
  then have "be_nat (0 # bs) = be_nat (replicate k 0 @ c)" by (rule arg_cong)
  then show "be_nat c = be_nat bs" by (simp only: be_nat_0_Cons be_nat_replicate_0)
  have "length (0 # bs) = length (replicate k (0::u8) @ c)" using k by (rule arg_cong)
  then show "length c \<le> Suc (length bs)" by simp
qed (use assms strip_sign_extends in blast)

lemma uint64_octets_props:
  shows "minimal (uint64_octets v)" and "unat (hd (uint64_octets v)) < 128"
    and "be_nat (uint64_octets v) = unat v" and "length (uint64_octets v) \<le> 9"
  using strip_sign_positive [OF uint64_octets_def [of v]] be_nat_8 [of v] by simp_all

lemma uint64_octets_unique:
  assumes "minimal c" "unat (hd c) < 128" "be_nat c = unat v"
  shows "c = uint64_octets v"
proof -
  have "length c \<le> 9"
  proof -
    have "be_nat c < 256 ^ 8" using assms(3) unat_u64_less [of v] by simp
    then show ?thesis by (rule length_minimal_bound [OF assms(1,2)])
  qed
  then have "length (replicate (9 - length c) 0 @ c) = length (0 # nat_be 8 (unat v))" by simp
  moreover have "be_nat (replicate (9 - length c) 0 @ c) = be_nat (0 # nat_be 8 (unat v))"
    using assms(3) by (simp only: be_nat_0_Cons be_nat_8 be_nat_replicate_0)
  ultimately have "replicate (9 - length c) 0 @ c = 0 # nat_be 8 (unat v)"
    by (rule be_nat_inj)
  moreover have "sign_byte c = 0" using assms by (simp add: sign_byte_def)
  ultimately show ?thesis
    using strip_sign_replicate [OF assms(1), of "9 - length c"] unfolding uint64_octets_def by simp
qed

text \<open>The checks of the two readers on the content octets are those of \<open>minimal\<close>.\<close>

lemma u8_0xff_iff [byte_simps]: "unat (b :: u8) = 255 \<longleftrightarrow> b = 0xff"
  by (simp add: u8_eq_iff)

lemma nth_minimal:
  "minimal c \<longleftrightarrow> c \<noteq> [] \<and> \<not> (1 < length c \<and> c ! 0 = 0 \<and> c ! 1 AND 0x80 = 0) \<and>
     \<not> (1 < length c \<and> c ! 0 = 0xff \<and> c ! 1 AND 0x80 \<noteq> 0)"
proof (cases c)
  case (Cons b bs)
  then show ?thesis
    by (cases bs) (auto simp: minimal_iff u8_and_0x80)
qed (simp add: minimal_def)

lemma length_octets_small: "length c \<le> 9 \<Longrightarrow> length c < 2 ^ 32"
  by simp

lemma CBS_get_asn1_uint64_iff:
  "CBS_get_asn1_uint64 s = (Some v, s') \<longleftrightarrow> s = der_element CBS_ASN1_INTEGER (uint64_octets v) @ s'"
proof
  assume "CBS_get_asn1_uint64 s = (Some v, s')"
  then obtain c where c: "CBS_get_asn1 CBS_ASN1_INTEGER s = (Some c, s')" "c \<noteq> []"
      "c ! 0 AND 0x80 = 0" "\<not> (c ! 0 = 0 \<and> length c > 1 \<and> c ! 1 AND 0x80 = 0)"
    and v: "uint64_loop 0 c = Some v"
    unfolding CBS_get_asn1_uint64_def CBS_len_def
    by (auto simp: Let_def split: option.splits prod.splits if_splits)
  have "minimal c" "unat (hd c) < 128"
    using c by (auto simp: nth_minimal hd_conv_nth u8_and_0x80)
  moreover have "be_nat c = unat v"
    using v by (auto simp: uint64_loop_eq unat_of_nat split: if_splits)
  ultimately have "c = uint64_octets v"
    by (rule uint64_octets_unique)
  with c(1) show "s = der_element CBS_ASN1_INTEGER (uint64_octets v) @ s'"
    unfolding CBS_get_asn1_iff by simp
next
  define c where "c = uint64_octets v"
  note p = uint64_octets_props [of v, folded c_def]
  assume "s = der_element CBS_ASN1_INTEGER (uint64_octets v) @ s'"
  then have "CBS_get_asn1 CBS_ASN1_INTEGER s = (Some c, s')"
    using p(4) length_octets_small unfolding CBS_get_asn1_iff c_def by blast
  moreover have "uint64_loop 0 c = Some v"
    using p(3) unat_u64_less [of v] by (simp add: uint64_loop_eq)
  moreover have "c \<noteq> []" "c ! 0 AND 0x80 = 0" "\<not> (c ! 0 = 0 \<and> length c > 1 \<and> c ! 1 AND 0x80 = 0)"
    using p by (auto simp: nth_minimal hd_conv_nth u8_and_0x80)
  ultimately show "CBS_get_asn1_uint64 s = (Some v, s')"
    by (auto simp: CBS_get_asn1_uint64_def CBS_len_def Let_def)
qed

lemma store_loop:
  "n \<le> length u \<Longrightarrow> foldl (\<lambda>u i. u[i := f i]) u [0..<n] = map f [0..<n] @ drop n u"
proof (induction n)
  case (Suc n)
  then have "(map f [0..<n] @ drop n u)[n := f n] = map f [0..<n] @ (drop n u)[0 := f n]"
    by (simp add: list_update_append)
  also have "(drop n u)[0 := f n] = f n # drop (Suc n) u"
    using Suc.prems by (cases "drop n u") (auto simp: drop_Suc tl_drop [symmetric])
  finally show ?case using Suc by simp
qed simp

lemma int64_store:
  assumes "length data \<le> 8"
  shows "int64_of_le_bytes (foldl (\<lambda>u i. u[i := data ! (length data - i - 1)]) (replicate 8 x) [0..<length data])
     = be_u64 (replicate (8 - length data) x @ data)"
proof -
  have "map (\<lambda>i. data ! (length data - i - 1)) [0..<length data] = rev data"
    by (rule nth_equalityI) (simp_all add: rev_nth)
  with assms show ?thesis
    using store_loop [of "length data" "replicate 8 x" "\<lambda>i. data ! (length data - i - 1)"]
    by (simp add: int64_of_le_bytes_def)
qed

lemma int64_octets_extends:
  assumes "c = int64_octets v"
  shows "minimal c" and "length c \<le> 8"
    and "nat_be 8 (unat v) = replicate (8 - length c) (sign_byte c) @ c"
proof -
  have "nat_be 8 (unat v) \<noteq> []" using length_nat_be [of 8 "unat v"] by force
  then obtain k where m: "minimal c" and k: "nat_be 8 (unat v) = replicate k (sign_byte c) @ c"
    using strip_sign_extends [of "nat_be 8 (unat v)"] unfolding assms int64_octets_def by blast
  have "8 = k + length c"
    using length_nat_be [of 8 "unat v"] unfolding k by simp
  with m k show "minimal c" "length c \<le> 8" "nat_be 8 (unat v) = replicate (8 - length c) (sign_byte c) @ c"
    by simp_all
qed

lemma CBS_get_asn1_int64_iff:
  "CBS_get_asn1_int64 s = (Some v, s') \<longleftrightarrow> s = der_element CBS_ASN1_INTEGER (int64_octets v) @ s'"
proof -
  have sign: "(if c ! 0 AND 0x80 \<noteq> 0 then 0xff else 0) = sign_byte c" if "c \<noteq> []" for c
    using that by (simp add: sign_byte_def hd_conv_nth u8_and_0x80)
  have *: "CBS_get_asn1_int64 s = (Some v, s') \<longleftrightarrow>
     (\<exists>c. CBS_get_asn1 CBS_ASN1_INTEGER s = (Some c, s') \<and> minimal c \<and> length c \<le> 8 \<and>
        v = be_u64 (replicate (8 - length c) (sign_byte c) @ c))" (is "_ = ?r")
  proof (cases "CBS_get_asn1 CBS_ASN1_INTEGER s")
    case (Pair r t)
    show ?thesis
    proof (cases "\<exists>c. r = Some c \<and> c \<noteq> [] \<and> length c \<le> 8")
      case True
      then obtain c where c: "r = Some c" "c \<noteq> []" "length c \<le> 8" by blast
      show ?thesis
        using Pair c sign [OF c(2)] int64_store [OF c(3)]
        by (auto simp: CBS_get_asn1_int64_def CBS_len_def Let_def nth_minimal)
    next
      case False
      then show ?thesis
        using Pair by (auto simp: CBS_get_asn1_int64_def CBS_len_def Let_def minimal_def split: option.splits)
    qed
  qed
  show ?thesis
  proof
    assume "CBS_get_asn1_int64 s = (Some v, s')"
    then obtain c where c: "CBS_get_asn1 CBS_ASN1_INTEGER s = (Some c, s')" "minimal c" "length c \<le> 8"
        "v = be_u64 (replicate (8 - length c) (sign_byte c) @ c)"
      unfolding * by blast
    have "unat v = be_nat (replicate (8 - length c) (sign_byte c) @ c)"
      unfolding c(4) using c(3) by (intro unat_be_u64) simp
    moreover have "length (replicate (8 - length c) (sign_byte c) @ c) = 8"
      using c(3) by simp
    ultimately have "nat_be 8 (unat v) = replicate (8 - length c) (sign_byte c) @ c"
      by (metis nat_be_be_nat)
    then have "int64_octets v = c"
      using strip_sign_replicate [OF c(2)] unfolding int64_octets_def by simp
    with c(1) show "s = der_element CBS_ASN1_INTEGER (int64_octets v) @ s'"
      unfolding CBS_get_asn1_iff by simp
  next
    define c where "c = int64_octets v"
    note p = int64_octets_extends [OF c_def]
    assume "s = der_element CBS_ASN1_INTEGER (int64_octets v) @ s'"
    then have "CBS_get_asn1 CBS_ASN1_INTEGER s = (Some c, s')"
      using p(2) unfolding CBS_get_asn1_iff c_def by simp
    moreover have "v = be_u64 (replicate (8 - length c) (sign_byte c) @ c)"
    proof -
      have "unat (be_u64 (nat_be 8 (unat v))) = unat v"
        by (rule be_u64_nat_be) (use unat_u64_less [of v] in simp_all)
      then have "be_u64 (nat_be 8 (unat v)) = v" by (simp only: word_unat_eq_iff)
      then show ?thesis unfolding p(3) by simp
    qed
    ultimately show "CBS_get_asn1_int64 s = (Some v, s')"
      unfolding * using p(1,2) by blast
  qed
qed

interpretation u64: canonical_codec CBS_get_asn1_uint64
    "\<lambda>v. der_element CBS_ASN1_INTEGER (uint64_octets v)" "\<lambda>_. True"
  by unfold_locales (auto simp: CBS_get_asn1_uint64_iff)

interpretation i64: canonical_codec CBS_get_asn1_int64
    "\<lambda>v. der_element CBS_ASN1_INTEGER (int64_octets v)" "\<lambda>_. True"
  by unfold_locales (auto simp: CBS_get_asn1_int64_iff)

section \<open>Booleans and bit strings\<close>

definition bool_octets :: "bool \<Rightarrow> u8 list" where
  "bool_octets b = [if b then 0xff else 0]"

lemma CBS_get_asn1_bool_iff:
  "CBS_get_asn1_bool s = (Some b, s') \<longleftrightarrow> s = der_element CBS_ASN1_BOOLEAN (bool_octets b) @ s'"
proof
  assume "CBS_get_asn1_bool s = (Some b, s')"
  then obtain c where c: "CBS_get_asn1 CBS_ASN1_BOOLEAN s = (Some c, s')" "length c = 1"
      "c ! 0 = 0 \<or> c ! 0 = 0xff" "b = (c ! 0 \<noteq> 0)"
    unfolding CBS_get_asn1_bool_def CBS_len_def
    by (auto simp: Let_def split: option.splits prod.splits if_splits)
  then have "c = bool_octets b"
    by (cases c) (auto simp: bool_octets_def)
  with c(1) show "s = der_element CBS_ASN1_BOOLEAN (bool_octets b) @ s'"
    by (simp add: CBS_get_asn1_iff)
next
  assume "s = der_element CBS_ASN1_BOOLEAN (bool_octets b) @ s'"
  then have "CBS_get_asn1 CBS_ASN1_BOOLEAN s = (Some (bool_octets b), s')"
    by (simp add: CBS_get_asn1_iff bool_octets_def)
  then show "CBS_get_asn1_bool s = (Some b, s')"
    by (auto simp: CBS_get_asn1_bool_def CBS_len_def bool_octets_def)
qed

interpretation bool: canonical_codec CBS_get_asn1_bool
    "\<lambda>b. der_element CBS_ASN1_BOOLEAN (bool_octets b)" "\<lambda>_. True"
  by unfold_locales (auto simp: CBS_get_asn1_bool_iff)

text \<open>The bits of a bit string, most significant bit of a byte first, are those of the
  bytes after the first; the first byte counts the bits at the end that are not part of
  it, which must be 0.\<close>

definition bits_of_byte :: "u8 \<Rightarrow> bool list" where
  "bits_of_byte b = map (\<lambda>i. bit b (7 - i)) [0..<8]"

definition bitstring_bits :: "cbs \<Rightarrow> bool list" where
  "bitstring_bits s = concat (map bits_of_byte (tl s))"

definition unused_bits :: "cbs \<Rightarrow> nat" where
  "unused_bits s = unat (hd s)"

lemma length_bitstring_bits: "length (bitstring_bits s) = 8 * length (tl s)"
proof -
  have "length (concat (map bits_of_byte bs)) = 8 * length bs" for bs
    by (induction bs) (simp_all add: bits_of_byte_def)
  then show ?thesis by (simp add: bitstring_bits_def)
qed

lemma nth_bitstring_bits:
  "i < 8 * length (tl s) \<Longrightarrow> bitstring_bits s ! i = bit (tl s ! (i div 8)) (7 - i mod 8)"
proof -
  have "i < 8 * length bs \<Longrightarrow> concat (map bits_of_byte bs) ! i = bit (bs ! (i div 8)) (7 - i mod 8)" for bs
  proof (induction bs arbitrary: i)
    case (Cons b bs)
    show ?case
    proof (cases "i < 8")
      case True
      then show ?thesis by (simp add: nth_append bits_of_byte_def)
    next
      case False
      then have "(i - 8) div 8 = i div 8 - 1" "(i - 8) mod 8 = i mod 8" "i div 8 \<noteq> 0"
        by (simp_all add: le_div_geq le_mod_geq)
      with False Cons show ?thesis
        by (cases "i div 8") (simp_all add: nth_append bits_of_byte_def)
    qed
  qed simp
  then show "i < 8 * length (tl s) \<Longrightarrow> ?thesis" by (simp add: bitstring_bits_def)
qed

lemma and_push_bit_1: "a AND push_bit n 1 \<noteq> 0 \<longleftrightarrow> bit (a :: u8) n"
proof -
  have "push_bit n 1 = (2 :: u8) ^ n" by (simp add: push_bit_eq_mult)
  then show ?thesis by (simp add: and_exp_eq_0_iff_not_bit)
qed

lemma and_low_mask: "a AND (push_bit n 1 - 1) = 0 \<longleftrightarrow> (\<forall>i < n. \<not> bit (a :: u8) i)"
proof -
  have "push_bit n 1 - 1 = (mask n :: u8)"
    by (simp add: mask_eq_exp_minus_1 push_bit_eq_mult)
  moreover have "a AND mask n = 0 \<longleftrightarrow> (\<forall>i < n. \<not> bit a i)"
    using bit_imp_le_length [of a] by (auto simp: bit_eq_iff bit_simps not_le)
  ultimately show ?thesis by (simp only:)
qed

lemma bitstring_has_bit_iff:
  assumes "CBS_is_valid_asn1_bitstring s"
  shows "CBS_asn1_bitstring_has_bit s b \<longleftrightarrow>
    unat b < length (bitstring_bits s) \<and> bitstring_bits s ! unat b"
proof -
  from assms obtain u bs where s: "s = u # bs"
    by (cases s) (auto simp: CBS_is_valid_asn1_bitstring_def reader_simps)
  have b: "unat b < 2 ^ 32" using unsigned_less [of b] by simp
  have num: "unat (drop_bit 3 b + 1) = unat b div 8 + 1"
  proof -
    have "unat b div 8 + 1 < 4294967296" using unat_u32_less [of b] by linarith
    then show ?thesis by (simp add: unat_word_ariths unat_drop_bit)
  qed
  have seven: "unat (b AND 7) = unat b mod 8"
    using unat_and_mask [of b 3] by (simp add: mask_eq_exp_minus_1)
  then have "b AND 7 \<le> 7" by (simp add: word_le_nat_alt)
  then have bitn: "unat (7 - (b AND 7)) = 7 - unat b mod 8"
    using seven by (simp add: unat_sub)
  have "unat b div 8 + 1 < length s \<longleftrightarrow> unat b < 8 * length bs"
    using s by (auto simp: div_less_iff_less_mult mult.commute)
  then show ?thesis
    using assms s num bitn nth_bitstring_bits [of "unat b" s]
    by (auto simp: CBS_asn1_bitstring_has_bit_def CBS_len_def Let_def length_bitstring_bits and_push_bit_1
          simp del: push_bit_of_1)
qed

lemma valid_bitstring_iff:
  "CBS_is_valid_asn1_bitstring s \<longleftrightarrow>
     s \<noteq> [] \<and> unused_bits s < 8 \<and> unused_bits s \<le> length (bitstring_bits s) \<and>
     (\<forall>i < unused_bits s. \<not> rev (bitstring_bits s) ! i)"
proof (cases s)
  case Nil
  then show ?thesis by (simp add: CBS_is_valid_asn1_bitstring_def reader_simps)
next
  case (Cons u bs)
  show ?thesis
  proof (cases "bs = [] \<or> unat u = 0 \<or> 7 < unat u")
    case True
    then show ?thesis
      using Cons by (auto simp: CBS_is_valid_asn1_bitstring_def reader_simps unused_bits_def
          length_bitstring_bits word_less_nat_alt unat_eq_0 CBS_get_last_u8_def Let_def)
  next
    case False
    then have bs: "bs \<noteq> []" and u: "0 < unat u" "unat u < 8" by auto
    have last: "rev (bitstring_bits s) ! i = bit (last bs) i" if "i < 8" for i
    proof -
      let ?n = "8 * length bs - Suc i"
      have "?n div 8 = length bs - 1" "7 - ?n mod 8 = i"
      proof -
      obtain m where m: "length bs = Suc m" using bs by (cases bs) auto
      have n: "?n = 8 * m + (7 - i)" using that m by simp
      have split: "(8 * m + j) div 8 = m" "(8 * m + j) mod 8 = j" if "j < 8" for j
        using that by simp_all
      show "?n div 8 = length bs - 1" unfolding n using m by (subst split) simp_all
      show "7 - ?n mod 8 = i" unfolding n using that by (subst split) simp_all
    qed
      moreover have "rev (bitstring_bits s) ! i = bitstring_bits s ! ?n"
        using that bs Cons by (subst rev_nth) (auto simp: length_bitstring_bits neq_Nil_conv)
      moreover have "?n < 8 * length (tl s)" using that bs Cons by (auto simp: neq_Nil_conv)
      ultimately show ?thesis
        using bs Cons nth_bitstring_bits [of ?n s] by (simp add: last_conv_nth)
    qed
    have "CBS_is_valid_asn1_bitstring s \<longleftrightarrow> (\<forall>i < unat u. \<not> bit (last bs) i)"
      using Cons bs u by (simp add: CBS_is_valid_asn1_bitstring_def reader_simps word_less_nat_alt
          CBS_get_last_u8_def last_conv_nth and_low_mask unat_gt_0 del: push_bit_of_1)
    moreover have "unat u \<le> 8 * length bs"
    proof -
      have "1 \<le> length bs" using bs by (simp add: Suc_le_eq)
      with u show ?thesis by linarith
    qed
    ultimately show ?thesis
      using Cons u last by (auto simp: unused_bits_def length_bitstring_bits)
  qed
qed

section \<open>Optional elements\<close>

lemma CBS_get_optional_asn1_eq:
  "CBS_get_optional_asn1 tag s =
     (if \<exists>r. s = der_identifier tag @ r
      then (case CBS_get_asn1 tag s of (None, s) \<Rightarrow> (None, s) | (Some c, s) \<Rightarrow> (Some (Some c), s))
      else (Some None, s))"
  by (simp add: CBS_get_optional_asn1_def CBS_peek_asn1_tag_iff)

lemma identifier_der_element: "\<exists>r. der_element tag c @ s = der_identifier tag @ r"
  by (simp add: der_element_def der_header_def)

lemma CBS_get_optional_asn1_iff:
  "CBS_get_optional_asn1 tag s = (Some r, s') \<longleftrightarrow>
     (case r of None \<Rightarrow> s' = s \<and> (\<nexists>t. s = der_identifier tag @ t)
      | Some c \<Rightarrow> length c < 2 ^ 32 \<and> s = der_element tag c @ s')"
proof (cases "\<exists>t. s = der_identifier tag @ t")
  case True
  then have "CBS_get_optional_asn1 tag s = (Some r, s') \<longleftrightarrow>
      (\<exists>c. r = Some c \<and> CBS_get_asn1 tag s = (Some c, s'))"
    by (auto simp: CBS_get_optional_asn1_eq split: option.splits prod.splits)
  with True show ?thesis
    unfolding CBS_get_asn1_iff by (cases r) simp_all
next
  case False
  then have "s \<noteq> der_element tag c @ s'" for c
    using identifier_der_element [of tag c s'] by blast
  with False show ?thesis
    by (cases r) (auto simp: CBS_get_optional_asn1_eq)
qed

lemma optional_uint64_iff:
  "CBS_get_optional_asn1_uint64 tag d s = (Some v, s') \<longleftrightarrow>
     s = der_element tag (der_element CBS_ASN1_INTEGER (uint64_octets v)) @ s' \<or>
     v = d \<and> s' = s \<and> (\<nexists>t. s = der_identifier tag @ t)" (is "?r \<longleftrightarrow> ?e \<or> ?n")
proof
  show "?r \<Longrightarrow> ?e \<or> ?n"
    by (auto simp: CBS_get_optional_asn1_uint64_def CBS_len_def CBS_get_optional_asn1_iff
        CBS_get_asn1_uint64_iff split: option.splits prod.splits if_splits)
next
  assume "?e \<or> ?n"
  then show ?r
  proof
    define c where "c = der_element CBS_ASN1_INTEGER (uint64_octets v)"
    assume e: ?e
    have "CBS_get_asn1_uint64 (c @ []) = (Some v, [])"
      unfolding CBS_get_asn1_uint64_iff c_def ..
    moreover have "length c < 2 ^ 32"
    proof -
      have "length (uint64_octets v) \<le> 9" by (rule uint64_octets_props)
      then have "length c \<le> 16"
        unfolding c_def using length_der_identifier [of CBS_ASN1_INTEGER]
        by (simp add: der_element_def der_header_def der_length_def)
      then show ?thesis by simp
    qed
    ultimately show ?r
      using e CBS_get_optional_asn1_iff [of tag s "Some c" s']
      by (simp add: CBS_get_optional_asn1_uint64_def CBS_len_def c_def)
  next
    assume ?n
    then show ?r
      using CBS_get_optional_asn1_iff [of tag s None s']
      by (simp add: CBS_get_optional_asn1_uint64_def)
  qed
qed

section \<open>What the strict reader accepts\<close>

text \<open>
  C6: the strict element reader accepts exactly DER.  \<open>CBS_get_any_asn1_element\<close> succeeds on
  an input exactly when it starts with an identifier and a length in their shortest forms
  and as many content bytes as the length says; it returns that element, its tag and the
  length of its header, and leaves what follows.  \<open>CBS_get_asn1\<close> and
  \<open>CBS_get_asn1_element\<close> do so for one tag and \<open>CBS_peek_asn1_tag\<close> looks at the identifier.\<close>

theorem strict_reader_exact:
  "(CBS_get_any_asn1_element s = (Some (out, tag, hl), s') \<longleftrightarrow>
      (\<exists>c. length c < 2 ^ 32 \<and> out = der_element tag c \<and> hl = length (der_header tag (length c)) \<and> s = out @ s')) \<and>
   (CBS_get_asn1 tag s = (Some c, s') \<longleftrightarrow> length c < 2 ^ 32 \<and> s = der_element tag c @ s') \<and>
   (CBS_get_asn1_element tag s = (Some e, s') \<longleftrightarrow> (\<exists>c. length c < 2 ^ 32 \<and> e = der_element tag c \<and> s = e @ s')) \<and>
   (CBS_peek_asn1_tag s tag \<longleftrightarrow> (\<exists>r. s = der_identifier tag @ r))"
  by (intro conjI any_element_iff CBS_get_asn1_iff CBS_get_asn1_element_iff CBS_peek_asn1_tag_iff)

text \<open>
  C24: unique decoding of a series of elements.  The loop that reads elements until the input
  is used up succeeds exactly when the input is a concatenation of DER elements, and then it
  returns those; so no two series of elements have the same encoding.\<close>

theorem series_of_elements_unique:
  "read_all CBS_get_any_asn1 s = Some es \<longleftrightarrow>
     (\<forall>(c, tag) \<in> set es. length c < 2 ^ 32) \<and> s = concat (map (\<lambda>(c, tag). der_element tag c) es)"
  using any.read_all_iff [of s es] by auto

lemma series_of_elements_unique_witness:
  "read_all CBS_get_any_asn1 (der_element 5 [] @ der_element 4 [1, 2]) = Some [([], 5), ([1, 2], 4)]"
  by (subst series_of_elements_unique) simp

text \<open>
  C22: INTEGER and BOOLEAN are read exactly.  \<open>CBS_get_asn1_uint64\<close> and \<open>CBS_get_asn1_int64\<close>
  return \<open>v\<close> exactly when the input starts with the INTEGER whose content is the shortest
  two's-complement form of \<open>v\<close>, read unsigned (with a leading zero byte where the top bit is
  set) and signed; \<open>CBS_get_asn1_bool\<close> accepts only the bytes 0 and 0xff.\<close>

theorem asn1_values_exact:
  "(CBS_get_asn1_uint64 s = (Some v, s') \<longleftrightarrow>
      s = der_element CBS_ASN1_INTEGER (strip_sign (0 # nat_be 8 (unat v))) @ s') \<and>
   (CBS_get_asn1_int64 s = (Some w, s') \<longleftrightarrow>
      s = der_element CBS_ASN1_INTEGER (strip_sign (nat_be 8 (unat w))) @ s') \<and>
   (CBS_get_asn1_bool s = (Some b, s') \<longleftrightarrow> s = der_element CBS_ASN1_BOOLEAN [if b then 0xff else 0] @ s')"
  using CBS_get_asn1_uint64_iff [of s v s'] CBS_get_asn1_int64_iff [of s w s'] CBS_get_asn1_bool_iff [of s b s']
  by (simp add: uint64_octets_def int64_octets_def bool_octets_def)

text \<open>
  Bit strings.  \<open>CBS_is_valid_asn1_bitstring\<close> holds exactly when there is a first byte,
  it counts at most 7 unused bits, not more than there are, and the unused bits are 0; on a
  valid bit string \<open>CBS_asn1_bitstring_has_bit\<close> is the bit at that position, and false past
  the end.\<close>

theorem bitstring_bits_read:
  assumes "CBS_is_valid_asn1_bitstring s"
  shows "s \<noteq> [] \<and> unused_bits s < 8 \<and> unused_bits s \<le> length (bitstring_bits s) \<and>
     (\<forall>i < unused_bits s. \<not> bitstring_bits s ! (length (bitstring_bits s) - Suc i)) \<and>
     (CBS_asn1_bitstring_has_bit s b \<longleftrightarrow> unat b < length (bitstring_bits s) \<and> bitstring_bits s ! unat b)"
proof -
  have "\<not> bitstring_bits s ! (length (bitstring_bits s) - Suc i)" if "i < unused_bits s" for i
    using assms that unfolding valid_bitstring_iff by (auto simp: rev_nth)
  then show ?thesis
    using assms bitstring_has_bit_iff [OF assms, of b] unfolding valid_bitstring_iff by blast
qed

lemma bitstring_bits_read_witness:
  "CBS_asn1_bitstring_has_bit [4, 0x50] 1 \<and> \<not> CBS_asn1_bitstring_has_bit [4, 0x50] 8"
proof -
  have v: "CBS_is_valid_asn1_bitstring [4, 0x50]"
    by (simp add: CBS_is_valid_asn1_bitstring_def reader_simps CBS_get_last_u8_def Let_def)
  have l: "bitstring_bits [4, 0x50] = [False, True, False, True, False, False, False, False]"
    by (simp add: bitstring_bits_def bits_of_byte_def upt_rec bit_iff_odd drop_bit_eq_div)
  show ?thesis
    using bitstring_bits_read [OF v, of 1] bitstring_bits_read [OF v, of 8] unfolding l by simp
qed

text \<open>
  Optional elements.  \<open>CBS_get_optional_asn1_uint64\<close> returns the default and consumes
  nothing exactly when the identifier of the tag is not next; when it is, it accepts only the
  explicitly tagged INTEGER that is all of the element, never falling back to the default.\<close>

theorem optional_uint64_exact:
  "CBS_get_optional_asn1_uint64 tag d s = (Some v, s') \<longleftrightarrow>
     (if \<exists>t. s = der_identifier tag @ t
      then s = der_element tag (der_element CBS_ASN1_INTEGER (uint64_octets v)) @ s'
      else v = d \<and> s' = s)"
proof (cases "\<exists>t. s = der_identifier tag @ t")
  case False
  then have "s \<noteq> der_element tag c @ s'" for c
    using identifier_der_element [of tag c s'] by blast
  with False show ?thesis unfolding optional_uint64_iff by simp
qed (simp add: optional_uint64_iff)

end
