(* ===== verification/Cbb.thy ===== *)
theory Cbb
  imports Der
begin

text \<open>
  The byte-string builder \<open>CBB\<close> of \<open>crypto/bytestring/cbb.c\<close>.

  The \<open>CBB\<close> structures that write to one buffer form a chain through their \<open>child\<close>
  pointers.  A state is seen from one of them: \<open>base\<close> is the shared buffer, \<open>self\<close> the
  fields of the structure an operation is called with and \<open>kids\<close> those of its child,
  its child's child and so on.  Calling an operation with the child is \<open>on_child\<close>.
  A child that has been flushed or discarded is detached: its \<open>base\<close> is NULL.

  Of the array \<open>buf\<close> only the \<open>len\<close> valid bytes are kept.  Where the code hands out a
  pointer to fresh bytes that the caller fills (\<open>CBB_add_space\<close>, \<open>CBB_reserve\<close> with
  \<open>CBB_did_write\<close>) the operation takes the bytes the caller stores there.

  The functions on OID literals are in theory \<open>Oid_Text\<close>, \<open>CBB_flush_asn1_set_of\<close> and
  its comparison in theory \<open>Set_Of\<close>.
\<close>

section \<open>Data\<close>

record cbb_buffer =
  buf :: "u8 list"
  cap :: nat
  can_resize :: bool
  error :: bool

record cbb_frame =
  offset :: nat
  pending_len_len :: nat
  pending_is_asn1 :: bool
  is_child :: bool

record cbb =
  base :: "cbb_buffer option"
  self :: cbb_frame
  kids :: "cbb_frame list"

definition zero_frame :: cbb_frame where
  "zero_frame = \<lparr>offset = 0, pending_len_len = 0, pending_is_asn1 = False, is_child = False\<rparr>"

definition CBB_zero :: cbb where
  "CBB_zero = \<lparr>base = None, self = zero_frame, kids = []\<rparr>"

text \<open>\<open>sizeof(struct cbb_buffer_st)\<close> on a 64-bit target.\<close>

abbreviation sizeof_cbb_buffer :: nat where "sizeof_cbb_buffer \<equiv> 32"

definition cbb_init :: "allocator \<Rightarrow> cbb \<Rightarrow> nat \<Rightarrow> bool \<times> cbb" where
  "cbb_init alloc cbb capacity =
     (if \<not> alloc sizeof_cbb_buffer then (False, cbb)
      else (True, cbb\<lparr>base := Some \<lparr>buf = [], cap = capacity, can_resize = True, error = False\<rparr>,
                      self := (self cbb)\<lparr>is_child := False\<rparr>\<rparr>))"

definition CBB_init :: "allocator \<Rightarrow> nat \<Rightarrow> bool \<times> cbb" where
  "CBB_init alloc initial_capacity =
     (if initial_capacity > 0 \<and> \<not> alloc initial_capacity then (False, CBB_zero)
      else case cbb_init alloc CBB_zero initial_capacity of
             (False, cbb) \<Rightarrow> (False, cbb) | (True, cbb) \<Rightarrow> (True, cbb))"

definition CBB_init_fixed :: "allocator \<Rightarrow> nat \<Rightarrow> bool \<times> cbb" where
  "CBB_init_fixed alloc len = (case cbb_init alloc CBB_zero len of
     (False, cbb) \<Rightarrow> (False, cbb)
   | (True, cbb) \<Rightarrow> (True, cbb\<lparr>base := map_option (\<lambda>b. b\<lparr>can_resize := False\<rparr>) (base cbb)\<rparr>))"

definition CBB_cleanup :: "cbb \<Rightarrow> cbb" where
  "CBB_cleanup cbb = (if is_child (self cbb) then cbb else cbb\<lparr>base := None\<rparr>)"

section \<open>The buffer\<close>

definition cbb_buffer_reserve :: "allocator \<Rightarrow> nat \<Rightarrow> cbb_buffer \<Rightarrow> bool \<times> cbb_buffer" where
  "cbb_buffer_reserve alloc len b =
     (let newlen = size_add (length (buf b)) len
      in if newlen < length (buf b) then (False, b\<lparr>error := True\<rparr>)
         else if newlen > cap b
         then if \<not> can_resize b then (False, b\<lparr>error := True\<rparr>)
              else let newcap = size_mult (cap b) 2;
                       newcap = (if newcap < cap b \<or> newcap < newlen then newlen else newcap)
                   in if \<not> alloc newcap then (False, b\<lparr>error := True\<rparr>)
                      else (True, b\<lparr>cap := newcap\<rparr>)
         else (True, b))"

text \<open>The bytes are those the callers store in the space they get.\<close>

definition cbb_buffer_add :: "allocator \<Rightarrow> u8 list \<Rightarrow> cbb_buffer \<Rightarrow> bool \<times> cbb_buffer" where
  "cbb_buffer_add alloc data b = (case cbb_buffer_reserve alloc (length data) b of
     (False, b) \<Rightarrow> (False, b) | (True, b) \<Rightarrow> (True, b\<lparr>buf := buf b @ data\<rparr>))"

definition cbb_buffer_add_u :: "allocator \<Rightarrow> u64 \<Rightarrow> nat \<Rightarrow> cbb_buffer \<Rightarrow> bool \<times> cbb_buffer" where
  "cbb_buffer_add_u alloc v len_len b =
     (if len_len = 0 then (True, b)
      else case store_be len_len v of (data, v) \<Rightarrow>
        (case cbb_buffer_add alloc data b of
           (False, b) \<Rightarrow> (False, b)
         | (True, b) \<Rightarrow> if v \<noteq> 0 then (False, b\<lparr>error := True\<rparr>) else (True, b)))"

section \<open>Flushing\<close>

text \<open>The part of \<open>CBB_flush\<close> after its recursive call: the length prefix of the child
  is written in front of the \<open>len\<close> bytes from \<open>child_start\<close>, which move up when an
  ASN.1 length needs more than the one byte that was kept for it.  \<open>len64\<close> is the
  local \<open>len\<close> that the code shifts out.\<close>

definition asn1_length_form :: "nat \<Rightarrow> (nat \<times> u8 \<times> nat) option" where
  "asn1_length_form len =
     (if len > 0xfffffffe then None
      else if len > 0xffffff then Some (5, 0x80 OR 4, len)
      else if len > 0xffff then Some (4, 0x80 OR 3, len)
      else if len > 0xff then Some (3, 0x80 OR 2, len)
      else if len > 0x7f then Some (2, 0x80 OR 1, len)
      else Some (1, of_nat len, 0))"

definition write_length :: "cbb_buffer \<Rightarrow> cbb_frame \<Rightarrow> nat \<Rightarrow> bool \<times> cbb_buffer \<times> cbb_frame" where
  "write_length b k len =
     (case store_be (pending_len_len k) (of_nat len) of (bytes, rest) \<Rightarrow>
        let b = b\<lparr>buf := write_at (offset k) bytes (buf b)\<rparr>
        in if rest \<noteq> 0 then (False, b\<lparr>error := True\<rparr>, k) else (True, b, k))"

definition flush_prefix :: "allocator \<Rightarrow> cbb_buffer \<Rightarrow> cbb_frame \<Rightarrow> nat \<Rightarrow> bool \<times> cbb_buffer \<times> cbb_frame" where
  "flush_prefix alloc b k child_start =
     (let len = length (buf b) - child_start
      in if pending_is_asn1 k
         then (case asn1_length_form len of
                 None \<Rightarrow> (False, b\<lparr>error := True\<rparr>, k)
               | Some (len_len, initial_length_byte, rest) \<Rightarrow>
                   let extra_bytes = len_len - 1;
                       contents = take len (drop child_start (buf b))
                   in (case (if len_len \<noteq> 1 then cbb_buffer_add alloc (replicate extra_bytes 0) b
                             else (True, b)) of
                         (False, b) \<Rightarrow> (False, b\<lparr>error := True\<rparr>, k)
                       | (True, b) \<Rightarrow>
                           let moved = (if len_len \<noteq> 1
                                        then write_at (child_start + extra_bytes) contents (buf b)
                                        else buf b);
                               b = b\<lparr>buf := moved[offset k := initial_length_byte]\<rparr>;
                               k = k\<lparr>offset := offset k + 1, pending_len_len := len_len - 1\<rparr>
                           in write_length b k rest))
         else write_length b k len)"

fun cbb_flush :: "allocator \<Rightarrow> cbb_buffer \<Rightarrow> cbb_frame list \<Rightarrow> bool \<times> cbb_buffer \<times> cbb_frame list" where
  "cbb_flush alloc b [] = (\<not> error b, b, [])"
| "cbb_flush alloc b (k # ks) =
     (if error b then (False, b, k # ks)
      else if pending_len_len k = 0 then (True, b, k # ks)
      else let child_start = size_add (offset k) (pending_len_len k)
           in case cbb_flush alloc b ks of
                (ok, b, ks) \<Rightarrow>
                  if \<not> ok \<or> child_start < offset k \<or> length (buf b) < child_start
                  then (False, b\<lparr>error := True\<rparr>, k # ks)
                  else (case flush_prefix alloc b k child_start of
                          (False, b, k) \<Rightarrow> (False, b, k # ks)
                        | (True, b, _) \<Rightarrow> (True, b, [])))"

definition CBB_flush :: "allocator \<Rightarrow> cbb \<Rightarrow> bool \<times> cbb" where
  "CBB_flush alloc cbb = (case base cbb of
     None \<Rightarrow> (False, cbb)
   | Some b \<Rightarrow> (case cbb_flush alloc b (kids cbb) of
       (ok, b, ks) \<Rightarrow> (ok, cbb\<lparr>base := Some b, kids := ks\<rparr>)))"

text \<open>\<open>if (!f(cbb)) return 0; ...\<close>, and a buffer operation on \<open>cbb->base\<close>.  Every
  buffer operation of the code follows a successful \<open>CBB_flush\<close>, so \<open>base\<close> is not NULL.\<close>

type_synonym cbb_op = "cbb \<Rightarrow> bool \<times> cbb"

definition and_then :: "cbb_op \<Rightarrow> cbb_op \<Rightarrow> cbb_op" where
  "and_then f g cbb = (case f cbb of (False, cbb) \<Rightarrow> (False, cbb) | (True, cbb) \<Rightarrow> g cbb)"

definition on_base :: "(cbb_buffer \<Rightarrow> bool \<times> cbb_buffer) \<Rightarrow> cbb_op" where
  "on_base f cbb = (case base cbb of
     None \<Rightarrow> (False, cbb)
   | Some b \<Rightarrow> (case f b of (ok, b) \<Rightarrow> (ok, cbb\<lparr>base := Some b\<rparr>)))"

definition on_child :: "(cbb \<Rightarrow> 'r \<times> cbb) \<Rightarrow> cbb \<Rightarrow> 'r \<times> cbb" where
  "on_child f cbb = (case kids cbb of
     [] \<Rightarrow> (fst (f \<lparr>base = None, self = zero_frame\<lparr>is_child := True\<rparr>, kids = []\<rparr>), cbb)
   | k # ks \<Rightarrow> (case f \<lparr>base = base cbb, self = k, kids = ks\<rparr> of
       (ok, child) \<Rightarrow> (ok, cbb\<lparr>base := base child, kids := self child # kids child\<rparr>)))"

definition CBB_finish :: "allocator \<Rightarrow> bool \<Rightarrow> cbb \<Rightarrow> u8 list option \<times> cbb" where
  "CBB_finish alloc want_out cbb =
     (if is_child (self cbb) then (None, cbb)
      else case CBB_flush alloc cbb of
        (False, cbb) \<Rightarrow> (None, cbb)
      | (True, cbb) \<Rightarrow> (case base cbb of
            None \<Rightarrow> (None, cbb)
          | Some b \<Rightarrow> if can_resize b \<and> \<not> want_out then (None, cbb)
                      else (Some (buf b), CBB_cleanup cbb)))"

definition CBB_data :: "cbb \<Rightarrow> u8 list" where
  "CBB_data cbb = (case base cbb of
     None \<Rightarrow> [] | Some b \<Rightarrow> drop (offset (self cbb) + pending_len_len (self cbb)) (buf b))"

definition CBB_len :: "cbb \<Rightarrow> nat" where
  "CBB_len cbb = (case base cbb of
     None \<Rightarrow> 0 | Some b \<Rightarrow> length (buf b) - offset (self cbb) - pending_len_len (self cbb))"

section \<open>Adding\<close>

definition open_child :: "nat \<Rightarrow> nat \<Rightarrow> bool \<Rightarrow> cbb_op" where
  "open_child off len_len asn1 cbb =
     (True, cbb\<lparr>kids := [\<lparr>offset = off, pending_len_len = len_len, pending_is_asn1 = asn1, is_child = True\<rparr>]\<rparr>)"

definition base_len :: "cbb \<Rightarrow> nat" where
  "base_len cbb = (case base cbb of None \<Rightarrow> 0 | Some b \<Rightarrow> length (buf b))"

definition cbb_add_length_prefixed :: "allocator \<Rightarrow> nat \<Rightarrow> cbb_op" where
  "cbb_add_length_prefixed alloc len_len =
     and_then (CBB_flush alloc) (\<lambda>cbb.
       let off = base_len cbb
       in and_then (on_base (cbb_buffer_add alloc (replicate len_len 0)))
                   (open_child off len_len False) cbb)"

definition CBB_add_u8_length_prefixed :: "allocator \<Rightarrow> cbb_op" where
  "CBB_add_u8_length_prefixed alloc = cbb_add_length_prefixed alloc 1"

definition CBB_add_u16_length_prefixed :: "allocator \<Rightarrow> cbb_op" where
  "CBB_add_u16_length_prefixed alloc = cbb_add_length_prefixed alloc 2"

definition CBB_add_u24_length_prefixed :: "allocator \<Rightarrow> cbb_op" where
  "CBB_add_u24_length_prefixed alloc = cbb_add_length_prefixed alloc 3"

definition CBB_add_bytes :: "allocator \<Rightarrow> u8 list \<Rightarrow> cbb_op" where
  "CBB_add_bytes alloc data = and_then (CBB_flush alloc) (on_base (cbb_buffer_add alloc data))"

definition CBB_add_space :: "allocator \<Rightarrow> u8 list \<Rightarrow> cbb_op" where
  "CBB_add_space alloc filled = and_then (CBB_flush alloc) (on_base (cbb_buffer_add alloc filled))"

definition CBB_reserve :: "allocator \<Rightarrow> nat \<Rightarrow> cbb_op" where
  "CBB_reserve alloc len = and_then (CBB_flush alloc) (on_base (cbb_buffer_reserve alloc len))"

definition CBB_did_write :: "u8 list \<Rightarrow> cbb_op" where
  "CBB_did_write filled cbb = (case base cbb of
     None \<Rightarrow> (False, cbb)
   | Some b \<Rightarrow>
       let newlen = size_add (length (buf b)) (length filled)
       in if kids cbb \<noteq> [] \<or> newlen < length (buf b) \<or> newlen > cap b then (False, cbb)
          else (True, cbb\<lparr>base := Some (b\<lparr>buf := buf b @ filled\<rparr>)\<rparr>))"

definition cbb_add_u :: "allocator \<Rightarrow> nat \<Rightarrow> u64 \<Rightarrow> cbb_op" where
  "cbb_add_u alloc len_len value =
     and_then (CBB_flush alloc) (on_base (cbb_buffer_add_u alloc value len_len))"

definition CBB_add_u8 :: "allocator \<Rightarrow> u8 \<Rightarrow> cbb_op" where
  "CBB_add_u8 alloc value = cbb_add_u alloc 1 (ucast value)"

definition CBB_add_u16 :: "allocator \<Rightarrow> u16 \<Rightarrow> cbb_op" where
  "CBB_add_u16 alloc value = cbb_add_u alloc 2 (ucast value)"

definition CBB_add_u16le :: "allocator \<Rightarrow> u16 \<Rightarrow> cbb_op" where
  "CBB_add_u16le alloc value = CBB_add_u16 alloc (CRYPTO_bswap2 value)"

definition CBB_add_u24 :: "allocator \<Rightarrow> u32 \<Rightarrow> cbb_op" where
  "CBB_add_u24 alloc value = cbb_add_u alloc 3 (ucast value)"

definition CBB_add_u32 :: "allocator \<Rightarrow> u32 \<Rightarrow> cbb_op" where
  "CBB_add_u32 alloc value = cbb_add_u alloc 4 (ucast value)"

definition CBB_add_u32le :: "allocator \<Rightarrow> u32 \<Rightarrow> cbb_op" where
  "CBB_add_u32le alloc value = CBB_add_u32 alloc (CRYPTO_bswap4 value)"

definition CBB_add_u64 :: "allocator \<Rightarrow> u64 \<Rightarrow> cbb_op" where
  "CBB_add_u64 alloc value = cbb_add_u alloc 8 value"

definition CBB_add_u64le :: "allocator \<Rightarrow> u64 \<Rightarrow> cbb_op" where
  "CBB_add_u64le alloc value = CBB_add_u64 alloc (CRYPTO_bswap8 value)"

definition CBB_discard_child :: "cbb \<Rightarrow> cbb" where
  "CBB_discard_child cbb = (case kids cbb of
     [] \<Rightarrow> cbb
   | k # _ \<Rightarrow> cbb\<lparr>base := map_option (\<lambda>b. b\<lparr>buf := take (offset k) (buf b)\<rparr>) (base cbb), kids := []\<rparr>)"

section \<open>ASN.1\<close>

text \<open>The loop that counts base-128 digits and the loop that writes them.\<close>

function base128_len :: "u64 \<Rightarrow> nat" where
  "base128_len copy = (if copy > 0 then Suc (base128_len (drop_bit 7 copy)) else 0)"
  by pat_completeness auto
termination
proof (relation "measure unat")
  fix copy :: u64
  assume "copy > 0"
  then have "0 < unat copy" by (simp add: unat_gt_0 word_gt_0)
  then have "unat copy div 128 < unat copy" by (intro div_less_dividend) simp_all
  then show "(drop_bit 7 copy, copy) \<in> measure unat"
    by (simp add: unat_drop_bit)
qed simp

declare base128_len.simps [simp del]

definition base128_digit :: "u64 \<Rightarrow> nat \<Rightarrow> u8" where
  "base128_digit v i =
     (let byte = ucast (drop_bit (7 * i) v AND 0x7f) in if i \<noteq> 0 then byte OR 0x80 else byte)"

fun add_base128_loop :: "allocator \<Rightarrow> u64 \<Rightarrow> nat \<Rightarrow> cbb_op" where
  "add_base128_loop alloc v 0 = Pair True"
| "add_base128_loop alloc v (Suc i) =
     and_then (CBB_add_u8 alloc (base128_digit v i)) (add_base128_loop alloc v i)"

definition add_base128_integer :: "allocator \<Rightarrow> u64 \<Rightarrow> cbb_op" where
  "add_base128_integer alloc v =
     (let len_len = base128_len v; len_len = (if len_len = 0 then 1 else len_len)
      in add_base128_loop alloc v len_len)"

definition CBB_add_asn1 :: "allocator \<Rightarrow> u32 \<Rightarrow> cbb_op" where
  "CBB_add_asn1 alloc tag =
     (let tag_bits = ucast (drop_bit CBS_ASN1_TAG_SHIFT tag) AND 0xe0 :: u8;
          tag_number = tag AND CBS_ASN1_TAG_NUMBER_MASK
      in and_then (CBB_flush alloc)
         (and_then
            (if tag_number \<ge> 0x1f
             then and_then (CBB_add_u8 alloc (tag_bits OR 0x1f))
                           (add_base128_integer alloc (ucast tag_number))
             else CBB_add_u8 alloc (tag_bits OR ucast tag_number))
            (\<lambda>cbb. let off = base_len cbb
                   in and_then (CBB_add_u8 alloc 0) (open_child off 1 True) cbb)))"

text \<open>\<open>CBB child; if (!CBB_add_asn1(cbb, &child, tag) || !body(&child) || !CBB_flush(cbb))
  return 0;\<close>\<close>

definition asn1_child :: "allocator \<Rightarrow> u32 \<Rightarrow> cbb_op \<Rightarrow> cbb_op" where
  "asn1_child alloc tag body =
     and_then (CBB_add_asn1 alloc tag) (and_then (on_child body) (CBB_flush alloc))"

fun add_uint64_loop :: "allocator \<Rightarrow> u64 \<Rightarrow> nat \<Rightarrow> bool \<Rightarrow> cbb_op" where
  "add_uint64_loop alloc value 0 started = (if started then Pair True else CBB_add_u8 alloc 0)"
| "add_uint64_loop alloc value (Suc n) started =
     (let byte = ucast (drop_bit (8 * n) value AND 0xff) :: u8
      in if \<not> started
         then if byte = 0 then add_uint64_loop alloc value n False
              else and_then (if byte AND 0x80 \<noteq> 0 then CBB_add_u8 alloc 0 else Pair True)
                     (and_then (CBB_add_u8 alloc byte) (add_uint64_loop alloc value n True))
         else and_then (CBB_add_u8 alloc byte) (add_uint64_loop alloc value n True))"

definition CBB_add_asn1_uint64 :: "allocator \<Rightarrow> u64 \<Rightarrow> cbb_op" where
  "CBB_add_asn1_uint64 alloc value =
     asn1_child alloc CBS_ASN1_INTEGER (add_uint64_loop alloc value 8 False)"

text \<open>The bytes of the union in \<open>CBB_add_asn1_int64\<close>, least significant first.\<close>

definition le_bytes_of_int64 :: "u64 \<Rightarrow> u8 list" where
  "le_bytes_of_int64 v = map (\<lambda>i. ucast (drop_bit (8 * i) v)) [0..<8]"

fun skip_sign_bytes :: "u8 list \<Rightarrow> nat \<Rightarrow> nat" where
  "skip_sign_bytes bytes 0 = 0"
| "skip_sign_bytes bytes (Suc s) =
     (if bytes ! Suc s = 0xff \<and> bytes ! s AND 0x80 \<noteq> 0 then skip_sign_bytes bytes s else Suc s)"

fun add_bytes_down :: "allocator \<Rightarrow> u8 list \<Rightarrow> nat \<Rightarrow> cbb_op" where
  "add_bytes_down alloc bytes 0 = Pair True"
| "add_bytes_down alloc bytes (Suc i) =
     and_then (CBB_add_u8 alloc (bytes ! i)) (add_bytes_down alloc bytes i)"

definition CBB_add_asn1_int64 :: "allocator \<Rightarrow> u64 \<Rightarrow> cbb_op" where
  "CBB_add_asn1_int64 alloc value =
     (if 0 \<le> sint value then CBB_add_asn1_uint64 alloc value
      else let bytes = le_bytes_of_int64 value; start = skip_sign_bytes bytes 7
           in asn1_child alloc CBS_ASN1_INTEGER (add_bytes_down alloc bytes (Suc start)))"

definition CBB_add_asn1_octet_string :: "allocator \<Rightarrow> u8 list \<Rightarrow> cbb_op" where
  "CBB_add_asn1_octet_string alloc data =
     asn1_child alloc CBS_ASN1_OCTETSTRING (CBB_add_bytes alloc data)"

definition CBB_add_asn1_bool :: "allocator \<Rightarrow> int \<Rightarrow> cbb_op" where
  "CBB_add_asn1_bool alloc value =
     asn1_child alloc CBS_ASN1_BOOLEAN (CBB_add_u8 alloc (if value \<noteq> 0 then 0xff else 0))"

section \<open>The abstract contents\<close>

text \<open>What the buffer holds once every pending length prefix has been written, the
  innermost first: the prefix of a child covers everything after it.\<close>

definition length_prefix :: "cbb_frame \<Rightarrow> nat \<Rightarrow> u8 list" where
  "length_prefix k n = (if pending_is_asn1 k then der_length n else nat_be (pending_len_len k) n)"

definition prefix_fits :: "cbb_frame \<Rightarrow> nat \<Rightarrow> bool" where
  "prefix_fits k n = (if pending_is_asn1 k then n \<le> 0xfffffffe else n < 256 ^ pending_len_len k)"

definition body_start :: "cbb_frame \<Rightarrow> nat" where
  "body_start k = offset k + pending_len_len k"

fun close_kids :: "u8 list \<Rightarrow> cbb_frame list \<Rightarrow> u8 list" where
  "close_kids xs [] = xs"
| "close_kids xs (k # ks) =
     (let ys = close_kids xs ks; body = drop (body_start k) ys
      in take (offset k) ys @ length_prefix k (length body) @ body)"

fun close_ok :: "u8 list \<Rightarrow> cbb_frame list \<Rightarrow> bool" where
  "close_ok xs [] = True"
| "close_ok xs (k # ks) =
     (close_ok xs ks \<and> prefix_fits k (length (close_kids xs ks) - body_start k))"

text \<open>Well-formed states: the frames lie inside the buffer, one after the other.\<close>

definition frame_ok :: "cbb_frame \<Rightarrow> bool" where
  "frame_ok k = (0 < pending_len_len k \<and> pending_len_len k \<le> 8 \<and>
     (pending_is_asn1 k \<longrightarrow> pending_len_len k = 1) \<and> is_child k)"

fun wf_kids :: "nat \<Rightarrow> nat \<Rightarrow> cbb_frame list \<Rightarrow> bool" where
  "wf_kids lo n [] = (lo \<le> n)"
| "wf_kids lo n (k # ks) = (lo \<le> offset k \<and> frame_ok k \<and> wf_kids (body_start k) n ks)"

definition buffer_ok :: "cbb_buffer \<Rightarrow> bool" where
  "buffer_ok b = (\<not> error b \<and> length (buf b) \<le> cap b \<and> cap b < size_bound)"

definition cbb_ok :: "cbb \<Rightarrow> cbb_buffer \<Rightarrow> bool" where
  "cbb_ok c b = (base c = Some b \<and> buffer_ok b \<and> wf_kids (body_start (self c)) (length (buf b)) (kids c))"

text \<open>What operations leave of the buffer, and when \<open>n\<close> bytes are sure to fit.\<close>

definition extends_buffer :: "cbb_buffer \<Rightarrow> cbb_buffer \<Rightarrow> bool" where
  "extends_buffer b b' = (can_resize b' = can_resize b \<and> cap b \<le> cap b' \<and> (\<not> can_resize b \<longrightarrow> cap b' = cap b))"

definition room :: "allocator \<Rightarrow> cbb_buffer \<Rightarrow> nat \<Rightarrow> bool" where
  "room alloc b n = (n \<le> cap b \<or> can_resize b \<and> n < size_bound \<and> (\<forall>m. alloc m))"

named_theorems cbb_defs \<open>the invariants of the builder\<close>

lemmas [cbb_defs] = cbb_ok_def buffer_ok_def extends_buffer_def

lemma extends_buffer_refl [simp]: "extends_buffer b b"
  by (simp add: extends_buffer_def)

lemma extends_buffer_trans: "extends_buffer a b \<Longrightarrow> extends_buffer b c \<Longrightarrow> extends_buffer a c"
  by (auto simp: extends_buffer_def)

lemma room_mono: "room alloc b n \<Longrightarrow> m \<le> n \<Longrightarrow> extends_buffer b b' \<Longrightarrow> room alloc b' m"
  by (auto simp: room_def extends_buffer_def)

lemma close_kids_take:
  "wf_kids lo (length xs) ks \<Longrightarrow> lo \<le> length (close_kids xs ks) \<and> take lo (close_kids xs ks) = take lo xs"
proof (induction ks arbitrary: lo)
  case (Cons k ks)
  then have len: "body_start k \<le> length (close_kids xs ks)"
    and tk: "take (body_start k) (close_kids xs ks) = take (body_start k) xs"
    and lo: "lo \<le> offset k" by auto
  have off: "offset k \<le> body_start k" by (simp add: body_start_def)
  have "take lo (close_kids xs ks) = take lo (take (body_start k) (close_kids xs ks))"
    using lo off by (simp add: min_absorb1)
  also have "\<dots> = take lo xs"
    unfolding tk using lo off by (simp add: min_absorb1)
  finally show ?case
    using len lo off by (simp add: Let_def min_absorb1)
qed simp

section \<open>The buffer operations\<close>

lemma cbb_buffer_reserve_spec:
  assumes "buffer_ok b" "n < size_bound" "cbb_buffer_reserve alloc n b = (ok, b')"
  shows "if ok then buffer_ok b' \<and> length (buf b) + n \<le> cap b' else error b'"
    and "buf b' = buf b" and "extends_buffer b b'"
    and "room alloc b (length (buf b) + n) \<Longrightarrow> ok"
proof -
  have len: "length (buf b) < size_bound" "length (buf b) \<le> cap b" "cap b < size_bound" "\<not> error b"
    using assms(1) by (auto simp: buffer_ok_def)
  consider "size_bound \<le> length (buf b) + n" | "length (buf b) + n < size_bound" "cap b < length (buf b) + n"
    | "length (buf b) + n < size_bound" "length (buf b) + n \<le> cap b" by linarith
  then have "(if ok then buffer_ok b' \<and> length (buf b) + n \<le> cap b' else error b') \<and> buf b' = buf b
      \<and> extends_buffer b b' \<and> (room alloc b (length (buf b) + n) \<longrightarrow> ok)"
  proof cases
    case 1
    then have "size_add (length (buf b)) n < length (buf b)"
      using size_add_overflow_iff len assms(2) by blast
    then show ?thesis
      using assms(3) 1 len by (auto simp: cbb_buffer_reserve_def room_def extends_buffer_def)
  next
    case 2
    define d where "d = size_mult (cap b) 2"
    define newcap where "newcap = (if d < cap b \<or> d < length (buf b) + n then length (buf b) + n else d)"
    have "d < size_bound" by (simp add: d_def size_mult_def)
    then have nc: "newcap < size_bound" "cap b \<le> newcap" "length (buf b) + n \<le> newcap"
      using 2 by (auto simp: newcap_def)
    have "cbb_buffer_reserve alloc n b = (if can_resize b \<and> alloc newcap then (True, b\<lparr>cap := newcap\<rparr>)
        else (False, b\<lparr>error := True\<rparr>))"
      using 2 by (simp add: cbb_buffer_reserve_def Let_def newcap_def d_def)
    then show ?thesis
      using assms(3) nc 2 len by (auto simp: room_def cbb_defs split: if_splits)
  next
    case 3
    then show ?thesis
      using assms len by (auto simp: cbb_buffer_reserve_def room_def cbb_defs)
  qed
  then show "if ok then buffer_ok b' \<and> length (buf b) + n \<le> cap b' else error b'"
    and "buf b' = buf b" and "extends_buffer b b'" and "room alloc b (length (buf b) + n) \<Longrightarrow> ok"
    by auto
qed

lemma cbb_buffer_add_spec:
  assumes "buffer_ok b" "length xs < size_bound" "cbb_buffer_add alloc xs b = (ok, b')"
  shows "if ok then buffer_ok b' \<and> buf b' = buf b @ xs else error b'"
    and "extends_buffer b b'" and "room alloc b (length (buf b) + length xs) \<Longrightarrow> ok"
proof -
  obtain ok1 b1 where r: "cbb_buffer_reserve alloc (length xs) b = (ok1, b1)" by fastforce
  note R = cbb_buffer_reserve_spec [OF assms(1,2) r]
  have ok: "ok = ok1" "b' = (if ok1 then b1\<lparr>buf := buf b1 @ xs\<rparr> else b1)"
    using assms(3) r by (auto simp: cbb_buffer_add_def split: bool.splits)
  from R ok show "if ok then buffer_ok b' \<and> buf b' = buf b @ xs else error b'"
    by (auto simp: buffer_ok_def)
  from R ok show "extends_buffer b b'" by (auto simp: extends_buffer_def)
  show "ok" if "room alloc b (length (buf b) + length xs)"
    using R(4) [OF that] ok by simp
qed

lemma cbb_buffer_add_u_spec:
  assumes "buffer_ok b" "0 < n" "n \<le> 8" "cbb_buffer_add_u alloc v n b = (ok, b')"
  shows "if ok then buffer_ok b' \<and> buf b' = buf b @ nat_be n (unat v) \<and> unat v < 256 ^ n else error b'"
    and "extends_buffer b b'"
    and "unat v < 256 ^ n \<Longrightarrow> room alloc b (length (buf b) + n) \<Longrightarrow> ok"
proof -
  obtain ok1 b1 where r: "cbb_buffer_add alloc (nat_be n (unat v)) b = (ok1, b1)" by fastforce
  have "length (nat_be n (unat v)) < size_bound" using assms(3) by simp
  note R = cbb_buffer_add_spec [OF assms(1) this r]
  have "(2::nat) ^ (8 * n) = 256 ^ n" by (simp add: power_mult)
  then have z: "drop_bit (8 * n) v = 0 \<longleftrightarrow> unat v < 256 ^ n" by (simp add: drop_bit_0_iff)
  have ok: "ok = (ok1 \<and> unat v < 256 ^ n)" "b' = (if ok1 \<and> \<not> unat v < 256 ^ n then b1\<lparr>error := True\<rparr> else b1)"
    using assms(2,4) r z by (auto simp: cbb_buffer_add_u_def store_be_eq split: bool.splits if_splits)
  from R ok show "if ok then buffer_ok b' \<and> buf b' = buf b @ nat_be n (unat v) \<and> unat v < 256 ^ n else error b'"
    by auto
  from R ok show "extends_buffer b b'" by (auto simp: extends_buffer_def)
  show "ok" if "unat v < 256 ^ n" "room alloc b (length (buf b) + n)"
    using R(3) that ok by simp
qed

section \<open>Flushing\<close>

lemma asn1_length_form_spec:
  "asn1_length_form n = None \<longleftrightarrow> 0xfffffffe < n"
  "asn1_length_form n = Some (ll, ib, r) \<Longrightarrow>
     1 \<le> ll \<and> ll \<le> 5 \<and> r < 2 ^ 32 \<and> r < 256 ^ (ll - 1) \<and> der_length n = ib # nat_be (ll - 1) r"
proof -
  show "asn1_length_form n = None \<longleftrightarrow> 0xfffffffe < n"
    by (simp add: asn1_length_form_def)
  assume f: "asn1_length_form n = Some (ll, ib, r)"
  then have n: "n \<le> 0xfffffffe" by (simp add: asn1_length_form_def split: if_splits)
  show "1 \<le> ll \<and> ll \<le> 5 \<and> r < 2 ^ 32 \<and> r < 256 ^ (ll - 1) \<and> der_length n = ib # nat_be (ll - 1) r"
  proof (cases "n < 128")
    case True
    then show ?thesis using f by (auto simp: asn1_length_form_def der_length_def)
  next
    case False
    have long: "der_length n = of_nat (128 + k) # nat_be k n" if "nat_bytes n = k" for k
      using False that by (simp add: der_length_def)
    consider "n < 256" | "256 \<le> n" "n < 65536" | "65536 \<le> n" "n < 16777216" | "16777216 \<le> n"
      by linarith
    then show ?thesis
    proof cases
      case 1
      then have "nat_bytes n = 1" using nat_bytes_unique [of 0 n] False by simp
      from long [OF this] show ?thesis using f 1 False by (auto simp: asn1_length_form_def)
    next
      case 2
      then have "nat_bytes n = 2" using nat_bytes_unique [of 1 n] by simp
      from long [OF this] show ?thesis using f 2 by (auto simp: asn1_length_form_def)
    next
      case 3
      then have "nat_bytes n = 3" using nat_bytes_unique [of 2 n] by simp
      from long [OF this] show ?thesis using f 3 by (auto simp: asn1_length_form_def)
    next
      case 4
      then have "nat_bytes n = 4" using nat_bytes_unique [of 3 n] n by simp
      from long [OF this] show ?thesis using f 4 n by (auto simp: asn1_length_form_def)
    qed
  qed
qed

lemma write_length_spec:
  assumes "pending_len_len k \<le> 8" "n < size_bound" "offset k + pending_len_len k \<le> length (buf b)"
    and "write_length b k n = (ok, b', k')"
  shows "ok \<longleftrightarrow> n < 256 ^ pending_len_len k" "\<not> ok \<Longrightarrow> error b'"
    "ok \<Longrightarrow> b' = b\<lparr>buf := take (offset k) (buf b) @ nat_be (pending_len_len k) n @ drop (body_start k) (buf b)\<rparr>"
    "extends_buffer b b'"
proof -
  let ?l = "pending_len_len k"
  have u: "unat (of_nat n :: u64) = n" using assms(2) by (simp add: unat_of_nat)
  have "(2::nat) ^ (8 * ?l) = 256 ^ ?l" by (simp add: power_mult)
  then have z: "drop_bit (8 * ?l) (of_nat n :: u64) = 0 \<longleftrightarrow> n < 256 ^ ?l"
    by (simp only: drop_bit_0_iff u)
  have s: "store_be ?l (of_nat n) = (nat_be ?l n, drop_bit (8 * ?l) (of_nat n))"
    by (simp only: store_be_eq u)
  have eq: "write_length b k n = (if n < 256 ^ ?l then (True, b\<lparr>buf := write_at (offset k) (nat_be ?l n) (buf b)\<rparr>, k)
      else (False, b\<lparr>buf := write_at (offset k) (nat_be ?l n) (buf b), error := True\<rparr>, k))"
    unfolding write_length_def s using z by simp
  from eq assms(4) show "ok \<longleftrightarrow> n < 256 ^ ?l" "\<not> ok \<Longrightarrow> error b'"
    by (auto split: if_splits)
  from eq assms(4) show "extends_buffer b b'"
    by (auto simp: extends_buffer_def split: if_splits)
  from eq assms(4) show "ok \<Longrightarrow> b' = b\<lparr>buf := take (offset k) (buf b) @ nat_be ?l n @ drop (body_start k) (buf b)\<rparr>"
    by (auto simp: write_at_def body_start_def split: if_splits)
qed

lemma move_contents:
  assumes "length L = length Z"
  shows "write_at (Suc (length P)) L ((write_at (Suc (length P) + length Z) C (P @ z # C @ Z))[length P := x])
    = P @ x # L @ C"
  using assms by (simp add: write_at_def)

lemma flush_prefix_spec:
  assumes b: "buffer_ok b" and k: "frame_ok k" and off: "body_start k \<le> length (buf b)"
    and r: "flush_prefix alloc b k (body_start k) = (ok, b', k')"
  defines "body \<equiv> drop (body_start k) (buf b)"
  defines "out \<equiv> take (offset k) (buf b) @ length_prefix k (length body) @ body"
  shows "if ok then buffer_ok b' \<and> prefix_fits k (length body) \<and> buf b' = out else error b'"
    and "extends_buffer b b'"
    and "prefix_fits k (length body) \<Longrightarrow> room alloc b (length out) \<Longrightarrow> ok"
proof -
  let ?n = "length body"
  have n: "length (buf b) - body_start k = ?n" by (simp add: body_def)
  have sb: "length (buf b) < size_bound" using b by (simp add: buffer_ok_def)
  then have nb: "?n < size_bound" by (simp add: body_def)
  have "(if ok then buffer_ok b' \<and> prefix_fits k ?n \<and> buf b' = out else error b') \<and> extends_buffer b b' \<and>
      (prefix_fits k ?n \<longrightarrow> room alloc b (length out) \<longrightarrow> ok)"
  proof (cases "pending_is_asn1 k")
    case False
    then have w: "write_length b k ?n = (ok, b', k')"
      using r n by (simp add: flush_prefix_def Let_def)
    note W = write_length_spec [OF _ nb _ w, unfolded body_start_def [symmetric]]
    have "pending_len_len k \<le> 8" using k by (simp add: frame_ok_def)
    note W = W [OF this off]
    have "length (take (offset k) (buf b) @ nat_be (pending_len_len k) ?n @ body) = length (buf b)"
      using off by (simp add: body_def body_start_def)
    then show ?thesis
      using W False b by (auto simp: prefix_fits_def out_def length_prefix_def buffer_ok_def body_def)
  next
    case asn1: True
    then have pll: "pending_len_len k = 1" using k by (simp add: frame_ok_def)
    show ?thesis
    proof (cases "asn1_length_form ?n")
      case None
      then have "ok = False" "b' = b\<lparr>error := True\<rparr>"
        using r asn1 n by (auto simp: flush_prefix_def Let_def)
      then show ?thesis
        using None asn1 by (auto simp: asn1_length_form_spec(1) prefix_fits_def extends_buffer_def)
    next
      case (Some t)
      obtain ll ib rest where t: "t = (ll, ib, rest)" by (cases t) auto
      note F = asn1_length_form_spec(2) [OF Some [unfolded t]]
      have fits: "prefix_fits k ?n"
        using asn1 Some asn1_length_form_spec(1) [of ?n] by (simp add: prefix_fits_def)
      define e where "e = ll - 1"
      define Z where "Z = replicate e (0 :: u8)"
      define P where "P = take (offset k) (buf b)"
      have P: "length P = offset k" using off by (simp add: P_def body_start_def)
      have split: "buf b = P @ (buf b ! offset k) # body"
        using off pll by (simp add: P_def body_def body_start_def id_take_nth_drop)
      have out: "out = P @ (ib # nat_be e rest) @ body"
        using F asn1 by (simp add: out_def P_def length_prefix_def e_def)
      have lout: "length out = length (buf b) + e"
        unfolding out by (subst split) simp
      obtain ok1 b1 where add: "(if ll \<noteq> 1 then cbb_buffer_add alloc Z b else (True, b)) = (ok1, b1)"
        by fastforce
      have "length Z \<le> 5" using F by (auto simp: Z_def e_def)
      then have lZ: "length Z < size_bound" by simp
      have A: "if ok1 then buffer_ok b1 \<and> buf b1 = buf b @ Z else error b1"
        and ext: "extends_buffer b b1" and A3: "room alloc b (length (buf b) + e) \<Longrightarrow> ok1"
        using add cbb_buffer_add_spec [OF b lZ, of alloc ok1 b1] b F
        by (auto simp: Z_def e_def split: if_splits)
      define moved where "moved = (if ll \<noteq> 1 then write_at (body_start k + e) body (buf b1) else buf b1)"
      define b2 where "b2 = b1\<lparr>buf := moved[offset k := ib]\<rparr>"
      define k2 where "k2 = k\<lparr>offset := offset k + 1, pending_len_len := e\<rparr>"
      have body: "take ?n body = body" by simp
      have fp: "(ok, b', k') = (if ok1 then write_length b2 k2 rest else (False, b1\<lparr>error := True\<rparr>, k))"
      proof -
        have "flush_prefix alloc b k (body_start k) =
            (case (if ll \<noteq> 1 then cbb_buffer_add alloc Z b else (True, b)) of
               (False, b) \<Rightarrow> (False, b\<lparr>error := True\<rparr>, k)
             | (True, b) \<Rightarrow> write_length (b\<lparr>buf := (if ll \<noteq> 1 then write_at (body_start k + e) body (buf b)
                  else buf b)[offset k := ib]\<rparr>) k2 rest)"
          using body asn1 Some t
          by (simp add: flush_prefix_def Let_def n e_def Z_def k2_def cong: bool.case_cong split: prod.split flip: body_def)
        also have "\<dots> = (if ok1 then write_length b2 k2 rest else (False, b1\<lparr>error := True\<rparr>, k))"
          unfolding add by (simp add: b2_def moved_def split: bool.splits)
        finally show ?thesis using r by simp
      qed
      show ?thesis
      proof (cases ok1)
        case False
        with fp ext A3 lout show ?thesis
          by (auto simp: extends_buffer_def)
      next
        case True
        with A have b1: "buffer_ok b1" "buf b1 = buf b @ Z" by simp_all
        have moved: "moved = write_at (Suc (length P) + length Z) body (P @ (buf b ! offset k) # body @ Z)"
        proof (cases "ll = 1")
          case True
          then have "Z = []" by (simp add: Z_def e_def)
          moreover have "moved = P @ (buf b ! offset k) # body"
            using True b1 split \<open>Z = []\<close> by (simp add: moved_def)
          ultimately show ?thesis
            by (simp only: append_Nil2 list.size) (simp add: write_at_def)
        next
          case False
          have "buf b1 = P @ (buf b ! offset k) # body @ Z"
            unfolding b1(2) by (subst split) simp
          then show ?thesis
            using False P pll by (simp add: moved_def body_start_def Z_def)
        qed
        have w: "write_length b2 k2 rest = (ok, b', k')" using fp True by simp
        have lb2: "length (buf b2) = length (buf b) + e"
          unfolding b2_def moved by (subst split) (simp add: write_at_def Z_def)
        have off2: "offset k2 + pending_len_len k2 \<le> length (buf b2)"
          using lb2 off pll by (simp add: k2_def body_start_def)
        have e8: "pending_len_len k2 \<le> 8" using F by (auto simp: k2_def e_def)
        have rb: "rest < size_bound" using F by simp
        note W = write_length_spec [OF e8 rb off2 w]
        have ok: ok using W(1) F by (simp add: k2_def e_def)
        have "buf b' = write_at (offset k2) (nat_be e rest) (buf b2)"
          using W(3) [OF ok] by (simp add: write_at_def body_start_def k2_def)
        also have "\<dots> = P @ ib # nat_be e rest @ body"
          unfolding k2_def b2_def moved using P move_contents [of "nat_be e rest" Z P body _ ib]
          by (simp add: Z_def)
        finally have "buf b' = out" by (simp add: out)
        moreover have "extends_buffer b1 b'" using W(4) by (simp add: extends_buffer_def b2_def)
        moreover have "buffer_ok b'"
        proof -
          have "length out \<le> cap b1" using b1 lout by (simp add: buffer_ok_def Z_def)
          then show ?thesis
            using W(3) [OF ok] b1 \<open>buf b' = out\<close> by (simp add: buffer_ok_def b2_def)
        qed
        ultimately show ?thesis
          using ok fits ext extends_buffer_trans by simp
      qed
    qed
  qed
  then show "if ok then buffer_ok b' \<and> prefix_fits k (length body) \<and> buf b' = out else error b'"
    and "extends_buffer b b'" and "prefix_fits k (length body) \<Longrightarrow> room alloc b (length out) \<Longrightarrow> ok"
    by auto
qed


lemma length_length_prefix: "frame_ok k \<Longrightarrow> pending_len_len k \<le> length (length_prefix k n)"
  by (auto simp: length_prefix_def frame_ok_def der_length_def)

lemma close_kids_mono:
  assumes "wf_kids lo (length xs) (k # ks)"
  shows "length (close_kids xs ks) \<le> length (close_kids xs (k # ks))"
proof -
  let ?ys = "close_kids xs ks"
  let ?p = "length_prefix k (length ?ys - body_start k)"
  have b: "body_start k \<le> length ?ys"
    using assms close_kids_take [of "body_start k" xs ks] by auto
  then have "offset k \<le> length ?ys" by (simp add: body_start_def)
  then have "length (close_kids xs (k # ks)) = offset k + length ?p + (length ?ys - body_start k)"
    by (simp add: Let_def min_absorb2)
  moreover have "pending_len_len k \<le> length ?p"
    using assms by (intro length_length_prefix) simp
  ultimately show ?thesis
    using b by (simp add: body_start_def)
qed

lemma close_kids_grows: "wf_kids lo (length xs) ks \<Longrightarrow> length xs \<le> length (close_kids xs ks)"
proof (induction ks arbitrary: lo)
  case (Cons k ks)
  then have "length xs \<le> length (close_kids xs ks)" by (auto intro: Cons.IH)
  with close_kids_mono [OF Cons.prems] show ?case by linarith
qed simp

lemma wf_kids_le: "wf_kids lo n ks \<Longrightarrow> lo \<le> n"
  by (induction ks arbitrary: lo) (fastforce simp: body_start_def)+

lemma cbb_flush_spec:
  assumes "buffer_ok b" "wf_kids lo (length (buf b)) ks" "cbb_flush alloc b ks = (ok, b', ks')"
  shows "(if ok then buffer_ok b' \<and> ks' = [] \<and> close_ok (buf b) ks \<and> buf b' = close_kids (buf b) ks
          else error b') \<and> extends_buffer b b' \<and>
     (close_ok (buf b) ks \<longrightarrow> room alloc b (length (close_kids (buf b) ks)) \<longrightarrow> ok)"
  using assms(2,3)
proof (induction ks arbitrary: lo ok b' ks')
  case Nil
  then show ?case using assms(1) by (auto simp: buffer_ok_def)
next
  case (Cons k ks)
  have k: "frame_ok k" "wf_kids (body_start k) (length (buf b)) ks"
    using Cons.prems(1) by auto
  let ?ys = "close_kids (buf b) ks"
  obtain ok1 b1 ks1 where f: "cbb_flush alloc b ks = (ok1, b1, ks1)" by (metis prod_cases3)
  note IH = Cons.IH [OF k(2) f]
  have ys: "body_start k \<le> length ?ys" using close_kids_take [OF k(2)] by simp
  have "body_start k \<le> length (buf b)"
    using wf_kids_le [OF k(2)] .
  then have "body_start k < size_bound" using assms(1) by (simp add: buffer_ok_def)
  then have cs: "size_add (offset k) (pending_len_len k) = body_start k"
    by (simp add: body_start_def)
  have run: "cbb_flush alloc b (k # ks) =
      (if \<not> ok1 \<or> body_start k < offset k \<or> length (buf b1) < body_start k
       then (False, b1\<lparr>error := True\<rparr>, k # ks1)
       else (case flush_prefix alloc b1 k (body_start k) of
               (False, b, k) \<Rightarrow> (False, b, k # ks1) | (True, b, _) \<Rightarrow> (True, b, [])))"
    using assms(1) k(1) f cs by (simp add: buffer_ok_def frame_ok_def Let_def)
  show ?case
  proof (cases ok1)
    case False
    then have "ok = False" "b' = b1\<lparr>error := True\<rparr>"
      using run Cons.prems(2) by auto
    moreover have "extends_buffer b b'"
      using IH \<open>b' = _\<close> by (simp add: extends_buffer_def)
    moreover have "room alloc b (length ?ys)" if "room alloc b (length (close_kids (buf b) (k # ks)))"
      using room_mono [OF that close_kids_mono [OF Cons.prems(1)]] by simp
    ultimately show ?thesis
      using IH False by auto
  next
    case True
    with IH have b1: "buffer_ok b1" "buf b1 = ?ys" "close_ok (buf b) ks" "extends_buffer b b1" by auto
    obtain ok2 b2 k2 where p: "flush_prefix alloc b1 k (body_start k) = (ok2, b2, k2)" by (metis prod_cases3)
    have "body_start k \<le> length (buf b1)" using b1 ys by simp
    note P = flush_prefix_spec [OF b1(1) k(1) this p, unfolded b1(2)]
    have "ok = ok2" "b' = b2" "ok2 \<Longrightarrow> ks' = []"
      using run Cons.prems(2) True p b1 ys by (auto simp: body_start_def split: bool.splits)
    moreover have "room alloc b1 (length (close_kids (buf b) (k # ks)))"
      if "room alloc b (length (close_kids (buf b) (k # ks)))"
      using room_mono [OF that le_refl b1(4)] .
    ultimately show ?thesis
      using P b1 extends_buffer_trans [OF b1(4)] by (auto simp: Let_def simp del: length_append)
  qed
qed

section \<open>Operations that append\<close>

definition contents :: "cbb \<Rightarrow> cbb_buffer \<Rightarrow> u8 list" where
  "contents c b = close_kids (buf b) (kids c)"

definition closes :: "cbb \<Rightarrow> cbb_buffer \<Rightarrow> bool" where
  "closes c b = close_ok (buf b) (kids c)"

text \<open>\<open>appends alloc f xs\<close>: from any well-formed state, \<open>f\<close> either appends \<open>xs\<close> to the
  contents and leaves a well-formed state, or fails and sets the sticky error flag; and
  it succeeds whenever the pending lengths fit their prefixes and there is room.\<close>

definition outcome :: "allocator \<Rightarrow> cbb \<Rightarrow> cbb_buffer \<Rightarrow> u8 list \<Rightarrow> bool \<times> cbb \<Rightarrow> bool" where
  "outcome alloc c b xs r = (case r of (ok, c') \<Rightarrow> self c' = self c \<and> (\<exists>b'. base c' = Some b' \<and> extends_buffer b b' \<and>
     (if ok then cbb_ok c' b' \<and> contents c' b' = contents c b @ xs \<and> (closes c b \<longleftrightarrow> closes c' b')
      else error b')) \<and>
     (closes c b \<longrightarrow> room alloc b (length (contents c b) + length xs) \<longrightarrow> ok))"

definition appends :: "allocator \<Rightarrow> cbb_op \<Rightarrow> u8 list \<Rightarrow> bool" where
  "appends alloc f xs = (\<forall>c b. cbb_ok c b \<longrightarrow> outcome alloc c b xs (f c))"

lemma appendsI: "(\<And>c b. cbb_ok c b \<Longrightarrow> outcome alloc c b xs (f c)) \<Longrightarrow> appends alloc f xs"
  by (simp add: appends_def)

lemma outcome_and_then:
  assumes f: "outcome alloc c b xs (f c)"
    and g: "\<And>c' b'. f c = (True, c') \<Longrightarrow> base c' = Some b' \<Longrightarrow> cbb_ok c' b' \<Longrightarrow>
       contents c' b' = contents c b @ xs \<Longrightarrow> outcome alloc c' b' ys (g c')"
  shows "outcome alloc c b (xs @ ys) (and_then f g c)"
proof -
  obtain ok c1 where f1: "f c = (ok, c1)" by fastforce
  then obtain b1 where b1: "self c1 = self c" "base c1 = Some b1" "extends_buffer b b1"
      "if ok then cbb_ok c1 b1 \<and> contents c1 b1 = contents c b @ xs \<and> (closes c b \<longleftrightarrow> closes c1 b1) else error b1"
    and room: "closes c b \<Longrightarrow> room alloc b (length (contents c b) + length xs) \<Longrightarrow> ok"
    using f by (auto simp: outcome_def)
  have room1: "ok" if "closes c b" "room alloc b (length (contents c b) + length (xs @ ys))"
    using room [OF that(1)] room_mono [OF that(2), of "length (contents c b) + length xs" b] by simp
  show ?thesis
  proof (cases ok)
    case False
    then show ?thesis
      using b1 f1 room1 by (auto simp: outcome_def and_then_def)
  next
    case True
    with b1 have c1: "cbb_ok c1 b1" "contents c1 b1 = contents c b @ xs" "closes c b \<longleftrightarrow> closes c1 b1" by auto
    obtain ok2 c2 where g2: "g c1 = (ok2, c2)" by fastforce
    have "outcome alloc c1 b1 ys (ok2, c2)"
      using g [of c1 b1] f1 True b1(2) c1 g2 by simp
    moreover have "room alloc b1 (length (contents c1 b1) + length ys)"
      if "room alloc b (length (contents c b) + length (xs @ ys))"
      using room_mono [OF that _ b1(3)] c1(2) by simp
    moreover have "and_then f g c = (ok2, c2)"
      using f1 True g2 by (simp add: and_then_def)
    ultimately show ?thesis
      using b1(1) c1 extends_buffer_trans [OF b1(3)] by (fastforce simp: outcome_def)
  qed
qed

lemma appends_and_then:
  assumes "appends alloc f xs" "appends alloc g ys"
  shows "appends alloc (and_then f g) (xs @ ys)"
  using assms outcome_and_then unfolding appends_def by blast

lemma appends_nop: "appends alloc (Pair True) []"
  by (rule appendsI) (auto simp: outcome_def cbb_ok_def)

interpretation cbbw: byte_writer "appends alloc" and_then "Pair True" for alloc
  by unfold_locales (rule appends_nop, rule appends_and_then)

lemma CBB_flush_outcome:
  assumes "cbb_ok c b"
  shows "outcome alloc c b [] (CBB_flush alloc c)"
    and "CBB_flush alloc c = (True, c') \<Longrightarrow> kids c' = [] \<and> closes c b"
proof -
  obtain ok b1 ks where f: "cbb_flush alloc b (kids c) = (ok, b1, ks)" by (metis prod_cases3)
  have c: "base c = Some b" "buffer_ok b" "wf_kids (body_start (self c)) (length (buf b)) (kids c)"
    using assms by (auto simp: cbb_ok_def)
  note F = cbb_flush_spec [OF c(2,3) f]
  have run: "CBB_flush alloc c = (ok, c\<lparr>base := Some b1, kids := ks\<rparr>)"
    using c f by (simp add: CBB_flush_def)
  show "outcome alloc c b [] (CBB_flush alloc c)"
    using F c close_kids_take [OF c(3)]
    by (auto simp: run outcome_def cbb_ok_def contents_def closes_def)
  show "CBB_flush alloc c = (True, c') \<Longrightarrow> kids c' = [] \<and> closes c b"
    using F run by (auto simp: closes_def)
qed

text \<open>After a flush the contents are the bytes of the buffer.\<close>

lemma flush_then:
  assumes "cbb_ok c b"
    and g: "\<And>c' b'. cbb_ok c' b' \<Longrightarrow> kids c' = [] \<Longrightarrow> buf b' = contents c b \<Longrightarrow> self c' = self c \<Longrightarrow>
       outcome alloc c' b' xs (g c')"
  shows "outcome alloc c b xs (and_then (CBB_flush alloc) g c)"
proof -
  note F = CBB_flush_outcome [OF assms(1), of alloc]
  have "outcome alloc c b ([] @ xs) (and_then (CBB_flush alloc) g c)"
  proof (rule outcome_and_then [where f = "CBB_flush alloc", OF F(1)])
    fix c' b'
    assume f: "CBB_flush alloc c = (True, c')" "cbb_ok c' b'" "contents c' b' = contents c b @ []"
    have "kids c' = []" using F(2) [OF f(1)] by simp
    moreover have "self c' = self c" using F(1) f(1) by (simp add: outcome_def)
    ultimately show "outcome alloc c' b' xs (g c')"
      using f g [of c' b'] by (simp add: contents_def)
  qed
  then show ?thesis by simp
qed

lemma on_base_outcome:
  assumes "cbb_ok c b" "kids c = []" "f b = (ok, b')" "extends_buffer b b'"
    and "if ok then buffer_ok b' \<and> buf b' = buf b @ xs else error b'"
    and "room alloc b (length (buf b) + length xs) \<Longrightarrow> ok"
  shows "outcome alloc c b xs (on_base f c)"
  using assms by (auto simp: outcome_def on_base_def cbb_ok_def contents_def closes_def)

lemma appends_bytes: "length data < size_bound \<Longrightarrow> appends alloc (CBB_add_bytes alloc data) data"
  unfolding CBB_add_bytes_def
proof (intro appendsI flush_then)
  fix c b
  assume n: "length data < size_bound" and c: "cbb_ok c b" "kids c = []"
  obtain ok b' where r: "cbb_buffer_add alloc data b = (ok, b')" by fastforce
  have "buffer_ok b" using c by (simp add: cbb_ok_def)
  note A = cbb_buffer_add_spec [OF this n r]
  show "outcome alloc c b data (on_base (cbb_buffer_add alloc data) c)"
    by (rule on_base_outcome [where f = "cbb_buffer_add alloc data", OF c r A(2,1,3)])
qed

lemma appends_u:
  assumes "0 < n" "n \<le> 8" "unat v < 256 ^ n"
  shows "appends alloc (cbb_add_u alloc n v) (nat_be n (unat v))"
  unfolding cbb_add_u_def
proof (intro appendsI flush_then)
  fix c b
  assume c: "cbb_ok c b" "kids c = []"
  obtain ok b' where r: "cbb_buffer_add_u alloc v n b = (ok, b')" by fastforce
  have "buffer_ok b" using c by (simp add: cbb_ok_def)
  note A = cbb_buffer_add_u_spec [OF this assms(1,2) r]
  have "if ok then buffer_ok b' \<and> buf b' = buf b @ nat_be n (unat v) else error b'"
    using A(1) by (simp split: if_splits)
  then show "outcome alloc c b (nat_be n (unat v)) (on_base (cbb_buffer_add_u alloc v n) c)"
    by (rule on_base_outcome [where f = "cbb_buffer_add_u alloc v n", OF c r A(2)])
       (use A(3) assms(3) in simp)
qed

lemma appends_u8: "appends alloc (CBB_add_u8 alloc v) [v]"
proof -
  have "unat (ucast v :: u64) < 256 ^ 1" by (simp add: unat_ucast_u8)
  from appends_u [OF _ _ this, of alloc] show ?thesis
    by (simp add: CBB_add_u8_def unat_ucast_u8)
qed

lemma appends_flush: "appends alloc (CBB_flush alloc) []"
  by (intro appendsI CBB_flush_outcome(1))

lemma and_then_kids:
  assumes "and_then f g c = (True, c')" "\<And>c c'. g c = (True, c') \<Longrightarrow> kids c = [] \<Longrightarrow> kids c' = []"
    and "\<And>c'. f c = (True, c') \<Longrightarrow> kids c' = []"
  shows "kids c' = []"
  using assms by (auto simp: and_then_def split: prod.splits bool.splits)

lemma on_base_kids: "on_base f c = (ok, c') \<Longrightarrow> kids c' = kids c \<and> self c' = self c"
  by (auto simp: on_base_def split: option.splits prod.splits)

text \<open>A child is opened, written to and closed by the flush of its parent.\<close>

definition child_frame :: "nat \<Rightarrow> nat \<Rightarrow> bool \<Rightarrow> cbb_frame" where
  "child_frame off n asn1 = \<lparr>offset = off, pending_len_len = n, pending_is_asn1 = asn1, is_child = True\<rparr>"

lemma open_child_eq: "open_child off n asn1 c = (True, c\<lparr>kids := [child_frame off n asn1]\<rparr>)"
  by (simp add: open_child_def child_frame_def)

lemma child_written:
  assumes c: "cbb_ok c b" "kids c = []" and k: "k = child_frame (length (buf b)) n asn1" "frame_ok k"
    and c1: "cbb_ok c1 b1" "kids c1 = []" "self c1 = self c" "buf b1 = buf b @ replicate n 0" "extends_buffer b b1"
    and body: "appends alloc body xs" and fits: "prefix_fits k (length xs)"
  shows "outcome alloc c b (length_prefix k (length xs) @ xs)
    (and_then (on_child body) (CBB_flush alloc) (c1\<lparr>kids := [k]\<rparr>))"
proof -
  let ?out = "length_prefix k (length xs) @ xs"
  define child where "child = \<lparr>base = Some b1, self = k, kids = []\<rparr>"
  have start: "body_start k = length (buf b1)" using k c1 by (simp add: body_start_def child_frame_def)
  have child: "cbb_ok child b1" "closes child b1" "contents child b1 = buf b @ replicate n 0"
    using c1 start by (simp_all add: cbb_ok_def child_def closes_def contents_def)
  have lb1: "length (buf b1) = length (buf b) + n" using c1 by simp
  have child_self: "self child = k" by (simp add: child_def)
  obtain ok3 c3 where r3: "body child = (ok3, c3)" by fastforce
  then have "outcome alloc child b1 xs (ok3, c3)"
    using body child(1) by (metis appends_def)
  then obtain b3 where b3: "self c3 = k" "base c3 = Some b3" "extends_buffer b1 b3"
      "if ok3 then cbb_ok c3 b3 \<and> contents c3 b3 = buf b @ replicate n 0 @ xs \<and> closes c3 b3 else error b3"
    and room3: "room alloc b1 (length (buf b1) + length xs) \<Longrightarrow> ok3"
    using child child_self lb1 by (auto simp: outcome_def split: if_splits)
  have ext: "extends_buffer b b3" using c1(5) b3(3) by (rule extends_buffer_trans)
  define c4 where "c4 = c1\<lparr>base := Some b3, kids := k # kids c3\<rparr>"
  have on_child: "on_child body (c1\<lparr>kids := [k]\<rparr>) = (ok3, c4)"
    using c1 b3 r3 by (simp add: on_child_def c4_def child_def cbb_ok_def)
  have "n \<le> length (length_prefix k (length xs))"
    using length_length_prefix [OF k(2)] k(1) by (simp add: child_frame_def)
  then have "room alloc b (length (buf b) + length ?out) \<Longrightarrow> room alloc b1 (length (buf b1) + length xs)"
    using c1 by (elim room_mono) auto
  with room3 have room: "room alloc b (length (contents c b) + length ?out) \<Longrightarrow> ok3"
    using c by (simp add: contents_def)
  show ?thesis
  proof (cases ok3)
    case False
    then have "and_then (on_child body) (CBB_flush alloc) (c1\<lparr>kids := [k]\<rparr>) = (False, c4)"
      using on_child by (simp add: and_then_def)
    with False b3 ext room c1(3) show ?thesis
      by (auto simp: outcome_def c4_def)
  next
    case True
    with b3 have c3: "cbb_ok c3 b3" "contents c3 b3 = buf b @ replicate n 0 @ xs" "closes c3 b3" by auto
    have "body_start (self c) \<le> offset k"
      using c k by (simp add: cbb_ok_def child_frame_def)
    then have ok4: "cbb_ok c4 b3"
      using c3(1) b3(1) k(2) c1(3) by (simp add: cbb_ok_def c4_def)
    have cont4: "contents c4 b3 = contents c b @ ?out"
      using c3(2) start c1(4) k(1) c(2) by (simp add: contents_def c4_def Let_def child_frame_def)
    have cl4: "closes c4 b3"
      using c3 start c1(4) fits by (simp add: closes_def contents_def c4_def)
    have run: "and_then (on_child body) (CBB_flush alloc) (c1\<lparr>kids := [k]\<rparr>) = CBB_flush alloc c4"
      using on_child True by (simp add: and_then_def)
    have "outcome alloc c4 b3 [] (CBB_flush alloc c4)"
      using ok4 by (rule CBB_flush_outcome)
    moreover have "closes c b" using c by (simp add: closes_def)
    moreover have "room alloc b (length (contents c b) + length ?out) \<Longrightarrow> room alloc b3 (length (contents c4 b3))"
      using ext cont4 by (auto elim: room_mono)
    moreover have "self c4 = self c" using c1 by (simp add: c4_def)
    ultimately show ?thesis
      unfolding run using cont4 cl4 extends_buffer_trans [OF ext] by (fastforce simp: outcome_def)
  qed
qed

lemma appends_child:
  assumes z: "\<And>c b. cbb_ok c b \<Longrightarrow> kids c = [] \<Longrightarrow> outcome alloc c b (replicate n 0) (zeros c)"
      "\<And>c c'. zeros c = (True, c') \<Longrightarrow> kids c = [] \<Longrightarrow> kids c' = []"
    and k: "\<And>off. frame_ok (child_frame off n asn1)"
    and body: "appends alloc body xs"
    and fits: "prefix_fits (child_frame 0 n asn1) (length xs)"
    and c: "cbb_ok c b" "kids c = []"
  shows "outcome alloc c b (length_prefix (child_frame 0 n asn1) (length xs) @ xs)
    (and_then (and_then zeros (open_child (base_len c) n asn1)) (and_then (on_child body) (CBB_flush alloc)) c)"
proof -
  let ?k = "child_frame (length (buf b)) n asn1" and ?kz = "child_frame 0 n asn1"
  have same: "length_prefix ?k = length_prefix ?kz" "prefix_fits ?k = prefix_fits ?kz"
    by (simp_all add: fun_eq_iff length_prefix_def prefix_fits_def child_frame_def)
  have base: "base c = Some b" "base_len c = length (buf b)"
    using c by (simp_all add: cbb_ok_def base_len_def)
  obtain ok1 c1 where r1: "zeros c = (ok1, c1)" by fastforce
  have "outcome alloc c b (replicate n 0) (ok1, c1)"
    using z(1) [OF c] r1 by simp
  moreover have "contents c b = buf b" "closes c b" using c by (simp_all add: contents_def closes_def)
  ultimately obtain b1 where b1: "self c1 = self c" "base c1 = Some b1" "extends_buffer b b1"
      "if ok1 then cbb_ok c1 b1 \<and> contents c1 b1 = buf b @ replicate n 0 else error b1"
    and room1: "room alloc b (length (buf b) + n) \<Longrightarrow> ok1"
    by (auto simp: outcome_def split: if_splits)
  show ?thesis
  proof (cases ok1)
    case True
    then have k1: "kids c1 = []" using z(2) [of c c1] r1 c(2) by simp
    with True b1 have c1: "cbb_ok c1 b1" "buf b1 = buf b @ replicate n 0"
      by (auto simp: contents_def)
    have "and_then (and_then zeros (open_child (base_len c) n asn1)) (and_then (on_child body) (CBB_flush alloc)) c
        = and_then (on_child body) (CBB_flush alloc) (c1\<lparr>kids := [?k]\<rparr>)"
      using r1 True base by (simp add: and_then_def [of _ _ c] and_then_def [of zeros] open_child_eq)
    then show ?thesis
      using child_written [OF c refl k c1(1) k1 b1(1) c1(2) b1(3) body] fits by (simp add: same)
  next
    case False
    then have "and_then (and_then zeros (open_child (base_len c) n asn1)) (and_then (on_child body) (CBB_flush alloc)) c
        = (False, c1)"
      using r1 by (simp add: and_then_def)
    moreover have "n \<le> length (length_prefix ?kz (length xs))"
      using length_length_prefix [OF k, of 0 "length xs"] by (simp add: child_frame_def)
    then have "room alloc b (length (buf b) + length (length_prefix ?kz (length xs) @ xs)) \<Longrightarrow> ok1"
      using room1 room_mono [of alloc b _ "length (buf b) + n" b] by simp
    ultimately show ?thesis
      using False b1 c by (auto simp: outcome_def contents_def)
  qed
qed

section \<open>The base-128 writer\<close>

lemma base128_hi_digits:
  "base128_hi (unat v) = map (\<lambda>i. continuation_octet (unat v div 128 ^ i)) (rev [0..<base128_len v])"
proof (induction v rule: base128_len.induct)
  case (1 v)
  show ?case
  proof (cases "v = 0")
    case True
    then show ?thesis by (simp add: base128_hi.simps base128_len.simps)
  next
    case False
    then have pos: "v > 0" and nz: "unat v \<noteq> 0" by (simp_all add: word_gt_0 unat_eq_0)
    have "base128_hi (unat v) = base128_hi (unat v div 128) @ [continuation_octet (unat v)]"
      using nz by (simp add: base128_hi.simps [of "unat v"])
    also have "unat v div 128 = unat (drop_bit 7 v)"
      by (simp add: unat_drop_bit)
    also have "base128_hi (unat (drop_bit 7 v)) = map (\<lambda>i. continuation_octet (unat v div 128 ^ Suc i))
        (rev [0..<base128_len (drop_bit 7 v)])"
      using "1.IH" [OF pos] by (simp add: unat_drop_bit div_mult2_eq)
    also have "\<dots> = map (\<lambda>i. continuation_octet (unat v div 128 ^ i)) (rev [Suc 0..<Suc (base128_len (drop_bit 7 v))])"
      by (simp only: map_Suc_upt [symmetric] rev_map map_map comp_def)
    finally show ?thesis
      using pos by (simp add: base128_len.simps [of v] upt_conv_Cons del: upt_Suc)
  qed
qed

lemma base128_digit_eq:
  "base128_digit v i = (if i = 0 then of_nat (unat v mod 128) else continuation_octet (unat v div 128 ^ i))"
proof -
  have "(2::nat) ^ (7 * i) = 128 ^ i" by (simp add: power_mult)
  then have u: "unat (drop_bit (7 * i) v AND 0x7f) = unat v div 128 ^ i mod 128"
    using unat_and_mask [of "drop_bit (7 * i) v" 7]
    by (simp add: mask_eq_exp_minus_1 unat_drop_bit)
  let ?b = "ucast (drop_bit (7 * i) v AND 0x7f) :: u8"
  have b: "unat ?b = unat v div 128 ^ i mod 128"
    unfolding unat_ucast_to_u8 u by (simp add: mod_mod_cancel)
  then have "?b = of_nat (unat v div 128 ^ i mod 128)"
    by (simp add: u8_eq_iff unat_of_nat)
  moreover have "?b OR 0x80 = continuation_octet (unat v div 128 ^ i)"
    using b by (subst or_0x80) (simp_all add: continuation_octet_def)
  ultimately show ?thesis by (simp add: base128_digit_def Let_def)
qed

lemma base128_digits: "map (base128_digit v) (rev [0..<Suc (base128_len (drop_bit 7 v))]) = base128 (unat v)"
proof -
  have "map (base128_digit v) (rev [0..<Suc n])
      = map (\<lambda>i. base128_digit v (Suc i)) (rev [0..<n]) @ [base128_digit v 0]" for n
    by (simp add: upt_conv_Cons rev_map comp_def flip: map_Suc_upt del: upt_Suc)
  then show ?thesis
    using base128_hi_digits [of "drop_bit 7 v"]
    by (simp add: base128_def base128_digit_eq unat_drop_bit div_mult2_eq)
qed

lemma add_base128_loop_foldr:
  "add_base128_loop alloc v n = foldr (\<lambda>i. and_then (CBB_add_u8 alloc (base128_digit v i))) (rev [0..<n]) (Pair True)"
  by (induction n) simp_all

lemma appends_base128: "appends alloc (add_base128_integer alloc v) (base128 (unat v))"
proof -
  have "(let len_len = base128_len v in if len_len = 0 then 1 else len_len) = Suc (base128_len (drop_bit 7 v))"
    by (cases "v = 0") (simp_all add: base128_len.simps [of v] base128_len.simps [of 0] word_gt_0 Let_def)
  then have "add_base128_integer alloc v = add_base128_loop alloc v (Suc (base128_len (drop_bit 7 v)))"
    by (simp add: add_base128_integer_def Let_def)
  then show ?thesis
    unfolding add_base128_loop_foldr base128_digits [symmetric]
    by (simp only:) (rule cbbw.writes_bytes, rule appends_u8)
qed

lemma appends_bytes_down: "appends alloc (add_bytes_down alloc bytes n) (rev (take n bytes))" if "n \<le> length bytes"
proof -
  have "add_bytes_down alloc bytes n = foldr (\<lambda>i. and_then (CBB_add_u8 alloc (bytes ! i))) (rev [0..<n]) (Pair True)"
    by (induction n) simp_all
  moreover have "rev (take n bytes) = map (\<lambda>i. bytes ! i) (rev [0..<n])"
  proof -
    have "take n bytes = map ((!) bytes) [0..<n]"
      using that by (intro nth_equalityI) simp_all
    then show ?thesis by (simp only: rev_map)
  qed
  ultimately show ?thesis
    by (simp only:) (rule cbbw.writes_bytes, rule appends_u8)
qed

section \<open>ASN.1 elements\<close>

lemma flush_assoc_outcome:
  "and_then f (and_then g h) c = and_then (and_then f g) h c"
  by (simp add: and_then_def split: prod.splits bool.splits)

lemma and_then_assoc: "and_then (and_then f g) h = and_then f (and_then g h)"
  by (rule ext) (simp add: flush_assoc_outcome)

lemma cbb_add_u_kids: "cbb_add_u alloc n v c = (True, c') \<Longrightarrow> kids c = [] \<Longrightarrow> kids c' = []"
  by (auto simp: cbb_add_u_def and_then_def CBB_flush_def dest!: on_base_kids split: option.splits prod.splits bool.splits)

lemma appends_identifier:
  "appends alloc (if (tag AND CBS_ASN1_TAG_NUMBER_MASK) \<ge> 0x1f
     then and_then (CBB_add_u8 alloc ((ucast (drop_bit 24 tag) AND 0xe0) OR 0x1f))
            (add_base128_integer alloc (ucast (tag AND CBS_ASN1_TAG_NUMBER_MASK)))
     else CBB_add_u8 alloc ((ucast (drop_bit 24 tag) AND 0xe0) OR ucast (tag AND CBS_ASN1_TAG_NUMBER_MASK)))
   (der_identifier tag)"
proof -
  let ?m = "tag AND CBS_ASN1_TAG_NUMBER_MASK"
  have "?m \<ge> 0x1f \<longleftrightarrow> \<not> unat ?m < 31" by (simp add: word_le_nat_alt not_less)
  moreover have "unat (ucast ?m :: u64) = unat ?m"
    using tag_number_less [of tag] by (simp add: unsigned_ucast_eq take_bit_nat_eq_self)
  moreover have "(ucast ?m :: u8) = of_nat (unat ?m)"
    by (simp add: unsigned_ucast_eq)
  ultimately show ?thesis
    using appends_and_then [OF appends_u8 appends_base128 [of alloc "ucast ?m"]] appends_u8
    by (auto simp: der_identifier_def Let_def)
qed

lemma CBB_add_u8_kids: "CBB_add_u8 alloc v c = (True, c') \<Longrightarrow> kids c = [] \<Longrightarrow> kids c' = []"
  unfolding CBB_add_u8_def by (rule cbb_add_u_kids)

lemma base128_loop_kids: "add_base128_loop alloc v n c = (True, c') \<Longrightarrow> kids c = [] \<Longrightarrow> kids c' = []"
  by (induction n arbitrary: c)
     (auto simp: and_then_def split: prod.splits bool.splits dest: CBB_add_u8_kids)

lemma add_u8_zero_outcome: "cbb_ok c b \<Longrightarrow> outcome alloc c b (replicate 1 0) (CBB_add_u8 alloc 0 c)"
  using appends_u8 [of alloc 0] by (simp add: appends_def)

lemma appends_asn1_child:
  assumes body: "appends alloc body xs" and len: "length xs \<le> 0xfffffffe"
  shows "appends alloc (asn1_child alloc tag body) (der_element tag xs)"
proof -
  let ?m = "tag AND CBS_ASN1_TAG_NUMBER_MASK"
  let ?hi = "ucast (drop_bit 24 tag) AND 0xe0 :: u8"
  define ident where "ident = (if ?m \<ge> 0x1f
      then and_then (CBB_add_u8 alloc (?hi OR 0x1f)) (add_base128_integer alloc (ucast ?m))
      else CBB_add_u8 alloc (?hi OR ucast ?m))"
  let ?rest = "and_then (on_child body) (CBB_flush alloc)"
  let ?open = "\<lambda>c. and_then (and_then (CBB_add_u8 alloc 0) (open_child (base_len c) 1 True)) ?rest c"
  have "asn1_child alloc tag body c = and_then (CBB_flush alloc) (and_then ident ?open) c" for c
    by (simp add: asn1_child_def CBB_add_asn1_def Let_def ident_def and_then_def split: prod.splits bool.splits)
  then have eq: "asn1_child alloc tag body = and_then (CBB_flush alloc) (and_then ident ?open)" ..
  have kids: "ident c = (True, c') \<Longrightarrow> kids c = [] \<Longrightarrow> kids c' = []" for c c'
    by (auto simp: ident_def add_base128_integer_def and_then_def Let_def
        split: prod.splits bool.splits if_splits dest: CBB_add_u8_kids base128_loop_kids)
  have ident: "appends alloc ident (der_identifier tag)"
    using appends_identifier unfolding ident_def by simp
  have "open": "outcome alloc c b (der_length (length xs) @ xs) (?open c)" if "cbb_ok c b" "kids c = []" for c b
  proof -
    have "frame_ok (child_frame off 1 True)" for off by (simp add: frame_ok_def child_frame_def)
    moreover have "prefix_fits (child_frame 0 1 True) (length xs)"
      using len by (simp add: prefix_fits_def child_frame_def)
    ultimately have "outcome alloc c b (length_prefix (child_frame 0 1 True) (length xs) @ xs) (?open c)"
      using add_u8_zero_outcome CBB_add_u8_kids body that by (intro appends_child) blast+
    then show ?thesis by (simp add: length_prefix_def child_frame_def)
  qed
  have "outcome alloc c b (der_identifier tag @ der_length (length xs) @ xs) (and_then ident ?open c)"
    if "cbb_ok c b" "kids c = []" for c b
    by (rule outcome_and_then) (use that kids ident "open" in \<open>auto simp: appends_def\<close>)
  then show ?thesis
    unfolding eq der_element_def der_header_def append_assoc
    by (intro appendsI flush_then) auto
qed

definition length_prefixed_child :: "allocator \<Rightarrow> nat \<Rightarrow> cbb_op \<Rightarrow> cbb_op" where
  "length_prefixed_child alloc n body =
     and_then (cbb_add_length_prefixed alloc n) (and_then (on_child body) (CBB_flush alloc))"

lemma appends_length_prefixed:
  assumes body: "appends alloc body xs" and len: "length xs < 256 ^ n" and n: "0 < n" "n \<le> 8"
  shows "appends alloc (length_prefixed_child alloc n body) (nat_be n (length xs) @ xs)"
proof -
  let ?zeros = "on_base (cbb_buffer_add alloc (replicate n 0))"
  let ?rest = "and_then (on_child body) (CBB_flush alloc)"
  let ?open = "\<lambda>c. and_then (and_then ?zeros (open_child (base_len c) n False)) ?rest c"
  have "length_prefixed_child alloc n body c = and_then (CBB_flush alloc) ?open c" for c
    by (simp add: length_prefixed_child_def cbb_add_length_prefixed_def Let_def and_then_def split: prod.splits bool.splits)
  then have eq: "length_prefixed_child alloc n body = and_then (CBB_flush alloc) ?open" ..
  have z: "outcome alloc c b (replicate n 0) (?zeros c)" if c: "cbb_ok c b" "kids c = []" for c b
  proof -
    obtain ok b' where r: "cbb_buffer_add alloc (replicate n 0) b = (ok, b')" by fastforce
    have "buffer_ok b" "length (replicate n (0 :: u8)) < size_bound" using c n by (simp_all add: cbb_ok_def)
    note A = cbb_buffer_add_spec [OF this r]
    show ?thesis
      by (rule on_base_outcome [where f = "cbb_buffer_add alloc (replicate n 0)", OF c r A(2,1,3)])
  qed
  have "outcome alloc c b (nat_be n (length xs) @ xs) (?open c)" if "cbb_ok c b" "kids c = []" for c b
  proof -
    have "frame_ok (child_frame off n False)" for off using n by (simp add: frame_ok_def child_frame_def)
    moreover have "prefix_fits (child_frame 0 n False) (length xs)"
      using len by (simp add: prefix_fits_def child_frame_def)
    ultimately have "outcome alloc c b (length_prefix (child_frame 0 n False) (length xs) @ xs) (?open c)"
      using z on_base_kids body that by (intro appends_child) (blast, fastforce, blast+)
    then show ?thesis by (simp add: length_prefix_def child_frame_def)
  qed
  then show ?thesis
    unfolding eq by (intro appendsI flush_then) auto
qed

section \<open>Integers\<close>

lemma nat_be_Suc: "nat_be (Suc n) v = of_nat (v div 256 ^ n) # nat_be n v"
proof (induction n arbitrary: v)
  case (Suc n)
  have "nat_be (Suc (Suc n)) v = nat_be (Suc n) (v div 256) @ [of_nat v]" by (rule nat_be.simps)
  also have "\<dots> = of_nat (v div 256 div 256 ^ n) # nat_be n (v div 256) @ [of_nat v]"
    by (simp only: Suc append_Cons)
  also have "\<dots> = of_nat (v div 256 ^ Suc n) # nat_be (Suc n) v"
    by (simp add: div_mult2_eq)
  finally show ?case .
qed simp

lemma byte_of_u64: "(ucast (drop_bit (8 * n) (v :: u64) AND 0xff) :: u8) = of_nat (unat v div 256 ^ n)"
  and byte_of_u64': "(ucast (drop_bit (8 * n) (v :: u64)) :: u8) = of_nat (unat v div 256 ^ n)"
proof -
  have p: "(2::nat) ^ (8 * n) = 256 ^ n" by (simp add: power_mult)
  have "unat (drop_bit (8 * n) v AND 0xff) = unat v div 256 ^ n mod 256"
    using unat_and_mask [of "drop_bit (8 * n) v" 8] by (simp add: mask_eq_exp_minus_1 unat_drop_bit p)
  then show "(ucast (drop_bit (8 * n) v AND 0xff) :: u8) = of_nat (unat v div 256 ^ n)"
    by (simp add: u8_eq_iff unat_ucast_to_u8 unat_of_nat)
  show "(ucast (drop_bit (8 * n) v) :: u8) = of_nat (unat v div 256 ^ n)"
    by (simp add: u8_eq_iff unat_ucast_to_u8 unat_of_nat unat_drop_bit p)
qed

lemma appends_uint64_loop:
  "appends alloc (add_uint64_loop alloc v n True) (nat_be n (unat v))"
  "unat v < 256 ^ n \<Longrightarrow> appends alloc (add_uint64_loop alloc v n False) (strip_sign (0 # nat_be n (unat v)))"
proof (induction n)
  case 0
  show "appends alloc (add_uint64_loop alloc v 0 True) (nat_be 0 (unat v))" by (simp add: appends_nop)
  show "appends alloc (add_uint64_loop alloc v 0 False) (strip_sign (0 # nat_be 0 (unat v)))"
    by (simp add: appends_u8)
next
  case (Suc n)
  let ?b = "of_nat (unat v div 256 ^ n) :: u8"
  have started: "appends alloc (and_then (CBB_add_u8 alloc ?b) (add_uint64_loop alloc v n True)) (?b # nat_be n (unat v))"
    using appends_and_then [OF appends_u8 Suc.IH(1)] by simp
  then show "appends alloc (add_uint64_loop alloc v (Suc n) True) (nat_be (Suc n) (unat v))"
    by (simp add: byte_of_u64 nat_be_Suc Let_def del: nat_be.simps)
  assume lt: "unat v < 256 ^ Suc n"
  then have b: "unat ?b = unat v div 256 ^ n"
    by (simp add: unat_of_nat div_less_iff_less_mult mult.commute)
  show "appends alloc (add_uint64_loop alloc v (Suc n) False) (strip_sign (0 # nat_be (Suc n) (unat v)))"
  proof (cases "?b = 0")
    case True
    then have "unat v < 256 ^ n" using b by (simp add: div_eq_0_iff)
    with True Suc.IH(2) show ?thesis
      by (simp add: byte_of_u64 nat_be_Suc Let_def del: nat_be.simps)
  next
    case False
    have "strip_sign (0 # ?b # nat_be n (unat v)) = (if 128 \<le> unat ?b then [0] else []) @ ?b # nat_be n (unat v)"
      using False by (cases "nat_be n (unat v)") auto
    moreover have "appends alloc (and_then (if 128 \<le> unat ?b then CBB_add_u8 alloc 0 else Pair True)
        (and_then (CBB_add_u8 alloc ?b) (add_uint64_loop alloc v n True)))
        ((if 128 \<le> unat ?b then [0] else []) @ ?b # nat_be n (unat v))"
      by (intro appends_and_then started cbbw.writes_if appends_u8)
    ultimately show ?thesis
      using False by (simp add: byte_of_u64 nat_be_Suc Let_def u8_and_0x80 not_less del: nat_be.simps)
  qed
qed

lemma appends_asn1_uint64:
  "appends alloc (CBB_add_asn1_uint64 alloc v) (der_element CBS_ASN1_INTEGER (uint64_octets v))"
proof -
  have "(256::nat) ^ 8 = size_bound" by simp
  then have "unat v < 256 ^ 8" using unat_u64_less [of v] by (simp only:)
  then have "appends alloc (add_uint64_loop alloc v 8 False) (uint64_octets v)"
    unfolding uint64_octets_def by (rule appends_uint64_loop(2))
  moreover have "length (uint64_octets v) \<le> 0xfffffffe"
    using uint64_octets_props(4) [of v] by simp
  ultimately show ?thesis
    unfolding CBB_add_asn1_uint64_def by (rule appends_asn1_child)
qed

lemma u64_top_byte:
  fixes v :: u64
  shows "nat_be 8 (unat v) = of_nat (unat v div 256 ^ 7) # nat_be 7 (unat v)"
    and "unat (of_nat (unat v div 256 ^ 7) :: u8) < 128 \<longleftrightarrow> 0 \<le> sint v"
proof -
  show "nat_be 8 (unat v) = of_nat (unat v div 256 ^ 7) # nat_be 7 (unat v)"
    using nat_be_Suc [of 7 "unat v"] by simp
  have lt: "unat v div 256 ^ 7 < 256"
    using unat_u64_less [of v] by (simp add: div_less_iff_less_mult)
  have "sint v < 0 \<longleftrightarrow> bit v 63"
    using bit_last_iff [of v] by simp
  also have "\<dots> \<longleftrightarrow> odd (unat v div 2 ^ 63)"
  proof -
    have "bit v 63 \<longleftrightarrow> bit (unat v) 63" by (simp add: bit_unsigned_iff)
    then show ?thesis by (simp only: bit_iff_odd)
  qed
  also have "unat v div 2 ^ 63 = unat v div 256 ^ 7 div 128"
    by (simp add: div_mult2_eq [symmetric])
  also have "odd (unat v div 256 ^ 7 div 128) \<longleftrightarrow> 128 \<le> unat v div 256 ^ 7"
  proof -
    have "unat v div 256 ^ 7 div 128 < 2" using lt by (simp add: div_less_iff_less_mult)
    then have "unat v div 256 ^ 7 div 128 = 0 \<or> unat v div 256 ^ 7 div 128 = 1" by linarith
    then show ?thesis by (auto simp: div_eq_0_iff)
  qed
  finally have "unat v div 256 ^ 7 < 128 \<longleftrightarrow> 0 \<le> sint v"
    by (simp only: not_le [symmetric]) blast
  then show "unat (of_nat (unat v div 256 ^ 7) :: u8) < 128 \<longleftrightarrow> 0 \<le> sint v"
    using lt by (simp add: unat_of_nat)
qed

lemma le_bytes_rev: "rev (le_bytes_of_int64 v) = nat_be 8 (unat v)"
proof -
  have "rev (map (\<lambda>i. of_nat (n div 256 ^ i)) [0..<k]) = nat_be k n" for k n
    by (induction k) (simp_all add: nat_be_Suc del: nat_be.simps(2))
  then show ?thesis
    by (simp add: le_bytes_of_int64_def byte_of_u64')
qed

lemma skip_sign_bytes_spec:
  "s < length bytes \<Longrightarrow> 128 \<le> unat (bytes ! s) \<Longrightarrow>
     skip_sign_bytes bytes s \<le> s \<and>
     strip_sign (rev (take (Suc s) bytes)) = rev (take (Suc (skip_sign_bytes bytes s)) bytes)"
proof (induction s)
  case 0
  then show ?case by (cases bytes) auto
next
  case (Suc s)
  have two: "rev (take (Suc (Suc s)) bytes) = bytes ! Suc s # bytes ! s # rev (take s bytes)"
    "rev (take (Suc s) bytes) = bytes ! s # rev (take s bytes)"
    using Suc.prems(1) by (simp_all add: take_Suc_conv_app_nth)
  have "bytes ! Suc s \<noteq> 0" using Suc.prems(2) by auto
  with Suc two show ?case
    by (auto simp: u8_and_0x80 not_less)
qed

lemma appends_asn1_int64:
  "appends alloc (CBB_add_asn1_int64 alloc v) (der_element CBS_ASN1_INTEGER (int64_octets v))"
proof (cases "0 \<le> sint v")
  case True
  then have "uint64_octets v = int64_octets v"
    using u64_top_byte [of v] by (simp add: uint64_octets_def int64_octets_def)
  with True appends_asn1_uint64 [of alloc v] show ?thesis
    by (simp add: CBB_add_asn1_int64_def)
next
  case False
  let ?bytes = "le_bytes_of_int64 v" and ?s = "skip_sign_bytes (le_bytes_of_int64 v) 7"
  have len: "length ?bytes = 8" by (simp add: le_bytes_of_int64_def)
  have "?bytes ! 7 = of_nat (unat v div 256 ^ 7)"
    by (simp add: le_bytes_of_int64_def byte_of_u64' [of 7, simplified])
  then have "128 \<le> unat (?bytes ! 7)"
    using u64_top_byte(2) [of v] False by simp
  then have s: "?s \<le> 7" "strip_sign (rev (take (Suc 7) ?bytes)) = rev (take (Suc ?s) ?bytes)"
    using skip_sign_bytes_spec [of 7 ?bytes] len by simp_all
  then have o: "rev (take (Suc ?s) ?bytes) = int64_octets v"
    using len le_bytes_rev [of v] by (simp add: int64_octets_def)
  have "appends alloc (add_bytes_down alloc ?bytes (Suc ?s)) (int64_octets v)"
    unfolding o [symmetric] using s len by (intro appends_bytes_down) simp
  moreover have "length (int64_octets v) \<le> 0xfffffffe"
    using int64_octets_extends(2) [OF refl, of v] by simp
  ultimately show ?thesis
    using False by (simp add: CBB_add_asn1_int64_def Let_def appends_asn1_child del: add_bytes_down.simps)
qed

lemma appends_octet_string:
  "length data \<le> 0xfffffffe \<Longrightarrow>
     appends alloc (CBB_add_asn1_octet_string alloc data) (der_element CBS_ASN1_OCTETSTRING data)"
  unfolding CBB_add_asn1_octet_string_def by (intro appends_asn1_child appends_bytes) auto

lemma appends_asn1_bool:
  "appends alloc (CBB_add_asn1_bool alloc value) (der_element CBS_ASN1_BOOLEAN (bool_octets (value \<noteq> 0)))"
  unfolding CBB_add_asn1_bool_def bool_octets_def by (intro appends_asn1_child appends_u8) auto

section \<open>Creating and finishing\<close>

definition fresh :: "nat \<Rightarrow> bool \<Rightarrow> cbb" where
  "fresh n resize = \<lparr>base = Some \<lparr>buf = [], cap = n, can_resize = resize, error = False\<rparr>,
     self = zero_frame, kids = []\<rparr>"

lemma CBB_init_fresh:
  "CBB_init alloc n = (True, c) \<Longrightarrow> c = fresh n True"
  "CBB_init_fixed alloc n = (True, c) \<Longrightarrow> c = fresh n False"
  by (auto simp: CBB_init_def CBB_init_fixed_def cbb_init_def CBB_zero_def zero_frame_def fresh_def
      split: if_splits bool.splits prod.splits)

definition fresh_buffer :: "nat \<Rightarrow> bool \<Rightarrow> cbb_buffer" where
  "fresh_buffer n resize = \<lparr>buf = [], cap = n, can_resize = resize, error = False\<rparr>"

lemma fresh_ok:
  assumes "n < size_bound"
  shows "cbb_ok (fresh n resize) (fresh_buffer n resize)" "contents (fresh n resize) (fresh_buffer n resize) = []"
    "closes (fresh n resize) (fresh_buffer n resize)" "\<not> is_child (self (fresh n resize))"
  using assms by (simp_all add: fresh_def fresh_buffer_def cbb_ok_def contents_def closes_def buffer_ok_def
      zero_frame_def body_start_def)

lemma CBB_finish_contents:
  assumes "cbb_ok c b" "CBB_finish alloc want_out c = (Some out, c')"
  shows "out = contents c b" and "base c' = None" and "closes c b"
proof -
  obtain c1 where f: "CBB_flush alloc c = (True, c1)" and ch: "\<not> is_child (self c)"
    using assms(2) by (auto simp: CBB_finish_def split: if_splits prod.splits bool.splits)
  note F = CBB_flush_outcome [OF assms(1), of alloc]
  from F(1) f obtain b1 where b1: "self c1 = self c" "base c1 = Some b1" "contents c1 b1 = contents c b"
    by (auto simp: outcome_def)
  moreover have "kids c1 = []" and "closes c b" using F(2) [OF f] by auto
  ultimately show "out = contents c b" "base c' = None" "closes c b"
    using assms(2) f ch by (auto simp: CBB_finish_def CBB_cleanup_def contents_def split: if_splits)
qed

lemma CBB_finish_succeeds:
  assumes "cbb_ok c b" "closes c b" "\<not> is_child (self c)" "room alloc b (length (contents c b))"
  shows "\<exists>c'. CBB_finish alloc True c = (Some (contents c b), c')"
proof -
  note F = CBB_flush_outcome [OF assms(1), of alloc]
  obtain ok c1 where f: "CBB_flush alloc c = (ok, c1)" by fastforce
  then have ok using F(1) assms(2,4) by (auto simp: outcome_def)
  with f F(1) obtain b1 where b1: "self c1 = self c" "base c1 = Some b1" "contents c1 b1 = contents c b"
    by (auto simp: outcome_def)
  moreover have "kids c1 = []" using F(2) f \<open>ok\<close> by simp
  ultimately show ?thesis
    using f \<open>ok\<close> assms(3) by (auto simp: CBB_finish_def contents_def)
qed

text \<open>A whole use of a builder: create it, run an operation, take the result.\<close>

lemma built_contents:
  assumes "appends alloc f xs" "n < size_bound" "f (fresh n resize) = (True, c)"
    and "CBB_finish alloc want_out c = (Some out, c')"
  shows "out = xs"
proof -
  have "outcome alloc (fresh n resize) (fresh_buffer n resize) xs (True, c)"
    using assms(1,3) fresh_ok(1) [OF assms(2)] by (metis appends_def)
  then obtain b where "cbb_ok c b" "contents c b = xs"
    using fresh_ok [OF assms(2)] by (auto simp: outcome_def)
  with CBB_finish_contents(1) assms(4) show ?thesis by blast
qed

lemma built_succeeds:
  assumes "appends alloc f xs" "n < size_bound" "room alloc (fresh_buffer n resize) (length xs)"
  shows "\<exists>c c'. f (fresh n resize) = (True, c) \<and> CBB_finish alloc True c = (Some xs, c')"
proof -
  obtain ok c where f: "f (fresh n resize) = (ok, c)" by fastforce
  then have "outcome alloc (fresh n resize) (fresh_buffer n resize) xs (ok, c)"
    using assms(1) fresh_ok(1) [OF assms(2)] by (metis appends_def)
  moreover from this have ok using assms(3) fresh_ok [OF assms(2)] by (simp add: outcome_def)
  ultimately obtain b where b: "cbb_ok c b" "contents c b = xs" "closes c b" "self c = self (fresh n resize)"
      "extends_buffer (fresh_buffer n resize) b"
    using fresh_ok [OF assms(2)] by (auto simp: outcome_def)
  have "room alloc b (length (contents c b))"
    using room_mono [OF assms(3) _ b(5)] b(2) by simp
  then obtain c' where "CBB_finish alloc True c = (Some xs, c')"
    using CBB_finish_succeeds [OF b(1,3)] b(2,4) fresh_ok(4) [OF assms(2)] by auto
  with f \<open>ok\<close> show ?thesis by auto
qed

text \<open>Once the error flag is set, no operation that flushes does anything.\<close>

definition failed :: "cbb \<Rightarrow> bool" where
  "failed c = (case base c of None \<Rightarrow> True | Some b \<Rightarrow> error b)"

lemma flush_failed: "failed c \<Longrightarrow> CBB_flush alloc c = (False, c)"
proof (cases "base c")
  case (Some b)
  assume "failed c"
  with Some have "cbb_flush alloc b (kids c) = (False, b, kids c)"
    by (cases "kids c") (simp_all add: failed_def)
  with Some show ?thesis by (simp add: CBB_flush_def)
qed (simp add: CBB_flush_def)

lemma and_then_failed: "f c = (False, c) \<Longrightarrow> and_then f g c = (False, c)"
  by (simp add: and_then_def)

lemmas failed_intros = and_then_failed flush_failed

section \<open>Every operation keeps the builder well-formed\<close>

definition safe_at :: "cbb \<Rightarrow> cbb_buffer \<Rightarrow> bool \<times> cbb \<Rightarrow> bool" where
  "safe_at c b r = (case r of (ok, c') \<Rightarrow> self c' = self c \<and>
     (\<exists>b'. base c' = Some b' \<and> extends_buffer b b' \<and> (if ok then cbb_ok c' b' else error b')))"

definition cbb_safe :: "cbb_op \<Rightarrow> bool" where
  "cbb_safe f = (\<forall>c b. cbb_ok c b \<longrightarrow> safe_at c b (f c))"

lemma outcome_safe_at: "outcome alloc c b xs r \<Longrightarrow> safe_at c b r"
  by (auto simp: outcome_def safe_at_def split: if_splits)

lemma appends_safe: "appends alloc f xs \<Longrightarrow> cbb_safe f"
  unfolding appends_def cbb_safe_def using outcome_safe_at by blast

lemma safe_at_and_then:
  assumes f: "safe_at c b (f c)" and g: "\<And>c' b'. f c = (True, c') \<Longrightarrow> cbb_ok c' b' \<Longrightarrow> safe_at c' b' (g c')"
  shows "safe_at c b (and_then f g c)"
proof -
  obtain ok c1 where f1: "f c = (ok, c1)" by fastforce
  then obtain b1 where b1: "self c1 = self c" "base c1 = Some b1" "extends_buffer b b1"
      "if ok then cbb_ok c1 b1 else error b1"
    using f by (auto simp: safe_at_def)
  show ?thesis
  proof (cases ok)
    case True
    obtain ok2 c2 where g2: "g c1 = (ok2, c2)" by fastforce
    have "safe_at c1 b1 (ok2, c2)" using g [of c1 b1] f1 g2 True b1 by simp
    then show ?thesis
      using f1 g2 True b1 extends_buffer_trans [OF b1(3)] by (auto simp: and_then_def safe_at_def)
  next
    case False
    then show ?thesis using f1 b1 by (auto simp: and_then_def safe_at_def)
  qed
qed

lemma safe_and_then: "cbb_safe f \<Longrightarrow> cbb_safe g \<Longrightarrow> cbb_safe (and_then f g)"
  by (simp add: cbb_safe_def safe_at_and_then)

lemma flush_then_safe:
  assumes "\<And>c b. cbb_ok c b \<Longrightarrow> kids c = [] \<Longrightarrow> safe_at c b (g c)"
  shows "cbb_safe (and_then (CBB_flush alloc) g)"
  unfolding cbb_safe_def
proof (intro allI impI)
  fix c b
  assume c: "cbb_ok c b"
  show "safe_at c b (and_then (CBB_flush alloc) g c)"
    using outcome_safe_at [OF CBB_flush_outcome(1) [OF c]] CBB_flush_outcome(2) [OF c] assms
    by (intro safe_at_and_then) auto
qed

lemma open_safe_at:
  assumes z: "outcome alloc c b (replicate n 0) (zeros c)" "\<And>c'. zeros c = (True, c') \<Longrightarrow> kids c' = []"
    and n: "\<And>off. frame_ok (child_frame off n asn1)" and c: "cbb_ok c b" "kids c = []"
  shows "safe_at c b (and_then zeros (open_child (base_len c) n asn1) c)"
proof -
  have len: "contents c b = buf b" "body_start (self c) \<le> length (buf b)" "base_len c = length (buf b)"
    using c by (simp_all add: contents_def cbb_ok_def base_len_def)
  obtain ok c1 where f: "zeros c = (ok, c1)" by fastforce
  then obtain b1 where b1: "self c1 = self c" "base c1 = Some b1" "extends_buffer b b1"
      "if ok then cbb_ok c1 b1 \<and> contents c1 b1 = buf b @ replicate n 0 else error b1"
    using z(1) len by (auto simp: outcome_def split: if_splits)
  have "cbb_ok (c1\<lparr>kids := [child_frame (length (buf b)) n asn1]\<rparr>) b1" if ok
  proof -
    have "length (buf b1) = length (buf b) + n" using z(2) f b1 that by (simp add: contents_def)
    then show ?thesis
      using that b1 len n [of "length (buf b)"]
      by (simp add: cbb_ok_def body_start_def) (simp add: child_frame_def)
  qed
  with f b1 len show ?thesis
    by (auto simp: and_then_def open_child_eq safe_at_def split: bool.splits)
qed

lemma safe_add_length_prefixed:
  assumes n: "0 < n" "n \<le> 8"
  shows "cbb_safe (cbb_add_length_prefixed alloc n)"
  unfolding cbb_add_length_prefixed_def Let_def
proof (rule flush_then_safe)
  fix c b
  let ?zeros = "on_base (cbb_buffer_add alloc (replicate n 0))"
  assume c: "cbb_ok c b" "kids c = []"
  obtain ok b' where r: "cbb_buffer_add alloc (replicate n 0) b = (ok, b')" by fastforce
  have "buffer_ok b" "length (replicate n (0 :: u8)) < size_bound" using c n by (simp_all add: cbb_ok_def)
  note A = cbb_buffer_add_spec [OF this r]
  have "outcome alloc c b (replicate n 0) (?zeros c)"
    by (rule on_base_outcome [where f = "cbb_buffer_add alloc (replicate n 0)", OF c r A(2,1,3)])
  moreover have "frame_ok (child_frame off n False)" for off
    using n by (simp add: frame_ok_def child_frame_def)
  ultimately show "safe_at c b (and_then ?zeros (open_child (base_len c) n False) c)"
    using on_base_kids [of _ c] c by (intro open_safe_at) auto
qed

definition identifier_op :: "allocator \<Rightarrow> u32 \<Rightarrow> cbb_op" where
  "identifier_op alloc tag =
     (let tag_bits = ucast (drop_bit CBS_ASN1_TAG_SHIFT tag) AND 0xe0 :: u8;
          tag_number = tag AND CBS_ASN1_TAG_NUMBER_MASK
      in if tag_number \<ge> 0x1f
         then and_then (CBB_add_u8 alloc (tag_bits OR 0x1f)) (add_base128_integer alloc (ucast tag_number))
         else CBB_add_u8 alloc (tag_bits OR ucast tag_number))"

lemma identifier_op_kids: "identifier_op alloc tag c = (True, c') \<Longrightarrow> kids c = [] \<Longrightarrow> kids c' = []"
  by (auto simp: identifier_op_def add_base128_integer_def and_then_def Let_def
      split: prod.splits bool.splits if_splits dest: CBB_add_u8_kids base128_loop_kids)

lemma safe_add_asn1: "cbb_safe (CBB_add_asn1 alloc tag)"
proof -
  let ?open = "\<lambda>c. and_then (CBB_add_u8 alloc 0) (open_child (base_len c) 1 True) c"
  have eq: "CBB_add_asn1 alloc tag = and_then (CBB_flush alloc) (and_then (identifier_op alloc tag) ?open)"
    unfolding CBB_add_asn1_def identifier_op_def Let_def ..
  have ident: "appends alloc (identifier_op alloc tag) (der_identifier tag)"
    unfolding identifier_op_def Let_def by (rule appends_identifier)
  have f: "frame_ok (child_frame off 1 True)" for off by (simp add: frame_ok_def child_frame_def)
  have o: "safe_at c b (?open c)" if "cbb_ok c b" "kids c = []" for c b
    using add_u8_zero_outcome [OF that(1)] CBB_add_u8_kids [of alloc 0 c] f that by (intro open_safe_at) auto
  have "safe_at c b (and_then (identifier_op alloc tag) ?open c)" if c: "cbb_ok c b" "kids c = []" for c b
  proof (rule safe_at_and_then)
    show "safe_at c b (identifier_op alloc tag c)"
      using ident c(1) unfolding appends_def by (blast intro: outcome_safe_at)
    show "safe_at c' b' (?open c')" if "identifier_op alloc tag c = (True, c')" "cbb_ok c' b'" for c' b'
      using o [OF that(2) identifier_op_kids [OF that(1) c(2)]] .
  qed
  then show ?thesis
    unfolding eq by (rule flush_then_safe)
qed

lemma safe_on_child:
  assumes f: "cbb_safe f" and c: "cbb_ok c b" "kids c \<noteq> []"
  shows "safe_at c b (on_child f c)"
proof -
  obtain k ks where k: "kids c = k # ks" using c(2) by (cases "kids c") auto
  define v where "v = \<lparr>base = base c, self = k, kids = ks\<rparr>"
  have "cbb_ok v b" using c k by (simp add: cbb_ok_def v_def)
  then have "safe_at v b (f v)" using f unfolding cbb_safe_def by blast
  then obtain ok v' b' where v': "f v = (ok, v')" "self v' = k" "base v' = Some b'" "extends_buffer b b'"
      "if ok then cbb_ok v' b' else error b'"
    unfolding safe_at_def v_def by (auto split: prod.splits)
  have run: "on_child f c = (ok, c\<lparr>base := Some b', kids := k # kids v'\<rparr>)"
    using v' k by (simp add: on_child_def v_def)
  have "cbb_ok (c\<lparr>base := Some b', kids := k # kids v'\<rparr>) b'" if ok
    using that v' c k by (simp add: cbb_ok_def)
  with v' show ?thesis unfolding run safe_at_def by simp
qed

lemma wf_kids_shrink: "wf_kids lo n (k # ks) \<Longrightarrow> lo \<le> offset k \<and> offset k \<le> n"
  using wf_kids_le [of "body_start k" n ks] by (simp add: body_start_def)

lemma safe_discard: "cbb_ok c b \<Longrightarrow> \<exists>b'. cbb_ok (CBB_discard_child c) b' \<and> extends_buffer b b' \<and> kids (CBB_discard_child c) = []"
proof (cases "kids c")
  case (Cons k ks)
  assume "cbb_ok c b"
  with Cons wf_kids_shrink [of "body_start (self c)" "length (buf b)" k ks] show ?thesis
    by (intro exI [of _ "b\<lparr>buf := take (offset k) (buf b)\<rparr>"])
       (auto simp: CBB_discard_child_def cbb_ok_def buffer_ok_def extends_buffer_def)
qed (auto simp: CBB_discard_child_def)

lemma safe_reserve: "n < size_bound \<Longrightarrow> cbb_safe (CBB_reserve alloc n)"
  unfolding CBB_reserve_def
proof (rule flush_then_safe)
  fix c b
  assume n: "n < size_bound" and c: "cbb_ok c b" "kids c = []"
  obtain ok b' where r: "cbb_buffer_reserve alloc n b = (ok, b')" by fastforce
  have "buffer_ok b" using c by (simp add: cbb_ok_def)
  note R = cbb_buffer_reserve_spec [OF this n r]
  show "safe_at c b (on_base (cbb_buffer_reserve alloc n) c)"
    using c r R by (auto simp: on_base_def safe_at_def cbb_ok_def split: if_splits)
qed

lemma safe_add_u:
  assumes "0 < n" "n \<le> 8"
  shows "cbb_safe (cbb_add_u alloc n v)"
  unfolding cbb_add_u_def
proof (rule flush_then_safe)
  fix c b
  assume c: "cbb_ok c b" "kids c = []"
  obtain ok b' where r: "cbb_buffer_add_u alloc v n b = (ok, b')" by fastforce
  have "buffer_ok b" using c by (simp add: cbb_ok_def)
  note A = cbb_buffer_add_u_spec [OF this assms r]
  show "safe_at c b (on_base (cbb_buffer_add_u alloc v n) c)"
    using c r A(1,2) by (auto simp: on_base_def safe_at_def cbb_ok_def split: if_splits)
qed

section \<open>Properties\<close>

lemmas cbb_eval = CBB_add_bytes_def CBB_add_u8_length_prefixed_def cbb_add_length_prefixed_def and_then_def
  CBB_flush_def on_base_def cbb_buffer_add_def cbb_buffer_reserve_def cbb_add_u_def cbb_buffer_add_u_def
  CBB_init_def CBB_init_fixed_def cbb_init_def CBB_zero_def fresh_def failed_def zero_frame_def
  base_len_def open_child_def Let_def

text \<open>
  C4: \<open>CBB_flush\<close>.  On a well-formed builder a successful flush closes every open child,
  innermost first: the bytes are \<open>close_kids\<close> of the bytes before, in which each pending
  prefix is the (big-endian or DER) length of everything after it.  The flush fails, and sets
  the error flag, when a length does not fit; when all fit and there is room it succeeds.\<close>

theorem cbb_flush_closes:
  assumes "cbb_ok c b" "CBB_flush alloc c = (ok, c')"
  shows "if ok then close_ok (buf b) (kids c) \<and> kids c' = [] \<and>
            (\<exists>b'. base c' = Some b' \<and> buf b' = close_kids (buf b) (kids c) \<and> buffer_ok b')
         else failed c' \<and> \<not> (close_ok (buf b) (kids c) \<and> room alloc b (length (close_kids (buf b) (kids c))))"
proof (cases ok)
  case True
  note F = CBB_flush_outcome [OF assms(1), of alloc]
  from True have k: "kids c' = []" "closes c b" using F(2) assms(2) by auto
  moreover obtain b' where "base c' = Some b'" "cbb_ok c' b'" "contents c' b' = contents c b"
    using F(1) assms(2) True by (auto simp: outcome_def)
  ultimately show ?thesis
    using True by (auto simp: closes_def contents_def cbb_ok_def)
next
  case False
  then show ?thesis
    using CBB_flush_outcome(1) [OF assms(1), of alloc] assms(2)
    by (auto simp: outcome_def failed_def closes_def contents_def)
qed

lemma cbb_flush_closes_witness:
  "let k = child_frame 0 1 True; c = (fresh 400 False)\<lparr>
      base := Some \<lparr>buf = 0 # replicate 200 7, cap = 400, can_resize = False, error = False\<rparr>, kids := [k]\<rparr>
   in fst (CBB_flush (\<lambda>_. True) c) \<and>
      (\<exists>b'. base (snd (CBB_flush (\<lambda>_. True) c)) = Some b' \<and> buf b' = 0x81 # 200 # replicate 200 7)"
proof -
  define b where "b = \<lparr>buf = 0 # replicate 200 7, cap = 400, can_resize = False, error = False\<rparr>"
  define c where "c = (fresh 400 False)\<lparr>base := Some b, kids := [child_frame 0 1 True]\<rparr>"
  have b: "buf b = 0 # replicate 200 7" by (simp add: b_def)
  have ok: "cbb_ok c b"
    by (simp add: c_def b_def cbb_ok_def buffer_ok_def fresh_def zero_frame_def body_start_def child_frame_def
        frame_ok_def)
  have "nat_bytes 200 = 1" by (simp add: nat_bytes.simps [of 200] nat_bytes.simps [of 0])
  then have der: "der_length 200 = [0x81, 200]" by (simp add: der_length_def)
  have close: "close_kids (buf b) (kids c) = 0x81 # 200 # replicate 200 7" "close_ok (buf b) (kids c)"
    unfolding b c_def by (simp_all add: body_start_def child_frame_def length_prefix_def prefix_fits_def Let_def der)
  have room: "room (\<lambda>_. True) b (length (close_kids (buf b) (kids c)))"
    unfolding close by (simp add: room_def b_def)
  obtain r c' where f: "CBB_flush (\<lambda>_. True) c = (r, c')" by fastforce
  with cbb_flush_closes [OF ok f] close room have r "\<exists>b'. base c' = Some b' \<and> buf b' = 0x81 # 200 # replicate 200 7"
    by (auto split: if_splits)
  with f show ?thesis by (simp add: c_def b_def Let_def)
qed

text \<open>
  C21: fixed-width integers.  \<open>CBB_add_u24\<close> takes a 32-bit value: on a well-formed
  builder it appends the three big-endian bytes of a value below 2^24, and it succeeds for every such value when the pending
  prefixes fit and there is room; for any larger value it fails and sets the error flag rather than truncate.\<close>

theorem cbb_add_u24_checked:
  assumes "cbb_ok c b" "CBB_add_u24 alloc v c = (ok, c')"
  shows "(ok \<longrightarrow> unat v < 2 ^ 24 \<and> (\<exists>b'. base c' = Some b' \<and>
      close_kids (buf b') (kids c') = close_kids (buf b) (kids c) @ nat_be 3 (unat v))) \<and>
    (\<not> ok \<longrightarrow> failed c') \<and>
    (unat v < 2 ^ 24 \<and> close_ok (buf b) (kids c) \<and> room alloc b (length (close_kids (buf b) (kids c)) + 3) \<longrightarrow> ok)"
proof -
  have v: "unat (ucast v :: u64) = unat v"
    by (rule unat_ucast_u32)
  show ?thesis
  proof (cases "unat v < 2 ^ 24")
    case True
    then have "appends alloc (cbb_add_u alloc 3 (ucast v)) (nat_be 3 (unat (ucast v :: u64)))"
      by (intro appends_u) (simp_all add: v)
    then have "outcome alloc c b (nat_be 3 (unat v)) (ok, c')"
      using assms by (metis appends_def CBB_add_u24_def v)
    with True show ?thesis by (auto simp: outcome_def contents_def closes_def failed_def)
  next
    case False
    have "CBB_flush alloc c = (True, c1) \<Longrightarrow> fst (on_base (cbb_buffer_add_u alloc (ucast v) 3) c1)
        \<Longrightarrow> \<exists>b1. base c1 = Some b1 \<and> cbb_ok c1 b1 \<Longrightarrow> False" for c1
    proof -
      assume "fst (on_base (cbb_buffer_add_u alloc (ucast v) 3) c1)" "\<exists>b1. base c1 = Some b1 \<and> cbb_ok c1 b1"
      then obtain b1 b2 where "cbb_ok c1 b1" "cbb_buffer_add_u alloc (ucast v) 3 b1 = (True, b2)"
        by (auto simp: on_base_def split: prod.splits)
      then have "unat (ucast v :: u64) < 256 ^ 3"
        using cbb_buffer_add_u_spec(1) [of b1 3 alloc "ucast v" True b2] by (simp add: cbb_ok_def)
      with False v show False by simp
    qed
    moreover have "cbb_safe (CBB_add_u24 alloc v)"
      unfolding CBB_add_u24_def by (rule safe_add_u) simp_all
    then have "safe_at c b (ok, c')" using assms unfolding cbb_safe_def by metis
    moreover have "\<exists>b1. base c1 = Some b1 \<and> cbb_ok c1 b1" if "CBB_flush alloc c = (True, c1)" for c1
      using CBB_flush_outcome(1) [OF assms(1), of alloc] that by (auto simp: outcome_def)
    ultimately show ?thesis
      using assms(2) False by (auto simp: CBB_add_u24_def cbb_add_u_def and_then_def safe_at_def failed_def
          split: prod.splits bool.splits)
  qed
qed

lemma cbb_add_u24_checked_witness:
  "failed (snd (CBB_add_u24 (\<lambda>_. True) 0x1000000 (fresh 8 False))) \<and>
    fst (CBB_add_u24 (\<lambda>_. True) 0xFFFFFF (fresh 8 False)) \<and>
    map_option buf (base (snd (CBB_add_u24 (\<lambda>_. True) 0xFFFFFF (fresh 8 False)))) = Some [255, 255, 255]"
proof -
  obtain ok c' where r: "CBB_add_u24 (\<lambda>_. True) 0x1000000 (fresh 8 False) = (ok, c')" by fastforce
  obtain ok2 c2 where r2: "CBB_add_u24 (\<lambda>_. True) 0xFFFFFF (fresh 8 False) = (ok2, c2)" by fastforce
  have f: "cbb_ok (fresh 8 False) (fresh_buffer 8 False)" by (rule fresh_ok) simp
  have empty: "buf (fresh_buffer 8 False) = []" "kids (fresh 8 False) = []" "cap (fresh_buffer 8 False) = 8"
    by (simp_all add: fresh_buffer_def fresh_def)
  then have ok2 using cbb_add_u24_checked [OF f r2] by (simp add: room_def)
  moreover have "kids c2 = []"
    using r2 \<open>ok2\<close> by (auto simp: CBB_add_u24_def empty intro: cbb_add_u_kids)
  moreover have "nat_be 3 0xFFFFFF = [255, 255, 255]" by (simp add: numeral_3_eq_3)
  ultimately show ?thesis
    using cbb_add_u24_checked [OF f r] cbb_add_u24_checked [OF f r2] r r2 empty by (auto split: if_splits)
qed

end
