(* ===== verification/Ber.thy ===== *)
theory Ber
  imports Cbb
begin

text \<open>
  \<open>crypto/bytestring/ber.c\<close>: the search for BER constructs, the conversion to DER and
  implicitly tagged strings.  The search recurses on ever shorter inputs; the conversion
  goes on with what its recursive calls leave of the input, and has fuel for its rounds,
  of which the length of the input is enough (\<open>convert_ber_fuel\<close>).
\<close>

section \<open>Definitions\<close>

abbreviation kMaxDepth :: nat where "kMaxDepth \<equiv> 2048"

definition string_types :: "u32 list" where
  "string_types = [0x3, 0x4, 0xc, 0x12, 0x13, 0x14, 0x15, 0x16, 0x19, 0x1a, 0x1b, 0x1c, 0x1e]"

definition is_string_type :: "u32 \<Rightarrow> bool" where
  "is_string_type tag = (tag AND NOT CBS_ASN1_CONSTRUCTED \<in> set string_types)"

definition indefinite_length :: "cbs \<Rightarrow> nat \<Rightarrow> bool" where
  "indefinite_length element header_len =
     (CBS_len element = header_len \<and> header_len > 0 \<and> CBS_data element ! (header_len - 1) = 0x80)"

text \<open>What \<open>CBS_get_any_ber_asn1_element\<close> accepts beyond DER.\<close>

lemma element_indefinite:
  assumes "parse_asn1_tag s = (Some t, 0x80 # r)" "t AND CBS_ASN1_CONSTRUCTED \<noteq> 0"
  shows "cbs_get_any_asn1_element True s = (Some (der_identifier t @ [0x80], t, Suc (length (der_identifier t))), r)"
    and "cbs_get_any_asn1_element False s = (None, s)"
proof -
  have s: "s = der_identifier t @ 0x80 # r" using tag.canonical [OF assms(1)] by simp
  then have hl: "CBS_len s - CBS_len r = Suc (length (der_identifier t))" by (simp add: CBS_len_def)
  have bytes: "CBS_get_bytes (Suc (length (der_identifier t))) s = (Some (der_identifier t @ [0x80]), r)"
    by (simp add: CBS_get_bytes_eq s)
  show "cbs_get_any_asn1_element True s = (Some (der_identifier t @ [0x80], t, Suc (length (der_identifier t))), r)"
    unfolding cbs_get_any_asn1_element_def assms(1) using assms(2) by (simp add: CBS_get_u8_simps hl bytes)
  show "cbs_get_any_asn1_element False s = (None, s)"
    unfolding cbs_get_any_asn1_element_def assms(1) by (simp add: CBS_get_u8_simps Let_def)
qed

lemma element_definite:
  assumes "\<nexists>t r. parse_asn1_tag s = (Some t, 0x80 # r) \<and> t AND CBS_ASN1_CONSTRUCTED \<noteq> 0"
  shows "cbs_get_any_asn1_element True s = cbs_get_any_asn1_element False s"
proof (cases "\<exists>t lb r. parse_asn1_tag s = (Some t, lb # r)")
  case False
  then have "parse_asn1_tag s = (None, snd (parse_asn1_tag s)) \<or> (\<exists>t. parse_asn1_tag s = (Some t, []))"
    by (cases "parse_asn1_tag s"; cases "snd (parse_asn1_tag s)"; cases "fst (parse_asn1_tag s)") auto
  then show ?thesis
    by (auto simp: cbs_get_any_asn1_element_def CBS_get_u8_simps split: prod.splits)
next
  case True
  then obtain t lb r where p: "parse_asn1_tag s = (Some t, lb # r)" by blast
  have "unat (lb AND 0x7f) = 0 \<and> lb AND 0x80 \<noteq> 0 \<longleftrightarrow> lb = 0x80"
  proof -
    have "lb = 0x80 \<longleftrightarrow> unat lb = 128" by (simp add: u8_eq_iff)
    moreover have "unat lb mod 128 = 0 \<and> \<not> unat lb < 128 \<longleftrightarrow> unat lb = 128"
      using unat_u8_less [of lb] by presburger
    ultimately show ?thesis by (simp only: u8_and_0x7f u8_and_0x80)
  qed
  then have "lb AND 0x80 = 0 \<or> unat (lb AND 0x7f) \<noteq> 0 \<or> t AND CBS_ASN1_CONSTRUCTED = 0"
    using assms p by auto
  then show ?thesis
    unfolding cbs_get_any_asn1_element_def p by (elim disjE) (simp_all add: CBS_get_u8_simps Let_def)
qed

lemma any_ber_element_cases:
  "CBS_get_any_ber_asn1_element s = (Some (c, tag, h), s') \<longleftrightarrow>
     CBS_get_any_asn1_element s = (Some (c, tag, h), s') \<or>
     (tag AND CBS_ASN1_CONSTRUCTED \<noteq> 0 \<and> c = der_identifier tag @ [0x80] \<and> h = length c \<and> s = c @ s')"
  (is "?L \<longleftrightarrow> ?D \<or> ?I")
proof (cases "\<exists>t r. parse_asn1_tag s = (Some t, 0x80 # r) \<and> t AND CBS_ASN1_CONSTRUCTED \<noteq> 0")
  case True
  then obtain t r where p: "parse_asn1_tag s = (Some t, 0x80 # r)" "t AND CBS_ASN1_CONSTRUCTED \<noteq> 0" by blast
  note E = element_indefinite [OF p]
  have "?L \<longleftrightarrow> c = der_identifier t @ [0x80] \<and> tag = t \<and> h = Suc (length (der_identifier t)) \<and> s' = r"
    unfolding CBS_get_any_ber_asn1_element_def E(1) by blast
  moreover have "?I \<longleftrightarrow> c = der_identifier t @ [0x80] \<and> tag = t \<and> h = Suc (length (der_identifier t)) \<and> s' = r"
  proof
    assume I: ?I
    then have "s = der_identifier tag @ 0x80 # s'" by simp
    then have "parse_asn1_tag s = (Some tag, 0x80 # s')" using tag.rd_enc by simp
    with p I show "c = der_identifier t @ [0x80] \<and> tag = t \<and> h = Suc (length (der_identifier t)) \<and> s' = r" by simp
  next
    have "s = der_identifier t @ 0x80 # r" using tag.canonical [OF p(1)] by simp
    with p(2) show "c = der_identifier t @ [0x80] \<and> tag = t \<and> h = Suc (length (der_identifier t)) \<and> s' = r \<Longrightarrow> ?I"
      by simp
  qed
  moreover have "\<not> ?D" unfolding CBS_get_any_asn1_element_def E(2) by simp
  ultimately show ?thesis by blast
next
  case False
  have "\<not> ?I"
  proof
    assume I: ?I
    then have "s = der_identifier tag @ 0x80 # s'" by simp
    then have "parse_asn1_tag s = (Some tag, 0x80 # s')" using tag.rd_enc by simp
    with False I show False by blast
  qed
  then show ?thesis
    unfolding CBS_get_any_ber_asn1_element_def CBS_get_any_asn1_element_def element_definite [OF False] by blast
qed

lemma any_ber_element_props:
  assumes "CBS_get_any_ber_asn1_element s = (Some (c, tag, h), s')"
  shows "s = c @ s'" and "0 < h" and "h \<le> length c"
  using assms by (auto simp: any_ber_element_cases any_element_iff der_element_def)

lemma any_ber_element_length:
  assumes "CBS_get_any_ber_asn1_element s = (Some (c, tag, h), s')"
  shows "length s' < length s" and "CBS_skip h c = (Some (), c') \<Longrightarrow> length c' < length s"
  using any_ber_element_props [OF assms] by (auto simp: CBS_skip_eq split: if_splits)

function cbs_find_ber_loop :: "nat \<Rightarrow> cbs \<Rightarrow> bool \<Rightarrow> bool option" where
  "cbs_find_ber_loop depth s ber_found =
     (if CBS_len s > 0
      then (case CBS_get_any_ber_asn1_element s of
              (None, _) \<Rightarrow> None
            | (Some (element, tag, header_len), s) \<Rightarrow>
                if indefinite_length element header_len then Some True
                else if tag AND CBS_ASN1_CONSTRUCTED \<noteq> 0
                then if is_string_type tag then Some True
                     else (case CBS_skip header_len element of
                             (None, _) \<Rightarrow> None
                           | (Some _, element) \<Rightarrow>
                               (case (if depth + 1 > kMaxDepth then None
                                      else cbs_find_ber_loop (depth + 1) element False) of
                                  None \<Rightarrow> None
                                | Some ber_found \<Rightarrow> cbs_find_ber_loop depth s ber_found))
                else cbs_find_ber_loop depth s ber_found)
      else Some ber_found)"
  by pat_completeness auto
termination
  by (relation "measure (\<lambda>(depth, s, f). length s)")
     (auto dest!: sym [of "(Some _, _)"] dest: any_ber_element_length)

declare cbs_find_ber_loop.simps [simp del]

definition cbs_find_ber :: "cbs \<Rightarrow> nat \<Rightarrow> bool option" where
  "cbs_find_ber orig_in depth =
     (if depth > kMaxDepth then None else cbs_find_ber_loop depth orig_in False)"

definition is_eoc :: "nat \<Rightarrow> cbs \<Rightarrow> bool" where
  "is_eoc header_len element =
     (header_len = 2 \<and> CBS_len element = 2 \<and> OPENSSL_memcmp (CBS_data element) [0, 0] 2 = 0)"

text \<open>\<open>out_contents\<close> is the new child or \<open>out\<close> itself.\<close>

definition in_child :: "bool \<Rightarrow> (cbb \<Rightarrow> 'r \<times> cbb) \<Rightarrow> cbb \<Rightarrow> 'r \<times> cbb" where
  "in_child has_child f = (if has_child then on_child f else f)"

definition convert_tags :: "u32 \<Rightarrow> u32 \<Rightarrow> u32 \<times> u32" where
  "convert_tags string_tag tag =
     (if string_tag = 0 \<and> tag AND CBS_ASN1_CONSTRUCTED \<noteq> 0 \<and> is_string_type tag
      then let out_tag = tag AND NOT CBS_ASN1_CONSTRUCTED in (out_tag, out_tag)
      else (tag, string_tag))"

text \<open>The result says whether the call succeeded and what is left of the input.  The
  recursive calls are the argument \<open>rec\<close>; \<open>convert_element\<close> is what a round of the loop
  does with an element that is not the end of contents.\<close>

type_synonym ber_converter = "u32 \<Rightarrow> bool \<Rightarrow> nat \<Rightarrow> cbs \<Rightarrow> cbb \<Rightarrow> (bool \<times> cbs) \<times> cbb"

definition convert_element ::
  "ber_converter \<Rightarrow> allocator \<Rightarrow> u32 \<Rightarrow> nat \<Rightarrow> cbs \<Rightarrow> u32 \<Rightarrow> nat \<Rightarrow> cbs \<Rightarrow> cbb \<Rightarrow> (bool \<times> cbs) \<times> cbb" where
  "convert_element rec alloc string_tag depth element tag header_len s out =
     (if string_tag \<noteq> 0 \<and> tag AND NOT CBS_ASN1_CONSTRUCTED \<noteq> string_tag then ((False, s), out)
      else (case convert_tags string_tag tag of (out_tag, child_string_tag) \<Rightarrow>
        (case (if string_tag = 0 then CBB_add_asn1 alloc out_tag out else (True, out)) of
           (False, out) \<Rightarrow> ((False, s), out)
         | (True, out) \<Rightarrow>
             if indefinite_length element header_len
             then (case in_child (string_tag = 0) (rec child_string_tag True (depth + 1) s) out of
                     ((False, s), out) \<Rightarrow> ((False, s), out)
                   | ((True, s), out) \<Rightarrow> (case CBB_flush alloc out of (ok, out) \<Rightarrow> ((ok, s), out)))
             else (case CBS_skip header_len element of
                     (None, _) \<Rightarrow> ((False, s), out)
                   | (Some _, element) \<Rightarrow>
                       (case (if tag AND CBS_ASN1_CONSTRUCTED \<noteq> 0
                              then (case in_child (string_tag = 0) (rec child_string_tag False (depth + 1) element) out of
                                      ((ok, _), out) \<Rightarrow> (ok, out))
                              else in_child (string_tag = 0) (CBB_add_bytes alloc element) out) of
                          (False, out) \<Rightarrow> ((False, s), out)
                        | (True, out) \<Rightarrow> (case CBB_flush alloc out of (ok, out) \<Rightarrow> ((ok, s), out)))))))"

definition convert_round :: "ber_converter \<Rightarrow> allocator \<Rightarrow> ber_converter" where
  "convert_round rec alloc string_tag looking_for_eoc depth s out =
     (if depth > kMaxDepth then ((False, s), out)
      else if CBS_len s > 0
      then (case CBS_get_any_ber_asn1_element s of
              (None, s) \<Rightarrow> ((False, s), out)
            | (Some (element, tag, header_len), s) \<Rightarrow>
                if is_eoc header_len element then ((looking_for_eoc, s), out)
                else (case convert_element rec alloc string_tag depth element tag header_len s out of
                        ((False, s), out) \<Rightarrow> ((False, s), out)
                      | ((True, s), out) \<Rightarrow> rec string_tag looking_for_eoc depth s out))
      else ((\<not> looking_for_eoc, s), out))"

fun cbs_convert_ber :: "nat \<Rightarrow> allocator \<Rightarrow> ber_converter" where
  "cbs_convert_ber 0 alloc = (\<lambda>string_tag looking_for_eoc depth s out. ((False, s), out))"
| "cbs_convert_ber (Suc fuel) alloc = convert_round (cbs_convert_ber fuel alloc) alloc"

text \<open>The value is \<open>*out\<close> and \<open>*out_storage\<close> (\<open>None\<close> for NULL).\<close>

definition CBS_asn1_ber_to_der :: "allocator \<Rightarrow> (cbs \<times> u8 list option) reader" where
  "CBS_asn1_ber_to_der alloc s = (case cbs_find_ber s 0 of
     None \<Rightarrow> (None, s)
   | Some conversion_needed \<Rightarrow>
       if \<not> conversion_needed
       then (case CBS_get_any_asn1_element s of
               (None, s) \<Rightarrow> (None, s) | (Some (out, _, _), s) \<Rightarrow> (Some (out, None), s))
       else (case CBB_init alloc (CBS_len s) of
               (False, _) \<Rightarrow> (None, s)
             | (True, cbb) \<Rightarrow> (case cbs_convert_ber (length s + 1) alloc 0 False 0 s cbb of
                 ((False, s), _) \<Rightarrow> (None, s)
               | ((True, s), cbb) \<Rightarrow> (case CBB_finish alloc True cbb of
                   (None, _) \<Rightarrow> (None, s)
                 | (Some storage, _) \<Rightarrow> (Some (CBS_init storage (length storage), Some storage), s)))))"

function implicit_string_loop :: "allocator \<Rightarrow> u32 \<Rightarrow> cbs \<Rightarrow> cbb_op" where
  "implicit_string_loop alloc inner_tag child =
     (if CBS_len child > 0
      then (case CBS_get_asn1 inner_tag child of
              (None, _) \<Rightarrow> Pair False
            | (Some chunk, child) \<Rightarrow>
                and_then (CBB_add_bytes alloc (CBS_data chunk)) (implicit_string_loop alloc inner_tag child))
      else Pair True)"
  by pat_completeness auto
termination
proof (relation "measure (\<lambda>(alloc, t, s). length s)")
  fix alloc :: allocator and inner_tag :: u32 and child x y xa
  assume "0 < CBS_len child" "(x, y) = CBS_get_asn1 inner_tag child" "x = Some xa"
  then have "child = der_element inner_tag xa @ y"
    using CBS_get_asn1_iff [of inner_tag child xa y] by simp
  then show "((alloc, inner_tag, y), alloc, inner_tag, child) \<in> measure (\<lambda>(alloc, t, s). length s)"
    by simp
qed simp

declare implicit_string_loop.simps [simp del]

definition CBS_get_asn1_implicit_string :: "allocator \<Rightarrow> u32 \<Rightarrow> u32 \<Rightarrow> (cbs \<times> u8 list option) reader" where
  "CBS_get_asn1_implicit_string alloc outer_tag inner_tag s =
     (if CBS_peek_asn1_tag s outer_tag
      then (case CBS_get_asn1 outer_tag s of (None, s) \<Rightarrow> (None, s) | (Some out, s) \<Rightarrow> (Some (out, None), s))
      else (case CBB_init alloc (CBS_len s) of
              (False, _) \<Rightarrow> (None, s)
            | (True, result) \<Rightarrow> (case CBS_get_asn1 (outer_tag OR CBS_ASN1_CONSTRUCTED) s of
                (None, s) \<Rightarrow> (None, s)
              | (Some child, s) \<Rightarrow> (case implicit_string_loop alloc inner_tag child result of
                  (False, _) \<Rightarrow> (None, s)
                | (True, result) \<Rightarrow> (case CBB_finish alloc True result of
                    (None, _) \<Rightarrow> (None, s)
                  | (Some data, _) \<Rightarrow> (Some (CBS_init data (length data), Some data), s))))))"

section \<open>Fuel\<close>

lemma on_child_result: "on_child f out = (r, out') \<Longrightarrow> \<exists>o1 o2. f o1 = (r, o2)"
  by (auto simp: on_child_def split: list.splits prod.splits) (metis prod.collapse)+

lemma in_child_result: "in_child c f out = (r, out') \<Longrightarrow> \<exists>o1 o2. f o1 = (r, o2)"
  using on_child_result by (auto simp: in_child_def split: if_splits)

definition shrinks :: "ber_converter \<Rightarrow> bool" where
  "shrinks rec = (\<forall>st e d s out ok s' out'. rec st e d s out = ((ok, s'), out') \<longrightarrow> length s' \<le> length s)"

lemma convert_element_rest:
  assumes "shrinks rec" "convert_element rec alloc st d el t h s out = ((ok, s'), out')"
  shows "length s' \<le> length s"
proof -
  have "length s2 \<le> length s1" if "in_child c (rec st' e' d' s1) o1 = ((ok', s2), o2)" for c st' e' d' s1 o1 ok' s2 o2
    using in_child_result [OF that] assms(1) unfolding shrinks_def by blast
  then show ?thesis
    using assms(2) by (auto simp: convert_element_def split: prod.splits bool.splits option.splits if_splits)
qed

lemma convert_ber_shrinks: "shrinks (cbs_convert_ber fuel alloc)"
proof (induction fuel)
  case (Suc fuel)
  show ?case
    unfolding shrinks_def
  proof (intro allI impI)
    fix st e d s out ok s' out'
    assume r: "cbs_convert_ber (Suc fuel) alloc st e d s out = ((ok, s'), out')"
    have tail: "length s2 \<le> length s1" if "cbs_convert_ber fuel alloc st e d s1 o1 = ((ok', s2), o2)" for s1 o1 ok' s2 o2
      using Suc that unfolding shrinks_def by blast
    have same: "CBS_get_any_ber_asn1_element s = (None, t) \<Longrightarrow> length t \<le> length s" for t
      by (auto simp: CBS_get_any_ber_asn1_element_def cbs_get_any_asn1_element_def Let_def CBS_get_bytes_eq
          split: option.splits prod.splits if_splits)
    from r show "length s' \<le> length s"
      using convert_element_rest [OF Suc] any_ber_element_length(1) tail same
      by (auto simp: convert_round_def split: prod.splits bool.splits option.splits if_splits)
         (meson le_trans less_imp_le)+
  qed
qed (simp add: shrinks_def)

lemma convert_element_cong:
  assumes "\<And>st e d t. length t < n \<Longrightarrow> rec1 st e d t = rec2 st e d t" "length s < n"
    and "\<And>el'. CBS_skip h el = (Some (), el') \<Longrightarrow> length el' < n"
  shows "convert_element rec1 alloc st d el t h s out = convert_element rec2 alloc st d el t h s out"
proof (cases "CBS_skip h el")
  case (Pair r el')
  then have "r = Some () \<Longrightarrow> rec1 st' e' d' el' = rec2 st' e' d' el'" for st' e' d'
    using assms by auto
  moreover have "rec1 st' e' d' s = rec2 st' e' d' s" for st' e' d'
    using assms by simp
  ultimately show ?thesis
    unfolding convert_element_def Pair
    by (cases r) (simp_all cong: prod.case_cong bool.case_cong option.case_cong if_cong)
qed

lemma convert_ber_fuel:
  "length s < n \<Longrightarrow> length s < m \<Longrightarrow> cbs_convert_ber n alloc st e d s = cbs_convert_ber m alloc st e d s"
proof (induction n arbitrary: m st e d s)
  case (Suc n)
  then obtain k where m: "m = Suc k" by (cases m) auto
  show ?case
  proof (cases "\<exists>el t h s'. CBS_get_any_ber_asn1_element s = (Some (el, t, h), s')")
    case True
    then obtain el t h s' where g: "CBS_get_any_ber_asn1_element s = (Some (el, t, h), s')" by blast
    note L = any_ber_element_length [OF g]
    have rec: "cbs_convert_ber n alloc st e d t = cbs_convert_ber k alloc st e d t"
      if "length t < length s" for st e d t
      by (rule Suc.IH) (use Suc.prems that m in linarith)+
    have el: "convert_element (cbs_convert_ber n alloc) alloc st d el t h s' out
        = convert_element (cbs_convert_ber k alloc) alloc st d el t h s' out" for out
      by (rule convert_element_cong [OF rec L])
    have "cbs_convert_ber n alloc st e d s2 out2 = cbs_convert_ber k alloc st e d s2 out2"
      if "convert_element (cbs_convert_ber k alloc) alloc st d el t h s' out = ((ok, s2), out2)" for out ok s2 out2
      using rec [of s2 st e d] convert_element_rest [OF convert_ber_shrinks that] L(1) by simp
    then show ?thesis
      by (simp add: m convert_round_def g el fun_eq_iff split: prod.splits bool.splits)
  next
    case False
    then show ?thesis
      by (auto simp: m convert_round_def fun_eq_iff split: prod.splits option.splits)
  qed
qed simp

section \<open>The search for BER\<close>

text \<open>A sequence of elements contains BER when one of them has an indefinite length or is
  a constructed string, or when that is so inside a constructed element.\<close>

inductive contains_ber :: "cbs \<Rightarrow> bool" where
  here: "CBS_get_any_ber_asn1_element s = (Some (el, tag, h), s') \<Longrightarrow>
    indefinite_length el h \<or> (tag AND CBS_ASN1_CONSTRUCTED \<noteq> 0 \<and> is_string_type tag) \<Longrightarrow> contains_ber s"
| inside: "CBS_get_any_ber_asn1_element s = (Some (el, tag, h), s') \<Longrightarrow>
    tag AND CBS_ASN1_CONSTRUCTED \<noteq> 0 \<Longrightarrow> CBS_skip h el = (Some (), con) \<Longrightarrow> contains_ber con \<Longrightarrow> contains_ber s"
| later: "CBS_get_any_ber_asn1_element s = (Some (el, tag, h), s') \<Longrightarrow> contains_ber s' \<Longrightarrow> contains_ber s"

lemma find_ber_loop_sound:
  "cbs_find_ber_loop depth s found = Some True \<Longrightarrow> found \<or> contains_ber s"
proof (induction depth s found rule: cbs_find_ber_loop.induct)
  case (1 depth s found)
  show ?case
  proof (cases "s = []")
    case True
    then show ?thesis using "1.prems" by (simp add: cbs_find_ber_loop.simps CBS_len_def)
  next
    case False
    then have ne: "CBS_len s > 0" by (simp add: CBS_len_def)
    with "1.prems" obtain el tag h s' where g: "CBS_get_any_ber_asn1_element s = (Some (el, tag, h), s')"
      by (subst (asm) cbs_find_ber_loop.simps) (auto split: option.splits prod.splits)
    note step = "1.prems" [unfolded cbs_find_ber_loop.simps [of depth s found] g]
    show ?thesis
    proof (cases "indefinite_length el h \<or> (tag AND CBS_ASN1_CONSTRUCTED \<noteq> 0 \<and> is_string_type tag)")
      case True
      then show ?thesis using contains_ber.here [OF g] by blast
    next
      case plain: False
      show ?thesis
      proof (cases "tag AND CBS_ASN1_CONSTRUCTED = 0")
        case True
        with step ne plain have "cbs_find_ber_loop depth s' found = Some True" by simp
        with "1.IH"(3) [OF ne g [symmetric] refl refl refl] plain True have "found \<or> contains_ber s'"
          by blast
        then show ?thesis using contains_ber.later [OF g] by blast
      next
        case constr: False
        with step ne plain obtain con f where sk: "CBS_skip h el = (Some (), con)" and d: "\<not> kMaxDepth < depth + 1"
            and sub: "cbs_find_ber_loop (depth + 1) con False = Some f"
            and rest: "cbs_find_ber_loop depth s' f = Some True"
          by (auto split: option.splits prod.splits if_splits)
        have "f \<or> contains_ber s'"
          using "1.IH"(2) [OF ne g [symmetric] refl refl refl _ _ _ sk [symmetric] refl] constr plain d sub rest by simp
        then show ?thesis
        proof
          assume f
          then have "contains_ber con"
            using "1.IH"(1) [OF ne g [symmetric] refl refl refl _ _ _ sk [symmetric] refl] constr plain d sub by simp
          then show ?thesis using contains_ber.inside [OF g constr sk] by blast
        qed (use contains_ber.later [OF g] in blast)
      qed
    qed
  qed
qed

text \<open>
  The search never cries wolf.  \<open>cbs_find_ber\<close> reports BER only for input in which an
  element, at some depth, has an indefinite length or is a constructed string; so
  \<open>CBS_asn1_ber_to_der\<close> hands DER input back as it is, without a copy.\<close>

theorem find_ber_sound:
  assumes "\<not> contains_ber s" "CBS_asn1_ber_to_der alloc s = (r, s')"
  shows "cbs_find_ber s depth \<noteq> Some True \<and>
    (\<forall>out storage. r = Some (out, storage) \<longrightarrow> storage = None \<and> s = out @ s' \<and> (\<exists>tag h. CBS_get_any_asn1_element s = (Some (out, tag, h), s')))"
proof -
  have no: "cbs_find_ber s d \<noteq> Some True" for d
    using find_ber_loop_sound [of d s False] assms(1) by (auto simp: cbs_find_ber_def split: if_splits)
  moreover have "CBS_get_any_asn1_element s = (Some (out, tag, h), s') \<Longrightarrow> s = out @ s'" for out tag h
    by (auto simp: any_element_iff)
  ultimately show ?thesis
    using assms(2) no [of 0] by (auto simp: CBS_asn1_ber_to_der_def split: option.splits prod.splits if_splits)
qed

lemma ber_short_form:
  assumes "b AND 0x1f \<noteq> 0x1f" "unat l < 128" "unat l \<le> length r"
  shows "CBS_get_any_ber_asn1_element (b # l # r) =
    (Some (b # l # take (unat l) r, push_bit 24 (ucast b AND 0xe0) OR ucast (b AND 0x1f), 2), drop (unat l) r)"
proof -
  have "ucast (b AND 0x1f) \<noteq> (0x1f :: u32)"
    using assms(1) by (simp add: u8_eq_iff word_unat_eq_iff unat_ucast_u8_u32)
  then have p: "parse_asn1_tag (b # l # r) = (Some (push_bit 24 (ucast b AND 0xe0) OR ucast (b AND 0x1f)), l # r)"
    by (simp add: parse_asn1_tag_Cons Let_def)
  have "CBS_len (b # l # r) - CBS_len r = 2" by (simp add: CBS_len_def)
  then show ?thesis
    using assms(2,3) unfolding CBS_get_any_ber_asn1_element_def cbs_get_any_asn1_element_def p
    by (simp add: CBS_get_u8_simps u8_and_0x80 Let_def CBS_get_bytes_eq)
qed


section \<open>Implicitly tagged strings\<close>

interpretation asn1: canonical_codec "CBS_get_asn1 tag" "der_element tag" "\<lambda>c. length c < 2 ^ 32" for tag
  by unfold_locales (auto simp: CBS_get_asn1_iff)

lemma implicit_loop_chunks:
  "\<forall>c \<in> set chunks. length c < 2 ^ 32 \<Longrightarrow>
     implicit_string_loop alloc t (concat (map (der_element t) chunks)) =
     foldr (\<lambda>c. and_then (CBB_add_bytes alloc c)) chunks (Pair True)"
proof (induction chunks)
  case (Cons c chunks)
  then have "CBS_get_asn1 t (der_element t c @ concat (map (der_element t) chunks))
      = (Some c, concat (map (der_element t) chunks))"
    by (intro asn1.rd_enc) simp
  with Cons show ?case
    by (subst implicit_string_loop.simps) (simp add: CBS_len_def CBS_data_def)
qed (simp add: implicit_string_loop.simps CBS_len_def)

lemma implicit_loop_success:
  "implicit_string_loop alloc t s c = (True, c') \<Longrightarrow>
     \<exists>chunks. (\<forall>c \<in> set chunks. length c < 2 ^ 32) \<and> s = concat (map (der_element t) chunks)"
proof (induction alloc t s arbitrary: c rule: implicit_string_loop.induct)
  case (1 alloc t s)
  show ?case
  proof (cases "s = []")
    case False
    with "1.prems" obtain a s1 c1 where p: "CBS_get_asn1 t s = (Some a, s1)"
        "implicit_string_loop alloc t s1 c1 = (True, c')"
      by (subst (asm) implicit_string_loop.simps)
         (auto simp: CBS_len_def and_then_def split: option.splits prod.splits bool.splits)
    from False have "0 < CBS_len s" by (simp add: CBS_len_def)
    from "1.IH" [OF this p(1) [symmetric] refl p(2)] obtain chunks where
      "\<forall>c \<in> set chunks. length c < 2 ^ 32" "s1 = concat (map (der_element t) chunks)" by blast
    with p(1) show ?thesis by (intro exI [of _ "a # chunks"]) (simp add: CBS_get_asn1_iff)
  qed (auto intro: exI [of _ "[]"])
qed

lemma implicit_loop_appends:
  "\<forall>c \<in> set chunks. length c < 2 ^ 32 \<Longrightarrow>
     appends alloc (implicit_string_loop alloc t (concat (map (der_element t) chunks))) (concat chunks)"
proof -
  assume len: "\<forall>c \<in> set chunks. length c < 2 ^ 32"
  have "appends alloc (CBB_add_bytes alloc c) c" if "c \<in> set chunks" for c
    by (rule appends_bytes) (use len that in force)
  from cbbw.writes_foldr [of chunks alloc "CBB_add_bytes alloc" "\<lambda>c. c", OF this] show ?thesis
    unfolding implicit_loop_chunks [OF len] by simp
qed

text \<open>
  C19: \<open>CBS_get_asn1_implicit_string\<close>.  Given memory, it accepts exactly the elements with
  the outer tag, whose contents it returns without a copy, and the constructed elements of
  the outer tag whose contents are a sequence of primitive elements of the inner tag, whose
  concatenated contents it returns in a new buffer; in both cases it consumes the one
  element.\<close>

theorem implicit_string_spec:
  assumes "\<forall>k. alloc k" "length s < size_bound"
  shows "CBS_get_asn1_implicit_string alloc outer inner s = (Some (out, storage), s') \<longleftrightarrow>
    (if \<exists>r. s = der_identifier outer @ r
     then storage = None \<and> length out < 2 ^ 32 \<and> s = der_element outer out @ s'
     else storage = Some out \<and> (\<exists>chunks. out = concat chunks \<and> (\<forall>c \<in> set chunks. length c < 2 ^ 32) \<and>
            length (concat (map (der_element inner) chunks)) < 2 ^ 32 \<and>
            s = der_element (outer OR CBS_ASN1_CONSTRUCTED) (concat (map (der_element inner) chunks)) @ s'))"
proof (cases "CBS_peek_asn1_tag s outer")
  case True
  then have "CBS_get_asn1_implicit_string alloc outer inner s = (Some (out, storage), s') \<longleftrightarrow>
      storage = None \<and> CBS_get_asn1 outer s = (Some out, s')"
    by (auto simp: CBS_get_asn1_implicit_string_def split: option.splits prod.splits)
  with True show ?thesis
    by (simp add: CBS_peek_asn1_tag_iff CBS_get_asn1_iff)
next
  case False
  let ?t = "outer OR CBS_ASN1_CONSTRUCTED" and ?b = "fresh_buffer (length s) True"
  have init: "CBB_init alloc (CBS_len s) = (True, fresh (length s) True)"
    using assms(1) by (simp add: CBB_init_def cbb_init_def CBB_zero_def fresh_def zero_frame_def CBS_len_def)
  have run: "CBS_get_asn1_implicit_string alloc outer inner s = (Some (out, storage), s') \<longleftrightarrow>
      (\<exists>child result c'. CBS_get_asn1 ?t s = (Some child, s') \<and>
         implicit_string_loop alloc inner child (fresh (length s) True) = (True, result) \<and>
         CBB_finish alloc True result = (Some out, c') \<and> storage = Some out)"
    using False init
    by (auto simp: CBS_get_asn1_implicit_string_def CBS_init_def split: option.splits prod.splits bool.splits)
  have "CBS_get_asn1_implicit_string alloc outer inner s = (Some (out, storage), s') \<longleftrightarrow>
     storage = Some out \<and> (\<exists>chunks. out = concat chunks \<and> (\<forall>c \<in> set chunks. length c < 2 ^ 32) \<and>
            CBS_get_asn1 ?t s = (Some (concat (map (der_element inner) chunks)), s'))"
    unfolding run
  proof safe
    fix child result c'
    assume *: "CBS_get_asn1 ?t s = (Some child, s')" 
      "implicit_string_loop alloc inner child (fresh (length s) True) = (True, result)"
      "CBB_finish alloc True result = (Some out, c')"
    then obtain chunks where ch: "\<forall>c \<in> set chunks. length c < 2 ^ 32" "child = concat (map (der_element inner) chunks)"
      using implicit_loop_success by blast
    from built_contents [OF implicit_loop_appends [OF ch(1)] assms(2) *(2) [unfolded ch(2)] *(3)]
    show "\<exists>chunks. out = concat chunks \<and> (\<forall>c \<in> set chunks. length c < 2 ^ 32) \<and>
        CBS_get_asn1 ?t s = (Some (concat (map (der_element inner) chunks)), s')"
      using ch *(1) by blast
  next
    fix chunks
    assume ch: "\<forall>c \<in> set chunks. length c < 2 ^ 32" 
      and g: "CBS_get_asn1 ?t s = (Some (concat (map (der_element inner) chunks)), s')"
    have "length (concat chunks) \<le> length (concat (map (der_element inner) chunks))"
      by (induction chunks) (simp_all add: der_element_def)
    also have "\<dots> \<le> length s" using g by (auto simp: CBS_get_asn1_iff der_element_def)
    finally have "room alloc (fresh_buffer (length s) True) (length (concat chunks))"
      by (simp add: room_def fresh_buffer_def)
    from built_succeeds [OF implicit_loop_appends [OF ch] assms(2) this, of inner] g
    show "\<exists>child result c'. CBS_get_asn1 ?t s = (Some child, s') \<and>
         implicit_string_loop alloc inner child (fresh (length s) True) = (True, result) \<and>
         CBB_finish alloc True result = (Some (concat chunks), c') \<and> Some (concat chunks) = Some (concat chunks)" by blast
  qed
  then show ?thesis
    using False by (simp add: CBS_peek_asn1_tag_iff CBS_get_asn1_iff)
qed

lemma implicit_string_spec_witness:
  "CBS_get_asn1_implicit_string (\<lambda>_. True) 0x80000000 4 [0xa0, 3, 4, 1, 7] = (Some ([7], Some [7]), [])"
proof -
  have d: "der_element 4 [7] = [4, 1, 7]" "der_element 0xa0000000 [4, 1, 7] = [0xa0, 3, 4, 1, 7]"
    by (simp_all add: der_element_def der_header_def der_length_def der_identifier_def)
  have i: "\<nexists>r. [0xa0, 3, 4, 1, 7] = der_identifier 0x80000000 @ r"
    by (simp add: der_identifier_def)
  have "\<exists>chunks. [7] = concat chunks \<and> (\<forall>c \<in> set chunks. length c < 2 ^ 32) \<and>
      length (concat (map (der_element 4) chunks)) < 2 ^ 32 \<and>
      [0xa0, 3, 4, 1, 7] = der_element (0x80000000 OR CBS_ASN1_CONSTRUCTED) (concat (map (der_element 4) chunks)) @ []"
    by (rule exI [of _ "[[7]]"]) (simp add: d)
  with i show ?thesis
    using implicit_string_spec [of "\<lambda>_. True" "[0xa0, 3, 4, 1, 7]" "0x80000000" 4 "[7]" "Some [7]" "[]"] by simp
qed

lemma find_ber_sound_witness: "cbs_find_ber [4, 1, 7] 0 \<noteq> Some True"
proof -
  have e: "CBS_get_any_ber_asn1_element [4, 1, 7] = (Some ([4, 1, 7], 4, 2), [])"
    by (subst ber_short_form) simp_all
  have "CBS_get_any_ber_asn1_element [] = (None, [])"
    by (simp add: CBS_get_any_ber_asn1_element_def cbs_get_any_asn1_element_def parse_asn1_tag_def CBS_get_u8_simps)
  then have nil: "\<not> contains_ber []"
    by (auto elim: contains_ber.cases)
  have "\<not> contains_ber [4, 1, 7]"
    by (rule notI, erule contains_ber.cases) (use e nil in \<open>auto simp: indefinite_length_def CBS_len_def\<close>)
  then show ?thesis
    using find_ber_sound [of "[4, 1, 7]" "\<lambda>_. True"] by (metis prod.collapse)
qed

end
