(* ===== verification/Oid_Text.thy ===== *)
theory Oid_Text
  imports Cbb
begin

text \<open>
  Object identifiers as dotted text: \<open>CBB_add_asn1_oid_from_text\<close> of \<open>cbb.c\<close> parses the
  text and writes the base-128 components, \<open>CBS_asn1_oid_to_text\<close> of \<open>cbs.c\<close> reads them
  and builds the text.  The results: the decimal parser accepts exactly the decimal
  numerals of 64-bit values without leading zeros, and the two conversions are inverse to
  each other.
\<close>

section \<open>Decimal numerals\<close>

text \<open>What \<open>BIO_snprintf\<close> prints for \<open>PRIu64\<close>.\<close>

fun decimal :: "nat \<Rightarrow> u8 list" where
  "decimal n = (if n < 10 then [of_nat (48 + n)] else decimal (n div 10) @ [of_nat (48 + n mod 10)])"

declare decimal.simps [simp del]

abbreviation UINT64_MAX :: u64 where "UINT64_MAX \<equiv> 0xffffffffffffffff"

function dotted_decimal_loop :: "u64 \<Rightarrow> bool \<Rightarrow> u64 reader" where
  "dotted_decimal_loop out seen_digit s = (case CBS_get_u8 s of
     (None, s) \<Rightarrow> (if seen_digit then Some out else None, s)
   | (Some u, s) \<Rightarrow>
       if u = 46 \<and> CBS_len s > 0 then (if seen_digit then Some out else None, s)
       else if u < 48 \<or> u > 57 \<or> (seen_digit \<and> out = 0) \<or> out > UINT64_MAX div 10 \<or>
               out * 10 > UINT64_MAX - ucast (u - 48) then (None, s)
       else dotted_decimal_loop (out * 10 + ucast (u - 48)) True s)"
  by pat_completeness auto
termination
  by (relation "measure (\<lambda>(out, seen, s). length s)") (auto dest!: sym [of "(Some _, _)"] CBS_get_u8_length)

declare dotted_decimal_loop.simps [simp del]

definition parse_dotted_decimal :: "u64 reader" where
  "parse_dotted_decimal s = dotted_decimal_loop 0 False s"

lemma dotted_loop_Nil: "dotted_decimal_loop v seen [] = (if seen then Some v else None, [])"
  by (simp add: dotted_decimal_loop.simps [of v seen "[]"] reader_simps)

lemma dotted_loop_Cons:
  "dotted_decimal_loop v seen (u # s) =
     (if u = 46 \<and> s \<noteq> [] then (if seen then Some v else None, s)
      else if unat u < 48 \<or> 57 < unat u \<or> (seen \<and> v = 0) \<or> size_bound \<le> unat v * 10 + (unat u - 48) then (None, s)
      else dotted_decimal_loop (of_nat (unat v * 10 + (unat u - 48))) True s)"
proof -
  let ?d = "ucast (u - 48) :: u64"
  have lt: "u < 48 \<longleftrightarrow> unat u < 48" "u > 57 \<longleftrightarrow> 57 < unat u"
    by (simp_all add: word_less_nat_alt)
  show ?thesis
  proof (cases "unat u < 48 \<or> 57 < unat u")
    case True
    then show ?thesis
      by (auto simp: dotted_decimal_loop.simps [of v seen "u # s"] reader_simps CBS_len_def lt)
  next
    case False
    then have "unat (u - 48) = unat u - 48" by (simp add: unat_sub word_le_nat_alt)
    then have d: "unat ?d = unat u - 48" by (simp add: unat_ucast_u8)
    have hi: "v > UINT64_MAX div 10 \<longleftrightarrow> 1844674407370955161 < unat v"
      by (simp add: word_less_nat_alt)
    have m: "unat (UINT64_MAX - ?d) = 18446744073709551615 - (unat u - 48)"
    proof -
      have "unat u - 48 \<le> 18446744073709551615" using False by linarith
      then show ?thesis using d by (subst unat_sub) (simp_all add: word_le_nat_alt)
    qed
    have over: "(v > UINT64_MAX div 10 \<or> v * 10 > UINT64_MAX - ?d) \<longleftrightarrow> size_bound \<le> unat v * 10 + (unat u - 48)"
    proof (cases "1844674407370955161 < unat v")
      case True
      then show ?thesis using hi by simp
    next
      case small: False
      then have "unat (v * 10) = unat v * 10" by (simp add: unat_word_ariths)
      then have "v * 10 > UINT64_MAX - ?d \<longleftrightarrow> 18446744073709551615 - (unat u - 48) < unat v * 10"
        by (simp only: word_less_nat_alt m)
      then show ?thesis using small hi False by auto
    qed
    have "v * 10 + ?d = of_nat (unat v * 10 + (unat u - 48))"
    proof -
      have "of_nat (unat v * 10 + unat ?d) = v * 10 + ?d" by simp
      then show ?thesis by (simp only: d)
    qed
    moreover have "(u < 48 \<or> u > 57 \<or> (seen \<and> v = 0) \<or> v > UINT64_MAX div 10 \<or> v * 10 > UINT64_MAX - ?d) =
        (unat u < 48 \<or> 57 < unat u \<or> (seen \<and> v = 0) \<or> size_bound \<le> unat v * 10 + (unat u - 48))"
      using over lt by blast
    ultimately show ?thesis
      by (subst dotted_decimal_loop.simps)
         (simp only: CBS_get_u8_simps CBS_len_def prod.case option.case length_greater_0_conv)
  qed
qed

lemma parse_dotted_length:
  "parse_dotted_decimal s = (Some v, s') \<Longrightarrow> length s' < length s"
proof -
  have "dotted_decimal_loop v0 seen s = (Some v, s') \<Longrightarrow> length s' < length s \<or> s = []" for v0 seen
    by (induction s arbitrary: v0 seen) (fastforce simp: dotted_loop_Cons dotted_loop_Nil split: if_splits)+
  then show "parse_dotted_decimal s = (Some v, s') \<Longrightarrow> ?thesis"
    by (cases "s = []") (auto simp: parse_dotted_decimal_def dotted_loop_Nil)
qed

section \<open>The conversions\<close>

function oid_components_loop :: "allocator \<Rightarrow> cbs \<Rightarrow> cbb_op" where
  "oid_components_loop alloc s =
     (if CBS_len s > 0
      then (case parse_dotted_decimal s of
              (None, _) \<Rightarrow> Pair False
            | (Some a, s) \<Rightarrow> and_then (add_base128_integer alloc a) (oid_components_loop alloc s))
      else Pair True)"
  by pat_completeness auto
termination
  by (relation "measure (\<lambda>(alloc, s). length s)") (auto dest!: sym [of "(Some _, _)"] parse_dotted_length)

declare oid_components_loop.simps [simp del]

definition CBB_add_asn1_oid_from_text :: "allocator \<Rightarrow> u8 list \<Rightarrow> nat \<Rightarrow> cbb_op" where
  "CBB_add_asn1_oid_from_text alloc txt len =
     and_then (CBB_flush alloc)
       (case parse_dotted_decimal (CBS_init txt len) of
          (None, _) \<Rightarrow> Pair False
        | (Some a, s) \<Rightarrow> (case parse_dotted_decimal s of
            (None, _) \<Rightarrow> Pair False
          | (Some b, s) \<Rightarrow>
              if a > 2 \<or> (a < 2 \<and> b > 39) \<or> b > UINT64_MAX - 80 then Pair False
              else and_then (add_base128_integer alloc (40 * a + b)) (oid_components_loop alloc s)))"

definition add_decimal :: "allocator \<Rightarrow> u64 \<Rightarrow> cbb_op" where
  "add_decimal alloc v = CBB_add_bytes alloc (decimal (unat v))"

function oid_text_loop :: "allocator \<Rightarrow> cbs \<Rightarrow> cbb_op" where
  "oid_text_loop alloc copy =
     (if CBS_len copy \<noteq> 0
      then (case parse_base128_integer copy of
              (None, _) \<Rightarrow> Pair False
            | (Some v, copy) \<Rightarrow>
                and_then (CBB_add_u8 alloc 46) (and_then (add_decimal alloc v) (oid_text_loop alloc copy)))
      else Pair True)"
  by pat_completeness auto
termination
  by (relation "measure (\<lambda>(alloc, s). length s)") (auto dest!: sym [of "(Some _, _)"] b128.progress)

declare oid_text_loop.simps [simp del]

definition CBS_asn1_oid_to_text :: "allocator \<Rightarrow> cbs \<Rightarrow> u8 list option" where
  "CBS_asn1_oid_to_text alloc s = (case CBB_init alloc 32 of
     (False, _) \<Rightarrow> None
   | (True, cbb) \<Rightarrow> (case parse_base128_integer s of
       (None, _) \<Rightarrow> None
     | (Some v, copy) \<Rightarrow>
         (case and_then
                 (if v \<ge> 80
                  then and_then (CBB_add_bytes alloc [50, 46]) (add_decimal alloc (v - 80))
                  else and_then (add_decimal alloc (v div 40))
                         (and_then (CBB_add_u8 alloc 46) (add_decimal alloc (v mod 40))))
                 (and_then (oid_text_loop alloc copy) (CBB_add_u8 alloc 0)) cbb of
            (False, _) \<Rightarrow> None
          | (True, cbb) \<Rightarrow> fst (CBB_finish alloc True cbb))))"

section \<open>The parser of numerals\<close>

definition dot_sep :: "u8 list \<Rightarrow> u8 list" where
  "dot_sep s = (if s = [] then [] else 46 # s)"

lemma digit_octet:
  assumes "d < 10"
  shows "unat (of_nat (48 + d) :: u8) = 48 + d" "(of_nat (48 + d) :: u8) \<noteq> 46"
proof -
  show u: "unat (of_nat (48 + d) :: u8) = 48 + d" using assms by (subst unat_of_nat) simp
  show "(of_nat (48 + d) :: u8) \<noteq> 46"
  proof
    assume "(of_nat (48 + d) :: u8) = 46"
    then have "unat (of_nat (48 + d) :: u8) = unat (46 :: u8)" by (rule arg_cong)
    then have "48 + d = unat (46 :: u8)" by (rule trans [OF sym [OF u]])
    then show False by simp
  qed
qed

lemma dotted_loop_digit:
  assumes "d < 10" "\<not> (seen \<and> v = 0)" "unat v * 10 + d < size_bound"
  shows "dotted_decimal_loop v seen (of_nat (48 + d) # t) = dotted_decimal_loop (of_nat (unat v * 10 + d)) True t"
proof -
  let ?u = "of_nat (48 + d) :: u8"
  note D = digit_octet [OF assms(1)]
  have "dotted_decimal_loop v seen (?u # t) =
      (if ?u = 46 \<and> t \<noteq> [] then (if seen then Some v else None, t)
      else if unat ?u < 48 \<or> 57 < unat ?u \<or> (seen \<and> v = 0) \<or> size_bound \<le> unat v * 10 + (unat ?u - 48) then (None, t)
      else dotted_decimal_loop (of_nat (unat v * 10 + (unat ?u - 48))) True t)"
    by (rule dotted_loop_Cons)
  with D assms show ?thesis
    by (simp only: D if_False simp_thms) (simp add: not_le del: of_nat_add)
qed

lemma dotted_loop_decimal:
  "n < size_bound \<Longrightarrow> dotted_decimal_loop 0 False (decimal n @ t) = dotted_decimal_loop (of_nat n) True t"
proof (induction n arbitrary: t rule: decimal.induct)
  case (1 n)
  show ?case
  proof (cases "n < 10")
    case True
    then show ?thesis
      using dotted_loop_digit [of n False 0 t] by (simp add: decimal.simps [of n])
  next
    case False
    let ?v = "of_nat (n div 10) :: u64"
    have v: "unat ?v = n div 10" using 1 by (simp add: unat_of_nat)
    with False have "?v \<noteq> 0" by (metis div_less_iff_less_mult mult_1 not_le unat_0 zero_less_numeral div_greater_zero_iff less_irrefl)
    have "dotted_decimal_loop 0 False (decimal n @ t)
        = dotted_decimal_loop ?v True (of_nat (48 + n mod 10) # t)"
      using 1 False by (simp add: decimal.simps [of n])
    also have "\<dots> = dotted_decimal_loop (of_nat (unat ?v * 10 + n mod 10)) True t"
      using 1 \<open>?v \<noteq> 0\<close> v by (intro dotted_loop_digit) simp_all
    finally show ?thesis by (simp only: v div_mult_mod_eq)
  qed
qed

lemma dotted_loop_sound:
  "dotted_decimal_loop v seen s = (Some w, s') \<Longrightarrow> (\<not> seen \<Longrightarrow> v = 0) \<Longrightarrow>
     \<exists>p. s = p @ dot_sep s' \<and> decimal (unat w) = (if seen then decimal (unat v) else []) @ p"
proof (induction s arbitrary: v seen)
  case Nil
  then show ?case by (auto simp: dotted_loop_Nil dot_sep_def split: if_splits)
next
  case (Cons u s)
  show ?case
  proof (cases "u = 46 \<and> s \<noteq> []")
    case True
    with Cons.prems show ?thesis by (auto simp: dotted_loop_Cons dot_sep_def split: if_splits)
  next
    case False
    define d where "d = unat u - 48"
    from Cons.prems False have u: "48 \<le> unat u" "unat u \<le> 57" and nz: "\<not> (seen \<and> v = 0)"
      and lt: "unat v * 10 + d < size_bound"
      and rec: "dotted_decimal_loop (of_nat (unat v * 10 + d)) True s = (Some w, s')"
      by (auto simp: dotted_loop_Cons d_def simp del: of_nat_add split: if_splits)
    have d: "d < 10" "u = of_nat (48 + d)"
      using u by (auto simp: d_def u8_eq_iff unat_of_nat)
    have x: "unat (of_nat (unat v * 10 + d) :: u64) = unat v * 10 + d"
      using lt by (subst unat_of_nat) simp
    from Cons.IH [OF rec] obtain p where p: "s = p @ dot_sep s'"
        "decimal (unat w) = decimal (unat v * 10 + d) @ p"
      unfolding x by auto
    have "decimal (unat v * 10 + d) = (if seen then decimal (unat v) else []) @ [u]"
    proof (cases seen)
      case True
      with nz have "0 < unat v" by (simp add: unat_gt_0)
      with True d show ?thesis by (simp add: decimal.simps [of "unat v * 10 + d"])
    next
      case False
      with Cons.prems(2) d show ?thesis by (simp add: decimal.simps [of d])
    qed
    with p show ?thesis by (intro exI [of _ "u # p"]) simp
  qed
qed

lemma parse_dotted_iff:
  "parse_dotted_decimal s = (Some v, s') \<longleftrightarrow> s = decimal (unat v) @ dot_sep s'"
proof
  show "parse_dotted_decimal s = (Some v, s') \<Longrightarrow> s = decimal (unat v) @ dot_sep s'"
    using dotted_loop_sound [of 0 False s v s'] by (auto simp: parse_dotted_decimal_def)
  assume "s = decimal (unat v) @ dot_sep s'"
  then show "parse_dotted_decimal s = (Some v, s')"
    using dotted_loop_decimal [of "unat v" "dot_sep s'"]
    by (auto simp: parse_dotted_decimal_def dot_sep_def dotted_loop_Nil dotted_loop_Cons)
qed

section \<open>Object identifiers\<close>

text \<open>The text and the contents octets of an object identifier with components
  \<open>a\<close>, \<open>b\<close> and the list \<open>vs\<close>.\<close>

fun dotted :: "u64 list \<Rightarrow> u8 list" where
  "dotted [] = []"
| "dotted (v # vs) = decimal (unat v) @ dot_sep (dotted vs)"

definition components :: "u64 list \<Rightarrow> u8 list" where
  "components vs = concat (map (\<lambda>v. base128 (unat v)) vs)"

definition oid_ok :: "u64 \<Rightarrow> u64 \<Rightarrow> bool" where
  "oid_ok a b = (unat a \<le> 2 \<and> (unat a < 2 \<longrightarrow> unat b \<le> 39) \<and> unat b + 80 < size_bound)"

definition oid_octets :: "u64 \<Rightarrow> u64 \<Rightarrow> u64 list \<Rightarrow> u8 list" where
  "oid_octets a b vs = base128 (40 * unat a + unat b) @ components vs"

lemma decimal_not_Nil [simp]: "decimal n \<noteq> []"
  by (simp add: decimal.simps [of n])

lemma dotted_Nil_iff [simp]: "dotted vs = [] \<longleftrightarrow> vs = []"
  by (cases vs) simp_all

lemma parse_dotted_numeral [simp]: "parse_dotted_decimal (decimal (unat v) @ dot_sep s) = (Some v, s)"
  by (simp add: parse_dotted_iff)

lemma components_loop_dotted:
  "oid_components_loop alloc (dotted vs) = foldr (\<lambda>v. and_then (add_base128_integer alloc v)) vs (Pair True)"
proof (induction vs)
  case (Cons v vs)
  have "parse_dotted_decimal (dotted (v # vs)) = (Some v, dotted vs)"
    by (simp add: parse_dotted_iff)
  with Cons show ?case
    by (subst oid_components_loop.simps) (simp add: CBS_len_def)
qed (simp add: oid_components_loop.simps CBS_len_def)

lemma components_loop_success:
  "oid_components_loop alloc s c = (True, c') \<Longrightarrow> \<exists>vs. s = dotted vs"
proof (induction alloc s arbitrary: c rule: oid_components_loop.induct)
  case (1 alloc s)
  show ?case
  proof (cases "s = []")
    case False
    with "1.prems" obtain a t c1 where p: "parse_dotted_decimal s = (Some a, t)"
        "oid_components_loop alloc t c1 = (True, c')"
      by (subst (asm) oid_components_loop.simps)
         (auto simp: CBS_len_def and_then_def split: option.splits prod.splits bool.splits)
    from False have "0 < CBS_len s" by (simp add: CBS_len_def)
    from "1.IH" [OF this p(1) [symmetric] refl p(2)] obtain vs where "t = dotted vs" by blast
    with p(1) show ?thesis by (intro exI [of _ "a # vs"]) (simp add: parse_dotted_iff)
  qed (auto intro: exI [of _ "[]"])
qed

lemma oid_first:
  assumes "oid_ok a b"
  shows "unat (40 * a + b) = 40 * unat a + unat b"
    and "\<not> (a > 2 \<or> (a < 2 \<and> b > 39) \<or> b > UINT64_MAX - 80)"
  using assms by (auto simp: oid_ok_def unat_word_ariths word_less_nat_alt unat_sub word_le_nat_alt)

lemma oid_ok_iff: "oid_ok a b \<longleftrightarrow> \<not> (a > 2 \<or> (a < 2 \<and> b > 39) \<or> b > UINT64_MAX - 80)"
  by (auto simp: oid_ok_def word_less_nat_alt not_less)

lemma from_text_eq:
  "oid_ok a b \<Longrightarrow> CBB_add_asn1_oid_from_text alloc (dotted (a # b # vs)) (length (dotted (a # b # vs))) =
     and_then (CBB_flush alloc) (and_then (add_base128_integer alloc (40 * a + b))
       (foldr (\<lambda>v. and_then (add_base128_integer alloc v)) vs (Pair True)))"
  by (auto simp: CBB_add_asn1_oid_from_text_def CBS_init_def components_loop_dotted oid_ok_iff)

lemma appends_oid:
  assumes "oid_ok a b"
  shows "appends alloc (CBB_add_asn1_oid_from_text alloc (dotted (a # b # vs)) (length (dotted (a # b # vs))))
    (oid_octets a b vs)"
proof -
  have "appends alloc (foldr (\<lambda>v. and_then (add_base128_integer alloc v)) vs (Pair True)) (components vs)"
    unfolding components_def by (rule cbbw.writes_foldr) (rule appends_base128)
  from appends_and_then [OF appends_flush appends_and_then [OF appends_base128 [of alloc "40 * a + b"] this]]
  show ?thesis
    using oid_first(1) [OF assms] by (simp add: from_text_eq [OF assms] oid_octets_def del: dotted.simps)
qed

lemma from_text_success:
  assumes "CBB_add_asn1_oid_from_text alloc txt len c = (True, c')"
  shows "\<exists>a b vs. oid_ok a b \<and> take len txt = dotted (a # b # vs)"
proof -
  from assms obtain a s b t c1 where p: "parse_dotted_decimal (take len txt) = (Some a, s)"
      "parse_dotted_decimal s = (Some b, t)" "oid_ok a b" "oid_components_loop alloc t c1 = (True, c')"
    by (auto simp: CBB_add_asn1_oid_from_text_def CBS_init_def and_then_def oid_ok_iff
        split: option.splits prod.splits bool.splits if_splits)
  then obtain vs where "t = dotted vs" using components_loop_success by blast
  with p show ?thesis
    by (intro exI [of _ a] exI [of _ b] exI [of _ vs]) (simp add: parse_dotted_iff)
qed

lemma text_loop_octets:
  "oid_text_loop alloc (components vs) =
     foldr (\<lambda>v. and_then (and_then (CBB_add_u8 alloc 46) (add_decimal alloc v))) vs (Pair True)"
proof (induction vs)
  case (Cons v vs)
  have "components (v # vs) = base128 (unat v) @ components vs" by (simp add: components_def)
  moreover have "base128 (unat v) \<noteq> []" by (simp add: base128_def)
  moreover have "parse_base128_integer (base128 (unat v) @ s) = (Some v, s)" for s
    by (rule b128.rd_enc) simp
  ultimately show ?case
    using Cons by (subst oid_text_loop.simps) (simp add: CBS_len_def flip: and_then_assoc)
qed (simp add: oid_text_loop.simps CBS_len_def components_def)

lemma text_loop_success:
  "oid_text_loop alloc s c = (True, c') \<Longrightarrow> \<exists>vs. s = components vs"
proof (induction alloc s arbitrary: c rule: oid_text_loop.induct)
  case (1 alloc s)
  show ?case
  proof (cases "s = []")
    case False
    with "1.prems" obtain v t c1 where p: "parse_base128_integer s = (Some v, t)"
        "oid_text_loop alloc t c1 = (True, c')"
      by (subst (asm) oid_text_loop.simps)
         (auto simp: CBS_len_def and_then_def split: option.splits prod.splits bool.splits)
    from False have "CBS_len s \<noteq> 0" by (simp add: CBS_len_def)
    from "1.IH" [OF this p(1) [symmetric] refl p(2)] obtain vs where "t = components vs" by blast
    with b128.canonical [OF p(1)] show ?thesis by (intro exI [of _ "v # vs"]) (simp add: components_def)
  qed (auto simp: components_def intro: exI [of _ "[]"])
qed

lemma appends_decimal: "length (decimal (unat v)) < size_bound \<Longrightarrow> appends alloc (add_decimal alloc v) (decimal (unat v))"
  unfolding add_decimal_def by (rule appends_bytes)

lemma length_decimal: "n < 10 ^ Suc k \<Longrightarrow> length (decimal n) \<le> Suc k"
proof (induction n arbitrary: k rule: decimal.induct)
  case (1 n)
  show ?case
  proof (cases "n < 10")
    case False
    with "1.prems" obtain j where k: "k = Suc j" by (cases k) auto
    with "1.prems" have "n div 10 < 10 ^ Suc j" by (simp add: div_less_iff_less_mult mult.commute)
    with 1 False k show ?thesis by (simp add: decimal.simps [of n])
  qed (simp add: decimal.simps [of n])
qed

lemma decimal_short: "length (decimal (unat (v :: u64))) < size_bound"
proof -
  have "unat v < 10 ^ Suc 19" by (rule less_trans [OF unat_u64_less]) simp
  from length_decimal [OF this] show ?thesis by simp
qed

section \<open>The conversions are inverse\<close>

text \<open>The text that \<open>CBS_asn1_oid_to_text\<close> builds for the first component \<open>v\<close>.\<close>

definition oid_head :: "allocator \<Rightarrow> u64 \<Rightarrow> cbb_op" where
  "oid_head alloc v =
     (if v \<ge> 80 then and_then (CBB_add_bytes alloc [50, 46]) (add_decimal alloc (v - 80))
      else and_then (add_decimal alloc (v div 40)) (and_then (CBB_add_u8 alloc 46) (add_decimal alloc (v mod 40))))"

definition split_first :: "u64 \<Rightarrow> u64 \<times> u64" where
  "split_first v = (if v \<ge> 80 then (2, v - 80) else (v div 40, v mod 40))"

lemma split_first_ok:
  assumes "split_first v = (a, b)"
  shows "oid_ok a b" and "40 * unat a + unat b = unat v"
proof -
  have "oid_ok a b \<and> 40 * unat a + unat b = unat v"
  proof (cases "v \<ge> 80")
    case True
    then have "unat (v - 80) = unat v - 80" "80 \<le> unat v"
      by (simp_all add: unat_sub word_le_nat_alt)
    then show ?thesis
      using assms True unat_u64_less [of v] by (auto simp: split_first_def oid_ok_def)
  next
    case False
    then have "unat v < 80" by (simp add: word_le_nat_alt)
    moreover have "unat (v div 40) = unat v div 40" "unat (v mod 40) = unat v mod 40"
      by (simp_all add: unat_div unat_mod)
    ultimately show ?thesis
      using assms False by (auto simp: split_first_def oid_ok_def)
  qed
  then show "oid_ok a b" "40 * unat a + unat b = unat v" by auto
qed

lemma split_first_join: "oid_ok a b \<Longrightarrow> split_first (40 * a + b) = (a, b)"
proof -
  assume ok: "oid_ok a b"
  obtain a' b' where s: "split_first (40 * a + b) = (a', b')" by fastforce
  have sum: "40 * unat a' + unat b' = 40 * unat a + unat b"
    using split_first_ok(2) [OF s] oid_first(1) [OF ok] by simp
  have "unat a' = unat a"
    using sum ok split_first_ok(1) [OF s] s oid_first(1) [OF ok]
    by (auto simp: oid_ok_def split_first_def word_le_nat_alt split: if_splits)
  with sum s show ?thesis by (auto simp: word_unat_eq_iff)
qed

lemma decimal_small: "decimal 2 = [50]"
  by (simp add: decimal.simps)

lemma appends_oid_head:
  assumes "split_first v = (a, b)"
  shows "appends alloc (oid_head alloc v) (decimal (unat a) @ 46 # decimal (unat b))"
proof (cases "v \<ge> 80")
  case True
  then have ab: "a = 2" "b = v - 80" using assms by (auto simp: split_first_def)
  have "appends alloc (CBB_add_bytes alloc [50, 46]) [50, 46]" by (rule appends_bytes) simp
  from appends_and_then [OF this appends_decimal [OF decimal_short, of alloc b]] show ?thesis
    using True by (simp add: oid_head_def ab decimal_small)
next
  case False
  then have ab: "a = v div 40" "b = v mod 40" using assms by (auto simp: split_first_def)
  from appends_and_then [OF appends_decimal [OF decimal_short, of alloc a]
      appends_and_then [OF appends_u8 appends_decimal [OF decimal_short, of alloc b]], of 46]
  show ?thesis using False by (simp add: oid_head_def ab)
qed

definition dotted_tail :: "u64 list \<Rightarrow> u8 list" where
  "dotted_tail vs = concat (map (\<lambda>v. 46 # decimal (unat v)) vs)"

lemma dotted_tail: "dot_sep (dotted vs) = dotted_tail vs"
  by (induction vs) (simp_all add: dotted_tail_def dot_sep_def)

lemma dotted_oid: "dotted (a # b # vs) = (decimal (unat a) @ 46 # decimal (unat b)) @ dotted_tail vs"
  by (simp add: dotted_tail) (simp add: dot_sep_def)

lemma appends_text_loop:
  "appends alloc (oid_text_loop alloc (components vs)) (dotted_tail vs)"
  unfolding text_loop_octets dotted_tail_def
proof (rule cbbw.writes_foldr)
  fix v
  show "appends alloc (and_then (CBB_add_u8 alloc 46) (add_decimal alloc v)) (46 # decimal (unat v))"
    using appends_and_then [OF appends_u8 appends_decimal [OF decimal_short, of alloc v], of 46] by simp
qed

lemma appends_oid_text:
  assumes "split_first v = (a, b)"
  shows "appends alloc (and_then (oid_head alloc v)
      (and_then (oid_text_loop alloc (components vs)) (CBB_add_u8 alloc 0)))
    (dotted (a # b # vs) @ [0])"
  using appends_and_then [OF appends_oid_head [OF assms] appends_and_then [OF appends_text_loop appends_u8],
      of alloc vs 0]
  by (simp only: dotted_oid append_assoc)

lemma to_text_eq:
  "CBS_asn1_oid_to_text alloc s = (case CBB_init alloc 32 of
     (False, _) \<Rightarrow> None
   | (True, cbb) \<Rightarrow> (case parse_base128_integer s of
       (None, _) \<Rightarrow> None
     | (Some v, copy) \<Rightarrow>
         (case and_then (oid_head alloc v) (and_then (oid_text_loop alloc copy) (CBB_add_u8 alloc 0)) cbb of
            (False, _) \<Rightarrow> None | (True, cbb) \<Rightarrow> fst (CBB_finish alloc True cbb))))"
  unfolding CBS_asn1_oid_to_text_def oid_head_def ..

lemma to_text_sound:
  assumes "CBS_asn1_oid_to_text alloc s = Some txt"
  shows "\<exists>a b vs. oid_ok a b \<and> s = oid_octets a b vs \<and> txt = dotted (a # b # vs) @ [0]"
proof -
  from assms obtain c0 v copy cbb where i: "CBB_init alloc 32 = (True, c0)"
      and p: "parse_base128_integer s = (Some v, copy)"
      and w0: "and_then (oid_head alloc v) (and_then (oid_text_loop alloc copy) (CBB_add_u8 alloc 0)) c0 = (True, cbb)"
      and f: "fst (CBB_finish alloc True cbb) = Some txt"
    unfolding to_text_eq by (auto split: prod.splits bool.splits option.splits)
  note w = w0 [unfolded CBB_init_fresh(1) [OF i]]
  from w obtain c1 c2 where "oid_text_loop alloc copy c1 = (True, c2)"
    by (auto simp: and_then_def split: prod.splits bool.splits)
  then obtain vs where vs: "copy = components vs"
    using text_loop_success by blast
  obtain a b where ab: "split_first v = (a, b)" by fastforce
  obtain c' where "CBB_finish alloc True cbb = (Some txt, c')" using f by (metis prod.collapse)
  from built_contents [OF appends_oid_text [OF ab] _ w [unfolded vs] this]
  have "txt = dotted (a # b # vs) @ [0]" by simp
  moreover have "s = oid_octets a b vs"
    using b128.canonical [OF p] split_first_ok(2) [OF ab] vs by (simp add: oid_octets_def)
  ultimately show ?thesis using split_first_ok(1) [OF ab] by blast
qed

lemma to_text_complete:
  assumes "oid_ok a b" "\<forall>n. alloc n" "length (dotted (a # b # vs)) + 1 < size_bound"
  shows "CBS_asn1_oid_to_text alloc (oid_octets a b vs) = Some (dotted (a # b # vs) @ [0])"
proof -
  have i: "CBB_init alloc 32 = (True, fresh 32 True)"
    using assms(2) by (simp add: CBB_init_def cbb_init_def CBB_zero_def fresh_def zero_frame_def)
  have u: "unat (40 * a + b) = 40 * unat a + unat b" by (rule oid_first(1) [OF assms(1)])
  have p: "parse_base128_integer (oid_octets a b vs)
      = (Some (40 * a + b), components vs)"
    using b128.rd_enc [of "40 * a + b"] by (simp add: oid_octets_def u)
  have "room alloc (fresh_buffer 32 True) (length (dotted (a # b # vs) @ [0]))"
    using assms(2,3) by (simp add: room_def fresh_buffer_def)
  from built_succeeds [OF appends_oid_text [OF split_first_join [OF assms(1)]] _ this]
  show ?thesis
    by (auto simp: to_text_eq i p simp del: dotted.simps)
qed

text \<open>
  C17: text to octets and back.  If \<open>CBB_add_asn1_oid_from_text\<close> accepts a text and a
  fresh builder is finished, \<open>CBS_asn1_oid_to_text\<close> turns the octets back into exactly
  that text (with its terminating NUL), given memory.\<close>

theorem oid_text_roundtrip:
  assumes "\<forall>k. alloc k" "len \<le> length txt" "len + 1 < size_bound" "n < size_bound"
    and "CBB_add_asn1_oid_from_text alloc txt len (fresh n True) = (True, c)"
    and "CBB_finish alloc True c = (Some der, c')"
  shows "CBS_asn1_oid_to_text alloc der = Some (take len txt @ [0])"
proof -
  obtain a b vs where ok: "oid_ok a b" and t: "take len txt = dotted (a # b # vs)"
    using from_text_success [OF assms(5)] by blast
  have "CBB_add_asn1_oid_from_text alloc txt len =
      CBB_add_asn1_oid_from_text alloc (dotted (a # b # vs)) (length (dotted (a # b # vs)))"
    unfolding t [symmetric] using assms(2) by (simp add: CBB_add_asn1_oid_from_text_def CBS_init_def min_absorb2)
  then have "appends alloc (CBB_add_asn1_oid_from_text alloc txt len) (oid_octets a b vs)"
    using appends_oid [OF ok] by simp
  from built_contents [OF this assms(4,5,6)] have "der = oid_octets a b vs" .
  moreover have "length (dotted (a # b # vs)) + 1 < size_bound"
    unfolding t [symmetric] using assms(2,3) by simp
  ultimately show ?thesis
    unfolding t using to_text_complete [OF ok assms(1)] by blast
qed

text \<open>
  C23: octets to text and back.  Whatever octets \<open>CBS_asn1_oid_to_text\<close> accepts,
  \<open>CBB_add_asn1_oid_from_text\<close> accepts the text it made of them and writes the same
  octets: the text loses nothing and the octets were the only encoding of it.\<close>

theorem oid_octets_roundtrip:
  assumes "\<forall>k. alloc k" "CBS_asn1_oid_to_text alloc der = Some txt" "n < size_bound" "length der < size_bound"
  shows "\<exists>c c'. CBB_add_asn1_oid_from_text alloc txt (length txt - 1) (fresh n True) = (True, c) \<and>
    CBB_finish alloc True c = (Some der, c')"
proof -
  obtain a b vs where ok: "oid_ok a b" and der: "der = oid_octets a b vs" and tx: "txt = dotted (a # b # vs) @ [0]"
    using to_text_sound [OF assms(2)] by blast
  have "CBB_add_asn1_oid_from_text alloc txt (length txt - 1) =
      CBB_add_asn1_oid_from_text alloc (dotted (a # b # vs)) (length (dotted (a # b # vs)))"
    unfolding tx by (simp add: CBB_add_asn1_oid_from_text_def CBS_init_def)
  then have "appends alloc (CBB_add_asn1_oid_from_text alloc txt (length txt - 1)) der"
    using appends_oid [OF ok] der by simp
  moreover have "room alloc (fresh_buffer n True) (length der)"
    using assms(1,4) by (simp add: room_def fresh_buffer_def)
  ultimately show ?thesis using built_succeeds assms(3) by blast
qed

lemma oid_1_2_3: "oid_ok 1 2" "dotted [1, 2, 3] = [49, 46, 50, 46, 51]" "oid_octets 1 2 [3] = [42, 3]"
  by (simp_all add: oid_ok_def decimal.simps dot_sep_def oid_octets_def components_def base128_def
      base128_hi.simps)

lemma oid_octets_roundtrip_witness:
  "\<exists>c c'. CBB_add_asn1_oid_from_text (\<lambda>_. True) [49, 46, 50, 46, 51, 0] 5 (fresh 0 True) = (True, c) \<and>
    CBB_finish (\<lambda>_. True) True c = (Some [42, 3], c')"
proof -
  have "CBS_asn1_oid_to_text (\<lambda>_. True) [42, 3] = Some [49, 46, 50, 46, 51, 0]"
    using to_text_complete [OF oid_1_2_3(1), of "\<lambda>_. True" "[3]"] unfolding oid_1_2_3 by simp
  note r = oid_octets_roundtrip [OF _ this, of 0]
  have "length [49 :: u8, 46, 50, 46, 51, 0] - 1 = 5" by simp
  from r [unfolded this] show ?thesis by simp
qed

lemma oid_text_roundtrip_witness:
  "CBS_asn1_oid_to_text (\<lambda>_. True) [42, 3] = Some [49, 46, 50, 46, 51, 0]"
proof -
  let ?al = "\<lambda>_ :: nat. True"
  have "room ?al (fresh_buffer 0 True) (length [42 :: u8, 3])" by (simp add: room_def fresh_buffer_def)
  moreover have "appends ?al (CBB_add_asn1_oid_from_text ?al [49, 46, 50, 46, 51] 5) [42, 3]"
  proof -
    have "length [49 :: u8, 46, 50, 46, 51] = 5" by simp
    with appends_oid [OF oid_1_2_3(1), of ?al "[3]"] show ?thesis unfolding oid_1_2_3 by metis
  qed
  ultimately obtain c c' where "CBB_add_asn1_oid_from_text ?al [49, 46, 50, 46, 51] 5 (fresh 0 True) = (True, c)"
      "CBB_finish ?al True c = (Some [42, 3], c')"
    using built_succeeds [of ?al _ "[42, 3]" 0 True] by fastforce
  from oid_text_roundtrip [OF _ _ _ _ this] show ?thesis by simp
qed

end
