(* ===== verification/Comparator.thy ===== *)
theory Comparator
  imports Main "HOL-Library.Multiset"
begin

text \<open>
  Comparison functions in the style of C (\<open>qsort\<close>, \<open>bsearch\<close>, stacks): the sign of the
  result says which argument comes first.  The interface \<open>comparator\<close> is what callers may
  rely on; \<open>sorts\<close> is the contract of the C library's \<open>qsort\<close>, which is a parameter of
  the operations that call it.
\<close>

type_synonym 'a comparison = "'a \<Rightarrow> 'a \<Rightarrow> int"

definition sorts :: "('a comparison \<Rightarrow> 'a list \<Rightarrow> 'a list) \<Rightarrow> 'a comparison \<Rightarrow> bool" where
  "sorts qsort cmp = (\<forall>xs. mset (qsort cmp xs) = mset xs \<and> sorted_wrt (\<lambda>a b. cmp a b \<le> 0) (qsort cmp xs))"

text \<open>An instance, insertion sort.\<close>

fun insert_cmp :: "'a comparison \<Rightarrow> 'a \<Rightarrow> 'a list \<Rightarrow> 'a list" where
  "insert_cmp cmp x [] = [x]"
| "insert_cmp cmp x (y # ys) = (if cmp x y \<le> 0 then x # y # ys else y # insert_cmp cmp x ys)"

fun insertion_sort :: "'a comparison \<Rightarrow> 'a list \<Rightarrow> 'a list" where
  "insertion_sort cmp [] = []"
| "insertion_sort cmp (x # xs) = insert_cmp cmp x (insertion_sort cmp xs)"

locale comparator =
  fixes cmp :: "'a \<Rightarrow> 'a \<Rightarrow> int"
  assumes swap: "sgn (cmp b a) = - sgn (cmp a b)"
    and trans: "cmp a b \<le> 0 \<Longrightarrow> cmp b c \<le> 0 \<Longrightarrow> cmp a c \<le> 0"
begin

lemma neg_swap: "cmp b a < 0 \<longleftrightarrow> 0 < cmp a b"
  using swap [of b a] by (auto simp: sgn_if split: if_splits)

lemma zero_swap: "cmp b a = 0 \<longleftrightarrow> cmp a b = 0"
  using swap [of b a] by (auto simp: sgn_if split: if_splits)

lemma refl: "cmp a a = 0"
  using swap [of a a] by (auto simp: sgn_if split: if_splits)

lemma total: "cmp a b \<le> 0 \<or> cmp b a \<le> 0"
  using neg_swap [of a b] by linarith

lemma le_swap: "cmp b a \<le> 0 \<longleftrightarrow> 0 \<le> cmp a b"
  using neg_swap [of a b] by linarith

lemma zero_trans: "cmp a b = 0 \<Longrightarrow> cmp b c = 0 \<Longrightarrow> cmp a c = 0"
  using trans [of a b c] trans [of c b a] zero_swap le_swap [of a c] by (metis order_antisym order_refl)

lemma mset_insert_cmp: "mset (insert_cmp cmp x xs) = add_mset x (mset xs)"
  by (induction xs) auto

lemma sorted_insert_cmp:
  "sorted_wrt (\<lambda>a b. cmp a b \<le> 0) xs \<Longrightarrow> sorted_wrt (\<lambda>a b. cmp a b \<le> 0) (insert_cmp cmp x xs)"
proof (induction xs)
  case (Cons y ys)
  have set: "set (insert_cmp cmp x ys) = insert x (set ys)"
    using mset_insert_cmp [of x ys] by (metis set_mset_add_mset_insert set_mset_mset)
  show ?case
  proof (cases "cmp x y \<le> 0")
    case True
    with Cons.prems show ?thesis by (auto intro: trans)
  next
    case False
    then have "cmp y x \<le> 0" using total by blast
    with Cons False set show ?thesis by auto
  qed
qed simp

lemma insertion_sort_sorts: "sorts insertion_sort cmp"
proof -
  have "mset (insertion_sort cmp xs) = mset xs \<and> sorted_wrt (\<lambda>a b. cmp a b \<le> 0) (insertion_sort cmp xs)" for xs
    by (induction xs) (auto simp: mset_insert_cmp sorted_insert_cmp)
  then show ?thesis by (simp add: sorts_def)
qed

text \<open>Where equal means identical, there is one sorted arrangement.\<close>

lemma sorted_unique:
  assumes "\<And>a b. cmp a b = 0 \<Longrightarrow> a = b"
    and "sorted_wrt (\<lambda>a b. cmp a b \<le> 0) xs" "sorted_wrt (\<lambda>a b. cmp a b \<le> 0) ys" "mset xs = mset ys"
  shows "xs = ys"
  using assms(2-4)
proof (induction xs arbitrary: ys)
  case (Cons x xs)
  then obtain y ys' where ys: "ys = y # ys'" by (cases ys) auto
  have "x \<in> set ys" "y \<in> set (x # xs)"
    using mset_eq_setD [OF Cons.prems(3)] ys by auto
  then have "x = y \<or> (cmp x y \<le> 0 \<and> cmp y x \<le> 0)"
    using Cons.prems ys by auto
  then have "x = y" using assms(1) [of x y] le_swap [of y x] by fastforce
  with Cons ys show ?case by auto
qed simp

end

end
