(* ===== verification/Set_Of.thy ===== *)
theory Set_Of
  imports Cbb Comparator
begin

text \<open>
  \<open>CBB_flush_asn1_set_of\<close> of \<open>cbb.c\<close>, which sorts the elements of a DER SET OF by their
  encodings, and \<open>compare_set_of_element\<close>, its comparison.  \<open>qsort\<close> of the C library is a
  parameter; what the proofs use of it is \<open>sorts\<close>.
\<close>

section \<open>The comparison\<close>

definition compare_set_of_element :: "cbs \<Rightarrow> cbs \<Rightarrow> int" where
  "compare_set_of_element a b =
     (let a_len = CBS_len a; b_len = CBS_len b;
          min_len = (if a_len < b_len then a_len else b_len);
          ret = OPENSSL_memcmp (CBS_data a) (CBS_data b) min_len
      in if ret \<noteq> 0 then ret
         else if a_len = b_len then 0
         else if a_len < b_len then -1 else 1)"

lemma compare_simps [simp]:
  "compare_set_of_element [] [] = 0"
  "compare_set_of_element [] (y # ys) = -1"
  "compare_set_of_element (x # xs) [] = 1"
  "compare_set_of_element (x # xs) (y # ys) =
     (if x = y then compare_set_of_element xs ys else if unat x < unat y then -1 else 1)"
  by (auto simp: compare_set_of_element_def CBS_len_def CBS_data_def OPENSSL_memcmp_def Let_def)

lemma compare_swap: "compare_set_of_element ys xs = - compare_set_of_element xs ys"
proof (induction xs arbitrary: ys)
  case (Cons x xs)
  then show ?case by (cases ys) (auto simp: word_unat_eq_iff)
next
  case Nil
  then show ?case by (cases ys) auto
qed

lemma compare_eq_0: "compare_set_of_element xs ys = 0 \<longleftrightarrow> xs = ys"
proof (induction xs arbitrary: ys)
  case (Cons x xs)
  then show ?case by (cases ys) auto
next
  case Nil
  then show ?case by (cases ys) auto
qed

lemma compare_trans:
  "compare_set_of_element xs ys \<le> 0 \<Longrightarrow> compare_set_of_element ys zs \<le> 0 \<Longrightarrow> compare_set_of_element xs zs \<le> 0"
proof (induction xs arbitrary: ys zs)
  case Nil
  then show ?case by (cases zs) auto
next
  case (Cons x xs)
  then obtain y ys' z zs' where "ys = y # ys'" "zs = z # zs'"
    by (cases ys; cases zs) auto
  with Cons show ?case by (auto split: if_splits simp: word_unat_eq_iff)
qed

interpretation set_of: comparator compare_set_of_element
proof unfold_locales
  show "sgn (compare_set_of_element b a) = - sgn (compare_set_of_element a b)" for a b
    using compare_swap [of b a] by simp
qed (rule compare_trans)

text \<open>
  The order that X.690 asks for, on its own: octets are compared as numbers from 0 to 255, the first that differs decides, and a
  string comes before its extensions.\<close>

fun octets_le :: "u8 list \<Rightarrow> u8 list \<Rightarrow> bool" where
  "octets_le [] ys = True"
| "octets_le (x # xs) [] = False"
| "octets_le (x # xs) (y # ys) = (unat x < unat y \<or> x = y \<and> octets_le xs ys)"

lemma compare_octets_le: "compare_set_of_element xs ys \<le> 0 \<longleftrightarrow> octets_le xs ys"
  by (induction xs ys rule: octets_le.induct) (case_tac ys, auto)

text \<open>The elements of a SET OF as a linearly ordered type.\<close>

datatype set_of_element = Element (element_bytes: "u8 list")

instantiation set_of_element :: linorder
begin

definition less_eq_set_of_element :: "set_of_element \<Rightarrow> set_of_element \<Rightarrow> bool" where
  "less_eq_set_of_element a b = (compare_set_of_element (element_bytes a) (element_bytes b) \<le> 0)"

definition less_set_of_element :: "set_of_element \<Rightarrow> set_of_element \<Rightarrow> bool" where
  "less_set_of_element a b = (compare_set_of_element (element_bytes a) (element_bytes b) < 0)"

instance
proof
  fix a b c :: set_of_element
  show "a < b \<longleftrightarrow> a \<le> b \<and> \<not> b \<le> a"
    using compare_swap [of "element_bytes b" "element_bytes a"]
    by (auto simp: less_eq_set_of_element_def less_set_of_element_def)
  show "a \<le> a" by (simp add: less_eq_set_of_element_def set_of.refl)
  show "a \<le> b \<Longrightarrow> b \<le> c \<Longrightarrow> a \<le> c"
    by (auto simp: less_eq_set_of_element_def intro: compare_trans)
  show "a \<le> b \<Longrightarrow> b \<le> a \<Longrightarrow> a = b"
    using set_of.le_swap [of "element_bytes a" "element_bytes b"] compare_eq_0 [of "element_bytes a" "element_bytes b"]
      set_of.zero_swap [of "element_bytes a" "element_bytes b"] compare_swap [of "element_bytes a" "element_bytes b"]
    by (cases a; cases b) (auto simp: less_eq_set_of_element_def)
  show "a \<le> b \<or> b \<le> a"
    using set_of.total by (auto simp: less_eq_set_of_element_def)
qed

end

section \<open>Sorting the elements of a SET OF\<close>

fun read_n :: "nat \<Rightarrow> 'a reader \<Rightarrow> u8 list \<Rightarrow> 'a list option" where
  "read_n 0 rd s = Some []"
| "read_n (Suc n) rd s = (case rd s of
     (None, _) \<Rightarrow> None | (Some a, s) \<Rightarrow> map_option (Cons a) (read_n n rd s))"

abbreviation sizeof_CBS :: nat where "sizeof_CBS \<equiv> 16"

fun add_children :: "allocator \<Rightarrow> cbs list \<Rightarrow> cbb_op" where
  "add_children alloc [] = Pair True"
| "add_children alloc (c # cs) = and_then (CBB_add_bytes alloc (take (CBS_len c) (CBS_data c))) (add_children alloc cs)"

definition CBB_flush_asn1_set_of ::
  "(cbs comparison \<Rightarrow> cbs list \<Rightarrow> cbs list) \<Rightarrow> allocator \<Rightarrow> cbb_op" where
  "CBB_flush_asn1_set_of qsort alloc =
     and_then (CBB_flush alloc) (\<lambda>cbb.
       case read_all CBS_get_any_asn1_element (CBS_init (CBB_data cbb) (CBB_len cbb)) of
         None \<Rightarrow> (False, cbb)
       | Some elements \<Rightarrow>
           let num_children = length elements
           in if num_children < 2 then (True, cbb)
              else if num_children > (size_bound - 1) div sizeof_CBS then (False, cbb)
              else let buf_len = CBB_len cbb
                   in (case OPENSSL_memdup alloc (CBB_data cbb) buf_len of
                         None \<Rightarrow> (False, cbb)
                       | Some copy \<Rightarrow>
                           if \<not> alloc (size_mult num_children sizeof_CBS) then (False, cbb)
                           else (case read_n num_children CBS_get_any_asn1_element (CBS_init copy buf_len) of
                                   None \<Rightarrow> (False, cbb)
                                 | Some children \<Rightarrow>
                                     let children = qsort compare_set_of_element (map fst children);
                                         start = offset (self cbb) + pending_len_len (self cbb);
                                         cbb = cbb\<lparr>base := map_option (\<lambda>b. b\<lparr>buf := take start (buf b)\<rparr>) (base cbb)\<rparr>
                                     in add_children alloc children cbb)))"

section \<open>Correctness\<close>

lemma read_n_all: "read_all CBS_get_any_asn1_element s = Some es \<Longrightarrow> read_n (length es) CBS_get_any_asn1_element s = Some es"
proof (induction es arbitrary: s)
  case (Cons e es)
  then have "s \<noteq> []" by auto
  with Cons.prems obtain s' where "CBS_get_any_asn1_element s = (Some e, s')"
      "read_all CBS_get_any_asn1_element s' = Some es"
    by (auto simp: elem.read_all_step split: option.splits prod.splits)
  with Cons.IH show ?case by simp
qed simp

lemma appends_children:
  "(\<And>c. c \<in> set cs \<Longrightarrow> length c < size_bound) \<Longrightarrow> appends alloc (add_children alloc cs) (concat cs)"
proof -
  assume "\<And>c. c \<in> set cs \<Longrightarrow> length c < size_bound"
  then have "appends alloc (foldr (\<lambda>c. and_then (CBB_add_bytes alloc c)) cs (Pair True)) (concat (map (\<lambda>c. c) cs))"
    by (intro cbbw.writes_foldr appends_bytes)
  moreover have "add_children alloc cs = foldr (\<lambda>c. and_then (CBB_add_bytes alloc c)) cs (Pair True)"
    by (induction cs) (simp_all add: CBS_len_def CBS_data_def)
  ultimately show ?thesis by simp
qed

definition der_encoding :: "u8 list \<Rightarrow> bool" where
  "der_encoding e = (\<exists>tag c. length c < 2 ^ 32 \<and> e = der_element tag c)"

definition set_of_sorted :: "u8 list \<Rightarrow> u8 list \<Rightarrow> bool" where
  "set_of_sorted before after = (\<exists>es es'. before = concat es \<and> after = concat es' \<and>
     (\<forall>e \<in> set es. der_encoding e) \<and> mset es' = mset es \<and>
     sorted_wrt octets_le es')"

lemma elements_der: "read_all CBS_get_any_asn1_element s = Some es \<Longrightarrow>
    s = concat (map fst es) \<and> (\<forall>e \<in> set (map fst es). der_encoding e)"
proof -
  have "der_encoding (fst e)" if "element_ok e" for e
    using that by (metis fst_conv element_ok_def der_encoding_def)
  then show "read_all CBS_get_any_asn1_element s = Some es \<Longrightarrow> ?thesis"
    by (auto simp: elem.read_all_iff simp del: split_paired_All)
qed

lemma set_of_after_flush:
  assumes q: "sorts qsort compare_set_of_element"
    and c: "cbb_ok c b" "kids c = []"
    and elems: "read_all CBS_get_any_asn1_element (drop (body_start (self c)) (buf b)) = Some elements"
  defines "children \<equiv> qsort compare_set_of_element (map fst elements)"
  defines "c2 \<equiv> c\<lparr>base := Some (b\<lparr>buf := take (body_start (self c)) (buf b)\<rparr>)\<rparr>"
  shows "set_of_sorted (drop (body_start (self c)) (buf b)) (concat children)"
    and "\<exists>c' b'. add_children alloc children c2 = (True, c') \<and> cbb_ok c' b' \<and> self c' = self c \<and>
      extends_buffer b b' \<and> contents c' b' = take (body_start (self c)) (buf b) @ concat children"
proof -
  let ?n = "body_start (self c)" and ?es = "map fst elements"
  let ?b2 = "b\<lparr>buf := take ?n (buf b)\<rparr>"
  note E = elements_der [OF elems]
  have perm: "mset children = mset ?es" and sorted: "sorted_wrt (\<lambda>a b. compare_set_of_element a b \<le> 0) children"
    using q unfolding sorts_def children_def by blast+
  show "set_of_sorted (drop ?n (buf b)) (concat children)"
    unfolding set_of_sorted_def using E perm sorted [unfolded compare_octets_le] by blast
  have "length (concat children) = length (concat ?es)"
  proof -
    have "mset (map length children) = mset (map length ?es)"
      unfolding mset_map perm ..
    then have "sum_list (map length children) = sum_list (map length ?es)"
      by (metis sum_mset_sum_list)
    then show ?thesis by (simp add: length_concat)
  qed
  then have len: "length (concat children) = length (buf b) - ?n"
    using arg_cong [OF conjunct1 [OF E], of length] by simp
  have n: "?n \<le> length (buf b)" using c by (simp add: cbb_ok_def)
  have ok2: "cbb_ok c2 ?b2" "kids c2 = []" "contents c2 ?b2 = take ?n (buf b)" "closes c2 ?b2" "self c2 = self c"
    using c by (simp_all add: c2_def cbb_ok_def buffer_ok_def contents_def closes_def)
  have small: "length e < size_bound" if "e \<in> set children" for e
  proof -
    have "length e \<le> length (concat children)"
      using that by (induction children) auto
    also have "\<dots> \<le> cap b" using len c by (auto simp: cbb_ok_def buffer_ok_def)
    finally show ?thesis using c by (simp add: cbb_ok_def buffer_ok_def)
  qed
  obtain ok c' where r: "add_children alloc children c2 = (ok, c')" by fastforce
  have out: "outcome alloc c2 ?b2 (concat children) (ok, c')"
    using appends_children [OF small, where alloc = alloc] ok2(1) r unfolding appends_def by metis
  have "room alloc ?b2 (length (contents c2 ?b2) + length (concat children))"
    using len n c ok2(3) by (simp add: room_def cbb_ok_def buffer_ok_def min_absorb2)
  then have ok using out ok2(4) by (simp add: outcome_def)
  with out r ok2 show "\<exists>c' b'. add_children alloc children c2 = (True, c') \<and> cbb_ok c' b' \<and> self c' = self c \<and>
      extends_buffer b b' \<and> contents c' b' = take ?n (buf b) @ concat children"
    by (auto simp: outcome_def extends_buffer_def)
qed

lemma set_of_step:
  assumes c: "cbb_ok c b" "kids c = []"
  shows "CBS_init (CBB_data c) (CBB_len c) = drop (body_start (self c)) (buf b)"
    and "CBB_len c = length (drop (body_start (self c)) (buf b))"
    and "CBB_data c = drop (body_start (self c)) (buf b)"
  using c by (simp_all add: cbb_ok_def CBB_data_def CBB_len_def CBS_init_def body_start_def)

lemma set_of_result:
  assumes "sorts qsort compare_set_of_element" "cbb_ok c b"
    and "CBB_flush_asn1_set_of qsort alloc c = (True, c')"
  shows "\<exists>b'. cbb_ok c' b' \<and> extends_buffer b b' \<and> self c' = self c \<and> take (body_start (self c)) (contents c' b') = take (body_start (self c)) (contents c b) \<and>
    set_of_sorted (drop (body_start (self c)) (contents c b)) (drop (body_start (self c)) (contents c' b'))"
proof -
  let ?n = "body_start (self c)"
  obtain c1 where f: "CBB_flush alloc c = (True, c1)"
    using assms(3) by (auto simp: CBB_flush_asn1_set_of_def and_then_def split: prod.splits bool.splits)
  note F = CBB_flush_outcome [OF assms(2), of alloc]
  have k1: "kids c1 = []" using F(2) [OF f] by simp
  obtain b1 where c1: "cbb_ok c1 b1" "self c1 = self c" "buf b1 = contents c b" "extends_buffer b b1"
    using F(1) f k1 by (auto simp: outcome_def contents_def)
  note S = set_of_step [OF c1(1) k1, unfolded c1(2)]
  let ?s = "drop ?n (buf b1)"
  obtain elements where el: "read_all CBS_get_any_asn1_element ?s = Some elements"
    using assms(3) f by (auto simp: CBB_flush_asn1_set_of_def and_then_def S CBS_init_def split: option.splits)
  note E = elements_der [OF el]
  have n: "?n \<le> length (buf b1)" using c1 k1 by (simp add: cbb_ok_def)
  show ?thesis
  proof (cases "length elements < 2")
    case True
    then have "c' = c1"
      using assms(3) f el by (simp add: CBB_flush_asn1_set_of_def and_then_def S CBS_init_def)
    moreover have "sorted_wrt octets_le (map fst elements)"
      using True by (cases elements; cases "tl elements") auto
    then have "set_of_sorted ?s ?s"
      unfolding set_of_sorted_def using E by blast
    ultimately show ?thesis
      using c1 k1 by (intro exI [of _ b1]) (simp add: contents_def)
  next
    case False
    then have ne: "?s \<noteq> []" using el by auto
    let ?children = "qsort compare_set_of_element (map fst elements)"
    let ?c2 = "c1\<lparr>base := Some (b1\<lparr>buf := take ?n (buf b1)\<rparr>)\<rparr>"
    have "base c1 = Some b1" using c1 by (simp add: cbb_ok_def)
    then have add: "add_children alloc ?children ?c2 = (True, c')"
      using assms(3) f el False ne read_n_all [OF el]
      by (simp add: CBB_flush_asn1_set_of_def and_then_def S OPENSSL_memdup_def CBS_init_def Let_def c1(2)
          body_start_def split: if_splits)
    note A = set_of_after_flush [OF assms(1) c1(1) k1, unfolded c1(2), OF el]
    from A(2) [where alloc = alloc] obtain b' where
        "cbb_ok c' b'" "self c' = self c" "extends_buffer b1 b'" "contents c' b' = take ?n (buf b1) @ concat ?children"
      unfolding add by blast
    moreover note A(1)
    ultimately have "cbb_ok c' b'" "self c' = self c" "extends_buffer b1 b'" "contents c' b' = take ?n (buf b1) @ concat ?children"
        "set_of_sorted ?s (concat ?children)" by blast+
    then show ?thesis using c1 n extends_buffer_trans [OF c1(4)] by (intro exI [of _ b']) simp
  qed
qed

text \<open>
  C18: \<open>CBB_flush_asn1_set_of\<close> sorts.  When it succeeds on a well-formed builder, what was
  written to the builder so far was a sequence of DER elements, and what it holds now is the
  same elements, none lost and none duplicated, in the ascending order of X.690 section 11.6 (\<open>octets_le\<close>); the
  bytes before the builder's own contents are untouched.\<close>

theorem set_of_sorts:
  assumes "sorts qsort compare_set_of_element" "cbb_ok c b"
    and "CBB_flush_asn1_set_of qsort alloc c = (True, c')"
  shows "\<exists>b'. cbb_ok c' b' \<and> take (body_start (self c)) (contents c' b') = take (body_start (self c)) (contents c b) \<and>
    set_of_sorted (drop (body_start (self c)) (contents c b)) (drop (body_start (self c)) (contents c' b'))"
  using set_of_result [OF assms] by blast

text \<open>
  \<open>CBB_flush_asn1_set_of\<close> does not fail without cause.  On a well-formed builder
  with no open child whose contents are DER elements, given memory, it succeeds: writing the
  sorted elements back never needs a larger buffer.\<close>

lemma set_of_success:
  assumes "sorts qsort compare_set_of_element" "\<forall>n. alloc n" "cbb_ok c b" "kids c = []"
    and "drop (body_start (self c)) (buf b) = concat es" "\<forall>e \<in> set es. der_encoding e"
    and "length es \<le> (size_bound - 1) div sizeof_CBS"
  shows "fst (CBB_flush_asn1_set_of qsort alloc c)"
proof -
  let ?n = "body_start (self c)"
  note S = set_of_step [OF assms(3,4)]
  have f: "CBB_flush alloc c = (True, c)"
  proof (cases c)
    case (fields base self kids)
    then show ?thesis using assms(3,4) by (auto simp: CBB_flush_def cbb_ok_def buffer_ok_def)
  qed
  have "\<exists>els. (\<forall>e \<in> set els. element_ok e) \<and> map fst els = es"
    using assms(6)
  proof (induction es)
    case (Cons e es)
    then obtain els tag con where "\<forall>e \<in> set els. element_ok e" "map fst els = es"
        "length con < 2 ^ 32" "e = der_element tag con" by (auto simp: der_encoding_def)
    then show ?case
      by (intro exI [of _ "(e, tag, length (der_header tag (length con))) # els"]) (auto simp: element_ok_def)
  qed simp
  then obtain els where els: "\<forall>e \<in> set els. element_ok e" "map fst els = es" by blast
  then have el: "read_all CBS_get_any_asn1_element (drop ?n (buf b)) = Some els"
    using assms(5) unfolding elem.read_all_iff by simp
  have len: "length els = length es" using els(2) by auto
  show ?thesis
  proof (cases "length els < 2")
    case True
    then show ?thesis using f el by (simp add: CBB_flush_asn1_set_of_def and_then_def S CBS_init_def)
  next
    case False
    then have "drop ?n (buf b) \<noteq> []" using el by auto
    moreover have "base c = Some b" using assms(3) by (simp add: cbb_ok_def)
    moreover from set_of_after_flush(2) [OF assms(1,3,4) el, where alloc = alloc] obtain c' where
      "add_children alloc (qsort compare_set_of_element (map fst els))
         (c\<lparr>base := Some (b\<lparr>buf := take ?n (buf b)\<rparr>)\<rparr>) = (True, c')" by blast
    ultimately show ?thesis
      using f el False len assms(2,7) read_n_all [OF el]
      by (simp add: CBB_flush_asn1_set_of_def and_then_def S OPENSSL_memdup_def CBS_init_def Let_def body_start_def)
  qed
qed

text \<open>
  The comment in \<open>compare_set_of_element\<close> that its last case is not reachable.  Of
  two different byte strings that the DER reader accepts as whole elements neither is a
  prefix of the other, so the common-length comparison already decides.\<close>

theorem set_of_prefix_unreachable:
  assumes "CBS_get_any_asn1_element a = (Some (ea, ta, ha), [])"
    and "CBS_get_any_asn1_element b = (Some (eb, tb, hb), [])" and "a \<noteq> b"
  shows "OPENSSL_memcmp (CBS_data a) (CBS_data b) (min (CBS_len a) (CBS_len b)) \<noteq> 0"
proof
  let ?m = "min (CBS_len a) (CBS_len b)"
  assume "OPENSSL_memcmp (CBS_data a) (CBS_data b) ?m = 0"
  then have "?m = 0 \<or> memcmp (take ?m a) (take ?m b) = 0"
    by (auto simp: OPENSSL_memcmp_def CBS_data_def split: if_splits)
  then have eq: "take ?m a = take ?m b"
    by (auto simp: memcmp_0_iff CBS_len_def)
  have oa: "element_ok (ea, ta, ha)" "a = ea" and ob: "element_ok (eb, tb, hb)" "b = eb"
    using elem.canonical [OF assms(1)] elem.canonical [OF assms(2)] by auto
  consider "take (length a) b = a" "length a \<le> length b" | "take (length b) a = b" "length b \<le> length a"
    using eq by (cases "length a \<le> length b") (auto simp: CBS_len_def min_def)
  then show False
  proof cases
    case 1
    then have "b = a @ drop (length a) b" by (metis append_take_drop_id)
    then have "fst (eb, tb, hb) = fst (ea, ta, ha) @ drop (length a) b" using oa(2) ob(2) by simp
    from elem.prefix_free [OF ob(1) oa(1) this] oa(2) ob(2) \<open>a \<noteq> b\<close> show False by simp
  next
    case 2
    then have "a = b @ drop (length b) a" by (metis append_take_drop_id)
    then have "fst (ea, ta, ha) = fst (eb, tb, hb) @ drop (length b) a" using oa(2) ob(2) by simp
    from elem.prefix_free [OF oa(1) ob(1) this] oa(2) ob(2) \<open>a \<noteq> b\<close> show False by simp
  qed
qed

definition two_elements :: cbb_buffer where
  "two_elements = \<lparr>buf = [9, 2, 1, 5, 2, 1, 3], cap = 8, can_resize = False, error = False\<rparr>"

definition two_elements_cbb :: cbb where
  "two_elements_cbb = \<lparr>base = Some two_elements, self = child_frame 0 1 True, kids = []\<rparr>"

lemma two_elements_ok:
  "cbb_ok two_elements_cbb two_elements" "kids two_elements_cbb = []"
  "drop (body_start (self two_elements_cbb)) (buf two_elements) = concat [[2, 1, 5], [2, 1, 3]]"
  "\<forall>e \<in> set [[2, 1, 5], [2, 1, 3]]. der_encoding e"
proof -
  have "der_element 2 [x] = [2, 1, x]" for x
    by (simp add: der_element_def der_header_def der_length_def der_identifier_def)
  then have "der_encoding [2, 1, x]" for x
    unfolding der_encoding_def by (intro exI [of _ 2] exI [of _ "[x]"]) simp
  then show "\<forall>e \<in> set [[2, 1, 5], [2, 1, 3]]. der_encoding e" by simp
qed (simp_all add: two_elements_cbb_def two_elements_def cbb_ok_def buffer_ok_def body_start_def child_frame_def)

lemma set_of_sorts_witness:
  "\<exists>c' b'. CBB_flush_asn1_set_of insertion_sort (\<lambda>_. True) two_elements_cbb = (True, c') \<and>
     set_of_sorted [2, 1, 5, 2, 1, 3] (drop 1 (contents c' b'))"
proof -
  have "fst (CBB_flush_asn1_set_of insertion_sort (\<lambda>_. True) two_elements_cbb)"
    by (rule set_of_success [OF set_of.insertion_sort_sorts _ two_elements_ok]) simp_all
  then obtain c' where r: "CBB_flush_asn1_set_of insertion_sort (\<lambda>_. True) two_elements_cbb = (True, c')"
    by (metis prod.collapse)
  have "body_start (self two_elements_cbb) = 1" "drop 1 (contents two_elements_cbb two_elements) = [2, 1, 5, 2, 1, 3]"
    by (simp_all add: two_elements_cbb_def two_elements_def body_start_def child_frame_def contents_def)
  with set_of_sorts [OF set_of.insertion_sort_sorts two_elements_ok(1) r] show ?thesis
    unfolding r by auto
qed

lemma set_of_prefix_unreachable_witness:
  "OPENSSL_memcmp (CBS_data [5, 0]) (CBS_data [1, 1, 0]) (min (CBS_len [5, 0]) (CBS_len [1, 1, 0])) \<noteq> 0"
proof -
  have "CBS_get_any_asn1_element [5, 0] = (Some ([5, 0], 5, 2), [])"
    and "CBS_get_any_asn1_element [1, 1, 0] = (Some ([1, 1, 0], 1, 2), [])"
    by (auto simp: any_element_iff der_element_def der_header_def der_length_def der_identifier_def
        intro: exI [of _ "[]"] exI [of _ "[0]"])
  from set_of_prefix_unreachable [OF this] show ?thesis by simp
qed

end
