(* ===== verification/Cbb_Calls.thy ===== *)
theory Cbb_Calls
  imports Set_Of Oid_Text
begin

text \<open>
  All the calls that a user of a builder can make on it or, through a child, on the builders below it, and what holds in the
  states that sequences of successful calls reach: the buffer and the pending prefixes stay well-formed, and an error is never
  forgotten.
\<close>

section \<open>Calls\<close>

text \<open>
  The second argument tells whether the call looks at the error flag: all do, in \<open>CBB_flush\<close>, except \<open>CBB_did_write\<close> and
  \<open>CBB_discard_child\<close>.\<close>

inductive cbb_call :: "allocator \<Rightarrow> bool \<Rightarrow> cbb_op \<Rightarrow> bool" for alloc :: allocator where
  flush: "cbb_call alloc checked (CBB_flush alloc)"
| bytes: "length data < size_bound \<Longrightarrow> cbb_call alloc checked (CBB_add_bytes alloc data)"
| space: "length data < size_bound \<Longrightarrow> cbb_call alloc checked (CBB_add_space alloc data)"
| reserve: "n < size_bound \<Longrightarrow> cbb_call alloc checked (CBB_reserve alloc n)"
| did_write: "length filled < size_bound \<Longrightarrow> cbb_call alloc False (CBB_did_write filled)"
| unsigned: "0 < n \<Longrightarrow> n \<le> 8 \<Longrightarrow> cbb_call alloc checked (cbb_add_u alloc n v)"
| prefixed: "0 < n \<Longrightarrow> n \<le> 3 \<Longrightarrow> cbb_call alloc checked (cbb_add_length_prefixed alloc n)"
| asn1: "cbb_call alloc checked (CBB_add_asn1 alloc tag)"
| uint64: "cbb_call alloc checked (CBB_add_asn1_uint64 alloc v)"
| int64: "cbb_call alloc checked (CBB_add_asn1_int64 alloc v)"
| octets: "length data \<le> 0xfffffffe \<Longrightarrow> cbb_call alloc checked (CBB_add_asn1_octet_string alloc data)"
| boolean: "cbb_call alloc checked (CBB_add_asn1_bool alloc b)"
| oid: "cbb_call alloc checked (CBB_add_asn1_oid_from_text alloc txt len)"
| set_of: "sorts qsort compare_set_of_element \<Longrightarrow> cbb_call alloc checked (CBB_flush_asn1_set_of qsort alloc)"
| discard: "cbb_call alloc False (\<lambda>cbb. (True, CBB_discard_child cbb))"
| child: "cbb_call alloc checked f \<Longrightarrow> cbb_call alloc checked (on_child f)"

inductive cbb_run :: "allocator \<Rightarrow> cbb \<Rightarrow> cbb \<Rightarrow> bool" for alloc :: allocator and c0 :: cbb where
  start: "cbb_run alloc c0 c0"
| call: "cbb_run alloc c0 c \<Longrightarrow> cbb_call alloc checked f \<Longrightarrow> f c = (True, c') \<Longrightarrow> cbb_run alloc c0 c'"

section \<open>After an error\<close>

lemmas cbb_call_defs = CBB_add_bytes_def CBB_add_space_def CBB_reserve_def cbb_add_u_def cbb_add_length_prefixed_def
  CBB_add_asn1_def CBB_add_asn1_uint64_def CBB_add_asn1_int64_def CBB_add_asn1_octet_string_def CBB_add_asn1_bool_def
  CBB_add_asn1_oid_from_text_def CBB_flush_asn1_set_of_def asn1_child_def Let_def

lemma child_of_failed:
  assumes "failed c" "\<And>v. failed v \<Longrightarrow> f v = (False, v)"
  shows "on_child f c = (False, c)"
proof (cases "kids c")
  case (Cons k ks)
  have "f \<lparr>base = base c, self = k, kids = ks\<rparr> = (False, \<lparr>base = base c, self = k, kids = ks\<rparr>)"
    by (rule assms(2)) (use assms(1) in \<open>simp add: failed_def\<close>)
  with Cons show ?thesis by (cases c) (simp add: on_child_def)
next
  case Nil
  then show ?thesis by (simp add: on_child_def assms(2) failed_def)
qed

lemma call_failed: "cbb_call alloc checked f \<Longrightarrow> failed c \<Longrightarrow> checked \<Longrightarrow> f c = (False, c)"
proof (induction arbitrary: c rule: cbb_call.induct)
  case (child checked f)
  then show ?case by (intro child_of_failed) auto
qed (auto simp: cbb_call_defs intro!: failed_intros)

lemma discard_failed: "failed (CBB_discard_child c) = failed c"
  by (auto simp: CBB_discard_child_def failed_def split: list.splits option.splits)

lemma did_write_failed: "failed (snd (CBB_did_write filled c)) = failed c"
  by (auto simp: CBB_did_write_def failed_def Let_def split: option.splits)

lemma failed_stays: "cbb_call alloc checked f \<Longrightarrow> failed c \<Longrightarrow> failed (snd (f c))"
proof (induction arbitrary: c rule: cbb_call.induct)
  case (child checked f)
  show ?case
  proof (cases "kids c")
    case (Cons k ks)
    have "failed (snd (f \<lparr>base = base c, self = k, kids = ks\<rparr>))"
      by (rule child.IH) (use child.prems in \<open>simp add: failed_def\<close>)
    with Cons show ?thesis by (auto simp: on_child_def failed_def split: prod.splits)
  qed (use child.prems in \<open>simp add: on_child_def\<close>)
qed (simp_all add: discard_failed did_write_failed, (subst call_failed, blast intro: cbb_call.intros, assumption, rule TrueI, simp)+)

section \<open>Well-formedness\<close>

lemma safe_result:
  "cbb_safe f \<Longrightarrow> cbb_ok c b \<Longrightarrow> f c = (True, c') \<Longrightarrow> \<exists>b'. cbb_ok c' b' \<and> extends_buffer b b' \<and> self c' = self c"
  by (auto simp: cbb_safe_def safe_at_def) fastforce

lemma add_space_eq: "CBB_add_space = CBB_add_bytes"
  by (simp add: fun_eq_iff CBB_add_space_def CBB_add_bytes_def)

lemma safe_calls:
  "cbb_safe (CBB_flush alloc)" "length data < size_bound \<Longrightarrow> cbb_safe (CBB_add_bytes alloc data)"
  "length data < size_bound \<Longrightarrow> cbb_safe (CBB_add_space alloc data)"
  "cbb_safe (CBB_add_asn1_uint64 alloc v)" "cbb_safe (CBB_add_asn1_int64 alloc v)"
  "length data \<le> 0xfffffffe \<Longrightarrow> cbb_safe (CBB_add_asn1_octet_string alloc data)"
  "cbb_safe (CBB_add_asn1_bool alloc i)"
  by (simp_all add: add_space_eq)
     (blast intro: appends_safe appends_flush appends_bytes appends_asn1_uint64 appends_asn1_int64
       appends_octet_string appends_asn1_bool)+

lemma oid_text_safe:
  assumes "cbb_ok c b" "CBB_add_asn1_oid_from_text alloc txt len c = (True, c')"
  shows "\<exists>b'. cbb_ok c' b' \<and> extends_buffer b b' \<and> self c' = self c"
proof -
  obtain a1 a2 vs where oid: "oid_ok a1 a2" "take len txt = dotted (a1 # a2 # vs)" using from_text_success [OF assms(2)] by blast
  have "CBB_add_asn1_oid_from_text alloc txt len = CBB_add_asn1_oid_from_text alloc (dotted (a1 # a2 # vs)) (length (dotted (a1 # a2 # vs)))"
    unfolding CBB_add_asn1_oid_from_text_def CBS_init_def oid(2) [symmetric] by (simp only: take_all order.refl)
  then have "appends alloc (CBB_add_asn1_oid_from_text alloc txt len) (oid_octets a1 a2 vs)"
    using appends_oid [OF oid(1)] by simp
  from safe_result [OF appends_safe [OF this] assms] show ?thesis .
qed

lemma did_write_safe:
  assumes "cbb_ok c b" "CBB_did_write filled c = (True, c')" "length filled < size_bound"
  shows "\<exists>b'. cbb_ok c' b' \<and> extends_buffer b b' \<and> self c' = self c"
proof -
  let ?b = "b\<lparr>buf := buf b @ filled\<rparr>" and ?new = "size_add (length (buf b)) (length filled)"
  have len: "length (buf b) < size_bound" using assms(1) by (simp add: cbb_ok_def buffer_ok_def)
  have c': "c' = c\<lparr>base := Some ?b\<rparr>" "kids c = []" "\<not> ?new < length (buf b)" "?new \<le> cap b"
    using assms(1,2) by (auto simp: CBB_did_write_def cbb_ok_def Let_def split: if_splits)
  then have "?new = length (buf b) + length filled"
    using size_add_overflow_iff [OF len assms(3)] size_add_eq by (metis not_less)
  with c' assms(1) show ?thesis by (intro exI [of _ ?b]) (auto simp: cbb_ok_def buffer_ok_def extends_buffer_def)
qed

lemma discard_safe: "cbb_ok c b \<Longrightarrow> \<exists>b'. cbb_ok (CBB_discard_child c) b' \<and> extends_buffer b b' \<and> self (CBB_discard_child c) = self c"
  using safe_discard [of c b] by (auto simp: CBB_discard_child_def split: list.splits)

lemma call_safe:
  "cbb_call alloc checked f \<Longrightarrow> cbb_ok c b \<Longrightarrow> f c = (True, c') \<Longrightarrow> \<exists>b'. cbb_ok c' b' \<and> extends_buffer b b' \<and> self c' = self c"
proof (induction arbitrary: c c' rule: cbb_call.induct)
  case (child checked f)
  show ?case
  proof (cases "kids c")
    case Nil
    with child.prems show ?thesis by (auto simp: on_child_def)
  next
    case (Cons k ks)
    then obtain v where v: "f \<lparr>base = base c, self = k, kids = ks\<rparr> = (True, v)"
        "c' = c\<lparr>base := base v, kids := self v # kids v\<rparr>"
      using child.prems by (auto simp: on_child_def split: prod.splits)
    have "cbb_ok \<lparr>base = base c, self = k, kids = ks\<rparr> b"
      using child.prems Cons by (simp add: cbb_ok_def)
    from child.IH [OF this v(1)] obtain b' where "cbb_ok v b'" "extends_buffer b b'" "self v = k" by auto
    then show ?thesis
      using v(2) child.prems Cons by (intro exI [of _ b']) (simp add: cbb_ok_def)
  qed
next
  case (prefixed n)
  then show ?case by (intro safe_result [OF safe_add_length_prefixed]) auto
next
  case (did_write filled)
  then show ?case by (intro did_write_safe)
next
  case (oid str len)
  then show ?case by (intro oid_text_safe)
next
  case (set_of qsort)
  then show ?case using set_of_result by blast
next
  case discard
  then show ?case using discard_safe by auto
qed (erule (1) safe_result [rotated], simp add: safe_calls safe_reserve safe_add_u safe_add_asn1)+

lemma run_safe: "cbb_run alloc c0 c \<Longrightarrow> cbb_ok c0 b0 \<Longrightarrow> \<exists>b. cbb_ok c b \<and> extends_buffer b0 b"
proof (induction rule: cbb_run.induct)
  case (call c checked f c')
  then show ?case using call_safe extends_buffer_trans by blast
qed auto

section \<open>Properties\<close>

text \<open>
  C20: the sticky error flag.  Once a builder has hit an error (or has been detached), every call on it, or on its children
  through it, that looks at the flag fails and changes nothing, and so does \<open>CBB_finish\<close>.  Those are all calls but
  \<open>CBB_did_write\<close> and \<open>CBB_discard_child\<close>; no call at all clears the error.\<close>

theorem cbb_error_sticky:
  assumes "cbb_call alloc checked f" "failed c"
  shows "(checked \<longrightarrow> f c = (False, c)) \<and> CBB_finish alloc want_out c = (None, c) \<and> failed (snd (f c))"
  using call_failed [OF assms] flush_failed [OF assms(2)] failed_stays [OF assms] by (simp add: CBB_finish_def)

text \<open>
  C5: memory safety of the builder.  Whatever sequence of successful calls (all functions of \<open>cbb.c\<close>, on the builder or its
  children) a fresh builder goes through, its valid bytes lie inside its buffer, the length
  prefixes of all open children lie one after the other inside the valid bytes, and a
  builder over a fixed buffer still has the capacity it was given.\<close>

theorem cbb_memory_safe:
  assumes "n < size_bound" "CBB_init alloc n = (True, c0) \<or> CBB_init_fixed alloc n = (True, c0)"
    and "cbb_run alloc c0 c"
  shows "\<exists>b. base c = Some b \<and> \<not> error b \<and> length (buf b) \<le> cap b \<and> cap b < size_bound \<and>
    wf_kids 0 (length (buf b)) (kids c) \<and> n \<le> cap b \<and> (\<not> can_resize b \<longrightarrow> cap b = n)"
proof -
  obtain resize where c0: "c0 = fresh n resize" using assms(2) CBB_init_fresh by blast
  obtain b where b: "cbb_ok c b" "extends_buffer (fresh_buffer n resize) b"
    using run_safe [OF assms(3)] fresh_ok(1) [OF assms(1)] c0 by blast
  have "wf_kids 0 (length (buf b)) (kids c)"
    using b(1) by (cases "kids c") (auto simp: cbb_ok_def)
  with b show ?thesis by (auto simp: cbb_ok_def buffer_ok_def extends_buffer_def fresh_buffer_def)
qed

lemma cbb_error_sticky_witness:
  "let c = snd (CBB_add_bytes (\<lambda>_. True) [1, 2] (fresh 1 False))
   in CBB_add_bytes (\<lambda>_. True) [3] c = (False, c) \<and> CBB_finish (\<lambda>_. True) True c = (None, c)"
proof -
  define c where "c = snd (CBB_add_bytes (\<lambda>_. True) [1, 2] (fresh 1 False))"
  have "failed c" unfolding c_def by (simp add: cbb_eval)
  moreover have "cbb_call (\<lambda>_. True) True (CBB_add_bytes (\<lambda>_. True) [3])" by (rule cbb_call.bytes) simp
  ultimately show ?thesis
    using cbb_error_sticky [of "\<lambda>_. True" True "CBB_add_bytes (\<lambda>_. True) [3]" c True] by (simp add: c_def Let_def)
qed

lemma cbb_memory_safe_witness:
  "\<exists>b. base (snd (CBB_add_u8_length_prefixed (\<lambda>_. True) (fresh 4 False))) = Some b \<and> length (buf b) \<le> cap b \<and>
     (\<not> can_resize b \<longrightarrow> cap b = 4)"
proof -
  let ?c = "snd (CBB_add_u8_length_prefixed (\<lambda>_. True) (fresh 4 False))"
  have i: "CBB_init_fixed (\<lambda>_. True) 4 = (True, fresh 4 False)" by (simp add: cbb_eval)
  have s: "cbb_add_length_prefixed (\<lambda>_. True) 1 (fresh 4 False) = (True, ?c)" by (simp add: cbb_eval)
  have "cbb_run (\<lambda>_. True) (fresh 4 False) ?c"
    by (rule cbb_run.call [OF cbb_run.start cbb_call.prefixed s]) simp_all
  from cbb_memory_safe [OF _ disjI2 [OF i] this] show ?thesis by auto
qed

end
