(* ===== verification/Unicode.thy ===== *)
theory Unicode
  imports Cbb
begin

text \<open>
  \<open>crypto/bytestring/unicode.c\<close>: readers and writers of code points in UTF-8, Latin-1,
  UCS-2 and UTF-32.  The readers are interpreted as canonical codecs: each accepts exactly
  the encodings that the matching writer produces.
\<close>

section \<open>Definitions\<close>

definition is_valid_code_point :: "u32 \<Rightarrow> bool" where
  "is_valid_code_point v =
     (if v > 0x10ffff \<or> v AND 0xfffe = 0xfffe \<or> (v \<ge> 0xfdd0 \<and> v \<le> 0xfdef) \<or>
         (v \<ge> 0xd800 \<and> v \<le> 0xdfff) then False else True)"

definition BOTTOM_BITS :: "nat \<Rightarrow> u8" where
  "BOTTOM_BITS n = ucast (push_bit n 1 - 1 :: u32)"

definition TOP_BITS :: "nat \<Rightarrow> u8" where
  "TOP_BITS n = NOT (BOTTOM_BITS (8 - n))"

fun utf8_tail :: "nat \<Rightarrow> u32 \<Rightarrow> u32 reader" where
  "utf8_tail 0 v s = (Some v, s)"
| "utf8_tail (Suc n) v s = (case CBS_get_u8 s of
     (None, s) \<Rightarrow> (None, s)
   | (Some c, s) \<Rightarrow>
       if c AND TOP_BITS 2 \<noteq> TOP_BITS 1 then (None, s)
       else utf8_tail n (push_bit 6 v OR ucast (c AND BOTTOM_BITS 6)) s)"

definition utf8_lead :: "u8 \<Rightarrow> (u32 \<times> nat \<times> u32) option" where
  "utf8_lead c =
     (if c AND TOP_BITS 3 = TOP_BITS 2 then Some (ucast (c AND BOTTOM_BITS 5), 1, 0x80)
      else if c AND TOP_BITS 4 = TOP_BITS 3 then Some (ucast (c AND BOTTOM_BITS 4), 2, 0x800)
      else if c AND TOP_BITS 5 = TOP_BITS 4 then Some (ucast (c AND BOTTOM_BITS 3), 3, 0x10000)
      else None)"

definition cbs_get_utf8 :: "u32 reader" where
  "cbs_get_utf8 s = (case CBS_get_u8 s of
     (None, s) \<Rightarrow> (None, s)
   | (Some c, s) \<Rightarrow>
       if c \<le> 0x7f then (Some (ucast c), s)
       else (case utf8_lead c of
               None \<Rightarrow> (None, s)
             | Some (v, len, lower_bound) \<Rightarrow> (case utf8_tail len v s of
                 (None, s) \<Rightarrow> (None, s)
               | (Some v, s) \<Rightarrow>
                   if \<not> is_valid_code_point v \<or> v < lower_bound then (None, s) else (Some v, s))))"

definition cbs_get_latin1 :: "u32 reader" where
  "cbs_get_latin1 s = (case CBS_get_u8 s of (None, s) \<Rightarrow> (None, s) | (Some c, s) \<Rightarrow> (Some (ucast c), s))"

definition cbs_get_ucs2_be :: "u32 reader" where
  "cbs_get_ucs2_be s = (case CBS_get_u16 s of
     (None, s) \<Rightarrow> (None, s)
   | (Some c, s) \<Rightarrow> if \<not> is_valid_code_point (ucast c) then (None, s) else (Some (ucast c), s))"

definition cbs_get_utf32_be :: "u32 reader" where
  "cbs_get_utf32_be s = (case CBS_get_u32 s of
     (None, s) \<Rightarrow> (None, s)
   | (Some out, s) \<Rightarrow> if is_valid_code_point out then (Some out, s) else (None, s))"

definition cbb_get_utf8_len :: "u32 \<Rightarrow> nat" where
  "cbb_get_utf8_len u = (if u \<le> 0x7f then 1 else if u \<le> 0x7ff then 2 else if u \<le> 0xffff then 3 else 4)"

definition continuation :: "u32 \<Rightarrow> u8" where
  "continuation u = TOP_BITS 1 OR ucast (u AND ucast (BOTTOM_BITS 6))"

definition cbb_add_utf8 :: "allocator \<Rightarrow> u32 \<Rightarrow> cbb_op" where
  "cbb_add_utf8 alloc u =
     (if \<not> is_valid_code_point u then Pair False
      else if u \<le> 0x7f then CBB_add_u8 alloc (ucast u)
      else if u \<le> 0x7ff
      then and_then (CBB_add_u8 alloc (TOP_BITS 2 OR ucast (drop_bit 6 u)))
                    (CBB_add_u8 alloc (continuation u))
      else if u \<le> 0xffff
      then and_then (CBB_add_u8 alloc (TOP_BITS 3 OR ucast (drop_bit 12 u)))
             (and_then (CBB_add_u8 alloc (continuation (drop_bit 6 u)))
                       (CBB_add_u8 alloc (continuation u)))
      else if u \<le> 0x10ffff
      then and_then (CBB_add_u8 alloc (TOP_BITS 4 OR ucast (drop_bit 18 u)))
             (and_then (CBB_add_u8 alloc (continuation (drop_bit 12 u)))
               (and_then (CBB_add_u8 alloc (continuation (drop_bit 6 u)))
                         (CBB_add_u8 alloc (continuation u))))
      else Pair False)"

definition cbb_add_latin1 :: "allocator \<Rightarrow> u32 \<Rightarrow> cbb_op" where
  "cbb_add_latin1 alloc u = (if u \<le> 0xff then CBB_add_u8 alloc (ucast u) else Pair False)"

definition cbb_add_ucs2_be :: "allocator \<Rightarrow> u32 \<Rightarrow> cbb_op" where
  "cbb_add_ucs2_be alloc u =
     (if u \<le> 0xffff \<and> is_valid_code_point u then CBB_add_u16 alloc (ucast u) else Pair False)"

definition cbb_add_utf32_be :: "allocator \<Rightarrow> u32 \<Rightarrow> cbb_op" where
  "cbb_add_utf32_be alloc u = (if is_valid_code_point u then CBB_add_u32 alloc u else Pair False)"

section \<open>Bytes as numbers\<close>

lemma BOTTOM_BITS_mask: "n \<le> 8 \<Longrightarrow> BOTTOM_BITS n = mask n"
proof -
  assume n: "n \<le> 8"
  have "push_bit n 1 - 1 = (mask n :: u32)" by (simp add: mask_eq_exp_minus_1 push_bit_eq_mult)
  then have "BOTTOM_BITS n = ucast (mask n :: u32)" by (simp add: BOTTOM_BITS_def)
  also have "\<dots> = mask n" by (rule bit_word_eqI) (auto simp: bit_simps)
  finally show ?thesis .
qed

lemma TOP_BITS_mask: "n \<le> 8 \<Longrightarrow> TOP_BITS n = NOT (mask (8 - n))"
  by (simp add: TOP_BITS_def BOTTOM_BITS_mask)

lemma unat_and_not_mask: "unat ((c :: u8) AND NOT (mask m)) = unat c div 2 ^ m * 2 ^ m"
proof -
  have "(c AND NOT (mask m)) + (c AND mask m) = (c AND NOT (mask m)) OR (c AND mask m)"
    by (rule disjunctive_add) (auto simp: bit_simps)
  also have "\<dots> = c" by (rule bit_word_eqI) (auto simp: bit_simps)
  finally have "c AND NOT (mask m) = c - (c AND mask m)" by (simp add: eq_diff_eq)
  moreover have "c AND mask m \<le> c"
    unfolding word_le_nat_alt unat_and_mask by simp
  ultimately show ?thesis
    by (simp add: unat_sub unat_and_mask minus_mod_eq_div_mult)
qed

lemma or_not_mask:
  assumes "unat (y :: u8) < 2 ^ m" "unat (NOT (mask m) :: u8) + 2 ^ m = 256"
  shows "unat (NOT (mask m) OR y) = unat (NOT (mask m) :: u8) + unat y"
proof -
  have "y AND mask m = y" using assms(1) by (rule and_mask_eq)
  then have "bit y n \<Longrightarrow> n < m" for n by (metis bit_and_iff bit_mask_iff)
  then have "NOT (mask m) + y = NOT (mask m) OR y"
    by (intro disjunctive_add) (auto simp: bit_simps)
  moreover have "unat (NOT (mask m) :: u8) + unat y < 256"
    using assms by linarith
  then have "unat (NOT (mask m) + y) = unat (NOT (mask m) :: u8) + unat y"
    by (subst unat_word_ariths) simp
  ultimately show ?thesis by simp
qed

lemma div_block: "0 < d \<Longrightarrow> x div d * d = k * d \<longleftrightarrow> k * d \<le> x \<and> x < k * d + (d :: nat)"
proof
  assume d: "0 < d" and e: "x div d * d = k * d"
  have "x div d * d \<le> x" "x < x div d * d + d"
    using d div_mult_mod_eq [of x d] mod_less_divisor [of d x] by linarith+
  with e show "k * d \<le> x \<and> x < k * d + d" by simp
next
  assume "0 < d" "k * d \<le> x \<and> x < k * d + d"
  then have "x div d = k" by (intro div_nat_eqI) (auto simp: algebra_simps)
  then show "x div d * d = k * d" by simp
qed

text \<open>The tests on lead and continuation bytes, and the numbers in them.\<close>

lemma lead_tests:
  fixes c :: u8
  shows "c AND TOP_BITS 2 = TOP_BITS 1 \<longleftrightarrow> 128 \<le> unat c \<and> unat c < 192"
    "c AND TOP_BITS 3 = TOP_BITS 2 \<longleftrightarrow> 192 \<le> unat c \<and> unat c < 224"
    "c AND TOP_BITS 4 = TOP_BITS 3 \<longleftrightarrow> 224 \<le> unat c \<and> unat c < 240"
    "c AND TOP_BITS 5 = TOP_BITS 4 \<longleftrightarrow> 240 \<le> unat c \<and> unat c < 248"
proof -
  have c: "unat c < 256" by simp
  have m: "unat (NOT (mask 7) :: u8) = 128" "unat (NOT (mask 6) :: u8) = 192"
    "unat (NOT (mask 5) :: u8) = 224" "unat (NOT (mask 4) :: u8) = 240"
    by (simp_all add: mask_eq_exp_minus_1)
  have r: "x div 64 * 64 = 128 \<longleftrightarrow> 128 \<le> x \<and> x < 192" "x div 32 * 32 = 192 \<longleftrightarrow> 192 \<le> x \<and> x < 224"
    "x div 16 * 16 = 224 \<longleftrightarrow> 224 \<le> x \<and> x < 240" "x div 8 * 8 = 240 \<longleftrightarrow> 240 \<le> x \<and> x < 248" for x :: nat
    using div_block [of 64 x 2] div_block [of 32 x 6] div_block [of 16 x 14] div_block [of 8 x 30] by simp_all
  show "c AND TOP_BITS 2 = TOP_BITS 1 \<longleftrightarrow> 128 \<le> unat c \<and> unat c < 192"
    unfolding u8_eq_iff r(1) [symmetric] by (simp add: TOP_BITS_mask unat_and_not_mask m(1))
  show "c AND TOP_BITS 3 = TOP_BITS 2 \<longleftrightarrow> 192 \<le> unat c \<and> unat c < 224"
    unfolding u8_eq_iff r(2) [symmetric] by (simp add: TOP_BITS_mask unat_and_not_mask m(2))
  show "c AND TOP_BITS 4 = TOP_BITS 3 \<longleftrightarrow> 224 \<le> unat c \<and> unat c < 240"
    unfolding u8_eq_iff r(3) [symmetric] by (simp add: TOP_BITS_mask unat_and_not_mask m(3))
  show "c AND TOP_BITS 5 = TOP_BITS 4 \<longleftrightarrow> 240 \<le> unat c \<and> unat c < 248"
    unfolding u8_eq_iff r(4) [symmetric] by (simp add: TOP_BITS_mask unat_and_not_mask m(4))
qed

lemma tail_byte:
  assumes "unat (v :: u32) < 2 ^ 26"
  shows "unat (push_bit 6 v OR ucast ((c :: u8) AND BOTTOM_BITS 6)) = unat v * 64 + unat c mod 64"
proof -
  have b: "unat (ucast (c AND BOTTOM_BITS 6) :: u32) = unat c mod 64"
    by (simp add: unat_ucast_u8_u32 BOTTOM_BITS_mask unat_and_mask)
  have p: "unat (push_bit 6 v) = unat v * 64"
  proof -
    have "unat (push_bit 6 v) = take_bit LENGTH(32) (push_bit 6 (unat v))" by (rule unsigned_push_bit_eq)
    then show ?thesis using assms by (simp only: push_bit_eq_mult take_bit_eq_mod) simp
  qed
  have "ucast (c AND BOTTOM_BITS 6) AND mask 6 = (ucast (c AND BOTTOM_BITS 6) :: u32)"
    by (rule and_mask_eq) (simp add: b)
  then have "bit (ucast (c AND BOTTOM_BITS 6) :: u32) n \<Longrightarrow> n < 6" for n by (metis bit_and_iff bit_mask_iff)
  then have "push_bit 6 v + ucast (c AND BOTTOM_BITS 6) = push_bit 6 v OR ucast (c AND BOTTOM_BITS 6)"
    by (intro disjunctive_add) (metis bit_push_bit_iff not_less)
  moreover have "unat (push_bit 6 v + ucast (c AND BOTTOM_BITS 6)) = unat v * 64 + unat c mod 64"
  proof -
    have "unat c mod 64 < 64" by simp
    then have "unat v * 64 + unat c mod 64 < 2 ^ 32" using assms by simp
    then show ?thesis by (simp add: unat_word_ariths p b)
  qed
  ultimately show ?thesis by simp
qed

section \<open>UTF-8\<close>

definition utf8_nat :: "nat \<Rightarrow> u8 list" where
  "utf8_nat n =
     (if n < 0x80 then [of_nat n]
      else if n < 0x800 then [of_nat (192 + n div 64), of_nat (128 + n mod 64)]
      else if n < 0x10000 then [of_nat (224 + n div 4096), of_nat (128 + n div 64 mod 64), of_nat (128 + n mod 64)]
      else [of_nat (240 + n div 262144), of_nat (128 + n div 4096 mod 64), of_nat (128 + n div 64 mod 64),
            of_nat (128 + n mod 64)])"

definition tail_ok :: "u8 \<Rightarrow> bool" where
  "tail_ok b = (128 \<le> unat b \<and> unat b < 192)"

definition tail_value :: "nat \<Rightarrow> u8 list \<Rightarrow> nat" where
  "tail_value v bs = foldl (\<lambda>r b. r * 64 + (unat b - 128)) v bs"

lemma utf8_tail_iff:
  "(unat v + 1) * 64 ^ n \<le> 2 ^ 32 \<Longrightarrow> utf8_tail n v s = (Some w, s') \<longleftrightarrow>
     (\<exists>bs. s = bs @ s' \<and> length bs = n \<and> (\<forall>b \<in> set bs. tail_ok b) \<and> unat w = tail_value (unat v) bs)"
proof (induction n arbitrary: v s)
  case 0
  then show ?case by (auto simp: tail_value_def word_unat_eq_iff)
next
  case (Suc n)
  show ?case
  proof (cases s)
    case Nil
    then show ?thesis by (auto simp: CBS_get_u8_simps)
  next
    case (Cons c t)
    have "(unat v + 1) * 64 \<le> (unat v + 1) * 64 * 64 ^ n" by simp
    also have "\<dots> \<le> 2 ^ 32" using Suc.prems by (simp add: algebra_simps)
    finally have v: "unat v < 2 ^ 26" by simp
    let ?v = "push_bit 6 v OR ucast (c AND BOTTOM_BITS 6)"
    show ?thesis
    proof (cases "tail_ok c")
      case True
      then have m: "unat c mod 64 = unat c - 128"
      proof -
        have "unat c = (unat c - 128) + 2 * 64" "unat c - 128 < 64"
          using True unfolding tail_ok_def by linarith+
        then show ?thesis by (metis mod_less mod_mult_self1)
      qed
      have v': "unat ?v = unat v * 64 + (unat c - 128)"
        unfolding tail_byte [OF v] m ..
      have "unat c - 128 < 64" using True unfolding tail_ok_def by linarith
      then have "(unat ?v + 1) * 64 ^ n \<le> (unat v + 1) * 64 * 64 ^ n"
        unfolding v' by (intro mult_le_mono1) simp
      also have "\<dots> \<le> 2 ^ 32" using Suc.prems by (simp add: algebra_simps)
      finally have IH: "utf8_tail n ?v t = (Some w, s') \<longleftrightarrow>
          (\<exists>bs. t = bs @ s' \<and> length bs = n \<and> (\<forall>b \<in> set bs. tail_ok b) \<and> unat w = tail_value (unat ?v) bs)"
        by (rule Suc.IH)
      have step: "utf8_tail (Suc n) v s = utf8_tail n ?v t"
        using True Cons by (simp add: CBS_get_u8_simps lead_tests(1) [unfolded One_nat_def] tail_ok_def)
      have tval: "tail_value (unat v) (c # bs) = tail_value (unat ?v) bs" for bs
        by (simp add: tail_value_def v')
      have "(\<exists>bs. t = bs @ s' \<and> length bs = n \<and> (\<forall>b \<in> set bs. tail_ok b) \<and> unat w = tail_value (unat ?v) bs) \<longleftrightarrow>
          (\<exists>bs. c # t = bs @ s' \<and> length bs = Suc n \<and> (\<forall>b \<in> set bs. tail_ok b) \<and> unat w = tail_value (unat v) bs)"
        (is "?l \<longleftrightarrow> ?r")
      proof
        assume ?l
        then obtain bs where "t = bs @ s'" "length bs = n" "\<forall>b \<in> set bs. tail_ok b" "unat w = tail_value (unat ?v) bs"
          by blast
        then have "c # t = (c # bs) @ s' \<and> length (c # bs) = Suc n \<and> (\<forall>b \<in> set (c # bs). tail_ok b) \<and>
            unat w = tail_value (unat v) (c # bs)"
          unfolding tval using True by simp
        then show ?r by blast
      next
        assume ?r
        then obtain bs where bs: "c # t = bs @ s'" "length bs = Suc n" "\<forall>b \<in> set bs. tail_ok b"
            "unat w = tail_value (unat v) bs"
          by blast
        then obtain bs' where [simp]: "bs = c # bs'" by (cases bs) auto
        show ?l using bs unfolding \<open>bs = c # bs'\<close> tval by auto
      qed
      then show ?thesis unfolding Cons step [unfolded Cons] IH .
    next
      case False
      then have "utf8_tail (Suc n) v s = (None, t)"
        using Cons by (auto simp: CBS_get_u8_simps lead_tests(1) [unfolded One_nat_def] tail_ok_def)
      with False Cons show ?thesis by (auto simp: length_Suc_conv)
    qed
  qed
qed

lemma utf8_lead_eq:
  "utf8_lead c =
     (if 192 \<le> unat c \<and> unat c < 224 then Some (of_nat (unat c - 192), 1, 0x80)
      else if 224 \<le> unat c \<and> unat c < 240 then Some (of_nat (unat c - 224), 2, 0x800)
      else if 240 \<le> unat c \<and> unat c < 248 then Some (of_nat (unat c - 240), 3, 0x10000)
      else None)"
proof -
  have b: "ucast (c AND BOTTOM_BITS k) = (of_nat (unat c mod 2 ^ k) :: u32)" if "k \<le> 8" for k
    using that by (simp add: word_unat_eq_iff unat_ucast_u8_u32 BOTTOM_BITS_mask unat_and_mask unat_of_nat
        order_le_less_trans [OF mod_less_eq_dividend] order_less_trans [OF unat_u8_less])
  have "192 \<le> unat c \<Longrightarrow> unat c < 224 \<Longrightarrow> unat c mod 32 = unat c - 192"
    "224 \<le> unat c \<Longrightarrow> unat c < 240 \<Longrightarrow> unat c mod 16 = unat c - 224"
    "240 \<le> unat c \<Longrightarrow> unat c < 248 \<Longrightarrow> unat c mod 8 = unat c - 240"
    by (simp_all add: le_mod_geq)
  then show ?thesis
    using b [of 5] b [of 4] b [of 3] unfolding utf8_lead_def lead_tests by simp
qed

lemma unat_lead: "unat (of_nat (unat (c :: u8) - k) :: u32) = unat c - k"
proof -
  have "unat c - k < 4294967296" using unat_u8_less [of c] by linarith
  then show ?thesis by (subst unat_of_nat) simp
qed

lemma valid_small: "unat v < 128 \<Longrightarrow> is_valid_code_point v"
proof -
  assume v: "unat v < 128"
  have "unat (v AND 0xfffe) \<le> unat v"
    by (metis word_and_le1 and.commute word_le_nat_alt)
  then have "v AND 0xfffe \<noteq> 0xfffe" using v by (auto dest: arg_cong [of _ _ unat])
  then show ?thesis using v by (simp add: is_valid_code_point_def word_less_nat_alt word_le_nat_alt not_le)
qed

lemma valid_bound: "is_valid_code_point v \<Longrightarrow> unat v \<le> 0x10ffff"
  by (simp add: is_valid_code_point_def word_less_nat_alt not_less split: if_splits)

lemma cbs_get_utf8_ascii: "unat c < 128 \<Longrightarrow> cbs_get_utf8 (c # s) = (Some (ucast c), s)"
  by (simp add: cbs_get_utf8_def CBS_get_u8_simps word_le_nat_alt)

lemma cbs_get_utf8_long:
  assumes "128 \<le> unat c"
  shows "cbs_get_utf8 (c # s) = (Some u, s') \<longleftrightarrow>
    (\<exists>v n lb bs. utf8_lead c = Some (v, n, lb) \<and> s = bs @ s' \<and> length bs = n \<and> (\<forall>b \<in> set bs. tail_ok b) \<and>
       unat u = tail_value (unat v) bs \<and> is_valid_code_point u \<and> unat lb \<le> unat u)"
proof -
  have "cbs_get_utf8 (c # s) = (Some u, s') \<longleftrightarrow>
      (\<exists>v n lb. utf8_lead c = Some (v, n, lb) \<and> utf8_tail n v s = (Some u, s') \<and> is_valid_code_point u \<and> lb \<le> u)"
    using assms by (auto simp: cbs_get_utf8_def CBS_get_u8_simps word_le_nat_alt not_le word_less_nat_alt
        split: option.splits prod.splits if_splits)
  moreover have "(unat v + 1) * 64 ^ n \<le> 2 ^ 32" if "utf8_lead c = Some (v, n, lb)" for v n lb
    using that by (auto simp: utf8_lead_eq unat_lead simp del: of_nat_diff split: if_splits)
  ultimately show ?thesis
    by (auto simp: utf8_tail_iff word_le_nat_alt)
qed

lemma unat_ucast_u32_u8: "unat (ucast (u :: u32) :: u8) = unat u mod 256"
  by (simp add: unsigned_ucast_eq take_bit_eq_mod)

lemma digits64: "r < 64 \<Longrightarrow> (q * 64 + r) div 64 = (q :: nat)" "r < 64 \<Longrightarrow> (q * 64 + r) mod 64 = (r :: nat)"
  by simp_all

lemma div64_div: "(n :: nat) div 4096 = n div 64 div 64" "n div 262144 = n div 64 div 64 div 64"
  by (simp_all add: div_mult2_eq [symmetric])

lemma tail_digit: "tail_ok b \<Longrightarrow> \<exists>r < 64. unat b = 128 + r \<and> b = of_nat (128 + r)"
proof -
  assume "tail_ok b"
  then have "unat b - 128 < 64 \<and> unat b = 128 + (unat b - 128) \<and> b = of_nat (128 + (unat b - 128))"
    by (simp add: tail_ok_def) linarith
  then show ?thesis by blast
qed

lemma unat_octet: "n < 256 \<Longrightarrow> unat (of_nat n :: u8) = n"
  by (simp add: unat_of_nat)

lemma tail_ok_of_nat [simp]: "r < 64 \<Longrightarrow> tail_ok (of_nat (128 + r))"
  unfolding tail_ok_def by (subst (1 2) unat_octet) auto

lemma tail_ok_plus [simp]: "r < 64 \<Longrightarrow> tail_ok (128 + of_nat r)"
  using tail_ok_of_nat [of r] by simp

text \<open>Decoding inverts the encoding of a code point.\<close>

lemma utf8_nat_long:
  assumes "128 \<le> unat u" "is_valid_code_point u"
  shows "\<exists>c bs. utf8_nat (unat u) = c # bs \<and> cbs_get_utf8 (c # bs @ s') = (Some u, s')"
proof -
  let ?n = "unat u"
  have n: "?n \<le> 0x10ffff" using valid_bound [OF assms(2)] .
  have lead: "\<exists>v. utf8_lead c = Some (v, k, lb) \<and> unat v = q"
    if "unat c = o' + q" "(o', k, lb) \<in> {(192, 1, 0x80 :: u32), (224, 2, 0x800), (240, 3, 0x10000)}"
      "o' = 192 \<longrightarrow> q < 32" "o' = 224 \<longrightarrow> q < 16" "o' = 240 \<longrightarrow> q < 8" for c o' q k lb
    using that by (auto simp: utf8_lead_eq unat_of_nat)
  have dec: "cbs_get_utf8 (c # bs @ s') = (Some u, s')"
    if "unat c = o' + q" "(o', k, lb) \<in> {(192, 1, 0x80 :: u32), (224, 2, 0x800), (240, 3, 0x10000)}"
      "o' = 192 \<longrightarrow> q < 32" "o' = 224 \<longrightarrow> q < 16" "o' = 240 \<longrightarrow> q < 8"
      "length bs = k" "\<forall>b \<in> set bs. tail_ok b" "unat u = tail_value q bs" "unat lb \<le> unat u" for c o' q k lb bs
  proof -
    note h = that
    have "128 \<le> unat c" using h(1,2) by auto
    moreover obtain v where "utf8_lead c = Some (v, k, lb)" "unat v = q"
      using lead [OF h(1-5)] by blast
    ultimately show ?thesis
      using h(6-9) assms(2) by (subst cbs_get_utf8_long) auto
  qed
  consider "?n < 0x800" | "0x800 \<le> ?n" "?n < 0x10000" | "0x10000 \<le> ?n" by linarith
  then show ?thesis
  proof cases
    case 1
    have "cbs_get_utf8 (of_nat (192 + ?n div 64) # [of_nat (128 + ?n mod 64)] @ s') = (Some u, s')"
    proof (rule dec [where o' = 192 and q = "?n div 64" and k = 1 and lb = "0x80"])
      show "unat (of_nat (192 + ?n div 64) :: u8) = 192 + ?n div 64" using 1 by (intro unat_octet) linarith
      show "unat u = tail_value (?n div 64) [of_nat (128 + ?n mod 64)]"
        by (simp add: tail_value_def unat_octet del: of_nat_add)
    qed (use 1 assms in auto)
    with 1 assms show ?thesis by (simp add: utf8_nat_def)
  next
    case 2
    have "cbs_get_utf8 (of_nat (224 + ?n div 4096) # [of_nat (128 + ?n div 64 mod 64), of_nat (128 + ?n mod 64)] @ s') = (Some u, s')"
    proof (rule dec [where o' = 224 and q = "?n div 4096" and k = 2 and lb = "0x800"])
      show "unat (of_nat (224 + ?n div 4096) :: u8) = 224 + ?n div 4096" using 2 by (intro unat_octet) linarith
      show "unat u = tail_value (?n div 4096) [of_nat (128 + ?n div 64 mod 64), of_nat (128 + ?n mod 64)]"
        by (simp add: tail_value_def unat_octet div64_div del: of_nat_add)
    qed (use 2 assms in auto)
    with 2 assms show ?thesis by (simp add: utf8_nat_def)
  next
    case 3
    have "cbs_get_utf8 (of_nat (240 + ?n div 262144) # [of_nat (128 + ?n div 4096 mod 64), of_nat (128 + ?n div 64 mod 64), of_nat (128 + ?n mod 64)] @ s') = (Some u, s')"
    proof (rule dec [where o' = 240 and q = "?n div 262144" and k = 3 and lb = "0x10000"])
      show "unat (of_nat (240 + ?n div 262144) :: u8) = 240 + ?n div 262144" using n by (intro unat_octet) linarith
      show "unat u = tail_value (?n div 262144) [of_nat (128 + ?n div 4096 mod 64), of_nat (128 + ?n div 64 mod 64), of_nat (128 + ?n mod 64)]"
        by (simp add: tail_value_def unat_octet div64_div del: of_nat_add)
    qed (use 3 n assms in auto)
    with 3 assms show ?thesis by (simp add: utf8_nat_def)
  qed
qed

lemma utf8_nat_ascii: "unat (u :: u32) < 128 \<Longrightarrow> utf8_nat (unat u) = [ucast u]"
  by (simp add: utf8_nat_def word_unat_eq_iff unat_of_nat unat_ucast_u32_u8)

lemma utf8_encodes: "is_valid_code_point u \<Longrightarrow> cbs_get_utf8 (utf8_nat (unat u) @ s') = (Some u, s')"
proof (cases "unat u < 128")
  case True
  moreover have "unat (ucast u :: u8) = unat u" using True by (simp add: unat_ucast_u32_u8)
  ultimately show ?thesis
    by (simp add: utf8_nat_ascii cbs_get_utf8_ascii word_unat_eq_iff unat_ucast_u8_u32)
next
  case False
  assume "is_valid_code_point u"
  with False utf8_nat_long [of u s'] show ?thesis by auto
qed

lemma utf8_lead_Some:
  assumes "utf8_lead c = Some (v, n, lb)"
  obtains q where "unat c = 192 + q" "q < 32" "unat v = q" "n = 1" "lb = 0x80"
    | q where "unat c = 224 + q" "q < 16" "unat v = q" "n = 2" "lb = 0x800"
    | q where "unat c = 240 + q" "q < 8" "unat v = q" "n = 3" "lb = 0x10000"
proof -
  consider "192 \<le> unat c" "unat c < 224" | "224 \<le> unat c" "unat c < 240" | "240 \<le> unat c" "unat c < 248"
    using assms unfolding utf8_lead_eq by (auto split: if_splits)
  then show thesis
  proof cases
    case 1
    with assms have "unat v = unat c - 192 \<and> n = 1 \<and> lb = 0x80"
      by (auto simp: utf8_lead_eq unat_lead simp del: of_nat_diff)
    with 1 that(1) [of "unat c - 192"] show thesis by auto
  next
    case 2
    with assms have "unat v = unat c - 224 \<and> n = 2 \<and> lb = 0x800"
      by (auto simp: utf8_lead_eq unat_lead simp del: of_nat_diff)
    with 2 that(2) [of "unat c - 224"] show thesis by auto
  next
    case 3
    with assms have "unat v = unat c - 240 \<and> n = 3 \<and> lb = 0x10000"
      by (auto simp: utf8_lead_eq unat_lead simp del: of_nat_diff)
    with 3 that(3) [of "unat c - 240"] show thesis by auto
  qed
qed

lemma octet_of_nat: "unat (c :: u8) = n \<Longrightarrow> c = of_nat n"
  by auto

lemma tail_digits:
  "\<forall>b \<in> set bs. tail_ok b \<Longrightarrow> \<exists>rs. bs = map (\<lambda>r. of_nat (128 + r)) rs \<and> (\<forall>r \<in> set rs. r < 64) \<and>
     tail_value v bs = foldl (\<lambda>n r. n * 64 + r) v rs"
proof (induction bs arbitrary: v)
  case (Cons b bs)
  then have "tail_ok b" by simp
  from tail_digit [OF this] obtain r where r: "r < 64" "unat b = 128 + r" "b = of_nat (128 + r)" by blast
  obtain rs where "bs = map (\<lambda>r. of_nat (128 + r)) rs" "\<forall>r \<in> set rs. r < 64"
      "tail_value (v * 64 + r) bs = foldl (\<lambda>n r. n * 64 + r) (v * 64 + r) rs"
    using Cons.IH [of "v * 64 + r"] Cons.prems by auto
  with r show ?case
    by (intro exI [of _ "r # rs"]) (simp add: tail_value_def)
qed (simp add: tail_value_def)

lemma utf8_nat_digits:
  "q < 32 \<Longrightarrow> r1 < 64 \<Longrightarrow> 0x80 \<le> q * 64 + r1 \<Longrightarrow> utf8_nat (q * 64 + r1) = [of_nat (192 + q), of_nat (128 + r1)]"
  "q < 16 \<Longrightarrow> r1 < 64 \<Longrightarrow> r2 < 64 \<Longrightarrow> 0x800 \<le> (q * 64 + r1) * 64 + r2 \<Longrightarrow>
     utf8_nat ((q * 64 + r1) * 64 + r2) = [of_nat (224 + q), of_nat (128 + r1), of_nat (128 + r2)]"
  "q < 8 \<Longrightarrow> r1 < 64 \<Longrightarrow> r2 < 64 \<Longrightarrow> r3 < 64 \<Longrightarrow> 0x10000 \<le> ((q * 64 + r1) * 64 + r2) * 64 + r3 \<Longrightarrow>
     utf8_nat (((q * 64 + r1) * 64 + r2) * 64 + r3) =
       [of_nat (240 + q), of_nat (128 + r1), of_nat (128 + r2), of_nat (128 + r3)]"
  unfolding utf8_nat_def div64_div by (simp_all only: digits64) auto

lemma utf8_decodes_long:
  assumes "utf8_lead c = Some (v, n, lb)" "length bs = n" "\<forall>b \<in> set bs. tail_ok b"
    and "m = tail_value (unat v) bs" "unat lb \<le> m"
  shows "utf8_nat m = c # bs"
proof -
  obtain rs where rs: "bs = map (\<lambda>r. of_nat (128 + r)) rs" "\<forall>r \<in> set rs. r < 64"
      "m = foldl (\<lambda>n r. n * 64 + r) (unat v) rs"
    using tail_digits [OF assms(3)] assms(4) by metis
  from assms(1) show ?thesis
  proof (cases rule: utf8_lead_Some)
    case (1 q)
    then obtain r1 where "rs = [r1]" using assms(2) rs(1) by (auto simp: length_Suc_conv)
    with 1 rs assms(5) utf8_nat_digits(1) [of q r1] octet_of_nat [OF 1(1)] show ?thesis by simp
  next
    case (2 q)
    then obtain r1 r2 where "rs = [r1, r2]" using assms(2) rs(1) by (auto simp: length_Suc_conv numeral_2_eq_2)
    with 2 rs assms(5) utf8_nat_digits(2) [of q r1 r2] octet_of_nat [OF 2(1)] show ?thesis by simp
  next
    case (3 q)
    then obtain r1 r2 r3 where "rs = [r1, r2, r3]" using assms(2) rs(1) by (auto simp: length_Suc_conv numeral_3_eq_3)
    with 3 rs assms(5) utf8_nat_digits(3) [of q r1 r2 r3] octet_of_nat [OF 3(1)] show ?thesis by simp
  qed
qed

lemma utf8_decodes:
  assumes "cbs_get_utf8 s = (Some u, s')"
  shows "is_valid_code_point u \<and> s = utf8_nat (unat u) @ s'"
proof (cases s)
  case Nil
  with assms show ?thesis by (simp add: cbs_get_utf8_def CBS_get_u8_simps)
next
  case (Cons c t)
  show ?thesis
  proof (cases "unat c < 128")
    case True
    then have "u = ucast c" "t = s'" using assms Cons cbs_get_utf8_ascii by auto
    moreover from this have "unat u = unat c" by (simp add: unat_ucast_u8_u32)
    moreover from this have "utf8_nat (unat u) = [c]" using True by (simp add: utf8_nat_def)
    ultimately show ?thesis using True Cons by (simp add: valid_small)
  next
    case False
    then obtain v n lb bs where "utf8_lead c = Some (v, n, lb)" "t = bs @ s'" "length bs = n"
        "\<forall>b \<in> set bs. tail_ok b" "unat u = tail_value (unat v) bs" "is_valid_code_point u" "unat lb \<le> unat u"
      using assms Cons cbs_get_utf8_long [of c t u s'] by auto
    then show ?thesis using utf8_decodes_long Cons by fastforce
  qed
qed

interpretation utf8: canonical_codec cbs_get_utf8 "\<lambda>u. utf8_nat (unat u)" is_valid_code_point
  by unfold_locales (use utf8_encodes utf8_decodes in \<open>auto simp: utf8_nat_def\<close>)

end
