(* ===== verification/Fixed_Width.thy ===== *)
theory Fixed_Width
  imports Cbb
begin

text \<open>
  The big-endian integers and length-prefixed strings that both the reader and the builder
  handle: what \<open>CBS_get_u16\<close> to \<open>CBS_get_u64\<close> and \<open>cbs_get_length_prefixed\<close> accept, and what
  the matching \<open>CBB_add_\<close> functions append.
\<close>

section \<open>Fixed-width integers\<close>

lemma cbs_get_u_iff:
  assumes "n \<le> 8"
  shows "cbs_get_u n s = (Some v, s') \<longleftrightarrow> unat v < 256 ^ n \<and> s = nat_be n (unat v) @ s'"
proof
  assume "cbs_get_u n s = (Some v, s')"
  then have v: "n \<le> length s" "v = be_u64 (take n s)" "s' = drop n s"
    by (auto simp: reads_eq split: if_splits)
  moreover have "length (take n s) = n" using v(1) by simp
  ultimately have "unat v = be_nat (take n s)" "be_nat (take n s) < 256 ^ n" "nat_be n (be_nat (take n s)) = take n s"
    using assms unat_be_u64 [of "take n s"] be_nat_bound [of "take n s"] nat_be_be_nat [of "take n s"] by simp_all
  with v show "unat v < 256 ^ n \<and> s = nat_be n (unat v) @ s'" by simp
next
  assume "unat v < 256 ^ n \<and> s = nat_be n (unat v) @ s'"
  moreover from this have "be_u64 (nat_be n (unat v)) = v"
    using assms be_u64_nat_be [of n "unat v"] by (simp add: word_unat_eq_iff)
  ultimately show "cbs_get_u n s = (Some v, s')" by (simp add: reads_eq)
qed

text \<open>A reader that narrows the 64-bit result to a word of \<open>8 * n\<close> bits.\<close>

lemma narrow_iff:
  fixes v :: "'a::len word"
  assumes "n \<le> 8" "256 ^ n \<le> (2 :: nat) ^ LENGTH('a)" "LENGTH('a) \<le> 64"
  shows "(case cbs_get_u n s of (None, s) \<Rightarrow> (None, s) | (Some v, s) \<Rightarrow> (Some (ucast v), s)) = (Some v, s') \<longleftrightarrow>
    unat v < 256 ^ n \<and> s = nat_be n (unat v) @ s'"
proof -
  have un: "unat (ucast w :: 'a word) = unat w" if "unat w < 256 ^ n" for w :: u64
    using that assms(2) by (simp add: unsigned_ucast_eq take_bit_eq_mod)
  have up: "unat (ucast v :: u64) = unat v"
  proof -
    have "unat v < 2 ^ LENGTH('a)" by (rule unsigned_less)
    also have "\<dots> \<le> (2 :: nat) ^ 64" using assms(3) by (intro power_increasing) auto
    finally show ?thesis by (simp add: unsigned_ucast_eq take_bit_nat_eq_self)
  qed
  have "(case cbs_get_u n s of (None, s) \<Rightarrow> (None, s) | (Some v, s) \<Rightarrow> (Some (ucast v), s)) = (Some v, s') \<longleftrightarrow>
      (\<exists>w. cbs_get_u n s = (Some w, s') \<and> v = ucast w)"
    by (auto split: prod.splits option.splits)
  also have "\<dots> \<longleftrightarrow> unat v < 256 ^ n \<and> s = nat_be n (unat v) @ s'"
    unfolding cbs_get_u_iff [OF assms(1)] using un up by (metis word_unat_eq_iff)
  finally show ?thesis .
qed

lemma CBS_get_u16_iff: "CBS_get_u16 s = (Some v, s') \<longleftrightarrow> s = nat_be 2 (unat v) @ s'"
  unfolding CBS_get_u16_def using unat_u16_less [of v] by (subst narrow_iff) auto

lemma CBS_get_u24_iff: "CBS_get_u24 s = (Some v, s') \<longleftrightarrow> unat v < 2 ^ 24 \<and> s = nat_be 3 (unat v) @ s'"
  unfolding CBS_get_u24_def by (subst narrow_iff) auto

lemma CBS_get_u32_iff: "CBS_get_u32 s = (Some v, s') \<longleftrightarrow> s = nat_be 4 (unat v) @ s'"
  unfolding CBS_get_u32_def using unat_u32_less [of v] by (subst narrow_iff) auto

lemma CBS_get_u64_iff: "CBS_get_u64 s = (Some v, s') \<longleftrightarrow> s = nat_be 8 (unat v) @ s'"
proof -
  have "unat v < 256 ^ 8" using unat_u64_less [of v] by simp
  then show ?thesis unfolding CBS_get_u64_def by (subst cbs_get_u_iff) auto
qed

lemma nat_be_not_Nil: "0 < n \<Longrightarrow> nat_be n v \<noteq> []"
  by (metis length_nat_be list.size(3) less_numeral_extra(3))

interpretation u16: canonical_codec CBS_get_u16 "\<lambda>v. nat_be 2 (unat v)" "\<lambda>_. True"
  by unfold_locales (auto simp: CBS_get_u16_iff nat_be_not_Nil)

interpretation u24: canonical_codec CBS_get_u24 "\<lambda>v. nat_be 3 (unat v)" "\<lambda>v. unat v < 2 ^ 24"
  by unfold_locales (auto simp: CBS_get_u24_iff nat_be_not_Nil)

interpretation u32: canonical_codec CBS_get_u32 "\<lambda>v. nat_be 4 (unat v)" "\<lambda>_. True"
  by unfold_locales (auto simp: CBS_get_u32_iff nat_be_not_Nil)

interpretation u64be: canonical_codec CBS_get_u64 "\<lambda>v. nat_be 8 (unat v)" "\<lambda>_. True"
  by unfold_locales (auto simp: CBS_get_u64_iff nat_be_not_Nil)

lemma appends_u16: "appends alloc (CBB_add_u16 alloc v) (nat_be 2 (unat v))"
proof -
  have "unat (ucast v :: u64) = unat v" by (rule unat_ucast_u16)
  moreover have "unat v < 256 ^ 2" using unat_u16_less [of v] by simp
  ultimately show ?thesis using appends_u [of 2 "ucast v" alloc] by (simp add: CBB_add_u16_def)
qed

lemma appends_u24: "unat v < 2 ^ 24 \<Longrightarrow> appends alloc (CBB_add_u24 alloc v) (nat_be 3 (unat v))"
proof -
  assume v: "unat v < 2 ^ 24"
  have "unat (ucast v :: u64) = unat v" by (rule unat_ucast_u32)
  with v show ?thesis using appends_u [of 3 "ucast v" alloc] by (simp add: CBB_add_u24_def)
qed

lemma appends_u32: "appends alloc (CBB_add_u32 alloc v) (nat_be 4 (unat v))"
proof -
  have "unat (ucast v :: u64) = unat v" by (rule unat_ucast_u32)
  moreover have "unat v < 256 ^ 4" using unat_u32_less [of v] by simp
  ultimately show ?thesis using appends_u [of 4 "ucast v" alloc] by (simp add: CBB_add_u32_def)
qed

lemma appends_u64: "appends alloc (CBB_add_u64 alloc v) (nat_be 8 (unat v))"
proof -
  have "unat v < 256 ^ 8" using unat_u64_less [of v] by simp
  then show ?thesis using appends_u [of 8 "v" alloc] by (simp add: CBB_add_u64_def)
qed

section \<open>Length-prefixed strings\<close>

lemma length_prefixed_iff:
  assumes "n \<le> 4"
  shows "cbs_get_length_prefixed n s = (Some c, s') \<longleftrightarrow> length c < 256 ^ n \<and> s = nat_be n (length c) @ c @ s'"
proof -
  have "cbs_get_length_prefixed n s = (Some c, s') \<longleftrightarrow>
      (\<exists>len t. cbs_get_u n s = (Some len, t) \<and> CBS_get_bytes (unat len) t = (Some c, s'))"
    by (auto simp: cbs_get_length_prefixed_def split: prod.splits option.splits)
  also have "\<dots> \<longleftrightarrow> (\<exists>len. unat len < 256 ^ n \<and> s = nat_be n (unat len) @ c @ s' \<and> length c = unat (len :: u64))"
  proof -
    have "CBS_get_bytes k t = (Some c, s') \<longleftrightarrow> t = c @ s' \<and> length c = k" for k t
      by (auto simp: CBS_get_bytes_eq)
    moreover have "n \<le> 8" using assms by simp
    ultimately show ?thesis by (auto simp: cbs_get_u_iff)
  qed
  also have "\<dots> \<longleftrightarrow> length c < 256 ^ n \<and> s = nat_be n (length c) @ c @ s'"
  proof
    assume r: "length c < 256 ^ n \<and> s = nat_be n (length c) @ c @ s'"
    have "(256 :: nat) ^ n \<le> 256 ^ 4" using assms by (intro power_increasing) auto
    then have "length c < size_bound" using r by simp
    then have "unat (of_nat (length c) :: u64) = length c" by (simp add: unat_of_nat)
    with r show "\<exists>len. unat len < 256 ^ n \<and> s = nat_be n (unat len) @ c @ s' \<and> length c = unat (len :: u64)"
      by metis
  qed auto
  finally show ?thesis .
qed

end
