(* ===== verification/Unicode_Codec.thy ===== *)
theory Unicode_Codec
  imports Unicode Fixed_Width
begin

text \<open>
  The string encodings of theory \<open>Unicode\<close> as codecs: what \<open>cbb_add_utf8\<close>, \<open>cbb_add_latin1\<close>,
  \<open>cbb_add_ucs2_be\<close> and \<open>cbb_add_utf32_be\<close> append is all that the matching reader accepts.
\<close>

section \<open>Writing\<close>

lemma top_or:
  fixes y :: u8
  shows "unat y < 128 \<Longrightarrow> TOP_BITS 1 OR y = of_nat (128 + unat y)"
    "unat y < 64 \<Longrightarrow> TOP_BITS 2 OR y = of_nat (192 + unat y)"
    "unat y < 32 \<Longrightarrow> TOP_BITS 3 OR y = of_nat (224 + unat y)"
    "unat y < 16 \<Longrightarrow> TOP_BITS 4 OR y = of_nat (240 + unat y)"
proof -
  have m: "unat (NOT (mask 7) :: u8) = 128" "unat (NOT (mask 6) :: u8) = 192"
    "unat (NOT (mask 5) :: u8) = 224" "unat (NOT (mask 4) :: u8) = 240"
    by (simp_all add: mask_eq_exp_minus_1)
  note o' = or_not_mask [of y 7] or_not_mask [of y 6] or_not_mask [of y 5] or_not_mask [of y 4]
  show "unat y < 128 \<Longrightarrow> TOP_BITS 1 OR y = of_nat (128 + unat y)"
    using o'(1) by (intro octet_of_nat) (simp add: TOP_BITS_mask m)
  show "unat y < 64 \<Longrightarrow> TOP_BITS 2 OR y = of_nat (192 + unat y)"
    using o'(2) by (intro octet_of_nat) (simp add: TOP_BITS_mask m)
  show "unat y < 32 \<Longrightarrow> TOP_BITS 3 OR y = of_nat (224 + unat y)"
    using o'(3) by (intro octet_of_nat) (simp add: TOP_BITS_mask m)
  show "unat y < 16 \<Longrightarrow> TOP_BITS 4 OR y = of_nat (240 + unat y)"
    using o'(4) by (intro octet_of_nat) (simp add: TOP_BITS_mask m)
qed

lemma unat_shifted: "unat u div 2 ^ k < 256 \<Longrightarrow> unat (ucast (drop_bit k (u :: u32)) :: u8) = unat u div 2 ^ k"
  by (simp add: unat_ucast_u32_u8 unat_drop_bit)

lemma continuation_eq: "continuation u = of_nat (128 + unat u mod 64)"
proof -
  have "unat (u AND ucast (BOTTOM_BITS 6)) = unat u mod 64"
  proof -
    have "(ucast (mask 6 :: u8) :: u32) = mask 6"
      by (rule bit_word_eqI) (auto simp: bit_simps)
    then show ?thesis by (simp add: BOTTOM_BITS_mask unat_and_mask)
  qed
  then have "unat (ucast (u AND ucast (BOTTOM_BITS 6)) :: u8) = unat u mod 64"
    by (simp add: unat_ucast_u32_u8)
  then show ?thesis unfolding continuation_def using top_or(1) by (simp del: One_nat_def of_nat_add)
qed

lemma continuation_shifted: "continuation (drop_bit k u) = of_nat (128 + unat u div 2 ^ k mod 64)"
  by (simp add: continuation_eq unat_drop_bit)

lemma appends_octets: "appends alloc (and_then (CBB_add_u8 alloc a) f) (a # xs)" if "appends alloc f xs"
  using appends_and_then [OF appends_u8 that, of a] by simp

lemma appends_utf8:
  assumes "is_valid_code_point u"
  shows "appends alloc (cbb_add_utf8 alloc u) (utf8_nat (unat u))"
proof -
  have n: "unat u \<le> 0x10ffff" using valid_bound [OF assms] .
  note small = word_le_nat_alt
  consider "unat u < 128" | "128 \<le> unat u" "unat u < 0x800" | "0x800 \<le> unat u" "unat u < 0x10000" | "0x10000 \<le> unat u"
    by linarith
  then show ?thesis
  proof cases
    case 1
    then have "cbb_add_utf8 alloc u = CBB_add_u8 alloc (ucast u)"
      using assms by (simp add: cbb_add_utf8_def small)
    with 1 show ?thesis by (simp add: utf8_nat_ascii appends_u8)
  next
    case 2
    then have "unat u div 64 < 32" by linarith
    then have "TOP_BITS 2 OR ucast (drop_bit 6 u) = of_nat (192 + unat u div 64)"
      using top_or(2) [of "ucast (drop_bit 6 u)"] unat_shifted [of u 6] by simp
    then have "cbb_add_utf8 alloc u = and_then (CBB_add_u8 alloc (of_nat (192 + unat u div 64)))
        (CBB_add_u8 alloc (of_nat (128 + unat u mod 64)))"
      using 2 assms by (simp add: cbb_add_utf8_def small continuation_eq del: of_nat_add)
    with 2 show ?thesis by (simp add: utf8_nat_def appends_octets appends_u8 del: of_nat_add)
  next
    case 3
    then have "unat u div 4096 < 16" by linarith
    then have "TOP_BITS 3 OR ucast (drop_bit 12 u) = of_nat (224 + unat u div 4096)"
      using top_or(3) [of "ucast (drop_bit 12 u)"] unat_shifted [of u 12] by simp
    then have "cbb_add_utf8 alloc u = and_then (CBB_add_u8 alloc (of_nat (224 + unat u div 4096)))
        (and_then (CBB_add_u8 alloc (of_nat (128 + unat u div 64 mod 64)))
          (CBB_add_u8 alloc (of_nat (128 + unat u mod 64))))"
      using 3 assms continuation_shifted [of 6 u]
      by (simp add: cbb_add_utf8_def small continuation_eq del: of_nat_add)
    with 3 show ?thesis by (simp add: utf8_nat_def appends_octets appends_u8 del: of_nat_add)
  next
    case 4
    then have "unat u div 262144 < 16" using n by linarith
    then have "TOP_BITS 4 OR ucast (drop_bit 18 u) = of_nat (240 + unat u div 262144)"
      using top_or(4) [of "ucast (drop_bit 18 u)"] unat_shifted [of u 18] by simp
    then have "cbb_add_utf8 alloc u = and_then (CBB_add_u8 alloc (of_nat (240 + unat u div 262144)))
        (and_then (CBB_add_u8 alloc (of_nat (128 + unat u div 4096 mod 64)))
          (and_then (CBB_add_u8 alloc (of_nat (128 + unat u div 64 mod 64)))
            (CBB_add_u8 alloc (of_nat (128 + unat u mod 64)))))"
      using 4 n assms continuation_shifted [of 6 u] continuation_shifted [of 12 u]
      by (simp add: cbb_add_utf8_def small continuation_eq del: of_nat_add)
    with 4 show ?thesis by (simp add: utf8_nat_def appends_octets appends_u8 del: of_nat_add)
  qed
qed

lemma length_utf8_nat: "unat u \<le> 0x10ffff \<Longrightarrow> length (utf8_nat (unat u)) = cbb_get_utf8_len u"
  by (simp add: utf8_nat_def cbb_get_utf8_len_def word_le_nat_alt)

section \<open>The fixed-width encodings\<close>

lemma octet_code_point: "ucast (c :: u8) = (u :: u32) \<longleftrightarrow> unat u < 256 \<and> c = of_nat (unat u)"
proof
  assume "ucast c = u"
  then have "unat u = unat c" using unat_ucast_u8_u32 by blast
  then show "unat u < 256 \<and> c = of_nat (unat u)" by simp
next
  assume "unat u < 256 \<and> c = of_nat (unat u)"
  then have "unat c = unat u" using unat_octet [of "unat u"] by auto
  then show "ucast c = u" by (simp add: word_unat_eq_iff unat_ucast_u8_u32)
qed

lemma latin1_iff: "cbs_get_latin1 s = (Some u, s') \<longleftrightarrow> unat u < 256 \<and> s = of_nat (unat u) # s'"
proof (cases s)
  case (Cons c t)
  then have "cbs_get_latin1 s = (Some (ucast c), t)" by (simp add: cbs_get_latin1_def CBS_get_u8_simps)
  then show ?thesis using Cons octet_code_point [of c u] by auto
qed (simp add: cbs_get_latin1_def CBS_get_u8_simps)

lemma ucs2_iff:
  "cbs_get_ucs2_be s = (Some u, s') \<longleftrightarrow> is_valid_code_point u \<and> unat u < 2 ^ 16 \<and> s = nat_be 2 (unat u) @ s'"
proof -
  have up: "unat (ucast (c :: u16) :: u32) = unat c" for c
  proof -
    have "unat c < 2 ^ 32" by (rule order_less_trans [OF unat_u16_less]) simp
    then show ?thesis by (simp add: unsigned_ucast_eq take_bit_nat_eq_self)
  qed
  have down: "unat (ucast u :: u16) = unat u \<and> ucast (ucast u :: u16) = u" if "unat u < 2 ^ 16"
  proof -
    have "unat (ucast u :: u16) = unat u" using that by (simp add: unsigned_ucast_eq take_bit_nat_eq_self)
    with up show ?thesis by (metis word_unat_eq_iff)
  qed
  have "cbs_get_ucs2_be s = (Some u, s') \<longleftrightarrow>
      (\<exists>c. CBS_get_u16 s = (Some c, s') \<and> u = ucast c \<and> is_valid_code_point u)"
    by (auto simp: cbs_get_ucs2_be_def split: prod.splits option.splits)
  also have "\<dots> \<longleftrightarrow> is_valid_code_point u \<and> unat u < 2 ^ 16 \<and> s = nat_be 2 (unat u) @ s'"
  proof -
    have "unat (ucast c :: u32) < 2 ^ 16" for c :: u16 unfolding up using unat_u16_less [of c] by simp
    then show ?thesis unfolding CBS_get_u16_iff using up down by (metis (mono_tags))
  qed
  finally show ?thesis .
qed

lemma utf32_iff: "cbs_get_utf32_be s = (Some u, s') \<longleftrightarrow> is_valid_code_point u \<and> s = nat_be 4 (unat u) @ s'"
  using CBS_get_u32_iff [of s u s'] by (auto simp: cbs_get_utf32_be_def split: prod.splits option.splits)

interpretation latin1: canonical_codec cbs_get_latin1 "\<lambda>u. [of_nat (unat u)]" "\<lambda>u. unat u < 256"
  by unfold_locales (auto simp: latin1_iff)

interpretation ucs2: canonical_codec cbs_get_ucs2_be "\<lambda>u. nat_be 2 (unat u)" "\<lambda>u. is_valid_code_point u \<and> unat u < 2 ^ 16"
  by unfold_locales (auto simp: ucs2_iff nat_be_not_Nil)

interpretation utf32: canonical_codec cbs_get_utf32_be "\<lambda>u. nat_be 4 (unat u)" is_valid_code_point
  by unfold_locales (auto simp: utf32_iff nat_be_not_Nil)

lemma appends_latin1: "unat u < 256 \<Longrightarrow> appends alloc (cbb_add_latin1 alloc u) [of_nat (unat u)]"
proof -
  assume u: "unat u < 256"
  then have "ucast u = (of_nat (unat u) :: u8)" by (simp add: word_unat_eq_iff unat_ucast_u32_u8 unat_octet)
  moreover have "u \<le> 0xff" using u by (simp add: word_le_nat_alt)
  ultimately show ?thesis using appends_u8 [of alloc "of_nat (unat u)"] by (simp add: cbb_add_latin1_def)
qed

lemma appends_ucs2:
  "is_valid_code_point u \<Longrightarrow> unat u < 2 ^ 16 \<Longrightarrow> appends alloc (cbb_add_ucs2_be alloc u) (nat_be 2 (unat u))"
proof -
  assume u: "is_valid_code_point u" "unat u < 2 ^ 16"
  then have "unat (ucast u :: u16) = unat u" by (simp add: unsigned_ucast_eq take_bit_nat_eq_self)
  moreover have "u \<le> 0xffff" using u by (simp add: word_le_nat_alt)
  ultimately show ?thesis using u(1) appends_u16 [of alloc "ucast u"] by (simp add: cbb_add_ucs2_be_def)
qed

lemma appends_utf32: "is_valid_code_point u \<Longrightarrow> appends alloc (cbb_add_utf32_be alloc u) (nat_be 4 (unat u))"
  by (simp add: cbb_add_utf32_be_def appends_u32)

lemma refuses_invalid:
  "\<not> is_valid_code_point u \<Longrightarrow> cbb_add_utf8 alloc u = Pair False \<and> cbb_add_ucs2_be alloc u = Pair False \<and>
     cbb_add_utf32_be alloc u = Pair False"
  "\<not> unat u < 256 \<Longrightarrow> cbb_add_latin1 alloc u = Pair False"
  "\<not> unat u < 2 ^ 16 \<Longrightarrow> cbb_add_ucs2_be alloc u = Pair False"
  by (simp_all add: cbb_add_utf8_def cbb_add_ucs2_be_def cbb_add_utf32_be_def cbb_add_latin1_def word_le_nat_alt)

section \<open>UTF-8 exactly\<close>

text \<open>
  UTF-8.  \<open>cbs_get_utf8\<close> accepts exactly the shortest encodings of the valid code points:
  no surrogates, no noncharacters, nothing above 0x10ffff and no overlong form.  The
  encoding has the length \<open>cbb_get_utf8_len\<close> says, and \<open>cbb_add_utf8\<close> refuses every other
  value without touching the builder.\<close>

theorem utf8_exact:
  "(cbs_get_utf8 s = (Some u, s') \<longleftrightarrow> is_valid_code_point u \<and> s = utf8_nat (unat u) @ s') \<and>
   (if is_valid_code_point u then length (utf8_nat (unat u)) = cbb_get_utf8_len u
    else cbb_add_utf8 alloc u c = (False, c))"
  using utf8.rd_iff [of s u s'] length_utf8_nat [of u] valid_bound [of u] refuses_invalid(1) [of u alloc] by auto

end
