(* ===== verification/Const_Time.thy ===== *)
theory Const_Time
  imports BSSL_Prelude
begin

text \<open>
  The constant-time helpers of \<open>crypto/internal.h\<close> on a 64-bit target, where
  \<open>crypto_word_t\<close> is \<open>uint64_t\<close>.  They compute masks without branching; the lemmas show
  that they agree with the comparisons they stand for.  The value barriers, which only
  restrain the compiler, are the identity.
\<close>

unbundle bit_operations_syntax

named_theorems const_time \<open>what the constant-time helpers compute\<close>

definition constant_time_msb_w :: "u64 \<Rightarrow> u64" where
  "constant_time_msb_w a = 0 - drop_bit 63 a"

definition constant_time_lt_w :: "u64 \<Rightarrow> u64 \<Rightarrow> u64" where
  "constant_time_lt_w a b = constant_time_msb_w (a XOR ((a XOR b) OR ((a - b) XOR a)))"

definition constant_time_lt_8 :: "u64 \<Rightarrow> u64 \<Rightarrow> u8" where
  "constant_time_lt_8 a b = ucast (constant_time_lt_w a b)"

definition constant_time_ge_w :: "u64 \<Rightarrow> u64 \<Rightarrow> u64" where
  "constant_time_ge_w a b = NOT (constant_time_lt_w a b)"

definition constant_time_ge_8 :: "u64 \<Rightarrow> u64 \<Rightarrow> u8" where
  "constant_time_ge_8 a b = ucast (constant_time_ge_w a b)"

definition constant_time_is_zero_w :: "u64 \<Rightarrow> u64" where
  "constant_time_is_zero_w a = constant_time_msb_w (NOT a AND (a - 1))"

definition constant_time_is_zero_8 :: "u64 \<Rightarrow> u8" where
  "constant_time_is_zero_8 a = ucast (constant_time_is_zero_w a)"

definition constant_time_eq_w :: "u64 \<Rightarrow> u64 \<Rightarrow> u64" where
  "constant_time_eq_w a b = constant_time_is_zero_w (a XOR b)"

definition constant_time_eq_8 :: "u64 \<Rightarrow> u64 \<Rightarrow> u8" where
  "constant_time_eq_8 a b = ucast (constant_time_eq_w a b)"

definition constant_time_eq_int :: "u32 \<Rightarrow> u32 \<Rightarrow> u64" where
  "constant_time_eq_int a b = constant_time_eq_w (scast a) (scast b)"

definition constant_time_eq_int_8 :: "u32 \<Rightarrow> u32 \<Rightarrow> u8" where
  "constant_time_eq_int_8 a b = constant_time_eq_8 (scast a) (scast b)"

definition constant_time_select_w :: "u64 \<Rightarrow> u64 \<Rightarrow> u64 \<Rightarrow> u64" where
  "constant_time_select_w m a b = (m AND a) OR (NOT m AND b)"

definition constant_time_select_8 :: "u8 \<Rightarrow> u8 \<Rightarrow> u8 \<Rightarrow> u8" where
  "constant_time_select_8 m a b = ucast (constant_time_select_w (ucast m) (ucast a) (ucast b))"

definition constant_time_select_int :: "u64 \<Rightarrow> u32 \<Rightarrow> u32 \<Rightarrow> u32" where
  "constant_time_select_int m a b = ucast (constant_time_select_w m (scast a) (scast b))"

section \<open>Masks\<close>

lemma drop_bit_63: "drop_bit 63 (a :: u64) = (if bit a 63 then 1 else 0)"
proof (rule bit_word_eqI)
  fix n assume "n < LENGTH(64)"
  show "bit (drop_bit 63 a) n \<longleftrightarrow> bit (if bit a 63 then 1 else 0 :: u64) n"
    by (cases n) (auto simp: bit_simps dest: bit_imp_le_length)
qed

lemma msb_mask [const_time]: "constant_time_msb_w a = (if bit a 63 then -1 else 0)"
  by (simp add: constant_time_msb_w_def drop_bit_63)

lemma bit_63_iff: "bit (a :: u64) 63 \<longleftrightarrow> 2 ^ 63 \<le> unat a"
proof -
  have "unat a div 2 ^ 63 = (if 2 ^ 63 \<le> unat a then 1 else 0)"
    using unat_u64_less [of a] by (auto intro!: div_nat_eqI)
  moreover have "bit a 63 \<longleftrightarrow> odd (unat a div 2 ^ 63)"
  proof -
    have "bit (unat a) 63 \<longleftrightarrow> bit a 63" by (simp add: bit_unsigned_iff)
    then show ?thesis by (simp only: bit_iff_odd [of "unat a"])
  qed
  ultimately show ?thesis by simp
qed

lemma unat_diff_u64: "unat (a - b :: u64) = (if unat b \<le> unat a then unat a - unat b else 2 ^ 64 + unat a - unat b)"
proof (cases "unat b \<le> unat a")
  case False
  have "unat a + 2 ^ 64 - unat b = 2 ^ 64 + unat a - unat b" by linarith
  with False show ?thesis by (simp add: unat_sub_if_size word_size)
qed (simp add: unat_sub_if_size word_size)

lemma diff_sign:
  assumes "x < 2 ^ 64" "y < (2 ^ 64 :: nat)"
  shows "(if (2 ^ 63 \<le> x) = (2 ^ 63 \<le> y) then 2 ^ 63 \<le> (if y \<le> x then x - y else 2 ^ 64 + x - y)
     else \<not> 2 ^ 63 \<le> x) \<longleftrightarrow> x < y"
proof (cases "9223372036854775808 \<le> x"; cases "9223372036854775808 \<le> y"; cases "y \<le> x")
qed (use assms in simp_all)

lemma lt_mask [const_time]: "constant_time_lt_w a b = (if a < b then -1 else 0)"
proof -
  have "bit (a XOR ((a XOR b) OR ((a - b) XOR a))) 63 \<longleftrightarrow>
      (if bit a 63 = bit b 63 then bit (a - b) 63 else \<not> bit a 63)"
    by (auto simp: bit_simps)
  also have "\<dots> \<longleftrightarrow> a < b"
    unfolding bit_63_iff unat_diff_u64 word_less_nat_alt by (rule diff_sign) simp_all
  finally show ?thesis by (simp add: constant_time_lt_w_def msb_mask)
qed

lemma is_zero_mask [const_time]: "constant_time_is_zero_w a = (if a = 0 then -1 else 0)"
proof -
  have "bit (NOT a AND (a - 1)) 63 \<longleftrightarrow> \<not> bit a 63 \<and> bit (a - 1) 63"
    by (simp add: bit_simps)
  also have "\<dots> \<longleftrightarrow> a = 0"
  proof (cases "a = 0")
    case True
    have "bit (-1 :: u64) 63" by (simp add: bit_simps)
    with True show ?thesis by simp
  next
    case False
    then have "0 < unat a" by (simp add: unat_gt_0)
    then have "unat (a - 1) = unat a - 1" by (simp add: unat_diff_u64)
    then show ?thesis using False unfolding bit_63_iff by linarith
  qed
  finally show ?thesis by (simp add: constant_time_is_zero_w_def msb_mask)
qed

lemma xor_zero_iff: "a XOR b = 0 \<longleftrightarrow> a = (b :: 'a::len word)"
  by (auto simp: bit_eq_iff bit_simps)

lemma eq_mask [const_time]: "constant_time_eq_w a b = (if a = b then -1 else 0)"
  by (simp add: constant_time_eq_w_def is_zero_mask xor_zero_iff)

lemma ucast_minus_1: "ucast (-1 :: u64) = (0xff :: u8)"
proof -
  have "ucast (-1 :: u64) = (-1 :: u8)" by (rule bit_word_eqI) (auto simp: bit_simps)
  then show ?thesis by simp
qed

lemma ucast_narrow [simp]: "ucast (ucast (d :: u8) :: u64) = d" "ucast (scast (i :: u32) :: u64) = i"
  by (rule bit_word_eqI; auto simp: bit_simps)+

lemma masks_8 [const_time]:
  "constant_time_lt_8 a b = (if a < b then 0xff else 0)"
  "constant_time_ge_w a b = (if a \<ge> b then -1 else 0)"
  "constant_time_ge_8 a b = (if a \<ge> b then 0xff else 0)"
  "constant_time_is_zero_8 a = (if a = 0 then 0xff else 0)"
  "constant_time_eq_8 a b = (if a = b then 0xff else 0)"
  by (simp_all add: constant_time_lt_8_def constant_time_ge_8_def constant_time_ge_w_def lt_mask
      constant_time_is_zero_8_def is_zero_mask constant_time_eq_8_def eq_mask ucast_minus_1 not_less) auto

lemma scast_u32_eq: "scast a = (scast b :: u64) \<longleftrightarrow> a = (b :: u32)"
proof
  assume "scast a = (scast b :: u64)"
  then have "ucast (scast a :: u64) = (ucast (scast b :: u64) :: u32)" by simp
  then show "a = b" by simp
qed simp

lemma select_masks [const_time]:
  "constant_time_select_w (-1) a b = a" "constant_time_select_w 0 a b = b"
  "constant_time_select_8 0xff c d = c" "constant_time_select_8 0 c d = d"
  "constant_time_select_int (-1) i j = i" "constant_time_select_int 0 i j = j"
proof -
  show "constant_time_select_8 0xff c d = c"
  proof (rule bit_word_eqI)
    fix n assume n: "n < LENGTH(8)"
    have "bit (0xff :: u8) n" using n by (simp add: bit_iff_odd less_Suc_eq numeral_eq_Suc) auto
    with n show "bit (constant_time_select_8 0xff c d) n \<longleftrightarrow> bit c n"
      by (auto simp: constant_time_select_8_def constant_time_select_w_def bit_simps)
  qed
qed (simp_all add: constant_time_select_8_def constant_time_select_w_def constant_time_select_int_def)

text \<open>
  The constant-time helpers agree with the comparisons they replace.  Every mask is
  all ones when the comparison holds and zero when it does not, for all 64-bit values, and a
  select with such a mask is the conditional expression.\<close>

theorem constant_time_agrees:
  "constant_time_lt_w a b = (if a < b then -1 else 0) \<and>
   constant_time_ge_w a b = (if a \<ge> b then -1 else 0) \<and>
   constant_time_is_zero_w a = (if a = 0 then -1 else 0) \<and>
   constant_time_eq_w a b = (if a = b then -1 else 0) \<and>
   constant_time_eq_int i j = (if i = j then -1 else 0) \<and>
   constant_time_select_w (constant_time_lt_w a b) x y = (if a < b then x else y) \<and>
   constant_time_select_8 (constant_time_eq_8 a b) c d = (if a = b then c else d) \<and>
   constant_time_select_int (constant_time_eq_int i j) k l = (if i = j then k else l)"
  by (simp add: const_time constant_time_eq_int_def scast_u32_eq)

end
