(* ===== verification/Base64.thy ===== *)
theory Base64
  imports Const_Time
begin

text \<open>
  Base64 (\<open>crypto/base64/base64.c\<close>): block and streaming encoder and decoder.

  Of the array \<open>data\<close> of \<open>EVP_ENCODE_CTX\<close> the \<open>data_used\<close> valid bytes are kept.  Output is
  the list of bytes stored from \<open>out\<close> on, without the NUL that the encoder stores behind
  them; the value that the code returns through \<open>out_len\<close> is modelled beside it where the
  two can differ.
\<close>

unbundle bit_operations_syntax

section \<open>Characters\<close>

definition constant_time_lt_args_8 :: "u8 \<Rightarrow> u8 \<Rightarrow> u8" where
  "constant_time_lt_args_8 a b = ucast (constant_time_msb_w (ucast a - ucast b))"

definition constant_time_in_range_8 :: "u8 \<Rightarrow> u8 \<Rightarrow> u8 \<Rightarrow> u8" where
  "constant_time_in_range_8 a mn mx = constant_time_lt_args_8 (a - mn) (mx - mn + 1)"

definition conv_bin2ascii :: "u8 \<Rightarrow> u8" where
  "conv_bin2ascii a =
     (let a = a AND 0x3f;
          ret = constant_time_select_8 (constant_time_eq_8 (ucast a) 62) 43 47;
          ret = constant_time_select_8 (constant_time_lt_args_8 a 62) (a - 52 + 48) ret;
          ret = constant_time_select_8 (constant_time_lt_args_8 a 52) (a - 26 + 97) ret
      in constant_time_select_8 (constant_time_lt_args_8 a 26) (a + 65) ret)"

definition base64_ascii_to_bin :: "u8 \<Rightarrow> u8" where
  "base64_ascii_to_bin a =
     (let is_upper = constant_time_in_range_8 a 65 90;
          is_lower = constant_time_in_range_8 a 97 122;
          is_digit = constant_time_in_range_8 a 48 57;
          is_plus = constant_time_eq_8 (ucast a) 43;
          is_slash = constant_time_eq_8 (ucast a) 47;
          is_equals = constant_time_eq_8 (ucast a) 61;
          ret = 0xff;
          ret = constant_time_select_8 is_upper (a - 65) ret;
          ret = constant_time_select_8 is_lower (a - 97 + 26) ret;
          ret = constant_time_select_8 is_digit (a - 48 + 52) ret;
          ret = constant_time_select_8 is_plus 62 ret;
          ret = constant_time_select_8 is_slash 63 ret
      in constant_time_select_8 is_equals 0 ret)"

section \<open>Encoding\<close>

definition EVP_EncodedLength :: "nat \<Rightarrow> nat option" where
  "EVP_EncodedLength len =
     (if size_add len 2 < len then None
      else let len = size_add len 2 div 3
           in if size_mult len 4 div 4 \<noteq> len then None
              else let len = size_mult len 4
                   in if size_add len 1 < len then None else Some (size_add len 1))"

fun EVP_EncodeBlock :: "u8 list \<Rightarrow> u8 list" where
  "EVP_EncodeBlock [] = []"
| "EVP_EncodeBlock [a] =
     (let l = push_bit 16 (ucast a) :: u32
      in [conv_bin2ascii (ucast (drop_bit 18 l)), conv_bin2ascii (ucast (drop_bit 12 l)), 61, 61])"
| "EVP_EncodeBlock [a, b] =
     (let l = push_bit 16 (ucast a) OR push_bit 8 (ucast b) :: u32
      in [conv_bin2ascii (ucast (drop_bit 18 l)), conv_bin2ascii (ucast (drop_bit 12 l)),
          conv_bin2ascii (ucast (drop_bit 6 l)), 61])"
| "EVP_EncodeBlock (a # b # c # src) =
     (let l = push_bit 16 (ucast a) OR push_bit 8 (ucast b) OR ucast c :: u32
      in [conv_bin2ascii (ucast (drop_bit 18 l)), conv_bin2ascii (ucast (drop_bit 12 l)),
          conv_bin2ascii (ucast (drop_bit 6 l)), conv_bin2ascii (ucast l)] @ EVP_EncodeBlock src)"

record evp_encode_ctx =
  data :: "u8 list"
  eof_seen :: bool
  error_encountered :: bool

abbreviation sizeof_data :: nat where "sizeof_data \<equiv> 48"

definition EVP_EncodeInit :: evp_encode_ctx where
  "EVP_EncodeInit = \<lparr>data = [], eof_seen = False, error_encountered = False\<rparr>"

text \<open>The loop over whole lines: the bytes written, the rest of the input, and the totalal
  (\<open>None\<close> when adding to it wraps around and the function returns at once).\<close>

function encode_lines :: "nat \<Rightarrow> u8 list \<Rightarrow> u8 list \<times> u8 list \<times> nat option" where
  "encode_lines tot inp =
     (if length inp \<ge> sizeof_data
      then let encoded = EVP_EncodeBlock (take sizeof_data inp); rest = drop sizeof_data inp;
               tot' = size_add (size_add tot (length encoded)) 1
           in if tot' < tot then (encoded @ [10], rest, None)
              else (case encode_lines tot' rest of
                      (out, r, t) \<Rightarrow> (encoded @ [10] @ out, r, t))
      else ([], inp, Some tot))"
  by pat_completeness auto
termination
  by (relation "measure (\<lambda>(t, inp). length inp)") auto

declare encode_lines.simps [simp del]

text \<open>The result is the bytes written and \<open>*out_len\<close>.\<close>

definition EVP_EncodeUpdate :: "evp_encode_ctx \<Rightarrow> u8 list \<Rightarrow> (u8 list \<times> nat) \<times> evp_encode_ctx" where
  "EVP_EncodeUpdate ctx inp =
     (if inp = [] then (([], 0), ctx)
      else if sizeof_data - length (data ctx) > length inp
      then (([], 0), ctx\<lparr>data := data ctx @ inp\<rparr>)
      else let (first, inp, tot, ctx) =
                 (if data ctx \<noteq> []
                  then let todo = sizeof_data - length (data ctx);
                           encoded = EVP_EncodeBlock (data ctx @ take todo inp)
                       in (encoded @ [10], drop todo inp, size_add (length encoded) 1, ctx\<lparr>data := []\<rparr>)
                  else ([], inp, 0, ctx))
           in (case encode_lines tot inp of
                 (out, rest, None) \<Rightarrow> ((first @ out, 0), ctx)
               | (out, rest, Some tot) \<Rightarrow>
                   ((first @ out, if tot > INT_MAX then 0 else tot), ctx\<lparr>data := rest\<rparr>)))"

definition EVP_EncodeFinal :: "evp_encode_ctx \<Rightarrow> (u8 list \<times> nat) \<times> evp_encode_ctx" where
  "EVP_EncodeFinal ctx =
     (if data ctx = [] then (([], 0), ctx)
      else let out = EVP_EncodeBlock (data ctx) @ [10] in ((out, length out), ctx\<lparr>data := []\<rparr>))"

section \<open>Decoding\<close>

definition EVP_DecodedLength :: "nat \<Rightarrow> nat option" where
  "EVP_DecodedLength len = (if len mod 4 \<noteq> 0 then None else Some (size_mult (len div 4) 3))"

definition EVP_DecodeInit :: evp_encode_ctx where
  "EVP_DecodeInit = \<lparr>data = [], eof_seen = False, error_encountered = False\<rparr>"

text \<open>The bytes of one quad, one to three of them.\<close>

definition base64_decode_quad :: "u8 list \<Rightarrow> u8 list option" where
  "base64_decode_quad inp =
     (let a = base64_ascii_to_bin (inp ! 0); b = base64_ascii_to_bin (inp ! 1);
          c = base64_ascii_to_bin (inp ! 2); d = base64_ascii_to_bin (inp ! 3)
      in if a = 0xff \<or> b = 0xff \<or> c = 0xff \<or> d = 0xff then None
         else let v = push_bit 18 (ucast a) OR push_bit 12 (ucast b) OR push_bit 6 (ucast c) OR ucast d :: u32;
                  padding_pattern = (inp ! 0 = 61, inp ! 1 = 61, inp ! 2 = 61, inp ! 3 = 61)
              in if padding_pattern = (False, False, False, False)
                 then Some [ucast (drop_bit 16 v), ucast (drop_bit 8 v), ucast v]
                 else if padding_pattern = (False, False, False, True)
                 then Some [ucast (drop_bit 16 v), ucast (drop_bit 8 v)]
                 else if padding_pattern = (False, False, True, True)
                 then Some [ucast (drop_bit 16 v)]
                 else None)"

definition is_base64_space :: "u8 \<Rightarrow> bool" where
  "is_base64_space c = (c \<in> {32, 9, 13, 10})"

text \<open>The loop of \<open>EVP_DecodeUpdate\<close>; the flag is False for the return value -1.\<close>

fun decode_loop :: "evp_encode_ctx \<Rightarrow> u8 list \<Rightarrow> bool \<times> u8 list \<times> evp_encode_ctx" where
  "decode_loop ctx [] = (True, [], ctx)"
| "decode_loop ctx (c # inp) =
     (if is_base64_space c then decode_loop ctx inp
      else if eof_seen ctx then (False, [], ctx\<lparr>error_encountered := True\<rparr>)
      else let ctx = ctx\<lparr>data := data ctx @ [c]\<rparr>
           in if length (data ctx) = 4
              then (case base64_decode_quad (data ctx) of
                      None \<Rightarrow> (False, [], ctx\<lparr>error_encountered := True\<rparr>)
                    | Some bytes \<Rightarrow>
                        (case decode_loop (ctx\<lparr>data := [], eof_seen := length bytes < 3\<rparr>) inp of
                           (ok, out, ctx) \<Rightarrow> (ok, bytes @ out, ctx)))
              else decode_loop ctx inp)"

text \<open>The return value, the bytes written, \<open>*out_len\<close> and the context.\<close>

definition EVP_DecodeUpdate :: "evp_encode_ctx \<Rightarrow> u8 list \<Rightarrow> int \<times> u8 list \<times> nat \<times> evp_encode_ctx" where
  "EVP_DecodeUpdate ctx inp =
     (if error_encountered ctx then (-1, [], 0, ctx)
      else case decode_loop ctx inp of
             (False, out, ctx) \<Rightarrow> (-1, out, 0, ctx)
           | (True, out, ctx) \<Rightarrow>
               if length out > INT_MAX then (-1, out, 0, ctx\<lparr>error_encountered := True\<rparr>)
               else (if eof_seen ctx then 0 else 1, out, length out, ctx))"

definition EVP_DecodeFinal :: "evp_encode_ctx \<Rightarrow> int" where
  "EVP_DecodeFinal ctx = (if error_encountered ctx \<or> data ctx \<noteq> [] then -1 else 1)"

fun decode_quads :: "u8 list \<Rightarrow> u8 list option" where
  "decode_quads (a # b # c # d # rest) = (case base64_decode_quad [a, b, c, d] of
     None \<Rightarrow> None
   | Some bytes \<Rightarrow> if length bytes \<noteq> 3 \<and> rest \<noteq> [] then None else map_option ((@) bytes) (decode_quads rest))"
| "decode_quads _ = Some []"

definition EVP_DecodeBase64 :: "nat \<Rightarrow> u8 list \<Rightarrow> u8 list option" where
  "EVP_DecodeBase64 max_out inp =
     (if length inp mod 4 \<noteq> 0 then None
      else case EVP_DecodedLength (length inp) of
             None \<Rightarrow> None
           | Some max_len \<Rightarrow> if max_out < max_len then None else decode_quads inp)"

definition EVP_DecodeBlock :: "u8 list \<Rightarrow> u8 list option" where
  "EVP_DecodeBlock src =
     (let src = dropWhile (\<lambda>c. c = 32 \<or> c = 9) src;
          src = rev (dropWhile is_base64_space (rev src))
      in case EVP_DecodedLength (length src) of
           None \<Rightarrow> None
         | Some dst_len \<Rightarrow>
             if dst_len > INT_MAX then None
             else case EVP_DecodeBase64 dst_len src of
                    None \<Rightarrow> None
                  | Some dst \<Rightarrow> Some (dst @ replicate ((3 - length dst mod 3) mod 3) 0))"

section \<open>The alphabet\<close>

lemma unat_ucast_u8_u64: "unat (ucast (a :: u8) :: u64) = unat a"
  by (rule unat_ucast_u8)

lemma lt_args [const_time]: "constant_time_lt_args_8 a b = (if a < b then 0xff else 0)"
proof -
  have "bit (ucast a - ucast b :: u64) 63 \<longleftrightarrow> a < b"
  proof (cases "unat b \<le> unat a")
    case True
    have "\<not> 9223372036854775808 \<le> unat a - unat b" using unat_u8_less [of a] by linarith
    with True show ?thesis by (simp add: bit_63_iff unat_diff_u64 unat_ucast_u8 word_less_nat_alt)
  next
    case False
    have "9223372036854775808 \<le> 18446744073709551616 + unat a - unat b" using unat_u8_less [of b] by linarith
    with False show ?thesis by (simp add: bit_63_iff unat_diff_u64 unat_ucast_u8 word_less_nat_alt)
  qed
  then show ?thesis by (simp add: constant_time_lt_args_8_def msb_mask ucast_minus_1)
qed

lemma eq_8_u8 [const_time]:
  "unat (k :: u64) < 256 \<Longrightarrow> constant_time_eq_8 (ucast (a :: u8)) k = (if a = ucast k then 0xff else 0)"
proof -
  assume k: "unat k < 256"
  then have "unat (ucast k :: u8) = unat k" by (simp add: unsigned_ucast_eq take_bit_nat_eq_self)
  then have "ucast a = k \<longleftrightarrow> a = ucast k"
    by (metis unat_ucast_u8 word_unat_eq_iff)
  then show ?thesis by (simp add: masks_8)
qed

lemma select_if [const_time]: "constant_time_select_8 (if P then 0xff else 0) a b = (if P then a else b)"
  by (simp add: select_masks)


lemma conv_bin2ascii_eq: "conv_bin2ascii a =
    (let a = a AND 0x3f
     in if a < 26 then a + 65 else if a < 52 then a + 71 else if a < 62 then a - 4 else if a = 62 then 43 else 47)"
  by (simp add: conv_bin2ascii_def lt_args eq_8_u8 select_if Let_def)

lemma in_range [const_time]:
  "constant_time_in_range_8 a mn mx = (if a - mn < mx - mn + 1 then 0xff else 0)"
  by (simp add: constant_time_in_range_8_def lt_args)

lemma base64_ascii_to_bin_eq: "base64_ascii_to_bin a =
    (if a = 61 then 0 else if a = 47 then 63 else if a = 43 then 62 else if a - 48 < 10 then a + 4
     else if a - 97 < 26 then a - 71 else if a - 65 < 26 then a - 65 else 0xff)"
  by (simp add: base64_ascii_to_bin_def in_range eq_8_u8 select_if Let_def)

lemma sextet_cases:
  fixes a :: u8
  assumes "\<And>n. n < 64 \<Longrightarrow> P (of_nat n)"
  shows "P (a AND 0x3f)"
proof -
  have "a AND 0x3f = of_nat (unat (a AND 0x3f))" by simp
  moreover have "unat (a AND 0x3f) < 64"
    using unat_and_mask [of a 6] by (simp add: mask_eq_exp_minus_1)
  ultimately show ?thesis using assms by metis
qed

lemma alphabet_table:
  "\<forall>n \<in> set [0..<64]. let a = of_nat n :: u8 in
     base64_ascii_to_bin (conv_bin2ascii a) = a \<and> conv_bin2ascii a \<noteq> 61 \<and> \<not> is_base64_space (conv_bin2ascii a) \<and>
     a \<noteq> 0xff"
  by (simp add: upt_rec conv_bin2ascii_eq base64_ascii_to_bin_eq Let_def is_base64_space_def)

unbundle bit_operations_syntax

section \<open>Decoding inverts encoding\<close>

lemma and_0x3f: "(a :: u8) AND 0x3f = a AND mask 6"
  by (simp add: mask_eq_exp_minus_1)

lemma conv_props:
  "base64_ascii_to_bin (conv_bin2ascii a) = a AND mask 6" "conv_bin2ascii a \<noteq> 61"
  "\<not> is_base64_space (conv_bin2ascii a)" "a AND mask 6 \<noteq> 0xff"
proof -
  have idem: "conv_bin2ascii a = conv_bin2ascii (a AND 0x3f)"
    by (simp add: conv_bin2ascii_eq Let_def and.assoc)
  have "let b = a AND 0x3f in
     base64_ascii_to_bin (conv_bin2ascii b) = b \<and> conv_bin2ascii b \<noteq> 61 \<and> \<not> is_base64_space (conv_bin2ascii b) \<and> b \<noteq> 0xff"
    by (rule sextet_cases) (use alphabet_table in auto)
  then show "base64_ascii_to_bin (conv_bin2ascii a) = a AND mask 6" "conv_bin2ascii a \<noteq> 61"
    "\<not> is_base64_space (conv_bin2ascii a)" "a AND mask 6 \<noteq> 0xff"
    unfolding Let_def idem [symmetric] unfolding and_0x3f by blast+
qed

lemma pad_value: "base64_ascii_to_bin 61 = 0"
  by (simp add: base64_ascii_to_bin_eq)

lemma sextet_bit: "bit (ucast ((ucast (w :: u32) :: u8) AND mask 6) :: u32) n \<longleftrightarrow> n < 6 \<and> bit w n"
  by (auto simp: bit_simps)

lemma quad_join:
  fixes l :: u32
  shows "push_bit 18 (ucast ((ucast (drop_bit 18 l) :: u8) AND mask 6)) OR push_bit 12 (ucast ((ucast (drop_bit 12 l) :: u8) AND mask 6))
      OR push_bit 6 (ucast ((ucast (drop_bit 6 l) :: u8) AND mask 6)) OR ucast ((ucast l :: u8) AND mask 6) = l AND mask 24"
    (is "?x = ?y")
proof (rule bit_word_eqI)
  fix n assume "n < LENGTH(32)"
  then show "bit ?x n \<longleftrightarrow> bit ?y n"
    by (simp add: bit_or_iff bit_push_bit_iff sextet_bit bit_drop_bit_eq bit_and_iff bit_mask_iff)
       (cases "n < 6"; cases "n < 12"; cases "n < 18"; cases "n < 24"; auto)
qed

lemma quad_bytes:
  fixes l :: u32
  shows "ucast (drop_bit 16 (l AND mask 24)) = (ucast (drop_bit 16 l) :: u8)"
    "ucast (drop_bit 8 (l AND mask 24)) = (ucast (drop_bit 8 l) :: u8)"
    "ucast (l AND mask 24) = (ucast l :: u8)"
  by (rule bit_word_eqI; auto simp: bit_simps)+

lemma triple_bytes:
  fixes a b c :: u8
  defines "l \<equiv> push_bit 16 (ucast a) OR push_bit 8 (ucast b) OR ucast c :: u32"
  shows "ucast (drop_bit 16 l) = a" "ucast (drop_bit 8 l) = b" "ucast l = c"
  unfolding l_def by (rule bit_word_eqI; auto simp: bit_simps dest: bit_imp_le_length)+


lemma quad_decodes:
  fixes l :: u32
  defines "x0 \<equiv> conv_bin2ascii (ucast (drop_bit 18 l))" and "x1 \<equiv> conv_bin2ascii (ucast (drop_bit 12 l))"
    and "x2 \<equiv> conv_bin2ascii (ucast (drop_bit 6 l))" and "x3 \<equiv> conv_bin2ascii (ucast l)"
  shows "base64_decode_quad [x0, x1, x2, x3] = Some [ucast (drop_bit 16 l), ucast (drop_bit 8 l), ucast l]"
    and "(ucast l :: u8) AND mask 6 = 0 \<Longrightarrow>
      base64_decode_quad [x0, x1, x2, 61] = Some [ucast (drop_bit 16 l), ucast (drop_bit 8 l)]"
    and "(ucast l :: u8) AND mask 6 = 0 \<Longrightarrow> (ucast (drop_bit 6 l) :: u8) AND mask 6 = 0 \<Longrightarrow>
      base64_decode_quad [x0, x1, 61, 61] = Some [ucast (drop_bit 16 l)]"
proof -
  show "base64_decode_quad [x0, x1, x2, x3] = Some [ucast (drop_bit 16 l), ucast (drop_bit 8 l), ucast l]"
    unfolding base64_decode_quad_def x0_def x1_def x2_def x3_def
    by (simp add: conv_props Let_def quad_join quad_bytes del: drop_bit_and drop_bit_or)
  show "base64_decode_quad [x0, x1, x2, 61] = Some [ucast (drop_bit 16 l), ucast (drop_bit 8 l)]"
    if "(ucast l :: u8) AND mask 6 = 0"
    using quad_join [of l] that unfolding base64_decode_quad_def x0_def x1_def x2_def
    by (simp add: conv_props pad_value Let_def quad_bytes del: drop_bit_and drop_bit_or)
  show "base64_decode_quad [x0, x1, 61, 61] = Some [ucast (drop_bit 16 l)]"
    if "(ucast l :: u8) AND mask 6 = 0" "(ucast (drop_bit 6 l) :: u8) AND mask 6 = 0"
    using quad_join [of l] that unfolding base64_decode_quad_def x0_def x1_def
    by (simp add: conv_props pad_value Let_def quad_bytes del: drop_bit_and drop_bit_or)
qed

lemma short_bytes:
  fixes a b :: u8
  shows "(ucast (push_bit 16 (ucast a) OR push_bit 8 (ucast b) :: u32) :: u8) AND mask 6 = 0"
    "(ucast (push_bit 16 (ucast a) :: u32) :: u8) AND mask 6 = 0"
    "(ucast (drop_bit 6 (push_bit 16 (ucast a) :: u32)) :: u8) AND mask 6 = 0"
    "ucast (drop_bit 16 (push_bit 16 (ucast a) OR push_bit 8 (ucast b) :: u32)) = a"
    "ucast (drop_bit 8 (push_bit 16 (ucast a) OR push_bit 8 (ucast b) :: u32)) = b"
    "ucast (drop_bit 16 (push_bit 16 (ucast a) :: u32)) = a"
  by (rule bit_word_eqI; auto simp: bit_simps dest: bit_imp_le_length)+

lemma EncodeBlock_quad:
  "base64_decode_quad (EVP_EncodeBlock [a]) = Some [a]"
  "base64_decode_quad (EVP_EncodeBlock [a, b]) = Some [a, b]"
  "base64_decode_quad (EVP_EncodeBlock [a, b, c]) = Some [a, b, c]"
  using quad_decodes(3) [of "push_bit 16 (ucast a)"] quad_decodes(2) [of "push_bit 16 (ucast a) OR push_bit 8 (ucast b)"]
    quad_decodes(1) [of "push_bit 16 (ucast a) OR push_bit 8 (ucast b) OR ucast c"]
  by (simp_all add: Let_def short_bytes triple_bytes del: drop_bit_or)

lemma length_EncodeBlock [simp]: "length (EVP_EncodeBlock xs) = (length xs + 2) div 3 * 4"
proof (induction xs rule: EVP_EncodeBlock.induct)
  case (4 a b c src)
  have "(length src + 5) div 3 = (length src + 2) div 3 + 1" by presburger
  with 4 show ?case by (simp add: Let_def add.commute)
qed (simp_all add: Let_def)

lemma EncodeBlock_Cons3: "EVP_EncodeBlock (a # b # c # xs) = EVP_EncodeBlock [a, b, c] @ EVP_EncodeBlock xs"
  by (simp add: Let_def)

lemma EncodeBlock_append: "length xs mod 3 = 0 \<Longrightarrow> EVP_EncodeBlock (xs @ ys) = EVP_EncodeBlock xs @ EVP_EncodeBlock ys"
  by (induction xs rule: EVP_EncodeBlock.induct) (simp_all add: Let_def)

lemma quad_list: "length xs \<in> {1, 2, 3} \<Longrightarrow> \<exists>p q r s. EVP_EncodeBlock xs = [p, q, r, s]"
  by (cases xs rule: EVP_EncodeBlock.cases) (auto simp: Let_def)

lemma decode_quads_encode: "decode_quads (EVP_EncodeBlock xs) = Some xs"
proof (induction xs rule: EVP_EncodeBlock.induct)
  case (4 a b c src)
  obtain p q r s where e: "EVP_EncodeBlock [a, b, c] = [p, q, r, s]" using quad_list [of "[a, b, c]"] by auto
  with 4 EncodeBlock_quad(3) [of a b c] show ?case
    unfolding EncodeBlock_Cons3 [of a b c src] e by simp
next
  case (2 a)
  obtain p q r s where e: "EVP_EncodeBlock [a] = [p, q, r, s]" using quad_list [of "[a]"] by auto
  with EncodeBlock_quad(1) [of a] show ?case unfolding e by simp
next
  case (3 a b)
  obtain p q r s where e: "EVP_EncodeBlock [a, b] = [p, q, r, s]" using quad_list [of "[a, b]"] by auto
  with EncodeBlock_quad(2) [of a b] show ?case unfolding e by simp
qed simp

section \<open>Blocks\<close>

lemma dropWhile_hd: "xs \<noteq> [] \<Longrightarrow> \<not> P (hd xs) \<Longrightarrow> dropWhile P xs = xs"
  by (cases xs) auto

lemma EncodeBlock_no_space: "c \<in> set (EVP_EncodeBlock xs) \<Longrightarrow> \<not> is_base64_space c"
  by (induction xs rule: EVP_EncodeBlock.induct)
     (auto simp: Let_def conv_props is_base64_space_def [of 61])

text \<open>
  C31: base64 blocks round-trip.  \<open>EVP_DecodeBase64\<close> with enough room and \<open>EVP_DecodeBlock\<close>
  decode what \<open>EVP_EncodeBlock\<close> wrote, for inputs of every length; \<open>EVP_DecodeBlock\<close> fills
  the last group up with zero bytes.\<close>

theorem base64_block_roundtrip:
  assumes "length xs div 3 * 3 + 3 \<le> INT_MAX"
  shows "EVP_DecodeBase64 ((length xs + 2) div 3 * 3) (EVP_EncodeBlock xs) = Some xs \<and>
    EVP_DecodeBlock (EVP_EncodeBlock xs) = Some (xs @ replicate ((3 - length xs mod 3) mod 3) 0)"
proof -
  let ?e = "EVP_EncodeBlock xs"
  let ?n = "(length xs + 2) div 3 * 3"
  have "?n \<le> length xs div 3 * 3 + 3" by presburger
  with assms have n: "?n \<le> INT_MAX" by (rule order_trans [rotated])
  then have len: "EVP_DecodedLength (length ?e) = Some ?n"
    by (simp add: EVP_DecodedLength_def size_mult_def)
  then have dec: "EVP_DecodeBase64 ?n ?e = Some xs"
    by (simp add: EVP_DecodeBase64_def decode_quads_encode)
  have "dropWhile (\<lambda>c. c = 32 \<or> c = 9) ?e = ?e"
    using EncodeBlock_no_space [of _ xs] by (cases "?e = []") (auto intro!: dropWhile_hd simp: is_base64_space_def)
  moreover have "dropWhile is_base64_space (rev ?e) = rev ?e"
    using EncodeBlock_no_space [of _ xs] by (cases "?e = []") (auto intro!: dropWhile_hd simp: hd_rev)
  ultimately show ?thesis
    using dec len n by (simp add: EVP_DecodeBlock_def Let_def)
qed

lemma base64_block_roundtrip_witness: "EVP_DecodeBlock (EVP_EncodeBlock [77, 97]) = Some [77, 97, 0]"
  using base64_block_roundtrip [of "[77, 97]"] by simp

text \<open>
  The length that callers allocate.  When \<open>EVP_EncodedLength\<close> succeeds, it returns the
  length of the encoding and its terminating NUL; it fails exactly when that number does
  not fit into \<open>size_t\<close>.\<close>

theorem encoded_length_exact:
  assumes "length xs < size_bound"
  shows "EVP_EncodedLength (length xs) =
     (if length xs + 2 < size_bound \<and> length (EVP_EncodeBlock xs) + 1 < size_bound
      then Some (length (EVP_EncodeBlock xs) + 1) else None)"
proof -
  define n where "n = length xs"
  define k where "k = (n + 2) div 3"
  have n: "n < size_bound" using assms by (simp add: n_def)
  have e: "length (EVP_EncodeBlock xs) = k * 4" by (simp add: k_def n_def)
  show ?thesis
  proof (cases "n + 2 < size_bound")
    case False
    then have "size_add n 2 = n + 2 - size_bound"
      using n unfolding size_add_def by (subst le_mod_geq) auto
    then have "size_add n 2 < n" using n False by linarith
    then show ?thesis using False unfolding EVP_EncodedLength_def n_def [symmetric] by simp
  next
    case True
    then have two: "size_add n 2 = n + 2" unfolding size_add_def by (rule mod_less)
    have f: "EVP_EncodedLength n = (if size_mult k 4 div 4 \<noteq> k then None
        else if size_add (size_mult k 4) 1 < size_mult k 4 then None else Some (size_add (size_mult k 4) 1))"
      using True unfolding EVP_EncodedLength_def two k_def [symmetric] Let_def by simp
    show ?thesis
    proof (cases "k * 4 < size_bound")
      case small: True
      then have m: "size_mult k 4 = k * 4" unfolding size_mult_def by (rule mod_less)
      have "k * 4 + 1 < size_bound" using small by presburger
      then have "size_add (k * 4) 1 = k * 4 + 1" unfolding size_add_def by (rule mod_less)
      then show ?thesis
        using True \<open>k * 4 + 1 < size_bound\<close> unfolding e n_def [symmetric] f m by simp
    next
      case False
      have "size_mult k 4 < size_bound" unfolding size_mult_def by simp
      with False have "size_mult k 4 div 4 \<noteq> k" by auto
      then show ?thesis using False unfolding e n_def [symmetric] f by simp
    qed
  qed
qed

lemma encoded_length_exact_witness: "EVP_EncodedLength (length [1, 2, 3, 4 :: u8]) = Some 9"
  using encoded_length_exact [of "[1, 2, 3, 4]"] by simp

section \<open>Streams\<close>

text \<open>The specification of the streaming encoder: a line of 64 characters for every 48 bytes
  and a shorter last one, each ended by a newline.\<close>

function line_split :: "u8 list \<Rightarrow> u8 list \<times> u8 list" where
  "line_split inp =
     (if length inp \<ge> sizeof_data
      then (case line_split (drop sizeof_data inp) of
              (out, rest) \<Rightarrow> (EVP_EncodeBlock (take sizeof_data inp) @ [10] @ out, rest))
      else ([], inp))"
  by pat_completeness auto
termination
  by (relation "measure length") auto

declare line_split.simps [simp del]

definition base64_lines :: "u8 list \<Rightarrow> u8 list" where
  "base64_lines inp = (case line_split inp of
     (out, rest) \<Rightarrow> out @ (if rest = [] then [] else EVP_EncodeBlock rest @ [10]))"

lemma length_line_split:
  "line_split inp = (out, rest) \<Longrightarrow> length out = 65 * (length inp div 48) \<and> length rest = length inp mod 48"
proof (induction inp arbitrary: out rest rule: line_split.induct)
  case (1 inp)
  show ?case
  proof (cases "length inp \<ge> sizeof_data")
    case True
    obtain o' r' where s: "line_split (drop sizeof_data inp) = (o', r')" by fastforce
    have "length inp div 48 = (length inp - 48) div 48 + 1" "length inp mod 48 = (length inp - 48) mod 48"
      using True by (simp_all add: le_div_geq le_mod_geq)
    with "1.IH" [OF True s] "1.prems" True s show ?thesis
      by (auto simp: line_split.simps [of inp] min_def)
  next
    case False
    with "1.prems" show ?thesis by (simp add: line_split.simps [of inp])
  qed
qed

lemma line_split_append:
  "line_split (xs @ ys) = (case line_split xs of (out, rest) \<Rightarrow>
     (case line_split (rest @ ys) of (out', rest') \<Rightarrow> (out @ out', rest')))"
proof (induction xs rule: line_split.induct)
  case (1 xs)
  show ?case
  proof (cases "length xs \<ge> sizeof_data")
    case True
    with "1.IH" show ?thesis
      by (simp add: line_split.simps [of xs] line_split.simps [of "xs @ ys"] split: prod.splits)
  next
    case False
    then show ?thesis by (simp add: line_split.simps [of xs] split: prod.splits)
  qed
qed

lemma encode_lines_eq:
  "tot + 65 * (length inp div 48) < size_bound \<Longrightarrow>
     encode_lines tot inp = (fst (line_split inp), snd (line_split inp), Some (tot + 65 * (length inp div 48)))"
proof (induction inp arbitrary: tot rule: line_split.induct)
  case (1 inp)
  show ?case
  proof (cases "length inp \<ge> sizeof_data")
    case True
    have d: "length inp div 48 = (length inp - 48) div 48 + 1" using True by (simp add: le_div_geq)
    have a: "size_add (size_add tot 64) 1 = tot + 65"
      using "1.prems" d unfolding size_add_def by simp
    have IH: "encode_lines (tot + 65) (drop 48 inp) =
        (fst (line_split (drop 48 inp)), snd (line_split (drop 48 inp)), Some (tot + 65 + 65 * ((length inp - 48) div 48)))"
      using "1.IH" [OF True, of "tot + 65"] "1.prems" d by simp
    have l: "length (EVP_EncodeBlock (take sizeof_data inp)) = 64" using True by simp
    obtain o' r' where s: "line_split (drop 48 inp) = (o', r')" by fastforce
    have "line_split inp = (EVP_EncodeBlock (take sizeof_data inp) @ [10] @ o', r')"
      using True s by (simp add: line_split.simps [of inp])
    moreover have "encode_lines tot inp = (EVP_EncodeBlock (take sizeof_data inp) @ [10] @ o', r', Some (tot + 65 * (length inp div 48)))"
      using True a IH d s l by (subst encode_lines.simps) (simp add: Let_def del: length_EncodeBlock)
    ultimately show ?thesis by simp
  next
    case False
    then show ?thesis by (simp add: encode_lines.simps [of tot inp] line_split.simps [of inp])
  qed
qed

lemma encode_update_eq:
  assumes "length (data ctx) < 48" "length inp \<le> 0x40000000"
  shows "EVP_EncodeUpdate ctx inp =
    (case line_split (data ctx @ inp) of (out, rest) \<Rightarrow> ((out, length out), ctx\<lparr>data := rest\<rparr>))"
proof -
  let ?d = "data ctx"
  obtain out rest where s: "line_split (?d @ inp) = (out, rest)" by fastforce
  note L = length_line_split [OF s]
  consider "inp = []" | "inp \<noteq> []" "48 - length ?d > length inp" | "inp \<noteq> []" "\<not> 48 - length ?d > length inp" by blast
  then show ?thesis
  proof cases
    case 1
    then show ?thesis using assms by (simp add: EVP_EncodeUpdate_def line_split.simps [of ?d])
  next
    case 2
    then have "\<not> sizeof_data \<le> length (?d @ inp)" by simp
    with 2 show ?thesis by (simp add: EVP_EncodeUpdate_def line_split.simps [of "?d @ inp"])
  next
    case 3
    show ?thesis
    proof (cases "?d = []")
      case True
      have e: "encode_lines 0 inp = (out, rest, Some (length out))"
        using encode_lines_eq [of 0 inp] s L assms(2) True by simp
      have "length out \<le> INT_MAX" using L assms(2) True by simp
      with e True 3 s show ?thesis by (simp add: EVP_EncodeUpdate_def)
    next
      case False
      let ?t = "48 - length ?d"
      obtain o' where s': "line_split (drop ?t inp) = (o', rest)"
          "out = EVP_EncodeBlock (?d @ take ?t inp) @ [10] @ o'"
      proof -
        have "sizeof_data \<le> length (?d @ inp)" using 3(2) by simp
        moreover have "take sizeof_data (?d @ inp) = ?d @ take ?t inp" "drop sizeof_data (?d @ inp) = drop ?t inp"
          using assms(1) by simp_all
        ultimately show ?thesis
          using s that by (auto simp: line_split.simps [of "?d @ inp"] split: prod.splits)
      qed
      have e: "encode_lines 65 (drop ?t inp) = (o', rest, Some (length out))"
        using encode_lines_eq [of 65 "drop ?t inp"] s' length_line_split [OF s'(1)] 3(2) assms by (simp add: min_def)
      define f where "f = EVP_EncodeBlock (?d @ take ?t inp)"
      define r where "r = drop ?t inp"
      have lf: "length f = 64"
      proof -
        have "length (?d @ take ?t inp) = 48" using 3(2) assms(1) by simp
        then show ?thesis unfolding f_def length_EncodeBlock by simp
      qed
      have "length out \<le> INT_MAX" using L assms by simp
      moreover have "size_add 64 1 = 65" by (simp add: size_add_def)
      moreover have "EVP_EncodeUpdate ctx inp = (case encode_lines (size_add (length f) 1) r of
          (out, rest, None) \<Rightarrow> ((f @ [10] @ out, 0), ctx\<lparr>data := []\<rparr>)
        | (out, rest, Some tot) \<Rightarrow> ((f @ [10] @ out, if tot > INT_MAX then 0 else tot), ctx\<lparr>data := rest\<rparr>))"
        unfolding EVP_EncodeUpdate_def f_def r_def using False 3 by (simp add: Let_def split: prod.splits option.splits)
      ultimately show ?thesis
        using e s s'(2) unfolding f_def [symmetric] r_def [symmetric] lf by simp
    qed
  qed
qed

text \<open>A client of the stream: one call for each piece, taking \<open>out_len\<close> bytes of the output
  each time, then the call that ends the stream.\<close>

fun encode_stream :: "evp_encode_ctx \<Rightarrow> u8 list list \<Rightarrow> u8 list" where
  "encode_stream ctx [] = (case EVP_EncodeFinal ctx of ((out, n), _) \<Rightarrow> take n out)"
| "encode_stream ctx (p # ps) = (case EVP_EncodeUpdate ctx p of
     ((out, n), ctx) \<Rightarrow> take n out @ encode_stream ctx ps)"

fun decode_stream :: "evp_encode_ctx \<Rightarrow> u8 list list \<Rightarrow> u8 list option" where
  "decode_stream ctx [] = (if EVP_DecodeFinal ctx = 1 then Some [] else None)"
| "decode_stream ctx (p # ps) = (case EVP_DecodeUpdate ctx p of
     (r, out, n, ctx) \<Rightarrow> if r = -1 then None else map_option ((@) (take n out)) (decode_stream ctx ps))"

lemma encode_stream_lines:
  "length (data ctx) < 48 \<Longrightarrow> \<forall>p \<in> set ps. length p \<le> 0x40000000 \<Longrightarrow>
     encode_stream ctx ps = base64_lines (data ctx @ concat ps)"
proof (induction ps arbitrary: ctx)
  case Nil
  then show ?case by (simp add: EVP_EncodeFinal_def base64_lines_def line_split.simps [of "data ctx"] Let_def)
next
  case (Cons p ps)
  obtain out rest where s: "line_split (data ctx @ p) = (out, rest)" by fastforce
  have "length rest < 48" using length_line_split [OF s] by simp
  then have "encode_stream (ctx\<lparr>data := rest\<rparr>) ps = base64_lines (rest @ concat ps)"
    using Cons.IH [of "ctx\<lparr>data := rest\<rparr>"] Cons.prems(2) by simp
  moreover have "base64_lines (data ctx @ concat (p # ps)) = out @ base64_lines (rest @ concat ps)"
    using s line_split_append [of "data ctx @ p" "concat ps"] by (simp add: base64_lines_def split: prod.splits)
  ultimately show ?case
    using encode_update_eq [of ctx p] Cons.prems s by simp
qed

section \<open>The streaming decoder\<close>

lemma decode_loop_append:
  "decode_loop ctx (xs @ ys) = (case decode_loop ctx xs of
     (False, out, c) \<Rightarrow> (False, out, c)
   | (True, out, c) \<Rightarrow> (case decode_loop c ys of (ok, out', c') \<Rightarrow> (ok, out @ out', c')))"
  by (induction ctx xs rule: decode_loop.induct) (auto simp: Let_def split: prod.splits option.splits bool.splits)

lemma decode_loop_space: "decode_loop ctx xs = decode_loop ctx (filter (\<lambda>c. \<not> is_base64_space c) xs)"
  by (induction ctx xs rule: decode_loop.induct) (auto simp: Let_def split: prod.splits option.splits bool.splits)

lemma decode_loop_length:
  "decode_loop ctx xs = (ok, out, c) \<Longrightarrow> length (data ctx) < 4 \<Longrightarrow> length out \<le> length (data ctx) + length xs"
proof (induction ctx xs arbitrary: ok out c rule: decode_loop.induct)
  case (2 ctx x xs)
  have q: "base64_decode_quad d = Some bs \<Longrightarrow> length bs \<le> 3" for d bs
    by (auto simp: base64_decode_quad_def Let_def split: if_splits)
  show ?case
  proof (cases "is_base64_space x \<or> eof_seen ctx")
    case True
    then show ?thesis using 2 by (fastforce split: if_splits)
  next
    case False
    then have n: "\<not> is_base64_space x" "\<not> eof_seen ctx" by auto
    let ?c = "ctx\<lparr>data := data ctx @ [x]\<rparr>"
    show ?thesis
    proof (cases "length (data ?c) = 4")
      case full: True
      show ?thesis
      proof (cases "base64_decode_quad (data ?c)")
        case (Some bs)
        obtain ok' o' c' where r: "decode_loop (?c\<lparr>data := [], eof_seen := length bs < 3\<rparr>) xs = (ok', o', c')"
          by (metis prod_cases3)
        have "length o' \<le> length xs"
          using "2.IH"(2) [OF n refl full Some] r by fastforce
        then show ?thesis using "2.prems"(1) n full Some r q [OF Some] by auto
      qed (use "2.prems"(1) n full in auto)
    next
      case more: False
      then have "decode_loop ?c xs = (ok, out, c)" using "2.prems" n by simp
      then have "length out \<le> length (data ?c) + length xs"
        using "2.IH"(3) [OF n refl more] more "2.prems"(2) by simp
      then show ?thesis by simp
    qed
  qed
qed simp

lemma decode_loop_quad:
  assumes "length q = 4" "\<forall>c \<in> set q. \<not> is_base64_space c" "base64_decode_quad q = Some bs"
    and "data ctx = []" "\<not> eof_seen ctx"
  shows "decode_loop ctx (q @ xs) =
    (case decode_loop (ctx\<lparr>data := [], eof_seen := length bs < 3\<rparr>) xs of (ok, out, c) \<Rightarrow> (ok, bs @ out, c))"
proof -
  obtain a b c d where "q = [a, b, c, d]"
    using assms(1) by (auto simp: numeral_eq_Suc length_Suc_conv)
  with assms show ?thesis by (simp add: Let_def)
qed

lemma decode_loop_encode:
  "data ctx = [] \<Longrightarrow> \<not> eof_seen ctx \<Longrightarrow>
     decode_loop ctx (EVP_EncodeBlock xs) = (True, xs, ctx\<lparr>data := [], eof_seen := length xs mod 3 \<noteq> 0\<rparr>)"
proof (induction xs arbitrary: ctx rule: EVP_EncodeBlock.induct)
  case (4 a b c src)
  have "length (EVP_EncodeBlock [a, b, c]) = 4" unfolding length_EncodeBlock by simp
  moreover have "\<forall>x \<in> set (EVP_EncodeBlock [a, b, c]). \<not> is_base64_space x"
    using EncodeBlock_no_space by blast
  ultimately show ?case
    using 4 EncodeBlock_quad(3) unfolding EncodeBlock_Cons3 [of a b c src] by (subst decode_loop_quad) auto
next
  case (2 a)
  have "length (EVP_EncodeBlock [a]) = 4" unfolding length_EncodeBlock by simp
  moreover have "\<forall>x \<in> set (EVP_EncodeBlock [a]). \<not> is_base64_space x"
    using EncodeBlock_no_space by blast
  ultimately show ?case using decode_loop_quad [OF _ _ EncodeBlock_quad(1) 2(1,2), of a "[]"] by simp
next
  case (3 a b)
  have "length (EVP_EncodeBlock [a, b]) = 4" unfolding length_EncodeBlock by simp
  moreover have "\<forall>x \<in> set (EVP_EncodeBlock [a, b]). \<not> is_base64_space x"
    using EncodeBlock_no_space by blast
  ultimately show ?case using decode_loop_quad [OF _ _ EncodeBlock_quad(2) 3(1,2), of a b "[]"] by simp
next
  case 1
  then show ?case by (cases ctx) simp
qed

lemma newline_space [simp]: "is_base64_space 10"
  by (simp add: is_base64_space_def)

lemma filter_lines: "filter (\<lambda>c. \<not> is_base64_space c) (base64_lines xs) = EVP_EncodeBlock xs"
proof (induction xs rule: line_split.induct)
  case (1 xs)
  have e: "filter (\<lambda>c. \<not> is_base64_space c) (EVP_EncodeBlock ys @ [10]) = EVP_EncodeBlock ys" for ys
    using EncodeBlock_no_space [of _ ys] by (simp add: filter_id_conv)
  show ?case
  proof (cases "length xs \<ge> sizeof_data")
    case True
    have "base64_lines xs = EVP_EncodeBlock (take sizeof_data xs) @ [10] @ base64_lines (drop sizeof_data xs)"
      using True by (simp add: base64_lines_def line_split.simps [of xs] split: prod.splits)
    then have "filter (\<lambda>c. \<not> is_base64_space c) (base64_lines xs) =
        EVP_EncodeBlock (take sizeof_data xs) @ EVP_EncodeBlock (drop sizeof_data xs)"
      using "1.IH" [OF True] e [of "take sizeof_data xs"] by simp
    also have "\<dots> = EVP_EncodeBlock (take sizeof_data xs @ drop sizeof_data xs)"
      by (rule EncodeBlock_append [symmetric]) (use True in \<open>simp add: min_def\<close>)
    finally show ?thesis by simp
  next
    case False
    then show ?thesis using e [of xs] by (simp add: base64_lines_def line_split.simps [of xs])
  qed
qed

lemma decode_loop_ok:
  "decode_loop ctx xs = (True, out, c) \<Longrightarrow> length (data ctx) < 4 \<Longrightarrow>
     length (data c) < 4 \<and> error_encountered c = error_encountered ctx"
proof (induction ctx xs arbitrary: out c rule: decode_loop.induct)
  case (2 ctx x xs)
  show ?case
  proof (cases "is_base64_space x \<or> eof_seen ctx")
    case True
    then show ?thesis using 2 by (fastforce split: if_splits)
  next
    case False
    then have n: "\<not> is_base64_space x" "\<not> eof_seen ctx" by auto
    let ?c = "ctx\<lparr>data := data ctx @ [x]\<rparr>"
    show ?thesis
    proof (cases "length (data ?c) = 4")
      case full: True
      show ?thesis
      proof (cases "base64_decode_quad (data ?c)")
        case (Some bs)
        obtain ok' o' c' where r: "decode_loop (?c\<lparr>data := [], eof_seen := length bs < 3\<rparr>) xs = (ok', o', c')"
          by (metis prod_cases3)
        then have "ok'" "c' = c" using "2.prems"(1) n full Some by auto
        then show ?thesis
          using "2.IH"(2) [OF n refl full Some] r by fastforce
      qed (use "2.prems"(1) n full in auto)
    next
      case more: False
      then have "decode_loop ?c xs = (True, out, c)" using "2.prems" n by simp
      then show ?thesis
        using "2.IH"(3) [OF n refl more] more "2.prems"(2) by simp
    qed
  qed
qed simp

lemma decode_stream_eq:
  "\<not> error_encountered ctx \<Longrightarrow> length (data ctx) < 4 \<Longrightarrow> \<forall>p \<in> set ps. length p \<le> 0x40000000 \<Longrightarrow>
     decode_loop ctx (concat ps) = (True, out, c) \<Longrightarrow> data c = [] \<Longrightarrow> decode_stream ctx ps = Some out"
proof (induction ps arbitrary: ctx out)
  case Nil
  then show ?case by (simp add: EVP_DecodeFinal_def)
next
  case (Cons p ps)
  obtain o1 c1 o2 where r: "decode_loop ctx p = (True, o1, c1)" "decode_loop c1 (concat ps) = (True, o2, c)" "out = o1 @ o2"
    using Cons.prems(4) by (auto simp: decode_loop_append split: prod.splits bool.splits)
  have c1: "length (data c1) < 4" "\<not> error_encountered c1"
    using decode_loop_ok [OF r(1) Cons.prems(2)] Cons.prems(1) by auto
  have "length o1 \<le> INT_MAX"
    using decode_loop_length [OF r(1) Cons.prems(2)] Cons.prems(2,3) by simp
  moreover have "decode_stream c1 ps = Some o2"
    using Cons.IH [OF c1(2,1) _ r(2) Cons.prems(5)] Cons.prems(3) by simp
  ultimately show ?case
    using r Cons.prems(1) by (simp add: EVP_DecodeUpdate_def)
qed

text \<open>
  C27: base64 streams.  However the input is cut into pieces (of at most a gibibyte), the
  streaming encoder writes the same lines: 64 characters for every 48 bytes and a shorter
  last line; and however those lines are cut into pieces, the streaming decoder returns the
  original bytes and reports success at the end.\<close>

theorem base64_stream_roundtrip:
  assumes "\<forall>p \<in> set ps. length p \<le> 0x40000000" "\<forall>q \<in> set qs. length q \<le> 0x40000000"
    and "concat qs = encode_stream EVP_EncodeInit ps"
  shows "encode_stream EVP_EncodeInit ps = base64_lines (concat ps) \<and>
    decode_stream EVP_DecodeInit qs = Some (concat ps)"
proof -
  have e: "encode_stream EVP_EncodeInit ps = base64_lines (concat ps)"
    using encode_stream_lines [OF _ assms(1), of EVP_EncodeInit] by (simp add: EVP_EncodeInit_def)
  have "decode_loop EVP_DecodeInit (concat qs) = decode_loop EVP_DecodeInit (EVP_EncodeBlock (concat ps))"
    using assms(3) e filter_lines [of "concat ps"] decode_loop_space [of EVP_DecodeInit "concat qs"] by simp
  also have "\<dots> = (True, concat ps, EVP_DecodeInit\<lparr>data := [], eof_seen := length (concat ps) mod 3 \<noteq> 0\<rparr>)"
    by (rule decode_loop_encode) (simp_all add: EVP_DecodeInit_def)
  finally have fin: "decode_loop EVP_DecodeInit (concat qs) =
      (True, concat ps, EVP_DecodeInit\<lparr>data := [], eof_seen := length (concat ps) mod 3 \<noteq> 0\<rparr>)" .
  have "decode_stream EVP_DecodeInit qs = Some (concat ps)"
    by (rule decode_stream_eq [OF _ _ assms(2) fin]) (simp_all add: EVP_DecodeInit_def)
  with e show ?thesis by simp
qed

lemma base64_stream_roundtrip_witness:
  "decode_stream EVP_DecodeInit [encode_stream EVP_EncodeInit [[77], [97, 110, 33]]] = Some [77, 97, 110, 33]"
proof -
  have "decode_stream EVP_DecodeInit [encode_stream EVP_EncodeInit [[77], [97, 110, 33]]] = Some (concat [[77], [97, 110, 33]])"
    by (rule conjunct2 [OF base64_stream_roundtrip])
      (simp_all add: EVP_EncodeInit_def EVP_EncodeUpdate_def EVP_EncodeFinal_def Let_def)
  then show ?thesis by (simp only: concat.simps append.simps)
qed

end
