(* ===== verification/Stack.thy ===== *)
theory Stack
  imports BSSL_Prelude Comparator
begin

text \<open>
  Stacks of pointers (\<open>crypto/stack/stack.c\<close>).

  Elements are pointers of some type \<open>'p\<close>, \<open>None\<close> for NULL.  A stack holds a pointer to a
  comparison function, of a type \<open>'c\<close>, that it can compare with another and that the
  client's wrapper \<open>call_cmp_func\<close> calls; here the wrapper is given the two elements.  Of
  the array \<open>data\<close> the \<open>num\<close> valid entries are kept.  A stack that may be NULL is an option.
  \<open>qsort\<close> of the C library and the callbacks that copy and free elements are arguments.
\<close>

record ('p, 'c) stack =
  data :: "'p option list"
  num_alloc :: nat
  sorted :: bool
  comp :: "'c option"

type_synonym ('p, 'c) call_cmp = "'c \<Rightarrow> 'p option \<Rightarrow> 'p option \<Rightarrow> int"

abbreviation kMinSize :: nat where "kMinSize \<equiv> 4"
abbreviation sizeof_ptr :: nat where "sizeof_ptr \<equiv> 8"
abbreviation sizeof_stack :: nat where "sizeof_stack \<equiv> 40"

section \<open>Operations\<close>

definition sk_new :: "allocator \<Rightarrow> 'c option \<Rightarrow> ('p, 'c) stack option" where
  "sk_new alloc cmp =
     (if \<not> alloc sizeof_stack then None
      else if \<not> alloc (size_mult sizeof_ptr kMinSize) then None
      else Some \<lparr>data = [], num_alloc = kMinSize, sorted = False, comp = cmp\<rparr>)"

definition sk_new_null :: "allocator \<Rightarrow> ('p, 'c) stack option" where
  "sk_new_null alloc = sk_new alloc None"

definition sk_num :: "('p, 'c) stack option \<Rightarrow> nat" where
  "sk_num sk = (case sk of None \<Rightarrow> 0 | Some s \<Rightarrow> length (data s))"

definition sk_zero :: "('p, 'c) stack option \<Rightarrow> ('p, 'c) stack option" where
  "sk_zero sk = (case sk of
     None \<Rightarrow> None
   | Some s \<Rightarrow> if length (data s) = 0 then Some s else Some (s\<lparr>data := [], sorted := False\<rparr>))"

definition sk_value :: "('p, 'c) stack option \<Rightarrow> nat \<Rightarrow> 'p option" where
  "sk_value sk i = (case sk of None \<Rightarrow> None | Some s \<Rightarrow> if i \<ge> length (data s) then None else data s ! i)"

definition sk_set :: "('p, 'c) stack option \<Rightarrow> nat \<Rightarrow> 'p option \<Rightarrow> 'p option \<times> ('p, 'c) stack option" where
  "sk_set sk i p = (case sk of
     None \<Rightarrow> (None, None)
   | Some s \<Rightarrow> if i \<ge> length (data s) then (None, Some s) else (p, Some (s\<lparr>data := (data s)[i := p]\<rparr>)))"

text \<open>The elements that \<open>sk_pop_free_ex\<close> passes to the free function, in order.\<close>

definition sk_pop_free_ex :: "('p, 'c) stack option \<Rightarrow> 'p list" where
  "sk_pop_free_ex sk = (case sk of None \<Rightarrow> [] | Some s \<Rightarrow> List.map_filter id (data s))"

text \<open>The part of \<open>sk_insert\<close> that makes room, \<open>None\<close> where it returns 0.\<close>

definition sk_grow :: "allocator \<Rightarrow> ('p, 'c) stack \<Rightarrow> ('p, 'c) stack option" where
  "sk_grow alloc s =
     (if num_alloc s \<le> size_add (length (data s)) 1
      then let new_alloc = size_mult (num_alloc s) 2;
               alloc_size = size_mult new_alloc sizeof_ptr;
               overflow = (new_alloc < num_alloc s \<or> alloc_size div sizeof_ptr \<noteq> new_alloc);
               new_alloc = (if overflow then size_add (num_alloc s) 1 else new_alloc);
               alloc_size = (if overflow then size_mult new_alloc sizeof_ptr else alloc_size)
           in if new_alloc < num_alloc s \<or> alloc_size div sizeof_ptr \<noteq> new_alloc then None
              else if \<not> alloc alloc_size then None
              else Some (s\<lparr>num_alloc := new_alloc\<rparr>)
      else Some s)"

definition sk_insert ::
  "allocator \<Rightarrow> ('p, 'c) stack option \<Rightarrow> 'p option \<Rightarrow> nat \<Rightarrow> nat \<times> ('p, 'c) stack option" where
  "sk_insert alloc sk p where_at = (case sk of
     None \<Rightarrow> (0, None)
   | Some s \<Rightarrow> (case sk_grow alloc s of
       None \<Rightarrow> (0, Some s)
     | Some s \<Rightarrow>
         let s' = s\<lparr>data := (if where_at \<ge> length (data s) then data s @ [p]
                              else take where_at (data s) @ p # drop where_at (data s)),
                    sorted := False\<rparr>
         in (length (data s'), Some s')))"

definition sk_delete :: "('p, 'c) stack option \<Rightarrow> nat \<Rightarrow> 'p option \<times> ('p, 'c) stack option" where
  "sk_delete sk where_at = (case sk of
     None \<Rightarrow> (None, None)
   | Some s \<Rightarrow>
       if where_at \<ge> length (data s) then (None, Some s)
       else (data s ! where_at, Some (s\<lparr>data := take where_at (data s) @ drop (where_at + 1) (data s)\<rparr>)))"

text \<open>The index of the first element that satisfies a test, as the loops
  \<open>for (size_t i = 0; i < sk->num; i++)\<close> find it.\<close>

fun first_index :: "('a \<Rightarrow> bool) \<Rightarrow> nat \<Rightarrow> 'a list \<Rightarrow> nat option" where
  "first_index P i [] = None"
| "first_index P i (x # xs) = (if P x then Some i else first_index P (i + 1) xs)"

definition sk_delete_ptr :: "('p, 'c) stack option \<Rightarrow> 'p option \<Rightarrow> 'p option \<times> ('p, 'c) stack option" where
  "sk_delete_ptr sk p = (case sk of
     None \<Rightarrow> (None, None)
   | Some s \<Rightarrow> (case first_index (\<lambda>e. e = p) 0 (data s) of
       None \<Rightarrow> (None, sk) | Some i \<Rightarrow> sk_delete sk i))"

definition sk_is_sorted :: "('p, 'c) stack option \<Rightarrow> bool" where
  "sk_is_sorted sk = (case sk of None \<Rightarrow> True | Some s \<Rightarrow> sorted s)"

text \<open>The binary search.\<close>

function find_loop :: "('a \<Rightarrow> int) \<Rightarrow> 'a list \<Rightarrow> nat \<Rightarrow> nat \<Rightarrow> nat option" where
  "find_loop f xs lo hi =
     (if lo < hi
      then let mid = lo + (hi - lo - 1) div 2; r = f (xs ! mid)
           in if r > 0 then find_loop f xs (mid + 1) hi
              else if r < 0 then find_loop f xs lo mid
              else if hi - lo = 1 then Some mid
              else find_loop f xs lo (mid + 1)
      else None)"
  by pat_completeness auto
termination
proof (relation "measure (\<lambda>(f, xs, lo, hi). hi - lo)")
  fix f :: "'a \<Rightarrow> int" and xs and lo hi x :: nat and xa
  assume a: "lo < hi" "x = lo + (hi - lo - 1) div 2" "\<not> hi - lo = 1"
  have "(hi - lo - 1) div 2 + 1 < hi - lo" using a(1,3) by presburger
  then show "((f, xs, lo, x + 1), f, xs, lo, hi) \<in> measure (\<lambda>(f, xs, lo, hi). hi - lo)" using a by simp
next
  fix f :: "'a \<Rightarrow> int" and xs and lo hi x :: nat and xa
  assume a: "lo < hi" "x = lo + (hi - lo - 1) div 2"
  have "(hi - lo - 1) div 2 < hi - lo" using a(1) by presburger
  then show "((f, xs, lo, x), f, xs, lo, hi) \<in> measure (\<lambda>(f, xs, lo, hi). hi - lo)" using a by simp
qed auto

declare find_loop.simps [simp del]

definition sk_find :: "('p, 'c) call_cmp \<Rightarrow> ('p, 'c) stack option \<Rightarrow> 'p option \<Rightarrow> nat option" where
  "sk_find call_cmp sk p = (case sk of
     None \<Rightarrow> None
   | Some s \<Rightarrow> (case comp s of
       None \<Rightarrow> first_index (\<lambda>e. e = p) 0 (data s)
     | Some c \<Rightarrow>
         if p = None then None
         else if \<not> sk_is_sorted sk then first_index (\<lambda>e. call_cmp c p e = 0) 0 (data s)
         else find_loop (call_cmp c p) (data s) 0 (length (data s))))"

definition sk_shift :: "('p, 'c) stack option \<Rightarrow> 'p option \<times> ('p, 'c) stack option" where
  "sk_shift sk = (case sk of
     None \<Rightarrow> (None, None) | Some s \<Rightarrow> if length (data s) = 0 then (None, sk) else sk_delete sk 0)"

definition sk_push :: "allocator \<Rightarrow> ('p, 'c) stack option \<Rightarrow> 'p option \<Rightarrow> nat \<times> ('p, 'c) stack option" where
  "sk_push alloc sk p = sk_insert alloc sk p (sk_num sk)"

definition sk_pop :: "('p, 'c) stack option \<Rightarrow> 'p option \<times> ('p, 'c) stack option" where
  "sk_pop sk = (case sk of
     None \<Rightarrow> (None, None)
   | Some s \<Rightarrow> if length (data s) = 0 then (None, sk) else sk_delete sk (length (data s) - 1))"

definition sk_dup :: "allocator \<Rightarrow> ('p, 'c) stack option \<Rightarrow> ('p, 'c) stack option" where
  "sk_dup alloc sk = (case sk of
     None \<Rightarrow> None
   | Some s \<Rightarrow> (case sk_new alloc (comp s) of
       None \<Rightarrow> None
     | Some ret \<Rightarrow>
         if \<not> alloc (size_mult sizeof_ptr (num_alloc s)) then None
         else Some (ret\<lparr>data := data s, sorted := sorted s, num_alloc := num_alloc s, comp := comp s\<rparr>)))"

definition sk_sort ::
  "('p option comparison \<Rightarrow> 'p option list \<Rightarrow> 'p option list) \<Rightarrow> ('p, 'c) call_cmp \<Rightarrow>
   ('p, 'c) stack option \<Rightarrow> ('p, 'c) stack option" where
  "sk_sort qsort call_cmp sk = (case sk of
     None \<Rightarrow> None
   | Some s \<Rightarrow> (case comp s of
       None \<Rightarrow> Some s
     | Some c \<Rightarrow>
         if sorted s then Some s
         else Some (s\<lparr>data := (if length (data s) \<ge> 2 then qsort (call_cmp c) (data s) else data s),
                      sorted := True\<rparr>)))"

definition sk_set_cmp_func :: "('p, 'c) stack \<Rightarrow> 'c option \<Rightarrow> 'c option \<times> ('p, 'c) stack" where
  "sk_set_cmp_func s c =
     (let old = comp s; s = (if comp s \<noteq> c then s\<lparr>sorted := False\<rparr> else s) in (old, s\<lparr>comp := c\<rparr>))"

text \<open>The callback that copies may have a state of its own, such as the heap it allocates
  from.  The result is the copied elements, or those that are passed to the free function
  when a copy fails.\<close>

fun deep_copy_loop ::
  "('p \<Rightarrow> 's \<Rightarrow> 'p option \<times> 's) \<Rightarrow> 'p option list \<Rightarrow> 'p option list \<Rightarrow> 's \<Rightarrow>
   ('p list + 'p option list) \<times> 's" where
  "deep_copy_loop copy copied [] s = (Inr copied, s)"
| "deep_copy_loop copy copied (None # xs) s = deep_copy_loop copy (copied @ [None]) xs s"
| "deep_copy_loop copy copied (Some p # xs) s = (case copy p s of
     (None, s) \<Rightarrow> (Inl (List.map_filter id copied), s)
   | (Some q, s) \<Rightarrow> deep_copy_loop copy (copied @ [Some q]) xs s)"

definition sk_deep_copy ::
  "allocator \<Rightarrow> ('p \<Rightarrow> 's \<Rightarrow> 'p option \<times> 's) \<Rightarrow> ('p, 'c) stack option \<Rightarrow> 's \<Rightarrow>
   ('p, 'c) stack option \<times> 'p list \<times> 's" where
  "sk_deep_copy alloc copy sk s = (case sk_dup alloc sk of
     None \<Rightarrow> (None, [], s)
   | Some ret \<Rightarrow> (case deep_copy_loop copy [] (data ret) s of
       (Inl freed, s) \<Rightarrow> (None, freed, s)
     | (Inr new_data, s) \<Rightarrow> (Some (ret\<lparr>data := new_data\<rparr>), [], s)))"

section \<open>Searching\<close>

lemma first_index_Some:
  "first_index P k xs = Some i \<longleftrightarrow> k \<le> i \<and> i - k < length xs \<and> P (xs ! (i - k)) \<and> (\<forall>j < i - k. \<not> P (xs ! j))"
proof (induction xs arbitrary: k)
  case (Cons x xs)
  show ?case
  proof (cases "P x")
    case True
    then show ?thesis
      by (auto simp: nth_Cons' split: if_splits)
  next
    case False
    show ?thesis
    proof (cases "k < i")
      case True
      then have "i - k = Suc (i - Suc k)" by simp
      then show ?thesis using Cons.IH [of "k + 1"] False True by (auto simp: nth_Cons' All_less_Suc2)
    next
      case le: False
      then show ?thesis using Cons.IH [of "k + 1"] False by (auto simp: nth_Cons')
    qed
  qed
qed simp

lemma first_index_None: "first_index P k xs = None \<longleftrightarrow> (\<forall>x \<in> set xs. \<not> P x)"
  by (induction xs arbitrary: k) auto

definition falls :: "('a \<Rightarrow> int) \<Rightarrow> 'a list \<Rightarrow> bool" where
  "falls f xs = (\<forall>i j. i < j \<longrightarrow> j < length xs \<longrightarrow>
     (0 < f (xs ! j) \<longrightarrow> 0 < f (xs ! i)) \<and> (f (xs ! i) < 0 \<longrightarrow> f (xs ! j) < 0))"

text \<open>What the binary search returns: the earliest match in the interval.\<close>

definition earliest :: "(nat \<Rightarrow> bool) \<Rightarrow> nat \<Rightarrow> nat \<Rightarrow> nat option \<Rightarrow> bool" where
  "earliest P lo hi r = (case r of
     None \<Rightarrow> \<forall>i. lo \<le> i \<longrightarrow> i < hi \<longrightarrow> \<not> P i
   | Some m \<Rightarrow> lo \<le> m \<and> m < hi \<and> P m \<and> (\<forall>i. lo \<le> i \<longrightarrow> i < m \<longrightarrow> \<not> P i))"

lemma earliest_above: "earliest P k hi r \<Longrightarrow> lo \<le> k \<Longrightarrow> (\<And>i. i < k \<Longrightarrow> \<not> P i) \<Longrightarrow> earliest P lo hi r"
  unfolding earliest_def by (cases r) (auto, (meson not_le)+)

lemma earliest_below: "earliest P lo k r \<Longrightarrow> k \<le> hi \<Longrightarrow> (\<And>i. k \<le> i \<Longrightarrow> i < hi \<Longrightarrow> \<not> P i) \<Longrightarrow> earliest P lo hi r"
proof -
  assume a: "earliest P lo k r" "k \<le> hi" "\<And>i. k \<le> i \<Longrightarrow> i < hi \<Longrightarrow> \<not> P i"
  show ?thesis
  proof (cases r)
    case None
    with a(1) have "\<forall>i. lo \<le> i \<longrightarrow> i < k \<longrightarrow> \<not> P i" by (simp add: earliest_def)
    then have "\<not> P i" if "lo \<le> i" "i < hi" for i using a(3) [of i] that by (cases "i < k") auto
    with None show ?thesis by (simp add: earliest_def)
  next
    case (Some m)
    with a show ?thesis by (simp add: earliest_def)
  qed
qed

lemma earliest_match: "earliest P lo (Suc m) r \<Longrightarrow> m < hi \<Longrightarrow> lo \<le> m \<Longrightarrow> P m \<Longrightarrow> earliest P lo hi r"
  unfolding earliest_def by (cases r) auto

lemma find_loop_spec:
  "falls f xs \<Longrightarrow> hi \<le> length xs \<Longrightarrow> earliest (\<lambda>i. f (xs ! i) = 0) lo hi (find_loop f xs lo hi)"
proof (induction f xs lo hi rule: find_loop.induct)
  case (1 f xs lo hi)
  show ?case
  proof (cases "lo < hi")
    case False
    then show ?thesis by (simp add: find_loop.simps [of f xs lo hi] earliest_def)
  next
    case lt: True
    define mid where "mid = lo + (hi - lo - 1) div 2"
    define r where "r = f (xs ! mid)"
    have mid: "lo \<le> mid" "mid < hi" unfolding mid_def using lt by auto
    have below: "0 < f (xs ! i)" if "0 < r" "i \<le> mid" for i
      using that "1.prems"(2) mid "1.prems"(1) [unfolded falls_def, rule_format, of i mid]
      unfolding r_def by (cases "i = mid") auto
    have above: "f (xs ! i) < 0" if "r < 0" "mid \<le> i" "i < hi" for i
      using that "1.prems"(2) mid "1.prems"(1) [unfolded falls_def, rule_format, of mid i]
      unfolding r_def by (cases "i = mid") auto
    have step: "find_loop f xs lo hi = (if r > 0 then find_loop f xs (mid + 1) hi
        else if r < 0 then find_loop f xs lo mid else if hi - lo = 1 then Some mid else find_loop f xs lo (mid + 1))"
      unfolding find_loop.simps [of f xs lo hi] Let_def mid_def [symmetric] r_def [symmetric] using lt by simp
    consider "0 < r" | "r < 0" | "r = 0" "hi - lo = 1" | "r = 0" "hi - lo \<noteq> 1" by linarith
    then show ?thesis
    proof cases
      case 1
      have "earliest (\<lambda>i. f (xs ! i) = 0) lo hi (find_loop f xs (mid + 1) hi)"
      proof (rule earliest_above [OF "1.IH"(1) [OF lt mid_def r_def 1 "1.prems"]])
        show "lo \<le> mid + 1" using mid by simp
        show "f (xs ! i) \<noteq> 0" if "i < mid + 1" for i using below [OF 1, of i] that by simp
      qed
      with 1 show ?thesis by (simp add: step)
    next
      case 2
      have m: "\<not> 0 < r" "mid \<le> length xs" using 2 mid "1.prems" by auto
      have "earliest (\<lambda>i. f (xs ! i) = 0) lo hi (find_loop f xs lo mid)"
      proof (rule earliest_below [OF "1.IH"(2) [OF lt mid_def r_def m(1) 2 "1.prems"(1) m(2)]])
        show "mid \<le> hi" using mid by simp
        show "f (xs ! i) \<noteq> 0" if "mid \<le> i" "i < hi" for i using above [OF 2 that] by simp
      qed
      with 2 show ?thesis by (simp add: step)
    next
      case 3
      then have "mid = lo" by (simp add: mid_def)
      with 3 lt show ?thesis by (simp add: step earliest_def r_def)
    next
      case 4
      have "\<not> 0 < r" "\<not> r < 0" "mid + 1 \<le> length xs" using 4 mid "1.prems" by auto
      note IH = "1.IH"(3) [OF lt mid_def r_def this(1,2) 4(2) "1.prems"(1) this(3)]
      have "earliest (\<lambda>i. f (xs ! i) = 0) lo hi (find_loop f xs lo (mid + 1))"
        by (rule earliest_match [of _ lo mid]) (use IH mid 4(1) in \<open>simp_all add: r_def\<close>)
      with 4 show ?thesis by (simp add: step)
    qed
  qed
qed

lemma earliest_first: "earliest (\<lambda>i. P (xs ! i)) 0 (length xs) r \<Longrightarrow> first_index P 0 xs = r"
proof (cases r)
  case None
  moreover assume "earliest (\<lambda>i. P (xs ! i)) 0 (length xs) r"
  ultimately have "first_index P 0 xs = None"
    unfolding first_index_None by (auto simp: earliest_def in_set_conv_nth)
  with None show ?thesis by simp
next
  case (Some m)
  moreover assume "earliest (\<lambda>i. P (xs ! i)) 0 (length xs) r"
  ultimately have "first_index P 0 xs = Some m"
    unfolding first_index_Some by (auto simp: earliest_def)
  with Some show ?thesis by simp
qed

lemma find_loop_first: "falls f xs \<Longrightarrow> find_loop f xs 0 (length xs) = first_index (\<lambda>e. f e = 0) 0 xs"
  using find_loop_spec [of f xs "length xs" 0] earliest_first [of "\<lambda>e. f e = 0" xs] by simp

context comparator
begin

lemma sorted_falls: "sorted_wrt (\<lambda>a b. cmp a b \<le> 0) xs \<Longrightarrow> falls (cmp p) xs"
proof -
  assume s: "sorted_wrt (\<lambda>a b. cmp a b \<le> 0) xs"
  have "(0 < cmp p (xs ! j) \<longrightarrow> 0 < cmp p (xs ! i)) \<and> (cmp p (xs ! i) < 0 \<longrightarrow> cmp p (xs ! j) < 0)"
    if "i < j" "j < length xs" for i j
  proof -
    have ij: "cmp (xs ! i) (xs ! j) \<le> 0" by (rule sorted_wrt_nth_less [OF s that])
    have "0 < cmp p (xs ! i)" if "0 < cmp p (xs ! j)"
    proof (rule ccontr)
      assume "\<not> 0 < cmp p (xs ! i)"
      then have "cmp p (xs ! j) \<le> 0" using ij trans [of p "xs ! i" "xs ! j"] by simp
      with that show False by simp
    qed
    moreover have "cmp p (xs ! j) < 0" if "cmp p (xs ! i) < 0"
    proof (rule ccontr)
      assume "\<not> cmp p (xs ! j) < 0"
      then have "cmp (xs ! j) p \<le> 0" using le_swap by simp
      then have "cmp (xs ! i) p \<le> 0" using ij trans [of "xs ! i" "xs ! j" p] by simp
      with that show False using neg_swap [of p "xs ! i"] by simp
    qed
    ultimately show ?thesis by blast
  qed
  then show ?thesis by (simp add: falls_def)
qed

end

section \<open>The operations on lists\<close>

definition stack_ok :: "('p, 'c) call_cmp \<Rightarrow> ('p, 'c) stack \<Rightarrow> bool" where
  "stack_ok call_cmp s = (length (data s) < num_alloc s \<and> num_alloc s * sizeof_ptr < size_bound \<and>
     (sorted s \<longrightarrow> (\<forall>c. comp s = Some c \<longrightarrow> sorted_wrt (\<lambda>a b. call_cmp c a b \<le> 0) (data s))))"

lemma size_mult_div: "0 < k \<Longrightarrow> size_mult m k div k = m \<longleftrightarrow> m * k < size_bound"
proof
  assume k: "0 < k" "size_mult m k div k = m"
  have "size_mult m k div k * k \<le> size_mult m k" by (rule div_times_less_eq_dividend)
  moreover have "size_mult m k < size_bound" by (simp add: size_mult_def)
  ultimately show "m * k < size_bound" using k(2) by simp
next
  assume k: "0 < k" "m * k < size_bound"
  have "size_mult m k = m * k" unfolding size_mult_def using k(2) by (rule mod_less)
  then show "size_mult m k div k = m" using k(1) by simp
qed

text \<open>The size of the grown array.\<close>

definition grown :: "nat \<Rightarrow> nat" where
  "grown a = (if a * 2 * sizeof_ptr < size_bound then a * 2 else a + 1)"

lemma grow_eq:
  assumes "length (data s) < num_alloc s" "num_alloc s * sizeof_ptr < size_bound"
  shows "sk_grow alloc s =
    (if Suc (length (data s)) < num_alloc s then Some s
     else if size_bound \<le> grown (num_alloc s) * sizeof_ptr \<or> \<not> alloc (grown (num_alloc s) * sizeof_ptr) then None
     else Some (s\<lparr>num_alloc := grown (num_alloc s)\<rparr>))"
proof -
  let ?a = "num_alloc s" and ?n = "length (data s)"
  have a: "size_mult ?a 2 = ?a * 2" "size_add ?a 1 = ?a + 1" "size_add ?n 1 = ?n + 1"
    using assms unfolding size_mult_def size_add_def by simp_all
  have d: "size_mult m sizeof_ptr div sizeof_ptr \<noteq> m \<longleftrightarrow> size_bound \<le> m * sizeof_ptr" for m
    using size_mult_div [of sizeof_ptr m] by auto
  have m: "m * sizeof_ptr < size_bound \<Longrightarrow> size_mult m sizeof_ptr = m * sizeof_ptr" for m
    unfolding size_mult_def by (rule mod_less)
  show ?thesis
  proof (cases "?n + 1 < ?a")
    case True
    then have "\<not> ?a \<le> ?n + 1" by simp
    with True show ?thesis unfolding sk_grow_def a by simp
  next
    case full: False
    then have le: "?a \<le> ?n + 1" by simp
    show ?thesis
    proof (cases "?a * 2 * sizeof_ptr < size_bound")
      case True
      then have "\<not> (?a * 2 < ?a \<or> size_bound \<le> ?a * 2 * sizeof_ptr)" by simp
      with full le True show ?thesis
        unfolding sk_grow_def a Let_def d grown_def by (simp add: m)
    next
      case False
      then have "?a * 2 < ?a \<or> size_bound \<le> ?a * 2 * sizeof_ptr" by simp
      moreover have "size_mult (?a + 1) sizeof_ptr = (?a + 1) * sizeof_ptr" if "\<not> size_bound \<le> (?a + 1) * sizeof_ptr"
        using m [of "?a + 1"] that by (simp only: not_le)
      ultimately show ?thesis
        using full le False unfolding sk_grow_def a Let_def d grown_def
        by (cases "size_bound \<le> (?a + 1) * sizeof_ptr") (use d [of "?a + 1"] in simp_all)
    qed
  qed
qed

lemma insert_eq:
  "sk_insert alloc (Some s) p w = (case sk_grow alloc s of
     None \<Rightarrow> (0, Some s)
   | Some s' \<Rightarrow> (Suc (length (data s')), Some (s'\<lparr>data := take w (data s') @ p # drop w (data s'), sorted := False\<rparr>)))"
  by (auto simp: sk_insert_def Let_def min_def split: option.splits)

lemma insert_ok:
  assumes "stack_ok call_cmp s" "sk_insert alloc (Some s) p w = (n, r)"
  obtains "n = 0" "r = Some s" "size_bound \<le> grown (num_alloc s) * sizeof_ptr \<or> (\<exists>k. \<not> alloc k)"
  | k where "n = Suc (length (data s))" "n < k" "k * sizeof_ptr < size_bound"
    "r = Some (s\<lparr>data := take w (data s) @ p # drop w (data s), num_alloc := k, sorted := False\<rparr>)"
proof -
  have s: "length (data s) < num_alloc s" "num_alloc s * sizeof_ptr < size_bound"
    using assms(1) by (simp_all add: stack_ok_def)
  have g: "num_alloc s < grown (num_alloc s)" using s(1) by (simp add: grown_def)
  consider "Suc (length (data s)) < num_alloc s"
    | "\<not> Suc (length (data s)) < num_alloc s"
      "size_bound \<le> grown (num_alloc s) * sizeof_ptr \<or> \<not> alloc (grown (num_alloc s) * sizeof_ptr)"
    | "\<not> Suc (length (data s)) < num_alloc s"
      "\<not> (size_bound \<le> grown (num_alloc s) * sizeof_ptr \<or> \<not> alloc (grown (num_alloc s) * sizeof_ptr))"
    by blast
  then show thesis
  proof cases
    case 1
    then show thesis
      using assms(2) s that(2) [of "num_alloc s"] unfolding insert_eq grow_eq [OF s] by (cases s) auto
  next
    case 2
    then show thesis
      using assms(2) that(1) unfolding insert_eq grow_eq [OF s] by auto
  next
    case 3
    then show thesis
      using assms(2) g s that(2) [of "grown (num_alloc s)"] unfolding insert_eq grow_eq [OF s] by (cases s) auto
  qed
qed

lemma delete_sorted: "sorted_wrt P xs \<Longrightarrow> sorted_wrt P (take w xs @ drop (Suc w) xs)"
proof -
  assume "sorted_wrt P xs"
  then have "sorted_wrt P (take w xs @ drop w xs)" by (simp only: append_take_drop_id)
  then have "sorted_wrt P (take w xs)" "sorted_wrt P (drop w xs)" "\<forall>x \<in> set (take w xs). \<forall>y \<in> set (drop w xs). P x y"
    unfolding sorted_wrt_append by blast+
  moreover have "drop (Suc w) xs = drop 1 (drop w xs)" by simp
  ultimately show ?thesis
    using set_drop_subset [of 1 "drop w xs"] by (auto simp: sorted_wrt_append sorted_wrt_drop simp del: drop_drop)
qed

lemma sorted_wrt_short: "\<not> 2 \<le> length xs \<Longrightarrow> sorted_wrt P xs"
  by (cases xs; cases "tl xs") auto

lemma delete_ok: "stack_ok call_cmp s \<Longrightarrow> sk_delete (Some s) w = (p, Some s') \<Longrightarrow> stack_ok call_cmp s'"
  by (auto simp: sk_delete_def stack_ok_def delete_sorted split: if_splits)

section \<open>All states\<close>

text \<open>
  The states a stack goes through, by all operations.  Two of them leave the \<open>sorted\<close> flag as it is and put other elements in:
  \<open>sk_set\<close> is called here on stacks that are not flagged only (on the others see below), and the callback of \<open>sk_deep_copy\<close> gives
  copies that compare as the originals do.\<close>

definition compares_like :: "('p, 'c) call_cmp \<Rightarrow> 'p option \<Rightarrow> 'p option \<Rightarrow> bool" where
  "compares_like call_cmp x y \<longleftrightarrow> (\<forall>c r. (call_cmp c x r \<le> 0 \<longleftrightarrow> call_cmp c y r \<le> 0) \<and> (call_cmp c r x \<le> 0 \<longleftrightarrow> call_cmp c r y \<le> 0))"

definition copies_compare :: "('p, 'c) call_cmp \<Rightarrow> ('p \<Rightarrow> 's \<Rightarrow> 'p option \<times> 's) \<Rightarrow> bool" where
  "copies_compare call_cmp copy \<longleftrightarrow> (\<forall>p st q st'. copy p st = (Some q, st') \<longrightarrow> compares_like call_cmp (Some p) (Some q))"

inductive sk_reach ::
  "('p option comparison \<Rightarrow> 'p option list \<Rightarrow> 'p option list) \<Rightarrow> ('p, 'c) call_cmp \<Rightarrow> allocator \<Rightarrow>
   ('p \<Rightarrow> 's \<Rightarrow> 'p option \<times> 's) \<Rightarrow> ('p, 'c) stack \<Rightarrow> bool"
  for qsort call_cmp alloc copy where
    new: "sk_new alloc c = Some s \<Longrightarrow> sk_reach qsort call_cmp alloc copy s"
  | insert: "sk_reach qsort call_cmp alloc copy s \<Longrightarrow> sk_insert alloc (Some s) p w = (n, Some s') \<Longrightarrow>
      sk_reach qsort call_cmp alloc copy s'"
  | push: "sk_reach qsort call_cmp alloc copy s \<Longrightarrow> sk_push alloc (Some s) p = (n, Some s') \<Longrightarrow> sk_reach qsort call_cmp alloc copy s'"
  | delete: "sk_reach qsort call_cmp alloc copy s \<Longrightarrow> sk_delete (Some s) w = (p, Some s') \<Longrightarrow> sk_reach qsort call_cmp alloc copy s'"
  | delete_ptr: "sk_reach qsort call_cmp alloc copy s \<Longrightarrow> sk_delete_ptr (Some s) q = (p, Some s') \<Longrightarrow>
      sk_reach qsort call_cmp alloc copy s'"
  | pop: "sk_reach qsort call_cmp alloc copy s \<Longrightarrow> sk_pop (Some s) = (p, Some s') \<Longrightarrow> sk_reach qsort call_cmp alloc copy s'"
  | shift: "sk_reach qsort call_cmp alloc copy s \<Longrightarrow> sk_shift (Some s) = (p, Some s') \<Longrightarrow> sk_reach qsort call_cmp alloc copy s'"
  | zero: "sk_reach qsort call_cmp alloc copy s \<Longrightarrow> sk_zero (Some s) = Some s' \<Longrightarrow> sk_reach qsort call_cmp alloc copy s'"
  | sort: "sk_reach qsort call_cmp alloc copy s \<Longrightarrow> sk_sort qsort call_cmp (Some s) = Some s' \<Longrightarrow>
      sk_reach qsort call_cmp alloc copy s'"
  | set_cmp: "sk_reach qsort call_cmp alloc copy s \<Longrightarrow> sk_set_cmp_func s c = (old, s') \<Longrightarrow> sk_reach qsort call_cmp alloc copy s'"
  | dup: "sk_reach qsort call_cmp alloc copy s \<Longrightarrow> sk_dup alloc (Some s) = Some s' \<Longrightarrow> sk_reach qsort call_cmp alloc copy s'"
  | deep_copy: "sk_reach qsort call_cmp alloc copy s \<Longrightarrow>
      sk_deep_copy alloc copy (Some s) st = (Some s', freed, st') \<Longrightarrow> sk_reach qsort call_cmp alloc copy s'"
  | set: "sk_reach qsort call_cmp alloc copy s \<Longrightarrow> \<not> sk_is_sorted (Some s) \<Longrightarrow> sk_set (Some s) i p = (q, Some s') \<Longrightarrow>
      sk_reach qsort call_cmp alloc copy s'"

lemma compares_like_refl [simp]: "compares_like call_cmp x x"
  by (simp add: compares_like_def)

lemma deep_copy_like:
  "deep_copy_loop copy copied xs st = (Inr new_data, st') \<Longrightarrow> copies_compare call_cmp copy \<Longrightarrow>
    \<exists>ys. new_data = copied @ ys \<and> list_all2 (compares_like call_cmp) xs ys"
proof (induction copy copied xs st rule: deep_copy_loop.induct)
  case (2 copy copied xs st)
  then obtain ys where "new_data = (copied @ [None]) @ ys" "list_all2 (compares_like call_cmp) xs ys" by auto
  then show ?case by (intro exI [of _ "None # ys"]) simp
next
  case (3 copy copied p xs st)
  obtain q st1 where q: "copy p st = (Some q, st1)" "deep_copy_loop copy (copied @ [Some q]) xs st1 = (Inr new_data, st')"
    using 3(2) by (auto split: prod.splits option.splits)
  then obtain ys where "new_data = (copied @ [Some q]) @ ys" "list_all2 (compares_like call_cmp) xs ys" using 3(1,3) by auto
  moreover have "compares_like call_cmp (Some p) (Some q)" using 3(3) q(1) unfolding copies_compare_def by blast
  ultimately show ?case by (intro exI [of _ "Some q # ys"]) simp
qed simp

lemma compares_like_le: "compares_like call_cmp x x' \<Longrightarrow> compares_like call_cmp y y' \<Longrightarrow> call_cmp c x y \<le> 0 \<longleftrightarrow> call_cmp c x' y' \<le> 0"
  by (simp add: compares_like_def)

lemma like_sorted:
  assumes "list_all2 (compares_like call_cmp) xs ys" "sorted_wrt (\<lambda>a b. call_cmp c a b \<le> 0) xs"
  shows "sorted_wrt (\<lambda>a b. call_cmp c a b \<le> 0) ys"
  unfolding sorted_wrt_iff_nth_less
proof (intro allI impI)
  fix i j
  assume ij: "i < j" "j < length ys"
  then have len: "i < length xs" "j < length xs" using list_all2_lengthD [OF assms(1)] by simp_all
  have like: "compares_like call_cmp (xs ! k) (ys ! k)" if "k < length xs" for k using list_all2_nthD [OF assms(1) that] .
  have "call_cmp c (xs ! i) (xs ! j) \<le> 0" using sorted_wrt_nth_less [OF assms(2) ij(1) len(2)] .
  then show "call_cmp c (ys ! i) (ys ! j) \<le> 0"
    using compares_like_le [OF like [OF len(1)] like [OF len(2)], of c] by (rule iffD1 [rotated])
qed

lemma dup_ok: "stack_ok call_cmp s \<Longrightarrow> sk_dup alloc (Some s) = Some s' \<Longrightarrow> stack_ok call_cmp s'"
  by (auto simp: sk_dup_def stack_ok_def split: option.splits if_splits)

lemma deep_copy_ok:
  assumes "stack_ok call_cmp s" "copies_compare call_cmp copy" "sk_deep_copy alloc copy (Some s) st = (Some s', freed, st')"
  shows "stack_ok call_cmp s'"
proof -
  obtain ret new_data where ret: "sk_dup alloc (Some s) = Some ret" "deep_copy_loop copy [] (data ret) st = (Inr new_data, st')"
      "s' = ret\<lparr>data := new_data\<rparr>"
    using assms(3) by (auto simp: sk_deep_copy_def split: option.splits sum.splits prod.splits)
  from deep_copy_like [OF ret(2) assms(2)] have like: "list_all2 (compares_like call_cmp) (data ret) new_data" by simp
  then show ?thesis
    using dup_ok [OF assms(1) ret(1)] like_sorted [OF like] list_all2_lengthD [OF like] by (auto simp: stack_ok_def ret(3))
qed

lemma reach_insert_ok:
  assumes "stack_ok call_cmp s" "sk_insert alloc (Some s) p w = (n, Some s')"
  shows "stack_ok call_cmp s'"
  using assms
proof (rule insert_ok)
  assume "Some s' = Some s"
  then show ?thesis using assms(1) by simp
next
  fix k assume "n = Suc (length (data s))" "n < k" "k * sizeof_ptr < size_bound"
    "Some s' = Some (s\<lparr>data := take w (data s) @ p # drop w (data s), num_alloc := k, sorted := False\<rparr>)"
  then show ?thesis by (simp add: stack_ok_def min_def)
qed

lemma reach_ok:
  assumes "\<And>c. sorts qsort (call_cmp c)" "copies_compare call_cmp copy" "sk_reach qsort call_cmp alloc copy s"
  shows "stack_ok call_cmp s"
  using assms(3)
proof induction
  case (new c s)
  then show ?case by (auto simp: sk_new_def stack_ok_def split: if_splits)
next
  case (insert s p w n s')
  then show ?case using reach_insert_ok by blast
next
  case (push s p n s')
  then show ?case unfolding sk_push_def using reach_insert_ok by blast
next
  case (delete s w p s')
  then show ?case using delete_ok by blast
next
  case (delete_ptr s q p s')
  then show ?case by (auto simp: sk_delete_ptr_def dest: delete_ok split: option.splits)
next
  case (pop s p s')
  then show ?case by (auto simp: sk_pop_def dest: delete_ok split: if_splits)
next
  case (shift s p s')
  then show ?case by (auto simp: sk_shift_def dest: delete_ok split: if_splits)
next
  case (zero s s')
  then show ?case by (auto simp: sk_zero_def stack_ok_def split: if_splits)
next
  case (sort s s')
  have q: "length (qsort (call_cmp c) xs) = length xs" "sorted_wrt (\<lambda>a b. call_cmp c a b \<le> 0) (qsort (call_cmp c) xs)" for c xs
    using assms(1) [of c] unfolding sorts_def by (metis size_mset, blast)
  from sort show ?case
    by (auto simp: sk_sort_def stack_ok_def q intro: sorted_wrt_short split: option.splits if_splits)
next
  case (set_cmp s c old s')
  then show ?case by (auto simp: sk_set_cmp_func_def stack_ok_def Let_def split: if_splits)
next
  case (dup s s')
  then show ?case using dup_ok by blast
next
  case (deep_copy s st s' freed st')
  show ?case by (rule deep_copy_ok [OF deep_copy.IH assms(2) deep_copy.hyps(2)])
next
  case (set s i p q s')
  then show ?case by (auto simp: sk_set_def sk_is_sorted_def stack_ok_def split: if_splits)
qed


section \<open>Properties\<close>

text \<open>
  C25: the invariant of stacks.  In every state a stack reaches by the operations of \<open>stack.c\<close> (\<open>sk_set\<close> where the
  stack is not flagged as sorted, \<open>sk_deep_copy\<close> with copies that compare as the originals do) there is room for one more element behind the valid ones, so \<open>sk_insert\<close> never writes out
  of the array; the size of the array does not overflow; and a stack whose \<open>sorted\<close> flag is
  set is in ascending order of its comparison function, given that \<open>qsort\<close> sorts.\<close>

theorem stack_invariant:
  assumes "\<And>c. sorts qsort (call_cmp c)" "copies_compare call_cmp copy" "sk_reach qsort call_cmp alloc copy s"
  shows "length (data s) < num_alloc s \<and> num_alloc s * 8 < size_bound \<and>
    (sk_is_sorted (Some s) \<longrightarrow> (\<forall>c. comp s = Some c \<longrightarrow> sorted_wrt (\<lambda>a b. call_cmp c a b \<le> 0) (data s)))"
  using reach_ok [OF assms] by (simp add: stack_ok_def sk_is_sorted_def)

text \<open>A comparison of pointers to numbers, for concrete stacks.\<close>

fun num_cmp :: "unit \<Rightarrow> nat option \<Rightarrow> nat option \<Rightarrow> int" where
  "num_cmp c None None = 0"
| "num_cmp c None (Some y) = -1"
| "num_cmp c (Some x) None = 1"
| "num_cmp c (Some x) (Some y) = int x - int y"

interpretation numbers: comparator "num_cmp c" for c
proof
  show "sgn (num_cmp c b a) = - sgn (num_cmp c a b)" for a b
    by (cases "(c, a, b)" rule: num_cmp.cases) (auto simp: sgn_if)
  show "num_cmp c a d \<le> 0" if "num_cmp c a b \<le> 0" "num_cmp c b d \<le> 0" for a b d
    using that by (cases a; cases b; cases d) auto
qed

definition same_copy :: "nat \<Rightarrow> unit \<Rightarrow> nat option \<times> unit" where
  "same_copy p st = (Some p, st)"

lemma same_copy_compares: "copies_compare num_cmp same_copy"
  by (simp add: copies_compare_def compares_like_def same_copy_def)

definition three :: "(nat, unit) stack" where
  "three = \<lparr>data = [Some 1, Some 2, Some 3], num_alloc = 4, sorted = True, comp = Some ()\<rparr>"

lemma three_reached: "sk_reach insertion_sort num_cmp (\<lambda>_. True) same_copy three"
proof -
  let ?s = "\<lambda>d n. \<lparr>data = d, num_alloc = n, sorted = False, comp = Some ()\<rparr>"
  note eval = sk_push_def sk_insert_def sk_grow_def sk_num_def Let_def size_add_def size_mult_def
  have "sk_reach insertion_sort num_cmp (\<lambda>_. True) same_copy (?s [] 4)"
    by (rule sk_reach.new [of _ "Some ()"]) (simp add: sk_new_def)
  then have "sk_reach insertion_sort num_cmp (\<lambda>_. True) same_copy (?s [Some 2] 4)"
    by (rule sk_reach.push [where p = "Some 2" and n = 1]) (simp add: eval)
  then have "sk_reach insertion_sort num_cmp (\<lambda>_. True) same_copy (?s [Some 2, Some 3] 4)"
    by (rule sk_reach.push [where p = "Some 3" and n = 2]) (simp add: eval)
  then have "sk_reach insertion_sort num_cmp (\<lambda>_. True) same_copy (?s [Some 1, Some 2, Some 3] 4)"
    by (rule sk_reach.insert [where p = "Some 1" and n = 3 and w = 0]) (simp add: eval)
  then show ?thesis
    by (rule sk_reach.sort) (simp add: sk_sort_def three_def)
qed

lemma stack_invariant_witness: "length (data three) < num_alloc three \<and> num_alloc three * 8 < size_bound"
  using stack_invariant [OF numbers.insertion_sort_sorts same_copy_compares three_reached] by blast

text \<open>
  C26: \<open>sk_find\<close>.  On a stack that satisfies the invariant and has a comparison function, the
  binary search of a sorted stack and the scan of an unsorted one both return the index of
  the earliest element that compares equal, and fail only when there is none.\<close>

theorem sk_find_earliest:
  assumes "stack_ok call_cmp s" "comp s = Some c" "comparator (call_cmp c)"
  shows "case sk_find call_cmp (Some s) (Some p) of
      None \<Rightarrow> \<forall>e \<in> set (data s). call_cmp c (Some p) e \<noteq> 0
    | Some i \<Rightarrow> i < sk_num (Some s) \<and> call_cmp c (Some p) (sk_value (Some s) i) = 0 \<and>
        (\<forall>j < i. call_cmp c (Some p) (sk_value (Some s) j) \<noteq> 0)"
proof -
  let ?f = "call_cmp c (Some p)"
  have "sk_find call_cmp (Some s) (Some p) = first_index (\<lambda>e. ?f e = 0) 0 (data s)"
  proof (cases "sorted s")
    case True
    then have "falls ?f (data s)"
      using assms by (auto simp: stack_ok_def intro: comparator.sorted_falls)
    with True assms(2) show ?thesis by (simp add: sk_find_def sk_is_sorted_def find_loop_first)
  next
    case False
    with assms(2) show ?thesis by (simp add: sk_find_def sk_is_sorted_def)
  qed
  moreover have "first_index (\<lambda>e. ?f e = 0) 0 (data s) = None \<Longrightarrow> \<forall>e \<in> set (data s). ?f e \<noteq> 0"
    by (simp add: first_index_None)
  moreover have "first_index (\<lambda>e. ?f e = 0) 0 (data s) = Some i \<Longrightarrow>
      i < length (data s) \<and> ?f (data s ! i) = 0 \<and> (\<forall>j < i. ?f (data s ! j) \<noteq> 0)" for i
    by (simp add: first_index_Some)
  ultimately show ?thesis
    by (auto simp: sk_value_def sk_num_def split: option.splits)
qed

lemma sk_find_earliest_witness: "\<exists>i. sk_find num_cmp (Some three) (Some 2) = Some i \<and> i < 3"
proof -
  have "stack_ok num_cmp three" by (rule reach_ok [OF numbers.insertion_sort_sorts same_copy_compares three_reached])
  from sk_find_earliest [OF this _ numbers.comparator_axioms, of "()" 2] show ?thesis
    by (auto simp: three_def sk_num_def split: option.splits)
qed

text \<open>The binary search does not look below its lower end.\<close>

lemma find_loop_above:
  "(\<And>i. lo \<le> i \<Longrightarrow> i < hi \<Longrightarrow> 0 < f (xs ! i)) \<Longrightarrow> find_loop f xs lo hi = None"
proof (induction f xs lo hi rule: find_loop.induct)
  case (1 f xs lo hi)
  show ?case
  proof (cases "lo < hi")
    case True
    then have "0 < f (xs ! (lo + (hi - lo - 1) div 2))" by (intro 1(4)) auto
    then show ?thesis using 1 True by (subst find_loop.simps) (simp add: Let_def)
  qed (simp add: find_loop.simps [of f xs lo hi])
qed

text \<open>
  C33: the sorted flag after \<open>sk_set\<close>.  \<open>sk_set\<close> leaves the flag as it is, so a sorted stack still claims to be sorted after an
  element was overwritten.  Whenever the element put at an index in the lower half comes after all that are there, \<open>sk_find\<close>
  misses it; without the flag it finds it.\<close>

theorem sk_set_keeps_flag:
  assumes "sorted s" "comp s = Some c" "comparator (call_cmp c)"
    and "i < (length (data s) - 1) div 2" "\<forall>e \<in> set (data s). 0 < call_cmp c (Some p) e"
  shows "\<exists>s'. sk_set (Some s) i (Some p) = (Some p, Some s') \<and> sk_is_sorted (Some s') \<and> sk_value (Some s') i = Some p \<and>
    sk_find call_cmp (Some s') (Some p) = None \<and> sk_find call_cmp (Some (s'\<lparr>sorted := False\<rparr>)) (Some p) = Some i"
proof -
  let ?xs = "data s" and ?f = "call_cmp c (Some p)"
  let ?ys = "?xs[i := Some p]" and ?mid = "(length (data s) - 1) div 2"
  have i: "i < length ?xs" "?mid < length ?xs" "0 < length ?xs" using assms(4) by auto
  have pos: "0 < ?f (?ys ! k)" if "k < length ?xs" "k \<noteq> i" for k using assms(5) that by simp
  have "find_loop ?f ?ys (?mid + 1) (length ?xs) = None"
    using assms(4) by (intro find_loop_above pos) auto
  moreover have "0 < ?f (?ys ! ?mid)" using assms(4) i by (intro pos) auto
  ultimately have "find_loop ?f ?ys 0 (length ?xs) = None"
    using i by (subst find_loop.simps) (simp add: Let_def)
  moreover have "first_index (\<lambda>e. ?f e = 0) 0 ?ys = Some i"
    using i comparator.refl [OF assms(3), of "Some p"] pos by (auto simp: first_index_Some) (metis less_irrefl less_trans)
  ultimately show ?thesis
    using assms(1,2) i by (simp add: sk_set_def sk_is_sorted_def sk_value_def sk_find_def)
qed

lemma sk_set_keeps_flag_witness:
  "\<exists>s'. sk_set (Some three) 0 (Some 5) = (Some 5, Some s') \<and> sk_is_sorted (Some s') \<and> sk_value (Some s') 0 = Some 5 \<and>
    sk_find num_cmp (Some s') (Some 5) = None \<and> sk_find num_cmp (Some (s'\<lparr>sorted := False\<rparr>)) (Some 5) = Some 0"
  by (rule sk_set_keeps_flag [OF _ _ numbers.comparator_axioms]) (simp_all add: three_def)

text \<open>
  The operations on lists.  On a stack that satisfies the invariant, \<open>sk_insert\<close> inserts
  at the index (at the end when it is out of range) and returns the new length, or changes
  nothing and returns 0, which it does only when memory or the address space runs out; \<open>sk_push\<close>
  then \<open>sk_pop\<close> gives the element back and restores the list, and \<open>sk_delete\<close> removes what
  \<open>sk_value\<close> shows.\<close>

theorem stack_list_operations:
  assumes "stack_ok call_cmp s" "sk_insert alloc (Some s) p w = (n, Some s')"
  shows "(if n = 0 then s' = s \<and> (size_bound \<le> (num_alloc s + 1) * 8 \<or> (\<exists>k. \<not> alloc k))
      else data s' = take w (data s) @ p # drop w (data s) \<and> n = sk_num (Some s') \<and> \<not> sk_is_sorted (Some s')) \<and>
    (n \<noteq> 0 \<longrightarrow> w \<ge> length (data s) \<longrightarrow> fst (sk_pop (Some s')) = p \<and> map_option data (snd (sk_pop (Some s'))) = Some (data s)) \<and>
    (n \<noteq> 0 \<longrightarrow> w \<le> length (data s) \<longrightarrow> sk_value (Some s') w = p \<and>
       fst (sk_delete (Some s') w) = p \<and> map_option data (snd (sk_delete (Some s') w)) = Some (data s))"
  using assms
proof (rule insert_ok)
  assume "n = 0" "Some s' = Some s" "size_bound \<le> grown (num_alloc s) * sizeof_ptr \<or> (\<exists>k. \<not> alloc k)"
  moreover from this have "size_bound \<le> (num_alloc s + 1) * sizeof_ptr \<or> (\<exists>k. \<not> alloc k)"
    unfolding grown_def by presburger
  ultimately show ?thesis by auto
next
  fix k assume "n = Suc (length (data s))"
    "Some s' = Some (s\<lparr>data := take w (data s) @ p # drop w (data s), num_alloc := k, sorted := False\<rparr>)"
  then show ?thesis
    by (auto simp: sk_num_def sk_is_sorted_def sk_pop_def sk_delete_def sk_value_def min_def nth_append)
qed

lemma stack_list_operations_witness:
  "\<exists>n s'. sk_insert (\<lambda>_. True) (Some three) (Some 7) 1 = (n, Some s') \<and> n = 4 \<and>
     data s' = [Some 1, Some 7, Some 2, Some 3]"
proof -
  have ok: "stack_ok num_cmp three" by (rule reach_ok [OF numbers.insertion_sort_sorts same_copy_compares three_reached])
  have e: "sk_insert (\<lambda>_. True) (Some three) (Some 7) 1 =
      (4, Some (three\<lparr>data := [Some 1, Some 7, Some 2, Some 3], sorted := False, num_alloc := 8\<rparr>))"
    by (simp add: three_def sk_insert_def sk_grow_def Let_def size_add_def size_mult_def)
  from stack_list_operations [OF ok e] e show ?thesis by (simp add: three_def)
qed

end
