(* ===== verification/Bio.thy ===== *)
theory Bio
  imports BSSL_Prelude "HOL-Library.Monad_Syntax"
begin

text \<open>
  BIOs, the byte streams of the library (\<open>crypto/bio/bio.c\<close>), independent of what is behind them.

  A \<open>BIO\<close> is a record (without its method, reference count and chain) with a private pointer \<open>ptr\<close> (\<open>None\<close> for NULL) to data of a type \<open>'p\<close>.  Its
  methods work on a state: the BIO together with whatever else they reach, of a type \<open>'w\<close> (the other
  end of a pair, for example).  A call returns \<open>None\<close> when an assertion of the code fails, a loop
  does not end, or memory outside a buffer would be accessed (a method that claims to have read or written more
  than it was asked to, for example).  A BIO is not NULL here; for NULL the code does what it does for a BIO without methods,
  except \<open>BIO_ctrl\<close>, which returns 0.  A call that reads is given the number of bytes asked for, and returns
  the bytes it has stored beside its result; the buffer it stores them in is not NULL.
\<close>

section \<open>State\<close>

record 'p bio =
  bio_init :: bool
  shutdown :: int
  flags :: u32
  retry_reason :: int
  num :: int
  ptr :: "'p option"
  num_read :: nat
  num_write :: nat

type_synonym ('p, 'w, 'a) io = "'p bio \<times> 'w \<Rightarrow> ('a \<times> 'p bio \<times> 'w) option"

text \<open>The functions of a method that the code here calls, \<open>None\<close> for a NULL pointer.\<close>

record ('p, 'w, 'q) bio_method =
  type :: u32
  bwrite :: "(u8 list \<Rightarrow> ('p, 'w, int) io) option"
  bread :: "(nat \<Rightarrow> ('p, 'w, int \<times> u8 list) io) option"
  bgets :: "(nat \<Rightarrow> ('p, 'w, int \<times> u8 list) io) option"
  ctrl :: "(nat \<Rightarrow> int \<Rightarrow> 'q \<Rightarrow> ('p, 'w, int) io) option"
  create :: "('p bio \<Rightarrow> 'p bio option) option"

text \<open>\<open>method\<close> of a BIO, \<open>None\<close> for a NULL pointer.\<close>

type_synonym ('p, 'w, 'q) bio_method_ptr = "('p, 'w, 'q) bio_method option"

definition method_fun :: "(('p, 'w, 'q) bio_method \<Rightarrow> 'f option) \<Rightarrow> ('p, 'w, 'q) bio_method_ptr \<Rightarrow> 'f option" where
  "method_fun f m = Option.bind m f"

abbreviation sizeof_bio :: nat where "sizeof_bio \<equiv> 80"

definition BIO_new :: "allocator \<Rightarrow> ('p, 'w, 'q) bio_method_ptr \<Rightarrow> 'p bio option" where
  "BIO_new alloc m =
     (if \<not> alloc sizeof_bio then None
      else let bio = \<lparr>bio_init = False, shutdown = 1, flags = 0, retry_reason = 0, num = 0, ptr = None,
                      num_read = 0, num_write = 0\<rparr>
           in case method_fun create m of None \<Rightarrow> Some bio | Some f \<Rightarrow> f bio)"

section \<open>Flags\<close>

abbreviation BIO_FLAGS_READ :: u32 where "BIO_FLAGS_READ \<equiv> 0x01"
abbreviation BIO_FLAGS_WRITE :: u32 where "BIO_FLAGS_WRITE \<equiv> 0x02"
abbreviation BIO_FLAGS_IO_SPECIAL :: u32 where "BIO_FLAGS_IO_SPECIAL \<equiv> 0x04"
abbreviation BIO_FLAGS_SHOULD_RETRY :: u32 where "BIO_FLAGS_SHOULD_RETRY \<equiv> 0x08"
abbreviation BIO_FLAGS_MEM_RDONLY :: u32 where "BIO_FLAGS_MEM_RDONLY \<equiv> 0x200"

definition BIO_set_flags :: "'p bio \<Rightarrow> u32 \<Rightarrow> 'p bio" where
  "BIO_set_flags bio f = bio\<lparr>flags := flags bio OR f\<rparr>"

definition BIO_test_flags :: "'p bio \<Rightarrow> u32 \<Rightarrow> u32" where
  "BIO_test_flags bio f = flags bio AND f"

definition BIO_should_read :: "'p bio \<Rightarrow> u32" where
  "BIO_should_read bio = BIO_test_flags bio BIO_FLAGS_READ"

definition BIO_should_write :: "'p bio \<Rightarrow> u32" where
  "BIO_should_write bio = BIO_test_flags bio BIO_FLAGS_WRITE"

definition BIO_should_retry :: "'p bio \<Rightarrow> u32" where
  "BIO_should_retry bio = BIO_test_flags bio BIO_FLAGS_SHOULD_RETRY"

definition BIO_should_io_special :: "'p bio \<Rightarrow> u32" where
  "BIO_should_io_special bio = BIO_test_flags bio BIO_FLAGS_IO_SPECIAL"

definition BIO_get_retry_reason :: "'p bio \<Rightarrow> int" where
  "BIO_get_retry_reason bio = retry_reason bio"

definition BIO_clear_flags :: "'p bio \<Rightarrow> u32 \<Rightarrow> 'p bio" where
  "BIO_clear_flags bio f = bio\<lparr>flags := flags bio AND NOT f\<rparr>"

definition BIO_set_retry_read :: "'p bio \<Rightarrow> 'p bio" where
  "BIO_set_retry_read bio = bio\<lparr>flags := flags bio OR (BIO_FLAGS_READ OR BIO_FLAGS_SHOULD_RETRY)\<rparr>"

definition BIO_set_retry_write :: "'p bio \<Rightarrow> 'p bio" where
  "BIO_set_retry_write bio = bio\<lparr>flags := flags bio OR (BIO_FLAGS_WRITE OR BIO_FLAGS_SHOULD_RETRY)\<rparr>"

definition BIO_set_retry_special :: "'p bio \<Rightarrow> 'p bio" where
  "BIO_set_retry_special bio = bio\<lparr>flags := flags bio OR (BIO_FLAGS_READ OR BIO_FLAGS_IO_SPECIAL)\<rparr>"

definition kRetryFlags :: u32 where
  "kRetryFlags = (BIO_FLAGS_READ OR BIO_FLAGS_WRITE OR BIO_FLAGS_IO_SPECIAL) OR BIO_FLAGS_SHOULD_RETRY"

definition BIO_get_retry_flags :: "'p bio \<Rightarrow> u32" where
  "BIO_get_retry_flags bio = flags bio AND kRetryFlags"

definition BIO_clear_retry_flags :: "'p bio \<Rightarrow> 'p bio" where
  "BIO_clear_retry_flags bio = bio\<lparr>flags := flags bio AND NOT kRetryFlags, retry_reason := 0\<rparr>"

definition BIO_copy_next_retry :: "'p bio \<Rightarrow> 'p bio \<Rightarrow> 'p bio" where
  "BIO_copy_next_retry bio next_bio =
     (let bio = BIO_clear_retry_flags bio;
          bio = BIO_set_flags bio (BIO_get_retry_flags next_bio)
      in bio\<lparr>retry_reason := retry_reason next_bio\<rparr>)"

lemma retry_fields [simp]:
  "ptr (BIO_clear_retry_flags bio) = ptr bio" "ptr (BIO_set_retry_read bio) = ptr bio" "ptr (BIO_set_retry_write bio) = ptr bio"
  "bio_init (BIO_clear_retry_flags bio) = bio_init bio" "bio_init (BIO_set_retry_read bio) = bio_init bio"
  "bio_init (BIO_set_retry_write bio) = bio_init bio"
  "num (BIO_clear_retry_flags bio) = num bio" "num (BIO_set_retry_read bio) = num bio" "num (BIO_set_retry_write bio) = num bio"
  by (simp_all add: BIO_clear_retry_flags_def BIO_set_retry_read_def BIO_set_retry_write_def)

section \<open>Reading and writing\<close>

definition BIO_read :: "('p, 'w, 'q) bio_method_ptr \<Rightarrow> int \<Rightarrow> ('p, 'w, int \<times> u8 list) io" where
  "BIO_read m len s = (case method_fun bread m of
     None \<Rightarrow> Some ((-2, []), s)
   | Some f \<Rightarrow>
       if \<not> bio_init (fst s) then Some ((-2, []), s)
       else if len \<le> 0 then Some ((0, []), s)
       else do {
         ((ret, out), bio, w) \<leftarrow> f (nat len) s;
         Some ((ret, out), if ret > 0 then bio\<lparr>num_read := size_add (num_read bio) (nat ret)\<rparr> else bio, w)
       })"

definition BIO_gets :: "('p, 'w, 'q) bio_method_ptr \<Rightarrow> int \<Rightarrow> ('p, 'w, int \<times> u8 list) io" where
  "BIO_gets m len s = (case method_fun bgets m of
     None \<Rightarrow> Some ((-2, []), s)
   | Some f \<Rightarrow>
       if \<not> bio_init (fst s) then Some ((-2, []), s)
       else if len \<le> 0 then Some ((0, []), s)
       else do {
         ((ret, out), bio, w) \<leftarrow> f (nat len) s;
         Some ((ret, out), if ret > 0 then bio\<lparr>num_read := size_add (num_read bio) (nat ret)\<rparr> else bio, w)
       })"

text \<open>\<open>BIO_write\<close> is given the \<open>inl\<close> bytes that \<open>in\<close> points to.\<close>

definition BIO_write :: "('p, 'w, 'q) bio_method_ptr \<Rightarrow> u8 list \<Rightarrow> ('p, 'w, int) io" where
  "BIO_write m xs s = (case method_fun bwrite m of
     None \<Rightarrow> Some (-2, s)
   | Some f \<Rightarrow>
       if \<not> bio_init (fst s) then Some (-2, s)
       else if length xs = 0 then Some (0, s)
       else do {
         (ret, bio, w) \<leftarrow> f xs s;
         Some (ret, if ret > 0 then bio\<lparr>num_write := size_add (num_write bio) (nat ret)\<rparr> else bio, w)
       })"

function BIO_write_all :: "('p, 'w, 'q) bio_method_ptr \<Rightarrow> u8 list \<Rightarrow> ('p, 'w, bool) io" where
  "BIO_write_all m xs s =
     (if length xs = 0 then Some (True, s)
      else do {
        (ret, s) \<leftarrow> BIO_write m (take INT_MAX xs) s;
        if ret \<le> 0 then Some (False, s)
        else if nat ret > length xs then None
        else BIO_write_all m (drop (nat ret) xs) s
      })"
  by pat_completeness auto
termination by (relation "measure (\<lambda>(m, xs, s). length xs)") auto

declare BIO_write_all.simps [simp del]

text \<open>\<open>BIO_puts\<close> is given the characters of the string, without the zero byte.\<close>

definition BIO_puts :: "('p, 'w, 'q) bio_method_ptr \<Rightarrow> u8 list \<Rightarrow> ('p, 'w, int) io" where
  "BIO_puts m str = BIO_write m str"

fun indent_loop :: "('p, 'w, 'q) bio_method_ptr \<Rightarrow> nat \<Rightarrow> ('p, 'w, bool) io" where
  "indent_loop m 0 s = Some (True, s)"
| "indent_loop m (Suc n) s = do {
     (r, s) \<leftarrow> BIO_puts m [0x20] s;
     if r \<noteq> 1 then Some (False, s) else indent_loop m n s
   }"

definition BIO_indent :: "('p, 'w, 'q) bio_method_ptr \<Rightarrow> nat \<Rightarrow> nat \<Rightarrow> ('p, 'w, bool) io" where
  "BIO_indent m indent max_indent = indent_loop m (if indent > max_indent then max_indent else indent)"

section \<open>Control\<close>

abbreviation BIO_CTRL_RESET :: nat where "BIO_CTRL_RESET \<equiv> 1"
abbreviation BIO_CTRL_EOF :: nat where "BIO_CTRL_EOF \<equiv> 2"
abbreviation BIO_CTRL_INFO :: nat where "BIO_CTRL_INFO \<equiv> 3"
abbreviation BIO_CTRL_GET_CLOSE :: nat where "BIO_CTRL_GET_CLOSE \<equiv> 8"
abbreviation BIO_CTRL_SET_CLOSE :: nat where "BIO_CTRL_SET_CLOSE \<equiv> 9"
abbreviation BIO_CTRL_PENDING :: nat where "BIO_CTRL_PENDING \<equiv> 10"
abbreviation BIO_CTRL_FLUSH :: nat where "BIO_CTRL_FLUSH \<equiv> 11"
abbreviation BIO_CTRL_WPENDING :: nat where "BIO_CTRL_WPENDING \<equiv> 13"
abbreviation BIO_C_SET_BUF_MEM :: nat where "BIO_C_SET_BUF_MEM \<equiv> 114"
abbreviation BIO_C_GET_BUF_MEM_PTR :: nat where "BIO_C_GET_BUF_MEM_PTR \<equiv> 115"
abbreviation BIO_C_SET_BUF_MEM_EOF_RETURN :: nat where "BIO_C_SET_BUF_MEM_EOF_RETURN \<equiv> 130"
abbreviation BIO_C_GET_WRITE_BUF_SIZE :: nat where "BIO_C_GET_WRITE_BUF_SIZE \<equiv> 137"
abbreviation BIO_C_GET_WRITE_GUARANTEE :: nat where "BIO_C_GET_WRITE_GUARANTEE \<equiv> 140"
abbreviation BIO_C_GET_READ_REQUEST :: nat where "BIO_C_GET_READ_REQUEST \<equiv> 141"
abbreviation BIO_C_SHUTDOWN_WR :: nat where "BIO_C_SHUTDOWN_WR \<equiv> 142"
abbreviation BIO_C_RESET_READ_REQUEST :: nat where "BIO_C_RESET_READ_REQUEST \<equiv> 147"

definition BIO_ctrl :: "('p, 'w, 'q option) bio_method_ptr \<Rightarrow> nat \<Rightarrow> int \<Rightarrow> 'q option \<Rightarrow> ('p, 'w, int) io" where
  "BIO_ctrl m cmd larg parg s = (case method_fun ctrl m of
     None \<Rightarrow> Some (-2, s)
   | Some f \<Rightarrow> f cmd larg parg s)"

definition BIO_flush :: "('p, 'w, 'q option) bio_method_ptr \<Rightarrow> ('p, 'w, int) io" where
  "BIO_flush m = BIO_ctrl m BIO_CTRL_FLUSH 0 None"

definition BIO_reset :: "('p, 'w, 'q option) bio_method_ptr \<Rightarrow> ('p, 'w, int) io" where
  "BIO_reset m = BIO_ctrl m BIO_CTRL_RESET 0 None"

definition BIO_eof :: "('p, 'w, 'q option) bio_method_ptr \<Rightarrow> ('p, 'w, int) io" where
  "BIO_eof m = BIO_ctrl m BIO_CTRL_EOF 0 None"

definition BIO_pending :: "('p, 'w, 'q option) bio_method_ptr \<Rightarrow> ('p, 'w, nat) io" where
  "BIO_pending m s = do {
     (r, s) \<leftarrow> BIO_ctrl m BIO_CTRL_PENDING 0 None s;
     if \<not> r \<ge> 0 then None else Some (nat r, s)
   }"

definition BIO_ctrl_pending :: "('p, 'w, 'q option) bio_method_ptr \<Rightarrow> ('p, 'w, nat) io" where
  "BIO_ctrl_pending m = BIO_pending m"

definition BIO_wpending :: "('p, 'w, 'q option) bio_method_ptr \<Rightarrow> ('p, 'w, nat) io" where
  "BIO_wpending m s = do {
     (r, s) \<leftarrow> BIO_ctrl m BIO_CTRL_WPENDING 0 None s;
     if \<not> r \<ge> 0 then None else Some (nat r, s)
   }"

definition BIO_set_close :: "('p, 'w, 'q option) bio_method_ptr \<Rightarrow> int \<Rightarrow> ('p, 'w, int) io" where
  "BIO_set_close m close_flag = BIO_ctrl m BIO_CTRL_SET_CLOSE close_flag None"

definition BIO_number_read :: "'p bio \<Rightarrow> nat" where
  "BIO_number_read bio = num_read bio"

definition BIO_number_written :: "'p bio \<Rightarrow> nat" where
  "BIO_number_written bio = num_write bio"

section \<open>Chains\<close>

text \<open>A chain of BIOs is the list of its members, empty for NULL; \<open>BIO_find_type\<close> is given the types of the
  methods of its members and returns the rest of the chain that starts at the one found.\<close>

fun push_loop :: "'b list \<Rightarrow> 'b list \<Rightarrow> 'b list" where
  "push_loop [last_bio] appended_bio = last_bio # appended_bio"
| "push_loop (bio # chain) appended_bio = bio # push_loop chain appended_bio"
| "push_loop [] appended_bio = []"

definition BIO_push :: "'b list \<Rightarrow> 'b list \<Rightarrow> 'b list" where
  "BIO_push chain appended_bio = (if chain = [] then [] else push_loop chain appended_bio)"

definition BIO_pop :: "'b list \<Rightarrow> 'b list \<times> 'b list" where
  "BIO_pop chain = (case chain of [] \<Rightarrow> ([], []) | bio # next_bio \<Rightarrow> (next_bio, [bio]))"

definition BIO_next :: "'b list \<Rightarrow> 'b list" where
  "BIO_next chain = (case chain of [] \<Rightarrow> [] | bio # next_bio \<Rightarrow> next_bio)"

fun find_type_loop :: "u32 \<Rightarrow> u32 \<Rightarrow> u32 option list \<Rightarrow> u32 option list" where
  "find_type_loop msk ty [] = []"
| "find_type_loop msk ty (method_type # chain) =
     (case method_type of
        None \<Rightarrow> find_type_loop msk ty chain
      | Some mt \<Rightarrow>
          if (if msk = 0 then mt AND ty \<noteq> 0 else mt = ty) then method_type # chain
          else find_type_loop msk ty chain)"

definition BIO_find_type :: "u32 option list \<Rightarrow> u32 \<Rightarrow> u32 option list" where
  "BIO_find_type chain ty = (if chain = [] then [] else find_type_loop (ty AND 0xff) ty chain)"

section \<open>Reading whole objects\<close>

text \<open>\<open>bio_read_all\<close>: \<open>len\<close> is the size of the allocation \<open>out\<close>, of which the first \<open>done\<close>
  bytes are filled.  The loop adds what \<open>BIO_read\<close> returns to \<open>done\<close> whenever it is neither 0 nor -1; where
  that leads out of the allocation the result is \<open>None\<close>.\<close>

abbreviation kChunkSize :: nat where "kChunkSize \<equiv> 4096"

definition next_len :: "nat \<Rightarrow> nat \<Rightarrow> nat" where
  "next_len max_len len =
     (let len = size_add len kChunkSize in if len < kChunkSize \<or> len > max_len then max_len else len)"

partial_function (option) read_all_loop ::
  "allocator \<Rightarrow> ('p, 'w, 'q) bio_method_ptr \<Rightarrow> nat \<Rightarrow> nat \<Rightarrow> nat \<Rightarrow> u8 list \<Rightarrow> ('p, 'w, u8 list option) io" where
  "read_all_loop alloc m max_len len filled out s =
     (if filled > len then None
      else if filled = len then Some (None, s)
      else if \<not> size_sub len filled < INT_MAX then None
      else do {
        ((n, ys), s) \<leftarrow> BIO_read m (int (size_sub len filled)) s;
        if n = 0 then Some (Some (take filled out), s)
        else if n = -1 then Some (None, s)
        else let out = take filled out @ ys; filled = size_add filled (nat (n mod int size_bound)) in
          if len < max_len \<and> size_sub len filled < kChunkSize div 2 then
            let len = next_len max_len len in
            if \<not> alloc len then Some (None, s) else read_all_loop alloc m max_len len filled out s
          else read_all_loop alloc m max_len len filled out s
      })"

definition bio_read_all :: "allocator \<Rightarrow> ('p, 'w, 'q) bio_method_ptr \<Rightarrow> u8 list \<Rightarrow> nat \<Rightarrow> ('p, 'w, u8 list option) io" where
  "bio_read_all alloc m prefix max_len s =
     (let len = size_add (length prefix) kChunkSize;
          len = if len > max_len then max_len else len in
      if len < length prefix then Some (None, s)
      else if \<not> alloc len then Some (None, s)
      else read_all_loop alloc m max_len len (length prefix) prefix s)"

text \<open>\<open>bio_read_full\<close>: the result is the bytes read, or whether the read that failed was the first and
  at the end of the input.\<close>

function read_full_loop :: "bool \<Rightarrow> ('p, 'w, 'q) bio_method_ptr \<Rightarrow> nat \<Rightarrow> ('p, 'w, bool + u8 list) io" where
  "read_full_loop first_read m len s =
     (if len = 0 then Some (Inr [], s)
      else do {
        ((ret, out), s) \<leftarrow> BIO_read m (int (if len \<le> INT_MAX then len else INT_MAX)) s;
        if ret \<le> 0 then Some (Inl (first_read \<and> ret = 0), s)
        else if nat ret > len then None
        else do {
          (r, s) \<leftarrow> read_full_loop False m (len - nat ret) s;
          Some (map_sum id ((@) out) r, s)
        }
      })"
  by pat_completeness auto
termination by (relation "measure (\<lambda>(f, m, len, s). len)") auto

declare read_full_loop.simps [simp del]

definition bio_read_full :: "('p, 'w, 'q) bio_method_ptr \<Rightarrow> nat \<Rightarrow> ('p, 'w, bool + u8 list) io" where
  "bio_read_full m len = read_full_loop True m len"

text \<open>\<open>BIO_read_asn1\<close>, from where the length is known (\<open>header\<close> holds the bytes read so far).\<close>

definition read_contents :: "allocator \<Rightarrow> ('p, 'w, 'q) bio_method_ptr \<Rightarrow> nat \<Rightarrow> u8 list \<Rightarrow> nat \<Rightarrow> ('p, 'w, u8 list option) io" where
  "read_contents alloc m max_len header len s =
     (if size_add len (length header) < len \<or> size_add len (length header) > max_len \<or> len > INT_MAX
      then Some (None, s)
      else if \<not> alloc (size_add len (length header)) then Some (None, s)
      else do {
        (r, s) \<leftarrow> bio_read_full m (size_sub (size_add len (length header)) (length header)) s;
        case r of Inl e \<Rightarrow> Some (None, s) | Inr bytes \<Rightarrow> Some (Some (header @ bytes), s)
      })"

definition be_u32 :: "u8 list \<Rightarrow> u32" where
  "be_u32 bs = foldl (\<lambda>len32 b. push_bit 8 len32 OR ucast b) 0 bs"

definition BIO_read_asn1 :: "allocator \<Rightarrow> ('p, 'w, 'q) bio_method_ptr \<Rightarrow> nat \<Rightarrow> ('p, 'w, u8 list option) io" where
  "BIO_read_asn1 alloc m max_len s = do {
     (r, s) \<leftarrow> bio_read_full m 2 s;
     case r of
       Inl eof_on_first_read \<Rightarrow> Some (None, s)
     | Inr header \<Rightarrow>
         let tag = header ! 0; length_byte = header ! 1 in
         if tag AND 0x1f = 0x1f then Some (None, s)
         else if length_byte AND 0x80 = 0 then read_contents alloc m max_len header (unat length_byte) s
         else let num_bytes = unat (length_byte AND 0x7f) in
           if tag AND 0x20 \<noteq> 0 \<and> num_bytes = 0 then bio_read_all alloc m header max_len s
           else if num_bytes = 0 \<or> num_bytes > 4 then Some (None, s)
           else do {
             (r, s) \<leftarrow> bio_read_full m num_bytes s;
             case r of
               Inl e \<Rightarrow> Some (None, s)
             | Inr bytes \<Rightarrow>
                 let len32 = be_u32 bytes in
                 if len32 < 128 then Some (None, s)
                 else if drop_bit ((num_bytes - 1) * 8) len32 = 0 then Some (None, s)
                 else read_contents alloc m max_len (header @ bytes) (unat len32) s
           }
   }"

end
