(* ===== verification/Bio_Stream.thy ===== *)
theory Bio_Stream
  imports Bio Der
begin

text \<open>
  The interfaces between a BIO and its clients.  A source hands out the bytes it has pending, in
  order, and says what it returns when there are none; a stream is a source with a writer whose
  bytes become pending.  The clients of \<open>bio.c\<close> that read whole objects are proved here against the source,
  any interleaving of reads and writes against the stream.
\<close>

section \<open>Sources\<close>

locale byte_source =
  fixes inv :: "'s \<Rightarrow> bool" and pending :: "'s \<Rightarrow> u8 list" and at_end :: "'s \<Rightarrow> int"
    and rd :: "int \<Rightarrow> 's \<Rightarrow> ((int \<times> u8 list) \<times> 's) option"
  assumes rd: "inv s \<Longrightarrow> k \<le> INT_MAX \<Longrightarrow>
      \<exists>s'. rd (int k) s = Some ((if k = 0 then 0 else if pending s = [] then at_end s
             else int (min k (length (pending s))), take k (pending s)), s') \<and>
           inv s' \<and> pending s' = drop k (pending s) \<and> at_end s' = at_end s"
    and at_end: "inv s \<Longrightarrow> at_end s \<le> 0"
begin

lemma rd_some:
  assumes "inv s" "0 < k" "k \<le> INT_MAX" "pending s \<noteq> []"
  obtains s' where "rd (int k) s = Some ((int (min k (length (pending s))), take k (pending s)), s')"
    "inv s'" "pending s' = drop k (pending s)" "at_end s' = at_end s"
  using rd [OF assms(1,3)] assms by auto

lemma rd_none:
  assumes "inv s" "0 < k" "k \<le> INT_MAX" "pending s = []"
  obtains s' where "rd (int k) s = Some ((at_end s, []), s')" "inv s'" "pending s' = []" "at_end s' = at_end s"
  using rd [OF assms(1,3)] assms by auto

end

text \<open>Reading through the functions of \<open>bio.c\<close>.\<close>

lemma read_full_loop_step:
  assumes "BIO_read m (int k) s = Some ((ret, out), s1)" "n \<noteq> 0" "k = (if n \<le> INT_MAX then n else INT_MAX)"
  shows "read_full_loop f m n s =
    (if ret \<le> 0 then Some (Inl (f \<and> ret = 0), s1)
     else if nat ret > n then None
     else do { (r, s) \<leftarrow> read_full_loop False m (n - nat ret) s1; Some (map_sum id ((@) out) r, s) })"
  using assms(1,2) unfolding assms(3) by (subst read_full_loop.simps) simp

lemma next_len:
  assumes "len < max_len" "max_len < size_bound"
  shows "len < next_len max_len len \<and> next_len max_len len \<le> max_len \<and> next_len max_len len \<le> len + kChunkSize"
proof (cases "len + kChunkSize < size_bound")
  case True
  then show ?thesis using assms by (simp add: next_len_def Let_def)
next
  case False
  then have "size_add len kChunkSize = len + kChunkSize - size_bound"
    using assms by (simp add: size_add_def le_mod_geq)
  then have "size_add len kChunkSize < kChunkSize" using assms False by linarith
  then show ?thesis using assms False by (simp add: next_len_def Let_def)
qed

text \<open>One round of \<open>bio_read_all\<close> that reads something.\<close>

lemma read_all_loop_step:
  assumes "filled < len" "len < size_bound" "len - filled < INT_MAX" "filled = length out"
    and "BIO_read m (int (len - filled)) s = Some ((int (length ys), ys), s1)" "ys \<noteq> []" "length ys \<le> len - filled"
  shows "read_all_loop alloc m max_len len filled out s =
    (if len < max_len \<and> len - (filled + length ys) < kChunkSize div 2 then
       if \<not> alloc (next_len max_len len) then Some (None, s1)
       else read_all_loop alloc m max_len (next_len max_len len) (filled + length ys) (out @ ys) s1
     else read_all_loop alloc m max_len len (filled + length ys) (out @ ys) s1)"
proof -
  have "int (length ys) mod int size_bound = int (length ys)"
    using assms by simp
  moreover have "int (length ys) \<noteq> 0" using assms by simp
  ultimately show ?thesis
    using assms by (subst read_all_loop.simps) (simp add: Let_def)
qed

locale bio_source = byte_source inv pending at_end "BIO_read m"
  for inv :: "'p bio \<times> 'w \<Rightarrow> bool" and pending at_end and m :: "('p, 'w, 'q) bio_method_ptr"
begin

lemma read_full_loop_ok:
  "inv s \<Longrightarrow> n \<le> length (pending s) \<Longrightarrow>
     \<exists>s'. read_full_loop f m n s = Some (Inr (take n (pending s)), s') \<and>
          inv s' \<and> pending s' = drop n (pending s) \<and> at_end s' = at_end s"
proof (induction n arbitrary: f s rule: less_induct)
  case (less n)
  show ?case
  proof (cases "n = 0")
    case True
    with less.prems show ?thesis by (simp add: read_full_loop.simps)
  next
    case False
    define k where "k = (if n \<le> INT_MAX then n else INT_MAX)"
    have k: "0 < k" "k \<le> INT_MAX" "k \<le> n" using False by (auto simp: k_def)
    have ne: "pending s \<noteq> []" using False less.prems by auto
    obtain s1 where s1: "BIO_read m (int k) s = Some ((int (min k (length (pending s))), take k (pending s)), s1)"
        "inv s1" "pending s1 = drop k (pending s)" "at_end s1 = at_end s"
      using rd_some [OF less.prems(1) k(1,2) ne] by blast
    have min: "min k (length (pending s)) = k" using k less.prems by simp
    have "n - k < n" "n - k \<le> length (pending s1)" using k s1 less.prems by auto
    then obtain s2 where s2: "read_full_loop False m (n - k) s1 = Some (Inr (take (n - k) (pending s1)), s2)"
        "inv s2" "pending s2 = drop (n - k) (pending s1)" "at_end s2 = at_end s1"
      using less.IH [OF _ s1(2)] by blast
    have "take k (pending s) @ take (n - k) (drop k (pending s)) = take n (pending s)"
      using k by (metis le_add_diff_inverse take_add)
    moreover have "read_full_loop f m n s = Some (Inr (take k (pending s) @ take (n - k) (pending s1)), s2)"
      using read_full_loop_step [OF s1(1) False k_def] k min s2(1) by simp
    ultimately show ?thesis using s1 s2 k by simp
  qed
qed

lemma read_full_loop_short:
  "inv s \<Longrightarrow> length (pending s) < n \<Longrightarrow>
     \<exists>e s'. read_full_loop f m n s = Some (Inl e, s') \<and> inv s' \<and> (e \<longrightarrow> f \<and> pending s = [] \<and> at_end s = 0)"
proof (induction n arbitrary: f s rule: less_induct)
  case (less n)
  define k where "k = (if n \<le> INT_MAX then n else INT_MAX)"
  have k: "0 < k" "k \<le> INT_MAX" "k \<le> n" using less.prems by (auto simp: k_def)
  show ?case
  proof (cases "pending s = []")
    case True
    obtain s1 where s1: "BIO_read m (int k) s = Some ((at_end s, []), s1)" "inv s1"
      using rd_none [OF less.prems(1) k(1,2) True] by blast
    have "n \<noteq> 0" using less.prems(2) by simp
    from read_full_loop_step [OF s1(1) this k_def] show ?thesis
      using at_end [OF less.prems(1)] True s1(2) by auto
  next
    case False
    obtain s1 where s1: "BIO_read m (int k) s = Some ((int (min k (length (pending s))), take k (pending s)), s1)"
        "inv s1" "pending s1 = drop k (pending s)"
      using rd_some [OF less.prems(1) k(1,2) False] by blast
    let ?j = "min k (length (pending s))"
    have j: "0 < ?j" "?j \<le> n" using False k by auto
    have "length (pending s1) < n - ?j" using s1 less.prems by (auto simp: min_def)
    then obtain e s2 where s2: "read_full_loop False m (n - ?j) s1 = Some (Inl e, s2)" "inv s2" "\<not> e"
      using less.IH [of "n - ?j" s1 False] s1 j by auto
    have "n \<noteq> 0" using less.prems(2) by simp
    from read_full_loop_step [OF s1(1) this k_def]
    have "read_full_loop f m n s = Some (Inl e, s2)"
      using j s2(1) less.prems(2) by simp
    with s2 show ?thesis by blast
  qed
qed

text \<open>What \<open>bio_read_all\<close> makes of the bytes that remain, when \<open>out\<close> has been read: all of them if the
  source then reports the end of the input and they fit.\<close>

definition rest_read :: "allocator \<Rightarrow> nat \<Rightarrow> u8 list \<Rightarrow> 'p bio \<times> 'w \<Rightarrow> (u8 list option \<times> 'p bio \<times> 'w) option \<Rightarrow> bool" where
  "rest_read alloc max_len out s r \<longleftrightarrow> (\<exists>res s'. r = Some (res, s') \<and> inv s' \<and>
     (res \<noteq> None \<longrightarrow> res = Some (out @ pending s) \<and> pending s' = [] \<and> at_end s = 0 \<and>
        length out + length (pending s) < max_len) \<and>
     ((\<forall>n. alloc n) \<and> at_end s = 0 \<and> length out + length (pending s) < max_len \<longrightarrow> res \<noteq> None))"

lemma rest_read_step:
  "pending s1 = drop k (pending s) \<Longrightarrow> at_end s1 = at_end s \<Longrightarrow>
     rest_read alloc max_len (out @ take k (pending s)) s1 r \<Longrightarrow> rest_read alloc max_len out s r"
  by (auto simp: rest_read_def)

lemma rest_read_fail:
  "inv s' \<Longrightarrow> \<not> (\<forall>n. alloc n) \<or> at_end s \<noteq> 0 \<or> max_len \<le> length out + length (pending s) \<Longrightarrow>
     rest_read alloc max_len out s (Some (None, s'))"
  by (auto simp: rest_read_def)

lemma rest_read_end:
  assumes "inv s" "at_end s = 0 \<or> at_end s = -1" "pending s = []" "length out < len" "len \<le> max_len"
    and "len - length out < INT_MAX" "len < size_bound"
  shows "rest_read alloc max_len out s (read_all_loop alloc m max_len len (length out) out s)"
proof -
  obtain s1 where s1: "BIO_read m (int (len - length out)) s = Some ((at_end s, []), s1)" "inv s1" "pending s1 = []"
    by (rule rd_none [OF assms(1) _ _ assms(3), of "len - length out"]) (use assms(4,6) in simp_all)
  have "read_all_loop alloc m max_len len (length out) out s = Some (if at_end s = 0 then Some out else None, s1)"
    using assms s1(1) by (subst read_all_loop.simps) auto
  then show ?thesis using assms s1 by (auto simp: rest_read_def)
qed

lemma read_all_loop_ok:
  assumes "inv s" "at_end s = 0 \<or> at_end s = -1" "max_len < size_bound" "length out \<le> len" "len \<le> max_len"
    and "len \<le> length out + 8192" "len = max_len \<or> length out < len"
  shows "rest_read alloc max_len out s (read_all_loop alloc m max_len len (length out) out s)"
  using assms
proof (induction "length (pending s)" arbitrary: s len out rule: less_induct)
  case less
  define k where "k = len - length out"
  have lt: "len < size_bound" and k: "k < INT_MAX" "len = length out + k"
    using less.prems by (simp_all add: k_def)
  consider (full) "length out = len" | (ended) "length out < len" "pending s = []" | (more) "length out < len" "pending s \<noteq> []"
    using less.prems(4) by fastforce
  then show ?case
  proof cases
    case full
    then show ?thesis
      using less.prems by (subst read_all_loop.simps) (auto intro: rest_read_fail)
  next
    case ended
    then show ?thesis using rest_read_end less.prems k lt by simp
  next
    case more
    then have k0: "0 < k" "k \<le> INT_MAX" using k by auto
    obtain s1 where s1: "BIO_read m (int k) s = Some ((int (min k (length (pending s))), take k (pending s)), s1)"
        "inv s1" "pending s1 = drop k (pending s)" "at_end s1 = at_end s"
      using rd_some [OF less.prems(1) k0 more(2)] by blast
    let ?ys = "take k (pending s)"
    have ys: "?ys \<noteq> []" "length ?ys \<le> k" "0 < length ?ys" using k0 more by auto
    have go: "rest_read alloc max_len out s (read_all_loop alloc m max_len len' (length out + length ?ys) (out @ ?ys) s1)"
      if "length out + length ?ys \<le> len'" "len' \<le> max_len" "len' \<le> length out + length ?ys + 8192"
        "len' = max_len \<or> length out + length ?ys < len'" for len'
    proof (rule rest_read_step [OF s1(3,4)])
      show "rest_read alloc max_len (out @ ?ys) s1 (read_all_loop alloc m max_len len' (length out + length ?ys) (out @ ?ys) s1)"
        using less.hyps [of s1 "out @ ?ys" len'] s1 less.prems(2,3) that k0 more by simp
    qed
    have "len - length out = k" "BIO_read m (int (len - length out)) s = Some ((int (length ?ys), ?ys), s1)"
      using s1(1) by (simp_all add: k_def min.commute)
    then have step: "read_all_loop alloc m max_len len (length out) out s =
        (if len < max_len \<and> len - (length out + length ?ys) < kChunkSize div 2 then
           if \<not> alloc (next_len max_len len) then Some (None, s1)
           else read_all_loop alloc m max_len (next_len max_len len) (length out + length ?ys) (out @ ?ys) s1
         else read_all_loop alloc m max_len len (length out + length ?ys) (out @ ?ys) s1)"
      by (intro read_all_loop_step) (use more lt k ys in simp_all)
    show ?thesis
    proof (cases "len < max_len \<and> len - (length out + length ?ys) < kChunkSize div 2")
      case True
      then have l: "len < max_len" "len - (length out + length ?ys) < 2048" by simp_all
      have "rest_read alloc max_len out s
          (read_all_loop alloc m max_len (next_len max_len len) (length out + length ?ys) (out @ ?ys) s1)"
        by (rule go) (use next_len [OF l(1) less.prems(3)] l ys(2) k in linarith)+
      with True s1(2) show ?thesis unfolding step by (auto intro: rest_read_fail)
    next
      case False
      have "rest_read alloc max_len out s (read_all_loop alloc m max_len len (length out + length ?ys) (out @ ?ys) s1)"
        by (rule go) (use False less.prems ys k in auto)
      with False show ?thesis unfolding step by (simp only: if_False)
    qed
  qed
qed

lemmas read_full_ok = read_full_loop_ok [of _ _ True, folded bio_read_full_def]
lemmas read_full_short = read_full_loop_short [of _ _ True, folded bio_read_full_def]

text \<open>The outcome of a function that reads an object: \<open>spec\<close> gives the object and the bytes after it.  The
  function may fail where \<open>spec\<close> does not only because memory runs out.\<close>

definition yields ::
  "allocator \<Rightarrow> (u8 list \<times> u8 list) option \<Rightarrow> (u8 list option \<times> 'p bio \<times> 'w) option \<Rightarrow> bool" where
  "yields alloc spec r \<longleftrightarrow> (\<exists>res s'. r = Some (res, s') \<and> inv s' \<and>
     (\<forall>out. res = Some out \<longrightarrow> spec = Some (out, pending s')) \<and>
     ((\<forall>n. alloc n) \<and> spec \<noteq> None \<longrightarrow> res \<noteq> None))"

lemma yields_fail: "inv s' \<Longrightarrow> \<not> (\<forall>n. alloc n) \<or> spec = None \<Longrightarrow> yields alloc spec (Some (None, s'))"
  by (auto simp: yields_def)

lemma yields_some: "inv s' \<Longrightarrow> spec = Some (out, pending s') \<Longrightarrow> yields alloc spec (Some (Some out, s'))"
  by (auto simp: yields_def)

lemma bio_read_all_ok:
  assumes "inv s" "at_end s = 0 \<or> at_end s = -1" "max_len < size_bound" "length prefix \<le> 6"
  shows "yields alloc (if at_end s = 0 \<and> length prefix + length (pending s) < max_len then Some (prefix @ pending s, []) else None)
    (bio_read_all alloc m prefix max_len s)"
proof -
  let ?len = "if length prefix + kChunkSize > max_len then max_len else length prefix + kChunkSize"
  have "rest_read alloc max_len prefix s (bio_read_all alloc m prefix max_len s)"
  proof (cases "?len < length prefix \<or> \<not> alloc ?len")
    case True
    then show ?thesis
      using assms by (auto simp: bio_read_all_def Let_def intro!: rest_read_fail split: if_splits)
  next
    case False
    have "rest_read alloc max_len prefix s (read_all_loop alloc m max_len ?len (length prefix) prefix s)"
      by (rule read_all_loop_ok) (use assms False in \<open>auto split: if_splits\<close>)
    with False show ?thesis
      using assms by (auto simp: bio_read_all_def Let_def)
  qed
  then show ?thesis by (auto simp: rest_read_def yields_def)
qed

lemma read_contents_ok:
  assumes "inv s" "n < 2 ^ 32" "length h \<le> 6"
  shows "yields alloc (if n \<le> length (pending s) \<and> n \<le> INT_MAX \<and> n + length h \<le> max_len
      then Some (h @ take n (pending s), drop n (pending s)) else None) (read_contents alloc m max_len h n s)"
proof -
  have sum: "size_add n (length h) = n + length h" "n + length h < size_bound"
    using assms by simp_all
  consider "n + length h > max_len \<or> n > INT_MAX" | "\<not> alloc (n + length h)"
    | (short) "n \<le> INT_MAX" "n + length h \<le> max_len" "alloc (n + length h)" "length (pending s) < n"
    | (ok) "n \<le> INT_MAX" "n + length h \<le> max_len" "alloc (n + length h)" "n \<le> length (pending s)"
    by linarith
  then show ?thesis
  proof cases
    case short
    then obtain e s' where "bio_read_full m n s = Some (Inl e, s')" "inv s'"
      using read_full_short [OF assms(1)] by blast
    with short sum show ?thesis by (simp add: read_contents_def yields_fail)
  next
    case ok
    then obtain s' where "bio_read_full m n s = Some (Inr (take n (pending s)), s')" "inv s'" "pending s' = drop n (pending s)"
      using read_full_ok [OF assms(1)] by blast
    with ok sum show ?thesis by (simp add: read_contents_def yields_some)
  qed (use assms sum in \<open>auto simp: read_contents_def intro!: yields_fail\<close>)
qed

end

section \<open>Reading an ASN.1 object\<close>

lemma be_u32_eq: "be_u32 bs = ucast (be_u64 bs)"
proof (induction bs rule: rev_induct)
  case (snoc b bs)
  have "ucast (push_bit 8 v OR ucast b) = push_bit 8 (ucast v) OR (ucast b :: u32)" for v :: u64
    by (rule bit_word_eqI) (auto simp: bit_simps)
  with snoc show ?case by (simp add: be_u32_def be_u64_snoc)
qed (simp add: be_u32_def)

lemma unat_be_u32: "length bs \<le> 4 \<Longrightarrow> unat (be_u32 bs) = be_nat bs"
proof -
  assume bs: "length bs \<le> 4"
  have "be_nat bs < 256 ^ length bs" by (rule be_nat_bound)
  also have "\<dots> \<le> (256::nat) ^ 4" using bs by (intro power_increasing) auto
  finally show ?thesis
    using bs unat_be_u64 [of bs] by (simp add: be_u32_eq unsigned_ucast_eq take_bit_nat_eq_self)
qed

text \<open>What \<open>BIO_read_asn1\<close> is to return for the bytes \<open>p\<close>, and what it leaves of them: an element in DER with a
  one-byte identifier, or everything when the length is indefinite.\<close>

definition asn1_object :: "bool \<Rightarrow> nat \<Rightarrow> u8 list \<Rightarrow> (u8 list \<times> u8 list) option" where
  "asn1_object eof max_len p = (case p of
     [] \<Rightarrow> None
   | t # r \<Rightarrow>
       if t AND 0x1f = 0x1f then None
       else if t AND 0x20 \<noteq> 0 \<and> take 1 r = [0x80] then
         (if eof \<and> length p < max_len then Some (p, []) else None)
       else (case read_der_length r of
           (None, c) \<Rightarrow> None
         | (Some n, c) \<Rightarrow> let k = length p - length c + n in
             if n \<le> length c \<and> n \<le> INT_MAX \<and> k \<le> max_len then Some (take k p, drop k p) else None))"

lemma asn1_long_length:
  assumes "128 \<le> unat (lb :: u8)" "length bytes = unat lb - 128" "bytes \<noteq> []" "length bytes \<le> 4"
  shows "read_der_length (lb # bytes @ c) =
    (if be_u32 bytes < 128 \<or> drop_bit ((length bytes - 1) * 8) (be_u32 bytes) = 0 then (None, lb # bytes @ c)
     else (Some (unat (be_u32 bytes)), c))"
proof -
  have n: "unat (be_u32 bytes) = be_nat bytes" using assms by (simp add: unat_be_u32)
  have "drop_bit ((length bytes - 1) * 8) (be_u32 bytes) = 0 \<longleftrightarrow> be_nat bytes < 2 ^ ((length bytes - 1) * 8)"
    unfolding drop_bit_0_iff n ..
  also have "(2 :: nat) ^ ((length bytes - 1) * 8) = 256 ^ (length bytes - 1)"
    by (simp add: mult.commute [of _ 8] power_mult)
  finally have d: "drop_bit ((length bytes - 1) * 8) (be_u32 bytes) = 0 \<longleftrightarrow> be_nat bytes < 256 ^ (length bytes - 1)" .
  have l: "be_u32 bytes < 128 \<longleftrightarrow> be_nat bytes < 128"
    unfolding word_less_nat_alt n by simp
  show ?thesis
    using assms unfolding d l n by (auto simp: read_der_length_def Let_def)
qed

context bio_source begin

text \<open>The long form of the length.\<close>

lemma read_asn1_long:
  assumes "inv s" "at_end s = 0 \<or> at_end s = -1" "max_len < size_bound" "pending s = t # lb # c"
    and "t AND 0x1f \<noteq> 0x1f" "128 \<le> unat lb" "unat lb - 128 = k" "k \<noteq> 0"
  shows "yields alloc (asn1_object (at_end s = 0) max_len (pending s)) (BIO_read_asn1 alloc m max_len s)"
proof -
  obtain s1 where s1: "bio_read_full m 2 s = Some (Inr [t, lb], s1)" "inv s1" "pending s1 = c"
    using read_full_ok [OF assms(1), of 2] assms(4) by auto
  have k: "unat (lb AND 0x7f) = k" "lb AND 0x80 \<noteq> 0" "lb \<noteq> 0x80"
    using assms(6,7,8) mod_128_high [of "unat lb"] by (auto simp: u8_and_0x7f u8_and_0x80)
  let ?go = "do {
      (r, s) \<leftarrow> bio_read_full m k s1;
      case r of
        Inl e \<Rightarrow> Some (None, s)
      | Inr bytes \<Rightarrow>
          let len32 = be_u32 bytes in
          if len32 < 128 then Some (None, s)
          else if drop_bit ((k - 1) * 8) len32 = 0 then Some (None, s)
          else read_contents alloc m max_len ([t, lb] @ bytes) (unat len32) s }"
  have r: "BIO_read_asn1 alloc m max_len s = (if k > 4 then Some (None, s1) else ?go)"
    unfolding BIO_read_asn1_def s1(1) using assms(5,8) k by (simp add: Let_def)
  have spec: "asn1_object (at_end s = 0) max_len (pending s) = (case read_der_length (lb # c) of
           (None, c) \<Rightarrow> None
         | (Some n, c') \<Rightarrow> let j = length (t # lb # c) - length c' + n in
             if n \<le> length c' \<and> n \<le> INT_MAX \<and> j \<le> max_len then Some (take j (t # lb # c), drop j (t # lb # c)) else None)"
    using assms(4,5) k(3) by (simp add: asn1_object_def)
  consider "k > 4" | (short) "k \<le> 4" "length c < k" | (ok) "k \<le> 4" "k \<le> length c" by linarith
  then show ?thesis
  proof cases
    case 1
    then have "read_der_length (lb # c) = (None, lb # c)"
      using assms(6,7) by (simp add: read_der_length_def Let_def)
    with 1 s1 show ?thesis unfolding spec r by (simp add: yields_fail)
  next
    case short
    then have "read_der_length (lb # c) = (None, lb # c)"
      using assms(6,7) by (simp add: read_der_length_def Let_def)
    moreover obtain e s2 where "bio_read_full m k s1 = Some (Inl e, s2)" "inv s2"
      using read_full_short [OF s1(2)] s1(3) short by blast
    ultimately show ?thesis unfolding spec r using short by (simp add: yields_fail)
  next
    case ok
    define bytes where "bytes = take k c"
    define c' where "c' = drop k c"
    have c: "c = bytes @ c'" "length bytes = k" using ok by (simp_all add: bytes_def c'_def)
    obtain s2 where s2: "bio_read_full m k s1 = Some (Inr bytes, s2)" "inv s2" "pending s2 = c'"
      using read_full_ok [OF s1(2), of k] s1(3) ok by (auto simp: bytes_def c'_def)
    have "bytes \<noteq> []" using c(2) assms(8) by auto
    note len = asn1_long_length [OF assms(6), of bytes c', unfolded c(2), OF assms(7) [symmetric] this ok(1)]
    have go: "BIO_read_asn1 alloc m max_len s =
        (if be_u32 bytes < 128 \<or> drop_bit ((k - 1) * 8) (be_u32 bytes) = 0 then Some (None, s2)
         else read_contents alloc m max_len ([t, lb] @ bytes) (unat (be_u32 bytes)) s2)"
      unfolding r s2(1) using ok by (simp add: Let_def)
    have "length ([t, lb] @ bytes) \<le> 6" using c ok by simp
    note rc = read_contents_ok [OF s2(2) _ this, of "unat (be_u32 bytes)" alloc max_len, unfolded s2(3)]
    show ?thesis
    proof (cases "be_u32 bytes < 128 \<or> drop_bit ((k - 1) * 8) (be_u32 bytes) = 0")
      case True
      then show ?thesis unfolding go spec using c len s2(2) by (simp add: yields_fail)
    next
      case False
      have "asn1_object (at_end s = 0) max_len (pending s) =
          (if unat (be_u32 bytes) \<le> length c' \<and> unat (be_u32 bytes) \<le> INT_MAX \<and>
              unat (be_u32 bytes) + length ([t, lb] @ bytes) \<le> max_len
           then Some (([t, lb] @ bytes) @ take (unat (be_u32 bytes)) c', drop (unat (be_u32 bytes)) c') else None)"
        unfolding spec using False c len by (simp add: Let_def add.commute)
      then show ?thesis
        unfolding go using False rc unat_u32_less [of "be_u32 bytes"] by simp
    qed
  qed
qed

end

context bio_source begin

lemma read_asn1_ok:
  assumes "inv s" "at_end s = 0 \<or> at_end s = -1" "max_len < size_bound"
  shows "yields alloc (asn1_object (at_end s = 0) max_len (pending s)) (BIO_read_asn1 alloc m max_len s)"
proof (cases "length (pending s) < 2")
  case True
  then have "asn1_object (at_end s = 0) max_len (pending s) = None"
    by (cases "pending s") (auto simp: asn1_object_def read_der_length_def)
  moreover obtain e s' where "bio_read_full m 2 s = Some (Inl e, s')" "inv s'"
    using read_full_short [OF assms(1) True] by blast
  ultimately show ?thesis by (simp add: BIO_read_asn1_def yields_fail)
next
  case False
  then obtain t lb c where p: "pending s = t # lb # c"
    by (metis One_nat_def Suc_1 length_Cons lessI less_Suc_eq_0_disj list.exhaust list.size(3) zero_less_Suc)
  obtain s1 where s1: "bio_read_full m 2 s = Some (Inr [t, lb], s1)" "inv s1" "pending s1 = c" "at_end s1 = at_end s"
    using read_full_ok [OF assms(1), of 2] p by auto
  have z: "unat (lb AND 0x7f) = 0 \<longleftrightarrow> lb = 0x80" if "128 \<le> unat lb"
    using that mod_128_high [of "unat lb"] by (auto simp: u8_and_0x7f u8_eq_iff)
  consider (tag) "t AND 0x1f = 0x1f" | (short) "t AND 0x1f \<noteq> 0x1f" "unat lb < 128"
    | (indefinite) "t AND 0x1f \<noteq> 0x1f" "lb = 0x80" | (long) "t AND 0x1f \<noteq> 0x1f" "128 \<le> unat lb" "lb \<noteq> 0x80"
    by fastforce
  then show ?thesis
  proof cases
    case tag
    with p s1 show ?thesis by (simp add: BIO_read_asn1_def asn1_object_def yields_fail)
  next
    case short
    have "length [t, lb] \<le> 6" "unat lb < 2 ^ 32" using short by simp_all
    note rc = read_contents_ok [OF s1(2) this(2,1), of alloc max_len, unfolded s1(3)]
    have "asn1_object (at_end s = 0) max_len (pending s) =
        (if unat lb \<le> length c \<and> unat lb \<le> INT_MAX \<and> unat lb + length [t, lb] \<le> max_len
         then Some ([t, lb] @ take (unat lb) c, drop (unat lb) c) else None)"
      using p short by (auto simp: asn1_object_def read_der_length_def Let_def)
    moreover have "BIO_read_asn1 alloc m max_len s = read_contents alloc m max_len [t, lb] (unat lb) s1"
      using s1(1) short by (simp add: BIO_read_asn1_def Let_def u8_and_0x80)
    ultimately show ?thesis using rc by simp
  next
    case indefinite
    have "length [t, lb] \<le> 6" "at_end s1 = 0 \<or> at_end s1 = -1" using s1(4) assms(2) by simp_all
    note ra = bio_read_all_ok [OF s1(2) this(2) assms(3) this(1), of alloc, unfolded s1(3,4)]
    show ?thesis
    proof (cases "t AND 0x20 = 0")
      case True
      then show ?thesis
        using p indefinite s1 by (simp add: BIO_read_asn1_def asn1_object_def read_der_length_def yields_fail)
    next
      case False
      then have "asn1_object (at_end s = 0) max_len (pending s) =
          (if at_end s = 0 \<and> length [t, lb] + length c < max_len then Some ([t, lb] @ c, []) else None)"
        using p indefinite by (simp add: asn1_object_def)
      moreover have "BIO_read_asn1 alloc m max_len s = bio_read_all alloc m [t, lb] max_len s1"
        using s1(1) indefinite False by (simp add: BIO_read_asn1_def)
      ultimately show ?thesis using ra by simp
    qed
  next
    case long
    with z have "unat lb - 128 \<noteq> 0" by (auto simp: u8_eq_iff)
    with long show ?thesis using read_asn1_long [OF assms p] by blast
  qed
qed

end

lemma nat_u8_0x80: "unat (0x80 :: u8) = 128"
  by simp

text \<open>In terms of elements.\<close>

lemma asn1_object_definite:
  assumes "length c < 2 ^ 32" "der_identifier tag = [t]" "t AND 0x1f \<noteq> 0x1f"
  shows "asn1_object eof max_len (der_element tag c @ rest) =
    (if length c \<le> INT_MAX \<and> length (der_element tag c) \<le> max_len then Some (der_element tag c, rest) else None)"
proof -
  have "take 1 (der_length (length c) @ c @ rest) \<noteq> [0x80]"
  proof (cases "length c < 128")
    case False
    then have nb: "0 < nat_bytes (length c)" "nat_bytes (length c) \<le> 4"
      using assms(1) by (auto intro: nat_bytes_pos nat_bytes_le)
    then have "unat (of_nat (128 + nat_bytes (length c)) :: u8) = 128 + nat_bytes (length c)"
      by (subst unat_of_nat) simp
    with nb have "(of_nat (128 + nat_bytes (length c)) :: u8) \<noteq> 0x80"
      by (metis add_cancel_left_right less_irrefl nat_u8_0x80)
    with False show ?thesis by (simp add: der_length_def)
  qed (simp add: der_length_def u8_eq_iff unat_of_nat)
  moreover have "read_der_length (der_length (length c) @ c @ rest) = (Some (length c), c @ rest)"
    using len.rd_enc_canonical [OF assms(1)] by simp
  ultimately show ?thesis
    using assms(2,3) by (auto simp: asn1_object_def der_element_def der_header_def Let_def)
qed

text \<open>A constructed element of indefinite length starts like this.\<close>

definition starts_indefinite :: "u8 list \<Rightarrow> bool" where
  "starts_indefinite p \<longleftrightarrow> (case p of t # l # r \<Rightarrow> t AND 0x1f \<noteq> 0x1f \<and> t AND 0x20 \<noteq> 0 \<and> l = 0x80 | _ \<Rightarrow> False)"

lemma asn1_object_indefinite:
  "starts_indefinite p \<Longrightarrow> asn1_object eof max_len p = (if eof \<and> length p < max_len then Some (p, []) else None)"
  by (auto simp: starts_indefinite_def asn1_object_def split: list.splits)

lemma asn1_object_element:
  assumes "asn1_object eof max_len p = Some (out, rest)"
  shows "p = out @ rest \<and> length out \<le> max_len \<and>
    ((\<exists>tag c. out = der_element tag c \<and> length c \<le> INT_MAX \<and> length (der_identifier tag) = 1) \<or>
      (starts_indefinite p \<and> eof \<and> rest = []))"
proof -
  obtain t r where p: "p = t # r" "t AND 0x1f \<noteq> 0x1f"
    using assms by (cases p) (auto simp: asn1_object_def split: if_splits)
  show ?thesis
  proof (cases "t AND 0x20 \<noteq> 0 \<and> take 1 r = [0x80]")
    case True
    then obtain r' where "r = 0x80 # r'" by (cases r) auto
    with True assms p show ?thesis by (auto simp: asn1_object_def starts_indefinite_def split: if_splits)
  next
    case False
    with assms p obtain n c where n: "read_der_length r = (Some n, c)" "n \<le> length c" "n \<le> INT_MAX"
        "length p - length c + n \<le> max_len" "out = take (length p - length c + n) p" "rest = drop (length p - length c + n) p"
      by (auto simp: asn1_object_def Let_def split: if_splits prod.splits option.splits)
    have r: "r = der_length n @ c" using len.canonical [OF n(1)] by simp
    have "ucast (t AND 0x1f) \<noteq> (0x1f :: u32)"
      using p(2) by (simp add: word_unat_eq_iff unat_ucast_u8_u32)
    then obtain tag where tag: "parse_asn1_tag [t] = (Some tag, [])"
      by (simp add: parse_asn1_tag_Cons Let_def)
    then have "der_identifier tag = [t]" using tag.canonical [OF tag] by simp
    moreover have out: "out = t # der_length n @ take n c" "rest = drop n c"
      using n r p by simp_all
    moreover have "out = der_element tag (take n c)"
      using n(2) out(1) calculation(1) by (simp add: der_element_def der_header_def)
    moreover have "p = out @ rest" "length out \<le> max_len" "length (take n c) \<le> INT_MAX"
      using n r p out by simp_all
    ultimately show ?thesis by (metis One_nat_def length_Cons list.size(3))
  qed
qed

section \<open>Streams\<close>

datatype byte_event = Write "u8 list" | Read nat

fun event_ok :: "byte_event \<Rightarrow> bool" where
  "event_ok (Write xs) \<longleftrightarrow> length xs \<le> INT_MAX"
| "event_ok (Read k) \<longleftrightarrow> k \<le> INT_MAX"

text \<open>A sequence of calls of a writer and a reader: the bytes that the calls accept and hand out.\<close>

fun exchange ::
  "(u8 list \<Rightarrow> 's \<Rightarrow> (int \<times> 's) option) \<Rightarrow> (int \<Rightarrow> 's \<Rightarrow> ((int \<times> u8 list) \<times> 's) option) \<Rightarrow>
   byte_event list \<Rightarrow> 's \<Rightarrow> ((u8 list \<times> u8 list) \<times> 's) option" where
  "exchange wr rd [] s = Some (([], []), s)"
| "exchange wr rd (Write xs # evs) s = do {
     (n, s) \<leftarrow> wr xs s;
     ((sent, got), s) \<leftarrow> exchange wr rd evs s;
     Some ((take (nat n) xs @ sent, got), s)
   }"
| "exchange wr rd (Read k # evs) s = do {
     ((n, ys), s) \<leftarrow> rd (int k) s;
     ((sent, got), s) \<leftarrow> exchange wr rd evs s;
     Some ((sent, ys @ got), s)
   }"

locale byte_stream = byte_source inv pending at_end rd
  for inv :: "'s \<Rightarrow> bool" and pending at_end rd +
  fixes wr :: "u8 list \<Rightarrow> 's \<Rightarrow> (int \<times> 's) option"
  assumes wr: "inv s \<Longrightarrow> length xs \<le> INT_MAX \<Longrightarrow>
      \<exists>n s'. wr xs s = Some (n, s') \<and> inv s' \<and> n \<le> int (length xs) \<and> pending s' = pending s @ take (nat n) xs"
begin

lemma in_order:
  "inv s \<Longrightarrow> list_all event_ok evs \<Longrightarrow>
     \<exists>sent got s'. exchange wr rd evs s = Some ((sent, got), s') \<and> inv s' \<and> pending s @ sent = got @ pending s'"
proof (induction evs arbitrary: s)
  case (Cons e evs)
  show ?case
  proof (cases e)
    case (Write xs)
    then obtain n s1 where w: "wr xs s = Some (n, s1)" "inv s1" "pending s1 = pending s @ take (nat n) xs"
      using wr [OF Cons.prems(1), of xs] Cons.prems(2) by auto
    obtain sent got s' where r: "exchange wr rd evs s1 = Some ((sent, got), s')" "inv s'" "pending s1 @ sent = got @ pending s'"
      using Cons.IH [OF w(2)] Cons.prems(2) by auto
    have "exchange wr rd (e # evs) s = Some ((take (nat n) xs @ sent, got), s')"
      using Write w r by simp
    moreover have "pending s @ take (nat n) xs @ sent = got @ pending s'" using w r by simp
    ultimately show ?thesis using r(2) by blast
  next
    case (Read k)
    then obtain n s1 where w: "rd (int k) s = Some ((n, take k (pending s)), s1)" "inv s1" "pending s1 = drop k (pending s)"
      using rd [OF Cons.prems(1), of k] Cons.prems(2) by auto
    obtain sent got s' where r: "exchange wr rd evs s1 = Some ((sent, got), s')" "inv s'" "pending s1 @ sent = got @ pending s'"
      using Cons.IH [OF w(2)] Cons.prems(2) by auto
    have "exchange wr rd (e # evs) s = Some ((sent, take k (pending s) @ got), s')"
      using Read w r by simp
    moreover have "pending s @ sent = (take k (pending s) @ got) @ pending s'"
      using w(3) r(3) by (metis append.assoc append_take_drop_id)
    ultimately show ?thesis using r(2) by blast
  qed
qed simp

text \<open>Nothing is lost, duplicated or reordered: what the reader gets is a prefix of what the writer
  had accepted, and all of it once nothing is pending.\<close>

lemma fifo:
  assumes "inv s" "pending s = []" "list_all event_ok evs"
  obtains sent got s' where "exchange wr rd evs s = Some ((sent, got), s')" "inv s'" "sent = got @ pending s'"
  using in_order [OF assms(1,3)] assms(2) by auto

end

text \<open>A writer with room for a number of bytes, which may take fewer at a time.\<close>

locale bio_sink =
  fixes inv :: "'p bio \<times> 'w \<Rightarrow> bool" and pending :: "'p bio \<times> 'w \<Rightarrow> u8 list"
    and room :: "'p bio \<times> 'w \<Rightarrow> nat" and m :: "('p, 'w, 'q) bio_method_ptr"
  assumes accepts: "inv s \<Longrightarrow> xs \<noteq> [] \<Longrightarrow> length xs \<le> INT_MAX \<Longrightarrow> length xs \<le> room s \<Longrightarrow>
      \<exists>n s'. BIO_write m xs s = Some (n, s') \<and> inv s' \<and> 0 < n \<and> n \<le> int (length xs) \<and>
        pending s' = pending s @ take (nat n) xs \<and> room s' = room s - nat n"
begin

lemma write_all:
  "inv s \<Longrightarrow> length xs \<le> room s \<Longrightarrow>
     \<exists>s'. BIO_write_all m xs s = Some (True, s') \<and> inv s' \<and> pending s' = pending s @ xs \<and> room s' = room s - length xs"
proof (induction "length xs" arbitrary: xs s rule: less_induct)
  case less
  show ?case
  proof (cases "xs = []")
    case True
    with less.prems show ?thesis by (simp add: BIO_write_all.simps)
  next
    case False
    let ?xs = "take INT_MAX xs"
    have room: "length ?xs \<le> room s" using less.prems(2) by simp
    obtain n s1 where w: "BIO_write m ?xs s = Some (n, s1)" "inv s1" "0 < n" "n \<le> int (length ?xs)"
        "pending s1 = pending s @ take (nat n) ?xs" "room s1 = room s - nat n"
      using accepts [OF less.prems(1) _ _ room] False by auto
    have n: "nat n \<le> length xs" "nat n \<le> INT_MAX" "0 < nat n" using w(3,4) by auto
    then have "length (drop (nat n) xs) < length xs" "length (drop (nat n) xs) \<le> room s1"
      using w(6) less.prems(2) False by auto
    then obtain s2 where s2: "BIO_write_all m (drop (nat n) xs) s1 = Some (True, s2)" "inv s2"
        "pending s2 = pending s1 @ drop (nat n) xs" "room s2 = room s1 - length (drop (nat n) xs)"
      using less.hyps [of "drop (nat n) xs" s1] w(2) by blast
    have "BIO_write_all m xs s = Some (True, s2)"
      using False w(1,3) n s2(1) by (subst BIO_write_all.simps) simp
    moreover have "pending s2 = pending s @ xs"
      using s2(3) w(5) n(2) by (simp add: min_absorb1)
    moreover have "room s2 = room s - length xs"
      using s2(4) w(6) n(1) by simp
    ultimately show ?thesis using s2(2) by blast
  qed
qed

end

end
