(* ===== verification/Buf_Mem.thy ===== *)
theory Buf_Mem
  imports Bio Mem
begin

text \<open>
  Growing byte arrays (\<open>crypto/buf/buf.c\<close>).

  Of the array \<open>data\<close> the first \<open>length\<close> bytes are kept, as the list \<open>contents\<close>; \<open>has_data\<close> says that the
  pointer is not NULL.  A memory BIO for reading moves \<open>data\<close> forward; \<open>passed\<close> are the bytes in front of it
  (none in an array that this file allocated).
\<close>

record buf_mem =
  passed :: "u8 list"
  contents :: "u8 list"
  has_data :: bool
  max_size :: nat

abbreviation sizeof_buf_mem :: nat where "sizeof_buf_mem \<equiv> 24"

definition BUF_MEM_new :: "allocator \<Rightarrow> buf_mem option" where
  "BUF_MEM_new alloc =
     (if \<not> alloc sizeof_buf_mem then None
      else Some \<lparr>passed = [], contents = [], has_data = False, max_size = 0\<rparr>)"

definition BUF_MEM_reserve :: "allocator \<Rightarrow> nat \<Rightarrow> buf_mem \<Rightarrow> bool \<times> buf_mem" where
  "BUF_MEM_reserve alloc cap b =
     (if max_size b \<ge> cap then (True, b)
      else let n = size_add cap 3 in
        if n < cap then (False, b)
        else let n = n div 3; alloc_size = size_mult n 4 in
          if alloc_size div 4 \<noteq> n then (False, b)
          else if \<not> alloc alloc_size then (False, b)
          else (True, b\<lparr>has_data := True, max_size := alloc_size\<rparr>))"

definition BUF_MEM_grow :: "allocator \<Rightarrow> nat \<Rightarrow> buf_mem \<Rightarrow> nat \<times> buf_mem" where
  "BUF_MEM_grow alloc len b = (case BUF_MEM_reserve alloc len b of
     (False, b) \<Rightarrow> (0, b)
   | (True, b) \<Rightarrow>
       let filled = (if length (contents b) < len
                     then contents b @ replicate (len - length (contents b)) 0 else contents b)
       in (len, b\<lparr>contents := take len filled\<rparr>))"

definition BUF_MEM_grow_clean :: "allocator \<Rightarrow> nat \<Rightarrow> buf_mem \<Rightarrow> nat \<times> buf_mem" where
  "BUF_MEM_grow_clean alloc len b = BUF_MEM_grow alloc len b"

definition BUF_MEM_append :: "allocator \<Rightarrow> u8 list \<Rightarrow> buf_mem \<Rightarrow> bool \<times> buf_mem" where
  "BUF_MEM_append alloc xs b =
     (if length xs = 0 then (True, b)
      else let new_len = size_add (length (contents b)) (length xs) in
        if new_len < length xs then (False, b)
        else (case BUF_MEM_reserve alloc new_len b of
            (False, b) \<Rightarrow> (False, b)
          | (True, b) \<Rightarrow> (True, b\<lparr>contents := contents b @ xs\<rparr>)))"

text \<open>The wrappers kept for old callers.\<close>

definition BUF_strdup :: "allocator \<Rightarrow> u8 list \<Rightarrow> u8 list option" where
  "BUF_strdup alloc s = OPENSSL_strdup alloc s"

definition BUF_strnlen :: "u8 list \<Rightarrow> nat \<Rightarrow> nat" where
  "BUF_strnlen str max_len = OPENSSL_strnlen str max_len"

section \<open>The invariant and what the operations do\<close>

definition buf_mem_ok :: "buf_mem \<Rightarrow> bool" where
  "buf_mem_ok b \<longleftrightarrow> passed b = [] \<and> length (contents b) \<le> max_size b \<and> max_size b < size_bound \<and>
     (has_data b \<longleftrightarrow> max_size b \<noteq> 0)"

lemma new_ok: "BUF_MEM_new alloc = Some b \<Longrightarrow> buf_mem_ok b \<and> contents b = []"
  by (auto simp: BUF_MEM_new_def buf_mem_ok_def split: if_splits)

lemma reserve_ok:
  assumes "buf_mem_ok b" "cap < size_bound"
  shows "case BUF_MEM_reserve alloc cap b of (r, b') \<Rightarrow>
    buf_mem_ok b' \<and> contents b' = contents b \<and> (r \<longrightarrow> cap \<le> max_size b') \<and>
    (\<not> r \<longrightarrow> b' = b \<and> ((\<exists>n. \<not> alloc n) \<or> 0xBFFFFFFFFFFFFFFD \<le> cap))"
proof (cases "max_size b \<ge> cap")
  case True
  then show ?thesis using assms by (simp add: BUF_MEM_reserve_def)
next
  case False
  define n where "n = (cap + 3) div 3"
  consider (wrap) "size_bound \<le> cap + 3" | (big) "cap + 3 < size_bound" "size_bound \<le> n * 4"
    | (fits) "cap + 3 < size_bound" "n * 4 < size_bound" by linarith
  then show ?thesis
  proof cases
    case wrap
    then have "size_add cap 3 < cap"
      using size_add_overflow_iff [OF assms(2), of 3] by simp
    with False wrap assms show ?thesis by (simp add: BUF_MEM_reserve_def Let_def)
  next
    case big
    have "size_mult n 4 div 4 < n"
    proof -
      have "n < size_bound" using big(1) by (simp add: n_def)
      have "size_mult n 4 < n * 4"
        using big(2) mod_less_divisor [of size_bound "n * 4"] unfolding size_mult_def by linarith
      then show ?thesis by linarith
    qed
    moreover have "0xBFFFFFFFFFFFFFFD \<le> cap" using big(2) unfolding n_def by linarith
    ultimately show ?thesis
      using False big(1) assms by (simp add: BUF_MEM_reserve_def Let_def flip: n_def)
  next
    case fits
    have "cap \<le> n * 4" "0 < n" unfolding n_def by linarith+
    with False fits assms show ?thesis
      by (auto simp: BUF_MEM_reserve_def Let_def buf_mem_ok_def simp flip: n_def)
  qed
qed

lemma grow_ok:
  assumes "buf_mem_ok b" "len < size_bound"
  shows "case BUF_MEM_grow alloc len b of (r, b') \<Rightarrow>
    buf_mem_ok b' \<and> (r = len \<longrightarrow> len \<noteq> 0 \<longrightarrow> contents b' = take len (contents b) @ replicate (len - length (contents b)) 0) \<and>
    (r \<noteq> len \<longrightarrow> b' = b \<and> r = 0 \<and> ((\<exists>n. \<not> alloc n) \<or> 0xBFFFFFFFFFFFFFFD \<le> len))"
  using reserve_ok [OF assms, of alloc]
  by (auto simp: BUF_MEM_grow_def Let_def buf_mem_ok_def split: prod.splits bool.splits)

lemma append_ok:
  assumes "buf_mem_ok b" "length (contents b) + length xs < size_bound"
  shows "case BUF_MEM_append alloc xs b of (r, b') \<Rightarrow>
    buf_mem_ok b' \<and> (if r then contents b' = contents b @ xs
      else b' = b \<and> ((\<exists>n. \<not> alloc n) \<or> 0xBFFFFFFFFFFFFFFD \<le> length (contents b) + length xs))"
proof (cases "xs = []")
  case False
  then show ?thesis
    using assms reserve_ok [OF assms, of alloc]
    by (auto simp: BUF_MEM_append_def Let_def buf_mem_ok_def split: prod.splits bool.splits)
qed (use assms in \<open>simp add: BUF_MEM_append_def\<close>)

end
