(* ===== verification/Bio_Mem.thy ===== *)
theory Bio_Mem
  imports Bio_Stream Buf_Mem
begin

text \<open>
  Memory BIOs (\<open>crypto/bio/bio_mem.c\<close>): a \<open>BUF_MEM\<close> that is written at its end and read at its
  beginning, or a read-only buffer of the caller.  The pointers into the \<open>BUF_MEM\<close> that
  \<open>BIO_CTRL_INFO\<close> and \<open>BIO_C_GET_BUF_MEM_PTR\<close> store for the caller show the \<open>BUF_MEM\<close> of the state.
\<close>

type_synonym 'a mem_io = "(buf_mem, unit, 'a) io"

text \<open>The conversions of a \<open>size_t\<close> and a \<open>long\<close> to \<open>int\<close>.\<close>

definition int_of_size :: "nat \<Rightarrow> int" where
  "int_of_size n = sint (of_nat n :: u32)"

definition int_of_long :: "int \<Rightarrow> int" where
  "int_of_long n = sint (of_int n :: u32)"

definition rdonly :: "buf_mem bio \<Rightarrow> bool" where
  "rdonly bio \<longleftrightarrow> flags bio AND BIO_FLAGS_MEM_RDONLY \<noteq> 0"

definition mem_new :: "allocator \<Rightarrow> buf_mem bio \<Rightarrow> buf_mem bio option" where
  "mem_new alloc bio = (case BUF_MEM_new alloc of
     None \<Rightarrow> None
   | Some b \<Rightarrow> Some (bio\<lparr>shutdown := 1, bio_init := True, num := -1, ptr := Some b\<rparr>))"

definition mem_free :: "buf_mem bio \<Rightarrow> buf_mem bio" where
  "mem_free bio =
     (if shutdown bio = 0 \<or> \<not> bio_init bio \<or> ptr bio = None then bio else bio\<lparr>ptr := None\<rparr>)"

definition mem_read :: "nat \<Rightarrow> (int \<times> u8 list) mem_io" where
  "mem_read outl s = (case s of (bio, w) \<Rightarrow> (case ptr bio of
     None \<Rightarrow> None
   | Some b \<Rightarrow>
       let bio = BIO_clear_retry_flags bio;
           ret = int outl;
           ret = (if length (contents b) < INT_MAX \<and> ret > int_of_size (length (contents b))
                  then int (length (contents b)) else ret)
       in if ret > 0 then
            let out = take (nat ret) (contents b);
                b = b\<lparr>contents := drop (nat ret) (contents b)\<rparr>;
                b = (if rdonly bio then b\<lparr>passed := passed b @ out\<rparr> else b)
            in Some ((ret, out), bio\<lparr>ptr := Some b\<rparr>, w)
          else if length (contents b) = 0 then
            let ret = num bio in Some ((ret, []), if ret \<noteq> 0 then BIO_set_retry_read bio else bio, w)
          else Some ((ret, []), bio, w)))"

definition mem_write :: "allocator \<Rightarrow> u8 list \<Rightarrow> int mem_io" where
  "mem_write alloc xs s = (case s of (bio, w) \<Rightarrow> (case ptr bio of
     None \<Rightarrow> None
   | Some b \<Rightarrow>
       if rdonly bio then Some (-1, bio, w)
       else let bio = BIO_clear_retry_flags bio; blen = int_of_size (length (contents b)) in
         if blen < 0 then None
         else if int INT_MAX - blen < int (length xs) then Some (-1, bio, w)
         else (case BUF_MEM_grow_clean alloc (nat (blen + int (length xs))) b of (n, b) \<Rightarrow>
           if n \<noteq> size_add (nat blen) (length xs) then Some (-1, bio\<lparr>ptr := Some b\<rparr>, w)
           else (case store_at (nat blen) xs (contents b) of
               None \<Rightarrow> None
             | Some stored \<Rightarrow> Some (int (length xs), bio\<lparr>ptr := Some (b\<lparr>contents := stored\<rparr>)\<rparr>, w)))))"

text \<open>The loop of \<open>mem_gets\<close> over the first \<open>j\<close> characters.\<close>

fun gets_loop :: "nat \<Rightarrow> u8 list \<Rightarrow> nat" where
  "gets_loop (Suc j) (c # p) = (if c = 0x0a then 1 else Suc (gets_loop j p))"
| "gets_loop _ _ = 0"

definition mem_gets :: "nat \<Rightarrow> (int \<times> u8 list) mem_io" where
  "mem_gets sz s = (case s of (bio, w) \<Rightarrow> (case ptr bio of
     None \<Rightarrow> None
   | Some b \<Rightarrow>
       let bio = BIO_clear_retry_flags bio;
           j = int_of_size (length (contents b));
           j = (if int sz - 1 < j then int sz - 1 else j)
       in if j \<le> 0 then Some ((0, if sz > 0 then [0] else []), bio, w)
          else do {
            ((i, out), s) \<leftarrow> mem_read (gets_loop (nat j) (contents b)) (bio, w);
            Some ((i, if i > 0 then out @ [0] else out), s)
          }))"

text \<open>\<open>BIO_CTRL_RESET\<close> moves \<open>data\<close> of a read-only buffer back to its start.\<close>

definition mem_reset :: "bool \<Rightarrow> buf_mem \<Rightarrow> buf_mem" where
  "mem_reset ro b =
     (if \<not> has_data b then b
      else if ro then
        let k = length (passed b) - (max_size b - length (contents b))
        in b\<lparr>passed := take k (passed b), contents := drop k (passed b) @ contents b\<rparr>
      else b\<lparr>contents := []\<rparr>)"

definition mem_ctrl :: "nat \<Rightarrow> int \<Rightarrow> buf_mem option \<Rightarrow> int mem_io" where
  "mem_ctrl cmd larg parg s = (case s of (bio, w) \<Rightarrow> (
     if cmd = BIO_C_SET_BUF_MEM then
       Some (1, (mem_free bio)\<lparr>shutdown := int_of_long larg, ptr := parg\<rparr>, w)
     else if cmd = BIO_C_SET_BUF_MEM_EOF_RETURN then Some (1, bio\<lparr>num := int_of_long larg\<rparr>, w)
     else if cmd = BIO_C_GET_BUF_MEM_PTR then Some (1, bio, w)
     else if cmd = BIO_CTRL_GET_CLOSE then Some (shutdown bio, bio, w)
     else if cmd = BIO_CTRL_SET_CLOSE then Some (1, bio\<lparr>shutdown := int_of_long larg\<rparr>, w)
     else if cmd = BIO_CTRL_WPENDING then Some (0, bio, w)
     else if cmd = BIO_CTRL_FLUSH then Some (1, bio, w)
     else if cmd \<in> {BIO_CTRL_RESET, BIO_CTRL_EOF, BIO_CTRL_INFO, BIO_CTRL_PENDING} then (case ptr bio of
         None \<Rightarrow> None
       | Some b \<Rightarrow>
           if cmd = BIO_CTRL_RESET then Some (1, bio\<lparr>ptr := Some (mem_reset (rdonly bio) b)\<rparr>, w)
           else if cmd = BIO_CTRL_EOF then Some (of_bool (length (contents b) = 0), bio, w)
           else Some (int (length (contents b)), bio, w))
     else Some (0, bio, w)))"

definition mem_method :: "allocator \<Rightarrow> (buf_mem, unit, buf_mem option) bio_method_ptr" where
  "mem_method alloc = Some \<lparr>type = 0x0401, bwrite = Some (mem_write alloc), bread = Some mem_read,
     bgets = Some mem_gets, ctrl = Some mem_ctrl, create = Some (mem_new alloc)\<rparr>"

definition BIO_s_mem :: "allocator \<Rightarrow> (buf_mem, unit, buf_mem option) bio_method_ptr" where
  "BIO_s_mem alloc = mem_method alloc"

text \<open>\<open>BIO_new_mem_buf\<close>: \<open>buf\<close> is the memory from the pointer to the end of its object; the result is
  \<open>None\<close> where \<open>strlen\<close> is called on a null pointer.\<close>

definition BIO_new_mem_buf :: "allocator \<Rightarrow> u8 list option \<Rightarrow> int \<Rightarrow> buf_mem bio option option" where
  "BIO_new_mem_buf alloc mem len = do {
     sz \<leftarrow> (if len < 0 then map_option strlen mem else Some (nat len));
     if mem = None \<and> len \<noteq> 0 then Some None
     else (case BIO_new alloc (BIO_s_mem alloc) of
       None \<Rightarrow> Some None
     | Some ret \<Rightarrow> do {
         b \<leftarrow> ptr ret;
         let b = b\<lparr>contents := (case mem of None \<Rightarrow> [] | Some m \<Rightarrow> take sz m), has_data := mem \<noteq> None, max_size := sz\<rparr>;
         Some (Some (ret\<lparr>ptr := Some b, flags := flags ret OR BIO_FLAGS_MEM_RDONLY, num := 0\<rparr>))
       })
   }"

definition BIO_mem_contents :: "buf_mem bio \<Rightarrow> u8 list option" where
  "BIO_mem_contents bio = map_option contents (ptr bio)"

definition BIO_get_mem_data :: "allocator \<Rightarrow> int mem_io" where
  "BIO_get_mem_data alloc = BIO_ctrl (BIO_s_mem alloc) BIO_CTRL_INFO 0 None"

definition BIO_get_mem_ptr :: "allocator \<Rightarrow> int mem_io" where
  "BIO_get_mem_ptr alloc = BIO_ctrl (BIO_s_mem alloc) BIO_C_GET_BUF_MEM_PTR 0 None"

definition BIO_set_mem_buf :: "allocator \<Rightarrow> buf_mem \<Rightarrow> int \<Rightarrow> int mem_io" where
  "BIO_set_mem_buf alloc b take_ownership =
     BIO_ctrl (BIO_s_mem alloc) BIO_C_SET_BUF_MEM take_ownership (Some b)"


section \<open>Lemmas\<close>

lemma int_of_size_eq: "n \<le> INT_MAX \<Longrightarrow> int_of_size n = int n"
proof -
  assume n: "n \<le> INT_MAX"
  then have "uint (of_nat n :: u32) = int n"
    by (simp add: unsigned_of_nat take_bit_nat_eq_self)
  moreover have "sint (w :: u32) = uint w" if "uint w < 2147483648" for w
    using that order_trans [OF _ uint_ge_0 [of w], of "- 2147483648"]
    by (simp add: sint_uint signed_take_bit_int_eq_self_iff)
  ultimately show ?thesis using n by (simp add: int_of_size_def)
qed

lemma rdonly_flags [simp]:
  "rdonly (BIO_clear_retry_flags bio) = rdonly bio" "rdonly (BIO_set_retry_read bio) = rdonly bio"
  "rdonly (bio\<lparr>ptr := p\<rparr>) = rdonly bio" "rdonly (bio\<lparr>num_read := n\<rparr>) = rdonly bio" "rdonly (bio\<lparr>num_write := n\<rparr>) = rdonly bio"
proof -
  have "flags (BIO_clear_retry_flags bio) AND 0x200 = flags bio AND 0x200"
  proof -
    have "NOT kRetryFlags AND 0x200 = 0x200" by (simp add: kRetryFlags_def)
    then show ?thesis by (simp add: BIO_clear_retry_flags_def and.assoc)
  qed
  then show "rdonly (BIO_clear_retry_flags bio) = rdonly bio" by (simp add: rdonly_def)
  have "flags (BIO_set_retry_read bio) AND 0x200 = flags bio AND 0x200"
    by (simp add: BIO_set_retry_read_def bit.conj_disj_distrib2)
  then show "rdonly (BIO_set_retry_read bio) = rdonly bio" by (simp add: rdonly_def)
qed (simp_all add: rdonly_def)

section \<open>Memory BIOs as sources and streams\<close>

definition mem_inv :: "buf_mem bio \<times> unit \<Rightarrow> bool" where
  "mem_inv s \<longleftrightarrow> (case s of (bio, w) \<Rightarrow> bio_init bio \<and> num bio \<le> 0 \<and>
     (case ptr bio of None \<Rightarrow> False
      | Some b \<Rightarrow> rdonly bio \<or> (buf_mem_ok b \<and> length (contents b) \<le> INT_MAX)))"

definition mem_pending :: "buf_mem bio \<times> unit \<Rightarrow> u8 list" where
  "mem_pending s = (case ptr (fst s) of None \<Rightarrow> [] | Some b \<Rightarrow> contents b)"

definition mem_at_end :: "buf_mem bio \<times> unit \<Rightarrow> int" where
  "mem_at_end s = num (fst s)"

lemma drop_ok: "buf_mem_ok b \<Longrightarrow> buf_mem_ok (b\<lparr>contents := drop k (contents b)\<rparr>)"
  by (auto simp: buf_mem_ok_def)

lemma mem_read_eq:
  assumes "ptr bio = Some b" "k \<le> INT_MAX"
  shows "mem_read k (bio, w) =
    (if k > 0 \<and> contents b \<noteq> [] then
       Some ((int (min k (length (contents b))), take k (contents b)),
         (BIO_clear_retry_flags bio)\<lparr>ptr := Some (b\<lparr>contents := drop k (contents b),
            passed := if rdonly bio then passed b @ take k (contents b) else passed b\<rparr>)\<rparr>, w)
     else if contents b = [] then
       Some ((num bio, []), if num bio \<noteq> 0 then BIO_set_retry_read (BIO_clear_retry_flags bio) else BIO_clear_retry_flags bio, w)
     else Some ((0, []), BIO_clear_retry_flags bio, w))"
proof -
  define ret where "ret = (if length (contents b) < INT_MAX \<and> int k > int_of_size (length (contents b))
                  then int (length (contents b)) else int k)"
  have ret: "ret = int (min k (length (contents b)))"
  proof (cases "length (contents b) < INT_MAX")
    case True
    then have "int_of_size (length (contents b)) = int (length (contents b))"
      by (intro int_of_size_eq) simp
    with True show ?thesis by (simp add: ret_def min_def)
  next
    case False
    with assms(2) have "k \<le> length (contents b)" by linarith
    with False show ?thesis by (simp add: ret_def min_absorb1)
  qed
  have d: "take (min k (length (contents b))) (contents b) = take k (contents b)"
    "drop (min k (length (contents b))) (contents b) = drop k (contents b)"
    by (simp_all add: min_def)
  have "mem_read k (bio, w) =
     (if ret > 0 then
        Some ((ret, take (nat ret) (contents b)), (BIO_clear_retry_flags bio)\<lparr>ptr := Some (
          let b' = b\<lparr>contents := drop (nat ret) (contents b)\<rparr>
          in if rdonly bio then b'\<lparr>passed := passed b' @ take (nat ret) (contents b)\<rparr> else b')\<rparr>, w)
      else if length (contents b) = 0 then
        Some ((num bio, []), if num bio \<noteq> 0 then BIO_set_retry_read (BIO_clear_retry_flags bio) else BIO_clear_retry_flags bio, w)
      else Some ((ret, []), BIO_clear_retry_flags bio, w))"
    unfolding mem_read_def ret_def by (simp add: assms(1) Let_def del: One_nat_def)
  then show ?thesis
    unfolding ret by (auto simp: d Let_def)
qed

interpretation mem: bio_source mem_inv mem_pending mem_at_end "mem_method alloc" for alloc
proof unfold_locales
  fix s :: "buf_mem bio \<times> unit" and k
  assume s: "mem_inv s" and k: "k \<le> INT_MAX"
  obtain bio w where b: "s = (bio, w)" by (cases s)
  obtain b where p: "ptr bio = Some b" "bio_init bio" "num bio \<le> 0"
    "rdonly bio \<or> (buf_mem_ok b \<and> length (contents b) \<le> INT_MAX)"
    using s b by (auto simp: mem_inv_def split: option.splits)
  show "\<exists>s'. BIO_read (mem_method alloc) (int k) s = Some ((if k = 0 then 0 else if mem_pending s = [] then mem_at_end s
             else int (min k (length (mem_pending s))), take k (mem_pending s)), s') \<and>
           mem_inv s' \<and> mem_pending s' = drop k (mem_pending s) \<and> mem_at_end s' = mem_at_end s"
    using p k drop_ok [of b k] mem_read_eq [OF p(1) k, of w]
    by (auto simp: b BIO_read_def mem_method_def method_fun_def mem_inv_def mem_pending_def mem_at_end_def buf_mem_ok_def)
next
  show "mem_at_end s \<le> 0" if "mem_inv s" for s
    using that by (auto simp: mem_inv_def mem_at_end_def)
qed

lemma mem_write_spec:
  assumes "ptr bio = Some b" "\<not> rdonly bio" "buf_mem_ok b" "length (contents b) \<le> INT_MAX" "xs \<noteq> []"
  shows "\<exists>r b' bio'. mem_write alloc xs (bio, ()) = Some (r, bio', ()) \<and> ptr bio' = Some b' \<and> buf_mem_ok b' \<and>
    bio_init bio' = bio_init bio \<and> num bio' = num bio \<and> \<not> rdonly bio' \<and>
    (if r = -1 then b' = b \<and> (length (contents b) + length xs > INT_MAX \<or> (\<exists>n. \<not> alloc n))
     else r = int (length xs) \<and> contents b' = contents b @ xs \<and> length (contents b') \<le> INT_MAX)"
proof (cases "length (contents b) + length xs > INT_MAX")
  case True
  then show ?thesis
    using assms int_of_size_eq [OF assms(4)] by (simp add: mem_write_def Let_def)
next
  case False
  define n where "n = length (contents b) + length xs"
  have n: "n < size_bound" "n < 0xBFFFFFFFFFFFFFFD" using False by (auto simp: n_def)
  obtain r b' where g: "BUF_MEM_grow alloc n b = (r, b')" by fastforce
  have e: "mem_write alloc xs (bio, ()) =
      (if r \<noteq> n then Some (-1, (BIO_clear_retry_flags bio)\<lparr>ptr := Some b'\<rparr>, ())
       else (case store_at (length (contents b)) xs (contents b') of
           None \<Rightarrow> None
         | Some stored \<Rightarrow> Some (int (length xs), (BIO_clear_retry_flags bio)\<lparr>ptr := Some (b'\<lparr>contents := stored\<rparr>)\<rparr>, ())))"
    using assms(1,2) False int_of_size_eq [OF assms(4)] g n
    by (simp add: mem_write_def Let_def BUF_MEM_grow_clean_def n_def nat_plus_as_int [symmetric] nat_int_add)
  have ok: "buf_mem_ok b'" "r = n \<Longrightarrow> contents b' = take n (contents b) @ replicate (n - length (contents b)) 0"
    "r \<noteq> n \<Longrightarrow> b' = b \<and> (\<exists>n. \<not> alloc n)"
    using grow_ok [OF assms(3) n(1), of alloc] g n assms(5) by (auto simp: n_def)
  show ?thesis
  proof (cases "r = n")
    case True
    then have c: "contents b' = contents b @ replicate (length xs) 0"
      using ok(2) by (simp add: n_def)
    then have "store_at (length (contents b)) xs (contents b') = Some (contents b @ xs)"
      using write_at_append [of "contents b" "length (contents b)" "replicate (length xs) 0" xs "[]"] by (simp add: store_at_def)
    then have "mem_write alloc xs (bio, ()) = Some (int (length xs),
        (BIO_clear_retry_flags bio)\<lparr>ptr := Some (b'\<lparr>contents := contents b @ xs\<rparr>)\<rparr>, ())"
      using True by (simp add: e)
    moreover have "buf_mem_ok (b'\<lparr>contents := contents b @ xs\<rparr>)"
      using ok(1) c by (simp add: buf_mem_ok_def)
    ultimately show ?thesis
      using False assms(2)
      by (intro exI [of _ "int (length xs)"] exI [of _ "b'\<lparr>contents := contents b @ xs\<rparr>"]
            exI [of _ "(BIO_clear_retry_flags bio)\<lparr>ptr := Some (b'\<lparr>contents := contents b @ xs\<rparr>)\<rparr>"]) simp
  next
    case False
    with e ok show ?thesis
      using assms(2)
      by (intro exI [of _ "-1"] exI [of _ b'] exI [of _ "(BIO_clear_retry_flags bio)\<lparr>ptr := Some b'\<rparr>"]) simp
  qed
qed

definition mem_room :: "buf_mem bio \<times> unit \<Rightarrow> nat" where
  "mem_room s = (if rdonly (fst s) then 0 else INT_MAX - length (mem_pending s))"

lemma mem_BIO_write:
  assumes "mem_inv s" "length xs \<le> INT_MAX"
  shows "\<exists>n s'. BIO_write (mem_method alloc) xs s = Some (n, s') \<and> mem_inv s' \<and> n \<le> int (length xs) \<and>
    mem_pending s' = mem_pending s @ take (nat n) xs \<and> mem_room s' = mem_room s - nat n \<and>
    ((\<forall>n. alloc n) \<and> xs \<noteq> [] \<and> length xs \<le> mem_room s \<longrightarrow> n = int (length xs))"
proof -
  obtain bio b where b: "s = (bio, ())" "ptr bio = Some b" "bio_init bio" "num bio \<le> 0"
    "rdonly bio \<or> (buf_mem_ok b \<and> length (contents b) \<le> INT_MAX)"
    using assms(1) by (cases s) (auto simp: mem_inv_def split: option.splits)
  consider (none) "xs = []" | (rdonly) "rdonly bio" "xs \<noteq> []" | (writes) "\<not> rdonly bio" "xs \<noteq> []" by blast
  then show ?thesis
  proof cases
    case writes
    obtain r b' bio' where w: "mem_write alloc xs (bio, ()) = Some (r, bio', ())" "ptr bio' = Some b'" "buf_mem_ok b'"
      "bio_init bio' = bio_init bio" "num bio' = num bio" "\<not> rdonly bio'"
      "if r = -1 then b' = b \<and> (length (contents b) + length xs > INT_MAX \<or> (\<exists>n. \<not> alloc n))
       else r = int (length xs) \<and> contents b' = contents b @ xs \<and> length (contents b') \<le> INT_MAX"
      using mem_write_spec [OF b(2) writes(1) _ _ writes(2), of alloc] b(5) writes(1) by blast
    show ?thesis
      using w b writes(1,2)
      by (cases "r = -1")
        (auto simp: BIO_write_def mem_method_def method_fun_def mem_inv_def mem_pending_def mem_room_def)
  qed (use b assms in \<open>auto simp: BIO_write_def mem_method_def method_fun_def mem_inv_def mem_pending_def mem_room_def mem_write_def\<close>)
qed

interpretation mem: byte_stream mem_inv mem_pending mem_at_end "BIO_read (mem_method alloc)" "BIO_write (mem_method alloc)" for alloc
proof unfold_locales
  fix s :: "buf_mem bio \<times> unit" and xs :: "u8 list"
  assume s: "mem_inv s" "length xs \<le> INT_MAX"
  from mem_BIO_write [OF s, of alloc]
  show "\<exists>n s'. BIO_write (mem_method alloc) xs s = Some (n, s') \<and> mem_inv s' \<and> n \<le> int (length xs) \<and>
    mem_pending s' = mem_pending s @ take (nat n) xs" by blast
qed

interpretation mem_sink: bio_sink mem_inv mem_pending mem_room "mem_method (\<lambda>_. True)"
proof unfold_locales
  fix s :: "buf_mem bio \<times> unit" and xs :: "u8 list"
  assume s: "mem_inv s" "xs \<noteq> []" "length xs \<le> INT_MAX" "length xs \<le> mem_room s"
  from mem_BIO_write [OF s(1,3), of "\<lambda>_. True"] s(2,4)
  show "\<exists>n s'. BIO_write (mem_method (\<lambda>_. True)) xs s = Some (n, s') \<and> mem_inv s' \<and> 0 < n \<and> n \<le> int (length xs) \<and>
        mem_pending s' = mem_pending s @ take (nat n) xs \<and> mem_room s' = mem_room s - nat n" by fastforce
qed

section \<open>New BIOs\<close>

lemma new_mem:
  assumes "BIO_new alloc (BIO_s_mem alloc) = Some bio"
  shows "mem_inv (bio, ()) \<and> mem_pending (bio, ()) = [] \<and> mem_room (bio, ()) = INT_MAX \<and> mem_at_end (bio, ()) = -1"
  using assms new_ok [of alloc]
  by (auto simp: BIO_new_def BIO_s_mem_def mem_method_def method_fun_def mem_new_def mem_inv_def mem_pending_def
      mem_room_def mem_at_end_def rdonly_def split: if_splits option.splits)

text \<open>A read-only BIO keeps the bytes it has handed out.\<close>

definition ro_inv :: "u8 list \<Rightarrow> buf_mem bio \<times> unit \<Rightarrow> bool" where
  "ro_inv xs s \<longleftrightarrow> bio_init (fst s) \<and> rdonly (fst s) \<and> num (fst s) = 0 \<and>
     (\<exists>b. ptr (fst s) = Some b \<and> has_data b \<and> passed b @ contents b = xs \<and> max_size b = length xs)"

lemma new_mem_buf:
  assumes "BIO_new_mem_buf alloc (Some xs) (int (length xs)) = Some (Some bio)"
  shows "ro_inv xs (bio, ()) \<and> mem_pending (bio, ()) = xs"
  using assms new_ok [of alloc]
  by (auto simp: BIO_new_mem_buf_def BIO_new_def BIO_s_mem_def mem_method_def method_fun_def mem_new_def ro_inv_def
      mem_pending_def rdonly_def buf_mem_ok_def split: if_splits option.splits)

lemma ro_inv_inv: "ro_inv xs s \<Longrightarrow> mem_inv s"
  by (auto simp: ro_inv_def mem_inv_def)

interpretation ro: byte_stream "ro_inv xs" mem_pending mem_at_end "BIO_read (mem_method alloc)" "BIO_write (mem_method alloc)"
  for xs alloc
proof unfold_locales
  fix s :: "buf_mem bio \<times> unit" and k
  assume s: "ro_inv xs s" and k: "k \<le> INT_MAX"
  obtain bio b where b: "s = (bio, ())" "ptr bio = Some b" using s by (cases s) (auto simp: ro_inv_def)
  have p: "mem_pending (bio, ()) = contents b" using b by (simp add: mem_pending_def)
  obtain s' where s': "BIO_read (mem_method alloc) (int k) s = Some ((if k = 0 then 0 else if mem_pending s = [] then mem_at_end s
             else int (min k (length (mem_pending s))), take k (mem_pending s)), s')" "mem_inv s'"
       "mem_pending s' = drop k (mem_pending s)" "mem_at_end s' = mem_at_end s"
    using mem.rd [OF ro_inv_inv [OF s] k, of alloc] by blast
  have "ro_inv xs s'"
    using s s'(1) mem_read_eq [OF b(2) k, of "()"]
    by (auto simp: b p ro_inv_def BIO_read_def mem_method_def method_fun_def split: if_splits)
  with s' show "\<exists>s'. BIO_read (mem_method alloc) (int k) s = Some ((if k = 0 then 0 else if mem_pending s = [] then mem_at_end s
             else int (min k (length (mem_pending s))), take k (mem_pending s)), s') \<and>
           ro_inv xs s' \<and> mem_pending s' = drop k (mem_pending s) \<and> mem_at_end s' = mem_at_end s" by blast
next
  fix s :: "buf_mem bio \<times> unit" and ys :: "u8 list"
  assume s: "ro_inv xs s" and k: "length ys \<le> INT_MAX"
  then show "\<exists>n s'. BIO_write (mem_method alloc) ys s = Some (n, s') \<and> ro_inv xs s' \<and> n \<le> int (length ys) \<and>
      mem_pending s' = mem_pending s @ take (nat n) ys"
    by (cases s) (auto simp: ro_inv_def BIO_write_def mem_method_def method_fun_def mem_write_def)
qed (auto simp: ro_inv_def mem_at_end_def)


lemma ro_reset:
  assumes "ro_inv xs s"
  shows "\<exists>s'. BIO_reset (mem_method alloc) s = Some (1, s') \<and> ro_inv xs s' \<and> mem_pending s' = xs"
proof -
  obtain bio b where b: "s = (bio, ())" "ptr bio = Some b" "has_data b" "passed b @ contents b = xs" "max_size b = length xs"
    "rdonly bio" "bio_init bio" "num bio = 0"
    using assms by (cases s) (auto simp: ro_inv_def)
  then have "length (passed b) - (max_size b - length (contents b)) = 0" by auto
  then have "BIO_reset (mem_method alloc) s = Some (1, bio\<lparr>ptr := Some (b\<lparr>passed := [], contents := xs\<rparr>)\<rparr>, ())"
    using b by (simp add: BIO_reset_def BIO_ctrl_def mem_method_def method_fun_def mem_ctrl_def mem_reset_def Let_def)
  then show ?thesis using b by (auto simp: ro_inv_def mem_pending_def)
qed

section \<open>Properties\<close>

text \<open>
  C38: a memory BIO is a pipe.  After any sequence of writes and reads on a new memory BIO the
  bytes read are, in order, a prefix of the bytes the writes accepted, and the rest are what
  \<open>BIO_mem_contents\<close> shows; no call fails an assertion or leaves the buffer.\<close>

theorem mem_bio_pipe:
  assumes "BIO_new alloc (BIO_s_mem alloc) = Some bio" "list_all event_ok evs"
  shows "\<exists>sent got s. exchange (BIO_write (BIO_s_mem alloc)) (BIO_read (BIO_s_mem alloc)) evs (bio, ()) = Some ((sent, got), s) \<and>
    (\<exists>rest. BIO_mem_contents (fst s) = Some rest \<and> sent = got @ rest)"
proof -
  have b: "mem_inv (bio, ())" "mem_pending (bio, ()) = []" using new_mem [OF assms(1)] by simp_all
  obtain sent got s where s: "exchange (BIO_write (BIO_s_mem alloc)) (BIO_read (BIO_s_mem alloc)) evs (bio, ()) = Some ((sent, got), s)"
      "mem_inv s" "sent = got @ mem_pending s"
    using mem.fifo [OF b assms(2), of alloc] unfolding BIO_s_mem_def by blast
  have "BIO_mem_contents (fst s) = Some (mem_pending s)"
    using s(2) by (cases s) (auto simp: mem_inv_def mem_pending_def BIO_mem_contents_def split: option.splits)
  with s show ?thesis by blast
qed

lemma mem_bio_pipe_witness:
  "\<exists>sent got s. exchange (BIO_write (BIO_s_mem (\<lambda>_. True))) (BIO_read (BIO_s_mem (\<lambda>_. True)))
      [Write [1, 2, 3], Read 2, Write [4], Read 5]
      (the (BIO_new (\<lambda>_. True) (BIO_s_mem (\<lambda>_. True))), ()) = Some ((sent, got), s) \<and>
    (\<exists>rest. BIO_mem_contents (fst s) = Some rest \<and> sent = got @ rest)"
  by (rule mem_bio_pipe)
    (simp_all add: BIO_new_def BIO_s_mem_def mem_method_def method_fun_def mem_new_def BUF_MEM_new_def)

lemma exchange_reads: "exchange wr rd (map Read ks) s = Some ((sent, got), s') \<Longrightarrow> sent = []"
  by (induction ks arbitrary: s got sent) (auto split: bind_splits)

text \<open>
  A read-only memory BIO can be read again.  Any sequence of reads hands out the bytes of the
  buffer in order, and \<open>BIO_reset\<close> then takes the BIO back to the start of the buffer.\<close>

theorem mem_buf_reset:
  assumes "BIO_new_mem_buf alloc (Some xs) (int (length xs)) = Some (Some bio)" "list_all (\<lambda>k. k \<le> INT_MAX) ks"
  shows "\<exists>got s s'. exchange (BIO_write (BIO_s_mem alloc)) (BIO_read (BIO_s_mem alloc)) (map Read ks) (bio, ()) = Some (([], got), s) \<and>
    got = take (length got) xs \<and> BIO_reset (BIO_s_mem alloc) s = Some (1, s') \<and> BIO_mem_contents (fst s') = Some xs"
proof -
  have b: "ro_inv xs (bio, ())" "mem_pending (bio, ()) = xs" using new_mem_buf [OF assms(1)] by simp_all
  have "list_all event_ok (map Read ks)" using assms(2) by (simp add: list_all_iff)
  then obtain sent got s where s: "exchange (BIO_write (mem_method alloc)) (BIO_read (mem_method alloc)) (map Read ks) (bio, ()) = Some ((sent, got), s)"
      "ro_inv xs s" "xs @ sent = got @ mem_pending s"
    using ro.in_order [OF b(1), of "map Read ks" alloc] b(2) by auto
  have sent: "sent = []" using exchange_reads [OF s(1)] .
  obtain s' where "BIO_reset (mem_method alloc) s = Some (1, s')" "ro_inv xs s'" "mem_pending s' = xs"
    using ro_reset [OF s(2), of alloc] by blast
  moreover from this have "BIO_mem_contents (fst s') = Some xs"
    by (auto simp: ro_inv_def mem_pending_def BIO_mem_contents_def)
  moreover have "got = take (length got) xs" using s(3) sent by simp
  ultimately show ?thesis using s(1) sent unfolding BIO_s_mem_def by blast
qed

lemma mem_buf_reset_witness:
  "\<exists>got s s'. exchange (BIO_write (BIO_s_mem (\<lambda>_. True))) (BIO_read (BIO_s_mem (\<lambda>_. True))) (map Read [2, 7])
      (the (the (BIO_new_mem_buf (\<lambda>_. True) (Some [1, 2, 3]) 3)), ()) = Some (([], got), s) \<and>
    got = take (length got) [1, 2, 3] \<and> BIO_reset (BIO_s_mem (\<lambda>_. True)) s = Some (1, s') \<and>
    BIO_mem_contents (fst s') = Some [1, 2, 3]"
  by (rule mem_buf_reset)
    (simp_all add: BIO_new_mem_buf_def BIO_new_def BIO_s_mem_def mem_method_def method_fun_def mem_new_def BUF_MEM_new_def)








end
