(* ===== verification/Bio_Pair.thy ===== *)
theory Bio_Pair
  imports Bio_Stream
begin

text \<open>
  BIO pairs (\<open>crypto/bio/pair.c\<close>): two BIOs, each with a ring buffer for what is written to it, which
  the other end reads.

  The state of an operation is the BIO it is called with and the other end; \<open>has_peer\<close> says that the
  \<open>peer\<close> pointer of a BIO is set, and it then points to the other end.  Assertions of the code and
  accesses through null pointers make the result \<open>None\<close>, as does a loop that does not end.
\<close>

record bio_bio_st =
  has_peer :: bool
  closed :: bool
  len :: nat
  offset :: nat
  size :: nat
  ring :: "u8 list option"
  request :: nat

type_synonym pair_bio = "bio_bio_st bio"
type_synonym 'a pair_io = "(bio_bio_st, pair_bio, 'a) io"

abbreviation sizeof_bio_bio_st :: nat where "sizeof_bio_bio_st \<equiv> 56"

text \<open>The state seen from the other end.\<close>

definition swap_ends :: "'a \<times> 'a \<Rightarrow> 'a \<times> 'a" where
  "swap_ends s = (snd s, fst s)"

definition bio_new :: "allocator \<Rightarrow> pair_bio \<Rightarrow> pair_bio option" where
  "bio_new alloc bio =
     (if \<not> alloc sizeof_bio_bio_st then None
      else Some (bio\<lparr>ptr := Some \<lparr>has_peer = False, closed = False, len = 0, offset = 0, size = 17 * 1024,
                                  ring = None, request = 0\<rparr>\<rparr>))"

definition bio_destroy_pair :: "unit pair_io" where
  "bio_destroy_pair s = (case s of (bio, peer_bio) \<Rightarrow> (case ptr bio of
     None \<Rightarrow> Some ((), s)
   | Some b \<Rightarrow>
       if \<not> has_peer b then Some ((), s)
       else do {
         peer_b \<leftarrow> ptr peer_bio;
         if \<not> has_peer peer_b \<or> ring peer_b = None \<or> ring b = None then None
         else Some ((),
           bio\<lparr>ptr := Some (b\<lparr>has_peer := False, len := 0, offset := 0\<rparr>), bio_init := False\<rparr>,
           peer_bio\<lparr>ptr := Some (peer_b\<lparr>has_peer := False, len := 0, offset := 0\<rparr>), bio_init := False\<rparr>)
       }))"

text \<open>\<open>bio_free\<close> releases the data of the first BIO; what is left of it is not used again.\<close>

definition bio_free :: "bool pair_io" where
  "bio_free s = do {
     b \<leftarrow> ptr (fst s);
     (_, s) \<leftarrow> (if has_peer b then bio_destroy_pair s else Some ((), s));
     Some (True, (fst s)\<lparr>ptr := None\<rparr>, snd s)
   }"

section \<open>Reading\<close>

text \<open>The loop of \<open>bio_read\<close> on the data of the writer; \<open>rest\<close> bytes are still to be read.\<close>

partial_function (option) read_loop :: "nat \<Rightarrow> bio_bio_st \<Rightarrow> (u8 list \<times> bio_bio_st) option" where
  "read_loop rest b =
     (if \<not> rest \<le> len b then None
      else let chunk = (if size_add (offset b) rest \<le> size b then rest else size_sub (size b) (offset b)) in
        if \<not> size_add (offset b) chunk \<le> size b then None
        else do {
          bytes \<leftarrow> ring b;
          out \<leftarrow> load_at (offset b) chunk bytes;
          let b = b\<lparr>len := size_sub (len b) chunk\<rparr>;
          b \<leftarrow> (if len b \<noteq> 0 then
                   let b = b\<lparr>offset := size_add (offset b) chunk\<rparr> in
                   if \<not> offset b \<le> size b then None
                   else Some (if offset b = size b then b\<lparr>offset := 0\<rparr> else b)
                 else if chunk \<noteq> rest then None
                 else Some (b\<lparr>offset := 0\<rparr>));
          if size_sub rest chunk = 0 then Some (out, b)
          else do {
            (more, b) \<leftarrow> read_loop (size_sub rest chunk) b;
            Some (out @ more, b)
          }
        })"

text \<open>\<open>bio_read\<close>; \<open>null_buf\<close> says that the caller passes a null pointer.\<close>

definition bio_read :: "bool \<Rightarrow> nat \<Rightarrow> (int \<times> u8 list) pair_io" where
  "bio_read null_buf k s = (case s of (bio, peer_bio) \<Rightarrow>
     let bio = BIO_clear_retry_flags bio in
     if \<not> bio_init bio then Some ((0, []), bio, peer_bio)
     else do {
       b \<leftarrow> ptr bio;
       peer_b \<leftarrow> (if \<not> has_peer b then None else ptr peer_bio);
       if ring peer_b = None then None
       else let peer_b = peer_b\<lparr>request := 0\<rparr> in
         if null_buf \<or> k = 0 then Some ((0, []), bio, peer_bio\<lparr>ptr := Some peer_b\<rparr>)
         else if len peer_b = 0 then
           if closed peer_b then Some ((0, []), bio, peer_bio\<lparr>ptr := Some peer_b\<rparr>)
           else Some ((-1, []), BIO_set_retry_read bio,
                  peer_bio\<lparr>ptr := Some (peer_b\<lparr>request := if k \<le> size peer_b then k else size peer_b\<rparr>)\<rparr>)
         else let k = (if len peer_b < k then len peer_b else k) in do {
           (out, peer_b) \<leftarrow> read_loop k peer_b;
           Some ((int k, out), bio, peer_bio\<lparr>ptr := Some peer_b\<rparr>)
         }
     })"

section \<open>Writing\<close>

text \<open>The loop of \<open>bio_write\<close>; \<open>xs\<close> are the bytes from \<open>buf\<close> on, of which \<open>rest\<close> are still to be written.\<close>

partial_function (option) write_loop :: "nat \<Rightarrow> u8 list \<Rightarrow> bio_bio_st \<Rightarrow> bio_bio_st option" where
  "write_loop rest xs b =
     (if \<not> size_add (len b) rest \<le> size b then None
      else let write_offset = size_add (offset b) (len b);
               write_offset = (if write_offset \<ge> size b then size_sub write_offset (size b) else write_offset);
               chunk = (if size_add write_offset rest \<le> size b then rest else size_sub (size b) write_offset) in do {
        bytes \<leftarrow> ring b;
        chunk_bytes \<leftarrow> load_at 0 chunk xs;
        bytes \<leftarrow> store_at write_offset chunk_bytes bytes;
        let b = b\<lparr>ring := Some bytes, len := size_add (len b) chunk\<rparr>;
        if \<not> len b \<le> size b then None
        else if size_sub rest chunk = 0 then Some b
        else write_loop (size_sub rest chunk) (drop chunk xs) b
      })"

text \<open>\<open>bio_write\<close> is given the \<open>num\<close> bytes at \<open>buf\<close>, or \<open>None\<close> for a null pointer.\<close>

definition bio_write :: "u8 list option \<Rightarrow> int pair_io" where
  "bio_write xs s = (case s of (bio, peer_bio) \<Rightarrow>
     let bio = BIO_clear_retry_flags bio in
     if \<not> bio_init bio \<or> xs = None \<or> xs = Some [] then Some (0, bio, peer_bio)
     else do {
       b \<leftarrow> ptr bio;
       if \<not> has_peer b \<or> ring b = None then None
       else let b = b\<lparr>request := 0\<rparr>; bio = bio\<lparr>ptr := Some b\<rparr> in
         if closed b then Some (-1, bio, peer_bio)
         else if \<not> len b \<le> size b then None
         else if len b = size b then Some (-1, BIO_set_retry_write bio, peer_bio)
         else let k = length (the xs); k = (if k > size_sub (size b) (len b) then size_sub (size b) (len b) else k) in do {
           b \<leftarrow> write_loop k (the xs) b;
           Some (int k, bio\<lparr>ptr := Some b\<rparr>, peer_bio)
         }
     })"

section \<open>Pairing\<close>

text \<open>The buffer of one end: the size asked for (0 keeps the default), and the contents that the new memory has.\<close>

definition make_buffer :: "allocator \<Rightarrow> (nat \<Rightarrow> u8 list) \<Rightarrow> nat \<Rightarrow> bio_bio_st \<Rightarrow> bool \<times> bio_bio_st" where
  "make_buffer alloc fresh writebuf_len b =
     (case ring b of
        Some _ \<Rightarrow> (True, b)
      | None \<Rightarrow>
          let b = (if writebuf_len \<noteq> 0 then b\<lparr>size := writebuf_len\<rparr> else b) in
          if \<not> alloc (size b) then (False, b)
          else (True, b\<lparr>ring := Some (fresh (size b)), len := 0, offset := 0\<rparr>))"

definition bio_make_pair :: "allocator \<Rightarrow> (nat \<Rightarrow> u8 list) \<Rightarrow> nat \<Rightarrow> nat \<Rightarrow> bool pair_io" where
  "bio_make_pair alloc fresh writebuf1_len writebuf2_len s = (case s of (bio1, bio2) \<Rightarrow> do {
     b1 \<leftarrow> ptr bio1;
     b2 \<leftarrow> ptr bio2;
     if has_peer b1 \<or> has_peer b2 then Some (False, s)
     else (case make_buffer alloc fresh writebuf1_len b1 of
         (False, b1) \<Rightarrow> Some (False, bio1\<lparr>ptr := Some b1\<rparr>, bio2)
       | (True, b1) \<Rightarrow> (case make_buffer alloc fresh writebuf2_len b2 of
             (False, b2) \<Rightarrow> Some (False, bio1\<lparr>ptr := Some b1\<rparr>, bio2\<lparr>ptr := Some b2\<rparr>)
           | (True, b2) \<Rightarrow> Some (True,
               bio1\<lparr>ptr := Some (b1\<lparr>has_peer := True, closed := False, request := 0\<rparr>), bio_init := True\<rparr>,
               bio2\<lparr>ptr := Some (b2\<lparr>has_peer := True, closed := False, request := 0\<rparr>), bio_init := True\<rparr>)))
   })"

section \<open>Control\<close>

text \<open>The pointer argument of \<open>BIO_CTRL_EOF\<close> is a BIO of a pair; \<open>long\<close> holds the sizes.\<close>

definition bio_ctrl :: "nat \<Rightarrow> int \<Rightarrow> pair_bio option \<Rightarrow> int pair_io" where
  "bio_ctrl cmd larg parg s = (case s of (bio, peer_bio) \<Rightarrow> do {
     b \<leftarrow> ptr bio;
     if cmd = BIO_C_GET_WRITE_BUF_SIZE then Some (int (size b), s)
     else if cmd = BIO_C_GET_WRITE_GUARANTEE then
       Some (if \<not> has_peer b \<or> closed b then 0 else int (size_sub (size b) (len b)), s)
     else if cmd = BIO_C_GET_READ_REQUEST then Some (int (request b), s)
     else if cmd = BIO_C_RESET_READ_REQUEST then Some (1, bio\<lparr>ptr := Some (b\<lparr>request := 0\<rparr>)\<rparr>, peer_bio)
     else if cmd = BIO_C_SHUTDOWN_WR then Some (1, bio\<lparr>ptr := Some (b\<lparr>closed := True\<rparr>)\<rparr>, peer_bio)
     else if cmd = BIO_CTRL_GET_CLOSE then Some (shutdown bio, s)
     else if cmd = BIO_CTRL_SET_CLOSE then Some (1, bio\<lparr>shutdown := sint (of_int larg :: u32)\<rparr>, peer_bio)
     else if cmd = BIO_CTRL_PENDING then
       (if has_peer b then do { peer_b \<leftarrow> ptr peer_bio; Some (int (len peer_b), s) } else Some (0, s))
     else if cmd = BIO_CTRL_WPENDING then Some (if ring b \<noteq> None then int (len b) else 0, s)
     else if cmd = BIO_CTRL_FLUSH then Some (1, s)
     else if cmd = BIO_CTRL_EOF then
       (case parg of
          Some other_bio \<Rightarrow> do { other_b \<leftarrow> ptr other_bio; Some (of_bool (len other_b = 0 \<and> closed other_b), s) }
        | None \<Rightarrow> Some (1, s))
     else Some (0, s)
   })"

definition methods_biop :: "allocator \<Rightarrow> (bio_bio_st, pair_bio, pair_bio option) bio_method_ptr" where
  "methods_biop alloc = Some \<lparr>type = 0x0413, bwrite = Some (\<lambda>xs. bio_write (Some xs)), bread = Some (bio_read False),
     bgets = None, ctrl = Some bio_ctrl, create = Some (bio_new alloc)\<rparr>"

definition bio_s_bio :: "allocator \<Rightarrow> (bio_bio_st, pair_bio, pair_bio option) bio_method_ptr" where
  "bio_s_bio alloc = methods_biop alloc"

text \<open>\<open>BIO_new_bio_pair\<close>; the two allocations of each \<open>BIO_new\<close> may succeed for one end and fail for the other.
  \<open>None\<close> within the result stands for the return value 0.\<close>

definition BIO_new_bio_pair ::
  "allocator \<Rightarrow> allocator \<Rightarrow> allocator \<Rightarrow> (nat \<Rightarrow> u8 list) \<Rightarrow> nat \<Rightarrow> nat \<Rightarrow> (pair_bio \<times> pair_bio) option option" where
  "BIO_new_bio_pair alloc1 alloc2 alloc fresh writebuf1_len writebuf2_len =
     (case (BIO_new alloc1 (bio_s_bio alloc1), BIO_new alloc2 (bio_s_bio alloc2)) of
        (Some bio1, Some bio2) \<Rightarrow> do {
          (made, s) \<leftarrow> bio_make_pair alloc fresh writebuf1_len writebuf2_len (bio1, bio2);
          if \<not> made then Some None else Some (Some s)
        }
      | _ \<Rightarrow> Some None)"

definition BIO_ctrl_get_read_request :: "allocator \<Rightarrow> int pair_io" where
  "BIO_ctrl_get_read_request alloc = BIO_ctrl (bio_s_bio alloc) BIO_C_GET_READ_REQUEST 0 None"

definition BIO_ctrl_get_write_guarantee :: "allocator \<Rightarrow> int pair_io" where
  "BIO_ctrl_get_write_guarantee alloc = BIO_ctrl (bio_s_bio alloc) BIO_C_GET_WRITE_GUARANTEE 0 None"

definition BIO_shutdown_wr :: "allocator \<Rightarrow> int pair_io" where
  "BIO_shutdown_wr alloc = BIO_ctrl (bio_s_bio alloc) BIO_C_SHUTDOWN_WR 0 None"

section \<open>The ring buffer\<close>

text \<open>The bytes that a ring holds, from the oldest on.\<close>

definition items :: "bio_bio_st \<Rightarrow> u8 list" where
  "items b = take (len b) (rotate (offset b) (the (ring b)))"

definition ring_ok :: "bio_bio_st \<Rightarrow> bool" where
  "ring_ok b \<longleftrightarrow> (\<exists>bytes. ring b = Some bytes \<and> length bytes = size b) \<and> 0 < size b \<and> 2 * size b < size_bound \<and>
     len b \<le> size b \<and> offset b < size b \<and> (len b = 0 \<longrightarrow> offset b = 0) \<and>
     request b \<le> size b \<and> (len b \<noteq> 0 \<longrightarrow> request b = 0)"

lemma length_items: "ring_ok b \<Longrightarrow> length (items b) = len b"
  by (auto simp: ring_ok_def items_def)

lemma rotate_eq: "n < length xs \<Longrightarrow> rotate n xs = drop n xs @ take n xs"
  by (simp add: rotate_drop_take)

lemma take_rotate:
  assumes "c \<le> m" "m \<le> length xs"
  shows "take (m - c) (rotate (k + c) xs) = drop c (take m (rotate k xs))"
proof (cases "c = length xs")
  case True
  with assms show ?thesis by simp
next
  case False
  then have "rotate (k + c) xs = drop c (rotate k xs) @ take c (rotate k xs)"
    using assms rotate_rotate [of c k xs] rotate_drop_take [of c "rotate k xs"] by (simp add: add.commute)
  then show ?thesis using assms by (simp add: drop_take)
qed

lemma mod_once: "a < 2 * n \<Longrightarrow> a mod n = (if a < n then a else a - n)" for a n :: nat
  by (simp add: le_mod_geq)

lemma nth_write_at:
  "off + length ys \<le> length xs \<Longrightarrow> j < length xs \<Longrightarrow>
     write_at off ys xs ! j = (if off \<le> j \<and> j < off + length ys then ys ! (j - off) else xs ! j)"
  by (auto simp: write_at_def nth_append)

text \<open>Writing after the last of the \<open>m\<close> elements of a ring.\<close>

lemma ring_append:
  assumes "k < length xs" "m + length ys \<le> length xs" "w = (k + m) mod length xs" "w + length ys \<le> length xs"
  shows "take (m + length ys) (rotate k (write_at w ys xs)) = take m (rotate k xs) @ ys"
proof (rule nth_equalityI)
  let ?n = "length xs"
  show "length (take (m + length ys) (rotate k (write_at w ys xs))) = length (take m (rotate k xs) @ ys)"
    using assms by simp
  fix i
  assume "i < length (take (m + length ys) (rotate k (write_at w ys xs)))"
  then have i: "i < m + length ys" "i < ?n" using assms by auto
  have w: "w = (if k + m < ?n then k + m else k + m - ?n)"
    unfolding assms(3) by (rule mod_once) (use assms in linarith)
  have j: "(k + i) mod ?n = (if k + i < ?n then k + i else k + i - ?n)"
    by (rule mod_once) (use assms i in linarith)
  have "take (m + length ys) (rotate k (write_at w ys xs)) ! i = write_at w ys xs ! ((k + i) mod ?n)"
    using assms i by (simp add: nth_rotate)
  also have "\<dots> = (if i < m then xs ! ((k + i) mod ?n) else ys ! (i - m))"
  proof (cases "i < m")
    case True
    then have "\<not> (w \<le> (k + i) mod ?n \<and> (k + i) mod ?n < w + length ys)"
      unfolding w j using assms(1,2) by (cases "k + m < ?n"; cases "k + i < ?n") auto
    moreover have "(k + i) mod ?n < ?n" by (rule mod_less_divisor) (use i(2) in linarith)
    ultimately show ?thesis using True assms(4) by (auto simp: nth_write_at)
  next
    case False
    then have "(k + i) mod ?n = w + (i - m)"
      using assms(1,4) i unfolding w j by (auto split: if_splits)
    moreover have "i - m < length ys" using False i by linarith
    ultimately show ?thesis using False assms(4) i(2) by (subst nth_write_at) auto
  qed
  also have "\<dots> = (take m (rotate k xs) @ ys) ! i"
    using i by (simp add: nth_append nth_rotate)
  finally show "take (m + length ys) (rotate k (write_at w ys xs)) ! i = (take m (rotate k xs) @ ys) ! i" .
qed

text \<open>The state after \<open>c\<close> bytes have been read without wrapping around.\<close>

definition advance :: "nat \<Rightarrow> bio_bio_st \<Rightarrow> bio_bio_st" where
  "advance c b = b\<lparr>len := len b - c, offset := if len b = c \<or> offset b + c = size b then 0 else offset b + c\<rparr>"

lemma advance_ok:
  assumes "ring_ok b" "0 < c" "c \<le> len b" "offset b + c \<le> size b"
  shows "ring_ok (advance c b)" "items (advance c b) = drop c (items b)"
    "take c (drop (offset b) (the (ring b))) = take c (items b)" "len (advance c b) = len b - c"
proof -
  obtain xs where xs: "ring b = Some xs" "length xs = size b" using assms(1) by (auto simp: ring_ok_def)
  have n: "offset b < length xs" "len b \<le> length xs" using assms(1) xs by (auto simp: ring_ok_def)
  show "ring_ok (advance c b)" using assms by (auto simp: ring_ok_def advance_def)
  show "len (advance c b) = len b - c" by (simp add: advance_def)
  show "take c (drop (offset b) (the (ring b))) = take c (items b)"
    using xs n assms(3,4) by (simp add: items_def rotate_eq min_absorb1)
  have "items (advance c b) = take (len b - c) (rotate (offset b + c) xs)"
    using xs by (auto simp: items_def advance_def)
  also have "\<dots> = drop c (items b)"
    using take_rotate [OF assms(3) n(2), of "offset b"] xs by (simp add: items_def)
  finally show "items (advance c b) = drop c (items b)" .
qed

text \<open>What reading and writing leave alone.\<close>

definition same_end :: "bio_bio_st \<Rightarrow> bio_bio_st \<Rightarrow> bool" where
  "same_end b b' \<longleftrightarrow> has_peer b' = has_peer b \<and> closed b' = closed b \<and> size b' = size b \<and> request b' = request b"

lemma same_end_trans: "same_end a b \<Longrightarrow> same_end b c \<Longrightarrow> same_end a c"
  and same_end_advance: "same_end e (advance n e)"
  by (simp_all add: same_end_def advance_def)

lemma read_loop_step:
  assumes "ring_ok b" "0 < rest" "rest \<le> len b" "c = (if offset b + rest \<le> size b then rest else size b - offset b)"
  shows "read_loop rest b =
    (if rest - c = 0 then Some (take c (items b), advance c b)
     else do { (more, b') \<leftarrow> read_loop (rest - c) (advance c b); Some (take c (items b) @ more, b') })"
    and "0 < c" "c \<le> rest" "offset b + c \<le> size b"
proof -
  have b: "offset b < size b" "2 * size b < size_bound" "len b \<le> size b" using assms(1) by (simp_all add: ring_ok_def)
  obtain bytes where bytes: "ring b = Some bytes" using assms(1) by (auto simp: ring_ok_def)
  show c: "0 < c" "c \<le> rest" "offset b + c \<le> size b" using assms b by (auto split: if_splits)
  have chunk: "(if size_add (offset b) rest \<le> size b then rest else size_sub (size b) (offset b)) = c"
    unfolding assms(4) using assms(3) b by (subst size_add_eq; simp)
  have sz: "size_add (offset b) c = offset b + c" "size_sub (len b) c = len b - c" "size_sub rest c = rest - c"
    using c assms(3) b by simp_all
  have "length bytes = size b" using assms(1) bytes by (auto simp: ring_ok_def)
  then have out: "load_at (offset b) c bytes = Some (take c (items b))"
    using advance_ok(3) [OF assms(1) c(1) _ c(3)] c(2,3) assms(3) bytes by (simp add: load_at_def)
  have adv: "(if len b - c \<noteq> 0 then
       let b' = b\<lparr>len := len b - c, offset := offset b + c\<rparr> in
       if \<not> offset b' \<le> size b' then None else Some (if offset b' = size b' then b'\<lparr>offset := 0\<rparr> else b')
     else if c \<noteq> rest then None else Some (b\<lparr>len := len b - c, offset := 0\<rparr>)) = Some (advance c b)"
    using c assms(3) by (auto simp: advance_def Let_def)
  have "read_loop rest b =
      do { b' \<leftarrow> (if len b - c \<noteq> 0 then
             let b' = b\<lparr>len := len b - c, offset := offset b + c\<rparr> in
             if \<not> offset b' \<le> size b' then None else Some (if offset b' = size b' then b'\<lparr>offset := 0\<rparr> else b')
           else if c \<noteq> rest then None else Some (b\<lparr>len := len b - c, offset := 0\<rparr>));
           if rest - c = 0 then Some (take c (items b), b')
           else do { (more, b') \<leftarrow> read_loop (rest - c) b'; Some (take c (items b) @ more, b') } }"
    by (subst read_loop.simps, unfold chunk) (use assms(3) c(3) bytes in \<open>simp add: sz out Let_def\<close>)
  then show "read_loop rest b =
    (if rest - c = 0 then Some (take c (items b), advance c b)
     else do { (more, b') \<leftarrow> read_loop (rest - c) (advance c b); Some (take c (items b) @ more, b') })"
    unfolding adv by simp
qed

text \<open>One or two iterations.\<close>

lemma read_loop_ok:
  assumes "ring_ok b" "0 < rest" "rest \<le> len b"
  shows "\<exists>b'. read_loop rest b = Some (take rest (items b), b') \<and> ring_ok b' \<and> items b' = drop rest (items b) \<and> same_end b b'"
proof -
  define c where "c = (if offset b + rest \<le> size b then rest else size b - offset b)"
  note step = read_loop_step [OF assms c_def]
  have "c \<le> len b" using step(3) assms(3) by simp
  note adv = advance_ok [OF assms(1) step(2) this step(4)]
  show ?thesis
  proof (cases "rest - c = 0")
    case True
    then have "c = rest" using step(3) by simp
    then show ?thesis using step(1) adv same_end_advance by auto
  next
    case False
    then have r: "0 < rest - c" "rest - c \<le> len (advance c b)" and c: "c = size b - offset b"
      using assms(3) adv(4) by (auto simp: c_def split: if_splits)
    have "offset b \<le> size b" "len b \<le> size b" using assms(1) by (simp_all add: ring_ok_def)
    then have "offset (advance c b) + (rest - c) \<le> size (advance c b)"
      using c assms(3) by (simp add: advance_def)
    then have c2: "rest - c = (if offset (advance c b) + (rest - c) \<le> size (advance c b) then rest - c
        else size (advance c b) - offset (advance c b))" by simp
    note step2 = read_loop_step [OF adv(1) r c2]
    note adv2 = advance_ok [OF adv(1) r step2(4)]
    have "take c (items b) @ take (rest - c) (items (advance c b)) = take rest (items b)"
      unfolding adv(2) using step(3) by (metis le_add_diff_inverse take_add)
    then have "read_loop rest b = Some (take rest (items b), advance (rest - c) (advance c b))"
      using False unfolding step(1) step2(1) by simp
    moreover have "items (advance (rest - c) (advance c b)) = drop rest (items b)"
      using adv2(2) adv(2) step(3) by simp
    ultimately show ?thesis using adv2(1) same_end_trans [OF same_end_advance same_end_advance] by blast
  qed
qed

text \<open>The state after bytes have been written without wrapping around.\<close>

definition extend_ring :: "u8 list \<Rightarrow> bio_bio_st \<Rightarrow> bio_bio_st" where
  "extend_ring ys b = b\<lparr>ring := Some (write_at ((offset b + len b) mod size b) ys (the (ring b))), len := len b + length ys\<rparr>"

lemma extend_ring_ok:
  assumes "ring_ok b" "request b = 0" "len b + length ys \<le> size b" "(offset b + len b) mod size b + length ys \<le> size b"
    and "ys \<noteq> []"
  shows "ring_ok (extend_ring ys b)" "items (extend_ring ys b) = items b @ ys" "same_end b (extend_ring ys b)"
proof -
  obtain xs where xs: "ring b = Some xs" "length xs = size b" using assms(1) by (auto simp: ring_ok_def)
  have "offset b < size b" using assms(1) by (simp add: ring_ok_def)
  then show "items (extend_ring ys b) = items b @ ys"
    using ring_append [of "offset b" xs "len b" ys "(offset b + len b) mod size b"] assms(3,4) xs
    by (simp add: items_def extend_ring_def)
  show "ring_ok (extend_ring ys b)" using assms xs by (simp add: ring_ok_def extend_ring_def)
  show "same_end b (extend_ring ys b)" by (simp add: same_end_def extend_ring_def)
qed

lemma write_loop_step:
  assumes "ring_ok b" "0 < rest" "len b + rest \<le> size b" "rest \<le> length xs"
    and "w = (offset b + len b) mod size b" "c = (if w + rest \<le> size b then rest else size b - w)"
  shows "write_loop rest xs b =
    (if rest - c = 0 then Some (extend_ring (take c xs) b) else write_loop (rest - c) (drop c xs) (extend_ring (take c xs) b))"
    and "0 < c" "c \<le> rest" "w + c \<le> size b"
proof -
  have b: "offset b < size b" "2 * size b < size_bound" "len b \<le> size b" using assms(1) by (simp_all add: ring_ok_def)
  obtain bytes where bytes: "ring b = Some bytes" using assms(1) by (auto simp: ring_ok_def)
  have w: "w < size b" unfolding assms(5) by (rule mod_less_divisor) (use b in linarith)
  then show c: "0 < c" "c \<le> rest" "w + c \<le> size b" using assms(2,6) by (auto split: if_splits)
  have "w = (if offset b + len b < size b then offset b + len b else offset b + len b - size b)"
    unfolding assms(5) by (rule mod_once) (use b in linarith)
  moreover have "size_add (offset b) (len b) = offset b + len b" using b by simp
  moreover have "size_sub (offset b + len b) (size b) = offset b + len b - size b" if "size b \<le> offset b + len b"
    using b that by simp
  ultimately have off: "(if size_add (offset b) (len b) \<ge> size b then size_sub (size_add (offset b) (len b)) (size b)
      else size_add (offset b) (len b)) = w" by auto
  have chunk: "(if size_add w rest \<le> size b then rest else size_sub (size b) w) = c"
    unfolding assms(6) using assms(3) b w by (subst size_add_eq; simp)
  have sz: "size_add (len b) rest = len b + rest" "size_add (len b) c = len b + c" "size_sub rest c = rest - c"
    using c assms(3) b by simp_all
  have l: "length (take c xs) = c" using c assms(4) by simp
  have "length bytes = size b" using assms(1) bytes by (auto simp: ring_ok_def)
  then have mem: "load_at 0 c xs = Some (take c xs)" "store_at w (take c xs) bytes = Some (write_at w (take c xs) bytes)"
    using c assms(4) l by (simp_all add: load_at_def store_at_def)
  from l have ext: "b\<lparr>ring := Some (write_at w (take c xs) bytes), len := len b + c\<rparr> = extend_ring (take c xs) b"
    by (simp add: extend_ring_def assms(5) bytes)
  have "write_loop rest xs b = (let b' = b\<lparr>ring := Some (write_at w (take c xs) bytes), len := len b + c\<rparr> in
      if \<not> len b' \<le> size b' then None
      else if rest - c = 0 then Some b' else write_loop (rest - c) (drop c xs) b')"
    by (subst write_loop.simps, unfold Let_def off, unfold chunk) (use assms(3) bytes in \<open>simp add: sz mem\<close>)
  then show "write_loop rest xs b =
    (if rest - c = 0 then Some (extend_ring (take c xs) b) else write_loop (rest - c) (drop c xs) (extend_ring (take c xs) b))"
    unfolding Let_def ext using c assms(3,4) by (simp add: extend_ring_def)
qed

lemma write_loop_ok:
  assumes "ring_ok b" "request b = 0" "0 < rest" "len b + rest \<le> size b" "rest \<le> length xs"
  shows "\<exists>b'. write_loop rest xs b = Some b' \<and> ring_ok b' \<and> items b' = items b @ take rest xs \<and> same_end b b'"
proof -
  define w where "w = (offset b + len b) mod size b"
  define c where "c = (if w + rest \<le> size b then rest else size b - w)"
  note step = write_loop_step [OF assms(1,3,4,5) w_def c_def]
  have l: "length (take c xs) = c" using step(3) assms(5) by simp
  have "len b + length (take c xs) \<le> size b" "w + length (take c xs) \<le> size b" "take c xs \<noteq> []"
    using l step(2-4) assms(4,5) by auto
  note ext = extend_ring_ok [OF assms(1,2) this(1) this(2) [unfolded w_def] this(3)]
  show ?thesis
  proof (cases "rest - c = 0")
    case True
    then have "c = rest" using step(3) by simp
    then show ?thesis using step(1) ext by auto
  next
    case False
    let ?b = "extend_ring (take c xs) b"
    have c: "c = size b - w" "w < size b" using False step(2) by (auto simp: c_def split: if_splits)
    have req: "request ?b = 0" and len: "len ?b = len b + c" and size: "size ?b = size b" "offset ?b = offset b"
      using assms(2) l by (simp_all add: extend_ring_def)
    have "(offset ?b + len ?b) mod size ?b = (w + c) mod size b"
      unfolding len size w_def by (simp add: mod_simps add.assoc)
    then have w2: "0 = (offset ?b + len ?b) mod size ?b" using c by simp
    have r: "0 < rest - c" "len ?b + (rest - c) \<le> size ?b" "rest - c \<le> length (drop c xs)"
      using False assms(4,5) step(3) len size by auto
    have c2: "rest - c = (if 0 + (rest - c) \<le> size ?b then rest - c else size ?b - 0)"
    proof -
      have "rest - c \<le> size b" using assms(4) by linarith
      then show ?thesis using size by simp
    qed
    note step2 = write_loop_step [OF ext(1) r w2 c2]
    have l2: "length (take (rest - c) (drop c xs)) = rest - c" using r by simp
    have "len ?b + length (take (rest - c) (drop c xs)) \<le> size ?b" "take (rest - c) (drop c xs) \<noteq> []"
      "(offset ?b + len ?b) mod size ?b + length (take (rest - c) (drop c xs)) \<le> size ?b"
      using r l2 w2 step2(4) by auto
    note ext2 = extend_ring_ok [OF ext(1) req this(1,3,2)]
    have "take c xs @ take (rest - c) (drop c xs) = take rest xs"
      using step(3) by (metis le_add_diff_inverse take_add)
    then have "items (extend_ring (take (rest - c) (drop c xs)) ?b) = items b @ take rest xs"
      using ext2(2) ext(2) by simp
    moreover have "write_loop rest xs b = Some (extend_ring (take (rest - c) (drop c xs)) ?b)"
      using False unfolding step(1) step2(1) by simp
    ultimately show ?thesis using ext2(1) same_end_trans [OF ext(3) ext2(3)] by blast
  qed
qed

section \<open>Connected pairs\<close>

definition pair_ok :: "pair_bio \<times> pair_bio \<Rightarrow> bool" where
  "pair_ok s \<longleftrightarrow> (\<exists>b pb. ptr (fst s) = Some b \<and> ptr (snd s) = Some pb \<and> bio_init (fst s) \<and> bio_init (snd s) \<and>
     has_peer b \<and> has_peer pb \<and> ring_ok b \<and> ring_ok pb)"

text \<open>What the first end can read, and what it gets when there is nothing.\<close>

definition incoming :: "pair_bio \<times> pair_bio \<Rightarrow> u8 list" where
  "incoming s = (case ptr (snd s) of None \<Rightarrow> [] | Some pb \<Rightarrow> items pb)"

definition end_value :: "pair_bio \<times> pair_bio \<Rightarrow> int" where
  "end_value s = (case ptr (snd s) of None \<Rightarrow> 0 | Some pb \<Rightarrow> if closed pb then 0 else -1)"

lemma items_Nil: "ring_ok b \<Longrightarrow> items b = [] \<longleftrightarrow> len b = 0"
  using length_items [of b] by auto

lemma items_request: "items (b\<lparr>request := r\<rparr>) = items b"
  by (simp add: items_def)

lemma bio_read_ok:
  assumes "pair_ok s"
  shows "\<exists>s'. bio_read False k s = Some ((if k = 0 then 0 else if incoming s = [] then end_value s
             else int (min k (length (incoming s))), take k (incoming s)), s') \<and>
      pair_ok s' \<and> incoming s' = drop k (incoming s) \<and> end_value s' = end_value s \<and> items (the (ptr (fst s'))) = items (the (ptr (fst s))) \<and>
      request (the (ptr (snd s'))) = (if k \<noteq> 0 \<and> incoming s = [] \<and> end_value s \<noteq> 0 then min k (size (the (ptr (snd s)))) else 0)"
proof -
  obtain bio peer b pb where s: "s = (bio, peer)" "ptr bio = Some b" "ptr peer = Some pb" "bio_init bio" "bio_init peer"
     "has_peer b" "has_peer pb" "ring_ok b" "ring_ok pb"
    using assms by (cases s) (auto simp: pair_ok_def)
  define p0 where "p0 = pb\<lparr>request := 0\<rparr>"
  have p0: "ring_ok p0" "items p0 = items pb" "closed p0 = closed pb" "has_peer p0" "len p0 = len pb" "request p0 = 0" "size p0 = size pb"
    using s by (auto simp: p0_def ring_ok_def items_def)
  have ne: "ring pb \<noteq> None" using s(9) by (auto simp: ring_ok_def)
  have eq: "bio_read False k (bio, peer) =
     (let bio = BIO_clear_retry_flags bio in
       if k = 0 then Some ((0, []), bio, peer\<lparr>ptr := Some p0\<rparr>)
       else if len pb = 0 then
           if closed pb then Some ((0, []), bio, peer\<lparr>ptr := Some p0\<rparr>)
           else Some ((-1, []), BIO_set_retry_read bio, peer\<lparr>ptr := Some (p0\<lparr>request := if k \<le> size pb then k else size pb\<rparr>)\<rparr>)
       else do {
           (out, peer_b) \<leftarrow> read_loop (min k (len pb)) p0;
           Some ((int (min k (len pb)), out), bio, peer\<lparr>ptr := Some peer_b\<rparr>)
         })"
    using s ne by (auto simp: bio_read_def Let_def p0_def min_def)
  consider (zero) "k = 0" | (none) "k \<noteq> 0" "len pb = 0" | (some) "k \<noteq> 0" "len pb \<noteq> 0" by blast
  then show ?thesis
  proof cases
    case zero
    then show ?thesis unfolding s(1) eq using s p0 by (simp add: Let_def pair_ok_def incoming_def end_value_def)
  next
    case none
    have "ring_ok (p0\<lparr>request := if k \<le> size pb then k else size pb\<rparr>)"
      using p0(1,5,7) none by (auto simp: ring_ok_def)
    moreover have "items pb = []" using items_Nil [OF s(9)] none by simp
    ultimately show ?thesis
      unfolding s(1) eq using s p0 none by (simp add: Let_def pair_ok_def incoming_def end_value_def items_request min_def)
  next
    case some
    then obtain p1 where p1: "read_loop (min k (len pb)) p0 = Some (take (min k (len pb)) (items p0), p1)" "ring_ok p1"
        "items p1 = drop (min k (len pb)) (items p0)" "same_end p0 p1"
      using read_loop_ok [OF p0(1), of "min k (len pb)"] p0(5) by auto
    have l: "length (items pb) = len pb" using length_items [OF s(9)] .
    have t: "take (min k (len pb)) (items pb) = take k (items pb)" "drop (min k (len pb)) (items pb) = drop k (items pb)"
      using l by (auto simp: min_def)
    have "items pb \<noteq> []" using items_Nil [OF s(9)] some by simp
    then show ?thesis
      unfolding s(1) eq using s p0 p1 some t l by (simp add: Let_def pair_ok_def incoming_def end_value_def same_end_def)
  qed
qed

text \<open>The number of bytes that the first end can write.\<close>

definition pair_room :: "pair_bio \<times> pair_bio \<Rightarrow> nat" where
  "pair_room s = (case ptr (fst s) of None \<Rightarrow> 0 | Some b \<Rightarrow> if closed b then 0 else size b - len b)"

lemma incoming_swap: "ptr (fst s) = Some b \<Longrightarrow> incoming (swap_ends s) = items b"
  by (simp add: incoming_def swap_ends_def)

lemma pair_ok_swap [simp]: "pair_ok (swap_ends s) \<longleftrightarrow> pair_ok s"
  by (auto simp: pair_ok_def swap_ends_def)

lemma swap_swap [simp]: "swap_ends (swap_ends s) = s"
  by (simp add: swap_ends_def)

lemma bio_write_ok:
  assumes "pair_ok s" "xs \<noteq> []"
  shows "\<exists>r s'. bio_write (Some xs) s = Some (r, s') \<and> pair_ok s' \<and> snd s' = snd s \<and>
    (if pair_room s = 0 then r = -1 \<and> incoming (swap_ends s') = incoming (swap_ends s) \<and> pair_room s' = 0
     else let n = min (length xs) (pair_room s) in
       r = int n \<and> incoming (swap_ends s') = incoming (swap_ends s) @ take n xs \<and> pair_room s' = pair_room s - n) \<and>
    end_value (swap_ends s') = end_value (swap_ends s)"
proof -
  obtain bio peer b pb where s: "s = (bio, peer)" "ptr bio = Some b" "ptr peer = Some pb" "bio_init bio" "bio_init peer"
     "has_peer b" "has_peer pb" "ring_ok b" "ring_ok pb"
    using assms by (cases s) (auto simp: pair_ok_def)
  define b0 where "b0 = b\<lparr>request := 0\<rparr>"
  have b0: "ring_ok b0" "items b0 = items b" "closed b0 = closed b" "has_peer b0" "len b0 = len b" "request b0 = 0" "size b0 = size b"
    using s by (auto simp: b0_def ring_ok_def items_def)
  have ne: "ring b \<noteq> None" "len b \<le> size b" "2 * size b < size_bound" using s(8) by (auto simp: ring_ok_def)
  then have sub: "size_sub (size b) (len b) = size b - len b" by simp
  define n where "n = min (length xs) (size b - len b)"
  have eq: "bio_write (Some xs) (bio, peer) =
     (let bio = (BIO_clear_retry_flags bio)\<lparr>ptr := Some b0\<rparr> in
       if closed b then Some (-1, bio, peer)
       else if len b = size b then Some (-1, BIO_set_retry_write bio, peer)
       else do { b' \<leftarrow> write_loop n xs b0; Some (int n, bio\<lparr>ptr := Some b'\<rparr>, peer) })"
    using s ne assms(2) by (auto simp: bio_write_def Let_def b0_def n_def sub min_def)
  consider (closed) "closed b" | (full) "\<not> closed b" "len b = size b" | (room) "\<not> closed b" "len b < size b"
    using ne by linarith
  then show ?thesis
  proof cases
    case room
    then have n: "0 < n" "len b0 + n \<le> size b0" "n \<le> length xs" using assms(2) b0 by (auto simp: n_def)
    then obtain b1 where b1: "write_loop n xs b0 = Some b1" "ring_ok b1" "items b1 = items b0 @ take n xs" "same_end b0 b1"
      using write_loop_ok [OF b0(1,6)] by blast
    have "len b1 = len b + n"
      using arg_cong [OF b1(3), of length] length_items [OF b1(2)] length_items [OF b0(1)] b0 n by simp
    then show ?thesis
      unfolding s(1) eq using s b0 b1 room n
      by (simp add: Let_def pair_ok_def incoming_def swap_ends_def end_value_def same_end_def pair_room_def n_def)
  qed (unfold s(1) eq, use s b0 in \<open>simp_all add: Let_def pair_ok_def incoming_def swap_ends_def end_value_def pair_room_def\<close>)
qed

section \<open>Pairs as streams\<close>

lemma pair_BIO_read:
  assumes "pair_ok s" "k \<le> INT_MAX"
  shows "\<exists>s'. BIO_read (methods_biop alloc) (int k) s = Some ((if k = 0 then 0 else if incoming s = [] then end_value s
             else int (min k (length (incoming s))), take k (incoming s)), s') \<and>
      pair_ok s' \<and> incoming s' = drop k (incoming s) \<and> end_value s' = end_value s \<and>
      incoming (swap_ends s') = incoming (swap_ends s)"
proof (cases "k = 0")
  case True
  then have "BIO_read (methods_biop alloc) (int k) s = Some ((0, []), s)"
    using assms(1) by (auto simp: BIO_read_def methods_biop_def method_fun_def pair_ok_def)
  then show ?thesis using True assms(1) by simp
next
  case False
  obtain r bio' peer' where r: "bio_read False k s = Some ((r, take k (incoming s)), bio', peer')"
      "r = (if incoming s = [] then end_value s else int (min k (length (incoming s))))"
      "pair_ok (bio', peer')" "incoming (bio', peer') = drop k (incoming s)" "end_value (bio', peer') = end_value s"
      "items (the (ptr bio')) = items (the (ptr (fst s)))"
    using bio_read_ok [OF assms(1), of k] False by auto
  define bio'' where "bio'' = (if r > 0 then bio'\<lparr>num_read := size_add (num_read bio') (nat r)\<rparr> else bio')"
  have bio'': "ptr bio'' = ptr bio'" "bio_init bio'' = bio_init bio'" by (simp_all add: bio''_def)
  have "BIO_read (methods_biop alloc) (int k) s = Some ((r, take k (incoming s)), bio'', peer')"
    using False assms(1) r(1) by (auto simp: BIO_read_def methods_biop_def method_fun_def pair_ok_def bio''_def)
  moreover have "pair_ok (bio'', peer')" using r(3) bio'' by (simp add: pair_ok_def)
  moreover have "incoming (bio'', peer') = drop k (incoming s)" "end_value (bio'', peer') = end_value s"
    using r(4,5) by (simp_all add: incoming_def end_value_def)
  moreover have "incoming (swap_ends (bio'', peer')) = incoming (swap_ends s)"
    using r(3,6) assms(1) bio'' by (auto simp: incoming_def swap_ends_def pair_ok_def)
  ultimately show ?thesis using r(2) False by auto
qed

lemma end_value_le: "end_value s \<le> 0"
  by (simp add: end_value_def split: option.splits)

interpretation pair: bio_source pair_ok incoming end_value "methods_biop alloc" for alloc
proof unfold_locales
  fix s k
  assume "pair_ok s" "k \<le> INT_MAX"
  from pair_BIO_read [OF this, of alloc]
  show "\<exists>s'. BIO_read (methods_biop alloc) (int k) s = Some ((if k = 0 then 0 else if incoming s = [] then end_value s
             else int (min k (length (incoming s))), take k (incoming s)), s') \<and>
      pair_ok s' \<and> incoming s' = drop k (incoming s) \<and> end_value s' = end_value s" by blast
qed (rule end_value_le)

lemma pair_BIO_write:
  assumes "pair_ok s"
  shows "\<exists>r s'. BIO_write (methods_biop alloc) xs s = Some (r, s') \<and> pair_ok s' \<and> snd s' = snd s \<and>
    (if xs = [] then r = 0 \<and> s' = s
     else if pair_room s = 0 then r = -1 \<and> incoming (swap_ends s') = incoming (swap_ends s) \<and> pair_room s' = 0
     else let n = min (length xs) (pair_room s) in
       r = int n \<and> incoming (swap_ends s') = incoming (swap_ends s) @ take n xs \<and> pair_room s' = pair_room s - n) \<and>
    end_value (swap_ends s') = end_value (swap_ends s)"
proof (cases "xs = []")
  case True
  then have "BIO_write (methods_biop alloc) xs s = Some (0, s)"
    using assms by (auto simp: BIO_write_def methods_biop_def method_fun_def pair_ok_def)
  then show ?thesis using True assms by simp
next
  case False
  obtain r bio' peer' where r: "bio_write (Some xs) s = Some (r, bio', peer')" "pair_ok (bio', peer')" "peer' = snd s"
    "if pair_room s = 0 then r = -1 \<and> incoming (swap_ends (bio', peer')) = incoming (swap_ends s) \<and> pair_room (bio', peer') = 0
     else let n = min (length xs) (pair_room s) in
       r = int n \<and> incoming (swap_ends (bio', peer')) = incoming (swap_ends s) @ take n xs \<and> pair_room (bio', peer') = pair_room s - n"
    "end_value (swap_ends (bio', peer')) = end_value (swap_ends s)"
    using bio_write_ok [OF assms False] by auto
  define bio'' where "bio'' = (if r > 0 then bio'\<lparr>num_write := size_add (num_write bio') (nat r)\<rparr> else bio')"
  have bio'': "ptr bio'' = ptr bio'" "bio_init bio'' = bio_init bio'" by (simp_all add: bio''_def)
  have "BIO_write (methods_biop alloc) xs s = Some (r, bio'', peer')"
    using False assms r(1) by (auto simp: BIO_write_def methods_biop_def method_fun_def pair_ok_def bio''_def)
  moreover have "pair_ok (bio'', peer')" using r(2) bio'' by (simp add: pair_ok_def)
  moreover have "incoming (swap_ends (bio'', peer')) = incoming (swap_ends (bio', peer'))"
    "end_value (swap_ends (bio'', peer')) = end_value (swap_ends (bio', peer'))" "pair_room (bio'', peer') = pair_room (bio', peer')"
    using bio'' by (simp_all add: incoming_def end_value_def pair_room_def swap_ends_def)
  ultimately show ?thesis using r(3-5) False by auto
qed

interpretation pair_sink: bio_sink pair_ok "\<lambda>s. incoming (swap_ends s)" pair_room "methods_biop alloc" for alloc
proof unfold_locales
  fix s :: "pair_bio \<times> pair_bio" and xs :: "u8 list"
  assume "pair_ok s" "xs \<noteq> []" "length xs \<le> pair_room s"
  moreover from this have "pair_room s \<noteq> 0" by (metis le_zero_eq length_0_conv)
  ultimately show "\<exists>n s'. BIO_write (methods_biop alloc) xs s = Some (n, s') \<and> pair_ok s' \<and> 0 < n \<and> n \<le> int (length xs) \<and>
        incoming (swap_ends s') = incoming (swap_ends s) @ take (nat n) xs \<and> pair_room s' = pair_room s - nat n"
    using pair_BIO_write [of s alloc xs] by (auto simp: Let_def min_absorb1)
qed

text \<open>A write at the other end.\<close>

definition write_peer :: "allocator \<Rightarrow> u8 list \<Rightarrow> int pair_io" where
  "write_peer alloc xs s = map_option (\<lambda>(n, s). (n, swap_ends s)) (BIO_write (bio_s_bio alloc) xs (swap_ends s))"

interpretation pair: byte_stream pair_ok incoming end_value "BIO_read (methods_biop alloc)" "write_peer alloc" for alloc
proof unfold_locales
  fix s :: "pair_bio \<times> pair_bio" and xs :: "u8 list"
  assume "pair_ok s"
  then have "pair_ok (swap_ends s)" by simp
  from pair_BIO_write [OF this, of alloc xs]
  obtain r s' where r: "BIO_write (methods_biop alloc) xs (swap_ends s) = Some (r, s')" "pair_ok s'"
    "if xs = [] then r = 0 \<and> s' = swap_ends s
     else if pair_room (swap_ends s) = 0 then r = -1 \<and> incoming (swap_ends s') = incoming (swap_ends (swap_ends s)) \<and> pair_room s' = 0
     else let n = min (length xs) (pair_room (swap_ends s)) in
       r = int n \<and> incoming (swap_ends s') = incoming (swap_ends (swap_ends s)) @ take n xs \<and>
       pair_room s' = pair_room (swap_ends s) - n" by blast
  have "r \<le> int (length xs) \<and> incoming (swap_ends s') = incoming s @ take (nat r) xs"
    using r(3) by (auto simp: Let_def split: if_splits)
  then show "\<exists>n s'. write_peer alloc xs s = Some (n, s') \<and> pair_ok s' \<and> n \<le> int (length xs) \<and>
      incoming s' = incoming s @ take (nat n) xs"
    using r(1,2) by (intro exI [of _ r] exI [of _ "swap_ends s'"]) (simp add: write_peer_def bio_s_bio_def)
qed

section \<open>All states of a pair\<close>

text \<open>What the comments of \<open>struct bio_bio_st\<close> say, of one end and of both.\<close>

definition end_wf :: "bio_bio_st \<Rightarrow> bool" where
  "end_wf b \<longleftrightarrow> (case ring b of None \<Rightarrow> \<not> has_peer b \<and> len b = 0 \<and> offset b = 0 \<and> request b = 0 \<and> 0 < size b
     | Some _ \<Rightarrow> ring_ok b \<and> (\<not> has_peer b \<longrightarrow> len b = 0))"

definition pair_wf :: "pair_bio \<times> pair_bio \<Rightarrow> bool" where
  "pair_wf s \<longleftrightarrow> (\<exists>b pb. ptr (fst s) = Some b \<and> ptr (snd s) = Some pb \<and> (bio_init (fst s) \<longleftrightarrow> has_peer b) \<and>
     (bio_init (snd s) \<longleftrightarrow> has_peer pb) \<and> (has_peer b \<longleftrightarrow> has_peer pb) \<and> end_wf b \<and> end_wf pb)"

inductive pair_reach :: "allocator \<Rightarrow> (nat \<Rightarrow> u8 list) \<Rightarrow> pair_bio \<times> pair_bio \<Rightarrow> bool" for alloc fresh where
  new: "BIO_new_bio_pair alloc1 alloc2 alloc fresh n1 n2 = Some (Some s) \<Longrightarrow> pair_reach alloc fresh s"
| other: "pair_reach alloc fresh s \<Longrightarrow> pair_reach alloc fresh (swap_ends s)"
| read: "pair_reach alloc fresh s \<Longrightarrow> bio_read null_buf k s = Some (r, s') \<Longrightarrow> pair_reach alloc fresh s'"
| writes: "pair_reach alloc fresh s \<Longrightarrow> bio_write xs s = Some (n, s') \<Longrightarrow> pair_reach alloc fresh s'"
| control: "pair_reach alloc fresh s \<Longrightarrow> bio_ctrl cmd larg parg s = Some (n, s') \<Longrightarrow> pair_reach alloc fresh s'"
| destroy: "pair_reach alloc fresh s \<Longrightarrow> bio_destroy_pair s = Some (u, s') \<Longrightarrow> pair_reach alloc fresh s'"
| make: "pair_reach alloc fresh s \<Longrightarrow> bio_make_pair alloc fresh n1 n2 s = Some (made, s') \<Longrightarrow> pair_reach alloc fresh s'"

lemma ok_wf: "pair_ok s \<Longrightarrow> pair_wf s"
  by (auto simp: pair_ok_def pair_wf_def end_wf_def ring_ok_def)

lemma wf_swap: "pair_wf s \<Longrightarrow> pair_wf (swap_ends s)"
  by (auto simp: pair_wf_def swap_ends_def)

lemma wf_init_ok: "pair_wf s \<Longrightarrow> bio_init (fst s) \<Longrightarrow> pair_ok s"
  by (auto simp: pair_ok_def pair_wf_def end_wf_def split: option.splits)

lemma read_wf: "pair_wf s \<Longrightarrow> \<exists>r s'. bio_read null_buf k s = Some (r, s') \<and> pair_wf s'"
proof -
  assume s: "pair_wf s"
  obtain bio peer b pb where e: "s = (bio, peer)" "ptr bio = Some b" "ptr peer = Some pb" "has_peer b \<longleftrightarrow> has_peer pb"
      "bio_init bio \<longleftrightarrow> has_peer b" "bio_init peer \<longleftrightarrow> has_peer pb" "end_wf b" "end_wf pb"
    using s by (cases s) (auto simp: pair_wf_def)
  have r: "end_wf (pb\<lparr>request := 0\<rparr>)" using e(8) by (auto simp: end_wf_def ring_ok_def split: option.splits)
  consider "\<not> bio_init bio" | (null) "bio_init bio" "null_buf" | (full) "bio_init bio" "\<not> null_buf" by blast
  then show ?thesis
  proof cases
    case null
    then have "bio_read null_buf k s = Some ((0, []), BIO_clear_retry_flags bio, peer\<lparr>ptr := Some (pb\<lparr>request := 0\<rparr>)\<rparr>)"
      using e by (auto simp: bio_read_def Let_def end_wf_def split: option.splits)
    then show ?thesis using e r by (auto simp: pair_wf_def)
  next
    case full
    then have "pair_ok s" using wf_init_ok [OF s] e by simp
    then show ?thesis using bio_read_ok [of s k] ok_wf full(2) by auto
  qed (use e in \<open>auto simp: bio_read_def Let_def pair_wf_def\<close>)
qed

lemma write_wf: "pair_wf s \<Longrightarrow> \<exists>r s'. bio_write xs s = Some (r, s') \<and> pair_wf s'"
proof -
  assume s: "pair_wf s"
  show ?thesis
  proof (cases "bio_init (fst s) \<and> xs \<noteq> None \<and> xs \<noteq> Some []")
    case True
    then obtain ys where "xs = Some ys" "ys \<noteq> []" "pair_ok s" using wf_init_ok [OF s] by auto
    then show ?thesis using bio_write_ok [of s ys] ok_wf by blast
  next
    case False
    then have "bio_write xs s = Some (0, BIO_clear_retry_flags (fst s), snd s)"
      by (cases s) (auto simp: bio_write_def Let_def)
    then show ?thesis using s by (auto simp: pair_wf_def)
  qed
qed

lemma end_wf_reset: "end_wf b \<Longrightarrow> end_wf (b\<lparr>has_peer := False, len := 0, offset := 0\<rparr>)"
  by (auto simp: end_wf_def ring_ok_def split: option.splits)

lemma destroy_wf:
  assumes "pair_wf s"
  shows "\<exists>u s'. bio_destroy_pair s = Some (u, s') \<and> pair_wf s'"
proof -
  obtain bio peer b pb where e: "s = (bio, peer)" "ptr bio = Some b" "ptr peer = Some pb" "has_peer b \<longleftrightarrow> has_peer pb"
      "bio_init bio \<longleftrightarrow> has_peer b" "bio_init peer \<longleftrightarrow> has_peer pb" "end_wf b" "end_wf pb"
    using assms by (cases s) (auto simp: pair_wf_def)
  show ?thesis
  proof (cases "has_peer b")
    case True
    then have "ring b \<noteq> None" "ring pb \<noteq> None" using e by (auto simp: end_wf_def split: option.splits)
    then show ?thesis
      using True e end_wf_reset [OF e(7)] end_wf_reset [OF e(8)] by (auto simp: bio_destroy_pair_def pair_wf_def)
  qed (use e assms in \<open>simp add: bio_destroy_pair_def\<close>)
qed

lemma ctrl_cases:
  assumes "bio_ctrl cmd larg parg (bio, peer) = Some (n, s')" "ptr bio = Some b"
  shows "s' \<in> {(bio, peer), (bio\<lparr>ptr := Some (b\<lparr>request := 0\<rparr>)\<rparr>, peer), (bio\<lparr>ptr := Some (b\<lparr>closed := True\<rparr>)\<rparr>, peer),
    (bio\<lparr>shutdown := sint (of_int larg :: u32)\<rparr>, peer)}"
  using assms unfolding bio_ctrl_def prod.case
  by (auto simp: Option.bind_eq_Some_conv split: if_split_asm option.split_asm)

lemma end_wf_request: "end_wf b \<Longrightarrow> end_wf (b\<lparr>request := 0\<rparr>)"
  and end_wf_closed: "end_wf b \<Longrightarrow> end_wf (b\<lparr>closed := True\<rparr>)"
  by (auto simp: end_wf_def ring_ok_def split: option.splits)

lemma ctrl_wf:
  assumes "pair_wf s" "bio_ctrl cmd larg parg s = Some (n, s')"
  shows "pair_wf s'"
proof -
  obtain bio peer b where s: "s = (bio, peer)" "ptr bio = Some b" using assms(1) by (cases s) (auto simp: pair_wf_def)
  show ?thesis
    using ctrl_cases [OF assms(2) [unfolded s(1)] s(2)] assms(1) end_wf_request end_wf_closed
    by (auto simp: s pair_wf_def)
qed

lemma ctrl_some:
  assumes "pair_wf s" "\<forall>other. parg = Some other \<longrightarrow> ptr other \<noteq> None"
  shows "bio_ctrl cmd larg parg s \<noteq> None"
proof -
  obtain bio peer b pb where s: "s = (bio, peer)" "ptr bio = Some b" "ptr peer = Some pb"
    using assms(1) by (cases s) (auto simp: pair_wf_def)
  show ?thesis unfolding s(1) bio_ctrl_def prod.case s(2) using assms(2) by (auto simp: s(3) split: option.split)
qed

lemma make_buffer_ok:
  assumes "\<forall>n. length (fresh n) = n" "\<forall>n. alloc n \<longrightarrow> 2 * n < size_bound"
    and "end_wf b" "\<not> has_peer b" "make_buffer alloc fresh n b = (made, b')"
  shows "end_wf b' \<and> \<not> has_peer b' \<and> (made \<longrightarrow> ring_ok (b'\<lparr>has_peer := True, closed := False, request := 0\<rparr>))"
  using assms by (auto simp: make_buffer_def end_wf_def ring_ok_def Let_def split: option.splits if_splits)

lemma make_wf:
  assumes "\<forall>n. length (fresh n) = n" "\<forall>n. alloc n \<longrightarrow> 2 * n < size_bound" "pair_wf s"
  shows "\<exists>r s'. bio_make_pair alloc fresh n1 n2 s = Some (r, s') \<and> pair_wf s'"
proof -
  obtain bio peer b pb where e: "s = (bio, peer)" "ptr bio = Some b" "ptr peer = Some pb" "has_peer b \<longleftrightarrow> has_peer pb"
      "bio_init bio \<longleftrightarrow> has_peer b" "bio_init peer \<longleftrightarrow> has_peer pb" "end_wf b" "end_wf pb"
    using assms(3) by (cases s) (auto simp: pair_wf_def)
  obtain r1 b1 r2 b2 where m: "make_buffer alloc fresh n1 b = (r1, b1)" "make_buffer alloc fresh n2 pb = (r2, b2)" by fastforce
  show ?thesis
  proof (cases "has_peer b")
    case False
    have "end_wf (b1\<lparr>has_peer := True, closed := False, request := 0\<rparr>)" if r1
      using make_buffer_ok [OF assms(1,2) e(7) False m(1)] that by (auto simp: end_wf_def ring_ok_def)
    moreover have "end_wf (b2\<lparr>has_peer := True, closed := False, request := 0\<rparr>)" if r2
      using make_buffer_ok [OF assms(1,2) e(8) _ m(2)] that False e(4) by (auto simp: end_wf_def ring_ok_def)
    ultimately show ?thesis
      using make_buffer_ok [OF assms(1,2) e(7) False m(1)] make_buffer_ok [OF assms(1,2) e(8) _ m(2)] e False m
      by (auto simp: bio_make_pair_def pair_wf_def split: bool.splits)
  qed (use e assms(3) in \<open>auto simp: bio_make_pair_def\<close>)
qed

lemma bio_new_fields:
  assumes "BIO_new alloc1 (bio_s_bio alloc1) = Some bio"
  shows "ptr bio = Some \<lparr>has_peer = False, closed = False, len = 0, offset = 0, size = 17 * 1024, ring = None, request = 0\<rparr>"
  using assms by (auto simp: BIO_new_def bio_s_bio_def methods_biop_def method_fun_def bio_new_def split: if_splits)

lemma make_buffer_new:
  assumes "\<forall>n. length (fresh n) = n" "\<forall>n. alloc n \<longrightarrow> 2 * n < size_bound" "ring b = None" "0 < size b"
    and "make_buffer alloc fresh n b = (True, b')"
  shows "ring_ok (b'\<lparr>has_peer := True, closed := False, request := 0\<rparr>) \<and> len b' = 0 \<and> size b' = (if n = 0 then size b else n)"
  using assms by (auto simp: make_buffer_def ring_ok_def Let_def split: if_splits)

lemma new_pair:
  assumes "\<forall>n. length (fresh n) = n" "\<forall>n. alloc n \<longrightarrow> 2 * n < size_bound"
    and "BIO_new_bio_pair alloc1 alloc2 alloc fresh n1 n2 = Some (Some s)"
  shows "pair_ok s \<and> incoming s = [] \<and> incoming (swap_ends s) = [] \<and> pair_room s = (if n1 = 0 then 17 * 1024 else n1) \<and>
    end_value s = -1 \<and> end_value (swap_ends s) = -1"
proof -
  obtain bio1 bio2 where b: "BIO_new alloc1 (bio_s_bio alloc1) = Some bio1" "BIO_new alloc2 (bio_s_bio alloc2) = Some bio2"
    and m: "bio_make_pair alloc fresh n1 n2 (bio1, bio2) = Some (True, s)"
    using assms(3) by (auto simp: BIO_new_bio_pair_def Option.bind_eq_Some_conv split: option.splits if_splits)
  let ?b = "\<lparr>has_peer = False, closed = False, len = 0, offset = 0, size = 17 * 1024, ring = None, request = 0\<rparr>"
  have p: "ptr bio1 = Some ?b" "ptr bio2 = Some ?b" using b bio_new_fields by simp_all
  obtain b1 b2 where mb: "make_buffer alloc fresh n1 ?b = (True, b1)" "make_buffer alloc fresh n2 ?b = (True, b2)"
    and s: "s = (bio1\<lparr>ptr := Some (b1\<lparr>has_peer := True, closed := False, request := 0\<rparr>), bio_init := True\<rparr>,
               bio2\<lparr>ptr := Some (b2\<lparr>has_peer := True, closed := False, request := 0\<rparr>), bio_init := True\<rparr>)"
    using m p by (auto simp: bio_make_pair_def split: prod.splits bool.splits)
  have r1: "ring_ok (b1\<lparr>has_peer := True, closed := False, request := 0\<rparr>)" "len b1 = 0" "size b1 = (if n1 = 0 then 17 * 1024 else n1)"
    using make_buffer_new [OF assms(1,2) _ _ mb(1)] by simp_all
  have r2: "ring_ok (b2\<lparr>has_peer := True, closed := False, request := 0\<rparr>)" "len b2 = 0"
    using make_buffer_new [OF assms(1,2) _ _ mb(2)] by simp_all
  show ?thesis
    using r1 r2 by (simp add: s pair_ok_def incoming_def swap_ends_def pair_room_def items_def end_value_def)
qed

lemma reach_wf:
  assumes "\<forall>n. length (fresh n) = n" "\<forall>n. alloc n \<longrightarrow> 2 * n < size_bound" "pair_reach alloc fresh s"
  shows "pair_wf s"
  using assms(3)
proof (induction rule: pair_reach.induct)
  case (new alloc1 alloc2 n1 n2 s)
  then show ?case using new_pair [OF assms(1,2)] ok_wf by blast
next
  case (other s)
  then show ?case by (simp add: wf_swap)
next
  case (read s null_buf k r s')
  then show ?case using read_wf [of s null_buf k] by auto
next
  case (writes s xs n s')
  then show ?case using write_wf [of s xs] by auto
next
  case (control s cmd larg parg n s')
  then show ?case using ctrl_wf by blast
next
  case (destroy s u s')
  then show ?case using destroy_wf [of s] by auto
next
  case (make s n1 n2 made s')
  then show ?case using make_wf [OF assms(1,2), of s n1 n2] by auto
qed

section \<open>Properties\<close>

text \<open>Contents of new memory, and an allocator, for concrete pairs.\<close>

definition zeros :: "nat \<Rightarrow> u8 list" where
  "zeros n = replicate n 0"

definition small_alloc :: allocator where
  "small_alloc n \<longleftrightarrow> 2 * n < size_bound"

definition small_pair :: "pair_bio \<times> pair_bio" where
  "small_pair = the (the (BIO_new_bio_pair small_alloc small_alloc small_alloc zeros 3 2))"

lemma small_pair: "BIO_new_bio_pair small_alloc small_alloc small_alloc zeros 3 2 = Some (Some small_pair)"
  by (simp add: small_pair_def BIO_new_bio_pair_def BIO_new_def bio_s_bio_def methods_biop_def method_fun_def bio_new_def
      small_alloc_def bio_make_pair_def make_buffer_def)

lemma small_hyps: "\<forall>n. length (zeros n) = n" "\<forall>n. small_alloc n \<longrightarrow> 2 * n < size_bound"
  by (simp_all add: zeros_def small_alloc_def)

lemma end_wf_fields:
  "end_wf b \<Longrightarrow> (\<forall>bytes. ring b = Some bytes \<longrightarrow> length bytes = size b \<and> offset b < size b) \<and> (\<not> has_peer b \<longrightarrow> len b = 0) \<and> (ring b = None \<longrightarrow> \<not> has_peer b) \<and>
      len b \<le> size b \<and> (len b = 0 \<longrightarrow> offset b = 0) \<and> (len b \<noteq> 0 \<longrightarrow> request b = 0) \<and> request b \<le> size b - len b"
  by (cases "ring b") (auto simp: end_wf_def ring_ok_def)

lemma read_fits:
  assumes "pair_wf s"
  shows "\<exists>n out s'. bio_read null_buf k s = Some ((n, out), s') \<and> length out \<le> k"
proof (cases "bio_init (fst s) \<and> \<not> null_buf")
  case True
  then show ?thesis using bio_read_ok [OF wf_init_ok [OF assms], of k] by auto
next
  case False
  then show ?thesis
    using assms by (cases s) (auto simp: bio_read_def Let_def pair_wf_def end_wf_def split: option.splits)
qed

lemma free_some: "pair_wf s \<Longrightarrow> bio_free s \<noteq> None"
  using destroy_wf [of s] by (auto simp: bio_free_def pair_wf_def)

text \<open>
  C35: the states of a pair.  In every state that two BIOs reach from \<open>BIO_new_bio_pair\<close> by reads, writes, controls,
  destroying and making the pair at either end, what the comments of \<open>struct bio_bio_st\<close> say of its fields holds (each ring has the
  size that is recorded, and its offset lies in it), and every operation returns: no assertion fails, no copy leaves a ring or the
  caller's buffer, and the loops end.  The pointer that \<open>BIO_CTRL_EOF\<close> gets must be null or a BIO that has its state.\<close>

theorem pair_invariant:
  assumes "\<forall>n. length (fresh n) = n" "\<forall>n. alloc n \<longrightarrow> 2 * n < size_bound" "pair_reach alloc fresh s"
    and "\<forall>other. parg = Some other \<longrightarrow> ptr other \<noteq> None"
  shows "(\<exists>b. ptr (fst s) = Some b \<and> (has_peer b \<longleftrightarrow> bio_init (fst s)) \<and>
      (\<forall>bytes. ring b = Some bytes \<longrightarrow> length bytes = size b \<and> offset b < size b) \<and> (\<not> has_peer b \<longrightarrow> len b = 0) \<and> (ring b = None \<longrightarrow> \<not> has_peer b) \<and>
      len b \<le> size b \<and> (len b = 0 \<longrightarrow> offset b = 0) \<and> (len b \<noteq> 0 \<longrightarrow> request b = 0) \<and> request b \<le> size b - len b) \<and>
    (\<exists>n out s'. bio_read null_buf k s = Some ((n, out), s') \<and> length out \<le> k) \<and> bio_write xs s \<noteq> None \<and>
    bio_ctrl cmd larg parg s \<noteq> None \<and> bio_destroy_pair s \<noteq> None \<and> bio_make_pair alloc fresh n1 n2 s \<noteq> None \<and> bio_free s \<noteq> None"
proof -
  have wf: "pair_wf s" by (rule reach_wf [OF assms(1-3)])
  then obtain b where b: "ptr (fst s) = Some b" "bio_init (fst s) \<longleftrightarrow> has_peer b" "end_wf b"
    unfolding pair_wf_def by blast
  have "bio_write xs s \<noteq> None" using write_wf [OF wf] by (metis option.distinct(1))
  moreover have "bio_destroy_pair s \<noteq> None" using destroy_wf [OF wf] by (metis option.distinct(1))
  moreover have "bio_make_pair alloc fresh n1 n2 s \<noteq> None"
    using make_wf [OF assms(1,2) wf] by (metis option.distinct(1))
  ultimately show ?thesis
    using end_wf_fields [OF b(3)] b(1,2) read_fits [OF wf] ctrl_some [OF wf assms(4)] free_some [OF wf] by (simp only: simp_thms ex_simps b(1)) auto
qed

lemma pair_invariant_witness:
  "bio_read False 4 small_pair \<noteq> None \<and> bio_write (Some [1, 2, 3, 4]) small_pair \<noteq> None \<and>
    bio_ctrl BIO_CTRL_EOF 0 (Some (fst small_pair)) small_pair \<noteq> None"
proof -
  have "ptr (fst small_pair) \<noteq> None" using new_pair [OF small_hyps small_pair] by (auto simp: pair_ok_def)
  then show ?thesis
    using pair_invariant [OF small_hyps pair_reach.new [OF small_pair], of "Some (fst small_pair)" False 4 "Some [1, 2, 3, 4]"]
    by blast
qed

text \<open>
  C34: a pair is a pair of queues.  Whatever is written at one end of a new pair and read at the other, in any order and
  any amounts, the bytes read are, in order, a prefix of the bytes the writes accepted, and the rest are pending.\<close>

theorem pair_fifo:
  assumes "\<forall>n. length (fresh n) = n" "\<forall>n. alloc n \<longrightarrow> 2 * n < size_bound"
    and "BIO_new_bio_pair alloc1 alloc2 alloc fresh n1 n2 = Some (Some s)" "list_all event_ok evs"
  shows "\<exists>sent got s'. exchange (write_peer alloc) (BIO_read (bio_s_bio alloc)) evs s = Some ((sent, got), s') \<and>
    sent = got @ incoming s' \<and> BIO_pending (bio_s_bio alloc) s' = Some (length (incoming s'), s')"
proof -
  have s: "pair_ok s" "incoming s = []" using new_pair [OF assms(1-3)] by simp_all
  obtain sent got s' where e: "exchange (write_peer alloc) (BIO_read (bio_s_bio alloc)) evs s = Some ((sent, got), s')"
      "pair_ok s'" "sent = got @ incoming s'"
    using pair.fifo [OF s assms(4), of alloc] unfolding bio_s_bio_def by blast
  have "BIO_pending (bio_s_bio alloc) s' = Some (length (incoming s'), s')"
    using e(2) length_items
    by (cases s') (auto simp: BIO_pending_def BIO_ctrl_def bio_s_bio_def methods_biop_def method_fun_def bio_ctrl_def pair_ok_def incoming_def)
  with e show ?thesis by blast
qed

lemma pair_fifo_witness:
  "\<exists>sent got s'. exchange (write_peer small_alloc) (BIO_read (bio_s_bio small_alloc)) [Write [1, 2, 3], Read 1, Write [4], Read 5] small_pair =
      Some ((sent, got), s') \<and> sent = got @ incoming s' \<and> BIO_pending (bio_s_bio small_alloc) s' = Some (length (incoming s'), s')"
  by (rule pair_fifo [OF small_hyps small_pair]) simp

text \<open>A read on an empty pair leaves the request for the other end.\<close>

lemma empty_read:
  assumes "pair_ok s" "0 < k" "BIO_read (methods_biop alloc) (int k) s = Some ((-1, out), s')" "k \<le> INT_MAX"
  shows "incoming s = [] \<and> pair_ok s' \<and> incoming s' = [] \<and>
    (\<exists>pb. ptr (snd s') = Some pb \<and> request pb = min k (size pb) \<and> \<not> closed pb \<and> len pb = 0)"
proof -
  obtain s1 where s1: "BIO_read (methods_biop alloc) (int k) s = Some ((if incoming s = [] then end_value s
             else int (min k (length (incoming s))), take k (incoming s)), s1)" "pair_ok s1" "incoming s1 = drop k (incoming s)"
      "end_value s1 = end_value s"
    using pair_BIO_read [OF assms(1,4), of alloc] assms(2) by auto
  then have e: "incoming s = []" "end_value s = -1" "s1 = s'"
    using assms(3) by (auto split: if_splits)
  obtain r out' s2 where b: "bio_read False k s = Some ((r, out'), s2)"
      "request (the (ptr (snd s2))) = min k (size (the (ptr (snd s))))"
    using bio_read_ok [OF assms(1), of k] assms(2) e by auto
  have "snd s' = snd s2"
    using assms(1,2,3) b(1) by (cases s2) (auto simp: BIO_read_def methods_biop_def method_fun_def pair_ok_def split: if_splits)
  moreover have "size (the (ptr (snd s2))) = size (the (ptr (snd s)))"
  proof -
    obtain bio peer pb where s: "s = (bio, peer)" "ptr peer = Some pb" "ring_ok pb" using assms(1) by (cases s) (auto simp: pair_ok_def)
    then have "len pb = 0" "\<not> closed pb" using e(1,2) items_Nil by (auto simp: incoming_def end_value_def)
    then show ?thesis
      using b(1) assms(1,2) s by (auto simp: bio_read_def Let_def pair_ok_def split: if_splits)
  qed
  moreover obtain pb where "ptr (snd s') = Some pb" "ring_ok pb" using s1(2) e(3) by (auto simp: pair_ok_def)
  moreover from this have "len pb = 0" "\<not> closed pb"
    using s1(3,4) e items_Nil by (auto simp: incoming_def end_value_def)
  ultimately show ?thesis using e s1(2,3) b(2) by auto
qed

lemmas new_small = new_pair [OF small_hyps small_pair]

lemma small_init: "bio_init (fst small_pair)"
  using new_small by (auto simp: pair_ok_def)

text \<open>
  C36: a pair never gets stuck.  When a read finds nothing and the writer has not shut down (the result is -1), the request that it
  leaves for the other end is positive and at most what was asked for, and when the other end then writes that many bytes, they are all
  accepted, and the next read returns them.\<close>

theorem pair_progress:
  assumes "\<forall>n. length (fresh n) = n" "\<forall>n. alloc n \<longrightarrow> 2 * n < size_bound" "pair_reach alloc fresh s" "bio_init (fst s)"
    and "0 < k" "k \<le> INT_MAX" "BIO_read (bio_s_bio alloc) (int k) s = Some ((-1, out), s1)"
  shows "\<exists>r. BIO_ctrl_get_read_request alloc (swap_ends s1) = Some (int r, swap_ends s1) \<and> 0 < r \<and> r \<le> k \<and>
    (\<forall>xs. length xs = r \<longrightarrow> (\<exists>s2 s3. write_peer alloc xs s1 = Some (int r, s2) \<and>
       BIO_read (bio_s_bio alloc) (int k) s2 = Some ((int r, xs), s3)))"
proof -
  have "pair_ok s" using wf_init_ok [OF reach_wf [OF assms(1-3)] assms(4)] .
  from empty_read [OF this assms(5) assms(7) [unfolded bio_s_bio_def] assms(6)]
  obtain pb where s1: "pair_ok s1" "incoming s1 = []" "ptr (snd s1) = Some pb" "request pb = min k (size pb)" "\<not> closed pb" "len pb = 0"
    by blast
  define r where "r = min k (size pb)"
  have "ring_ok pb" using s1(1,3) by (auto simp: pair_ok_def)
  then have r: "0 < r" "r \<le> k" "r \<le> size pb" using assms(5) by (auto simp: r_def ring_ok_def)
  have "BIO_ctrl_get_read_request alloc (swap_ends s1) = Some (int r, swap_ends s1)"
    using s1(3,4) by (simp add: BIO_ctrl_get_read_request_def BIO_ctrl_def bio_s_bio_def methods_biop_def method_fun_def
        bio_ctrl_def swap_ends_def r_def)
  moreover have "\<exists>s2 s3. write_peer alloc xs s1 = Some (int r, s2) \<and> BIO_read (bio_s_bio alloc) (int k) s2 = Some ((int r, xs), s3)"
    if xs: "length xs = r" for xs
  proof -
    have room: "pair_room (swap_ends s1) = size pb" using s1(3,5,6) by (simp add: pair_room_def swap_ends_def)
    have "pair_ok (swap_ends s1)" using s1(1) by simp
    from pair_BIO_write [OF this, of alloc xs]
    obtain n s2 where s2: "BIO_write (methods_biop alloc) xs (swap_ends s1) = Some (n, s2)" "pair_ok s2"
      "if xs = [] then n = 0 \<and> s2 = swap_ends s1
       else if pair_room (swap_ends s1) = 0 then n = -1 \<and> incoming (swap_ends s2) = incoming (swap_ends (swap_ends s1)) \<and> pair_room s2 = 0
       else let k = min (length xs) (pair_room (swap_ends s1)) in
         n = int k \<and> incoming (swap_ends s2) = incoming (swap_ends (swap_ends s1)) @ take k xs \<and>
         pair_room s2 = pair_room (swap_ends s1) - k" by blast
    have "xs \<noteq> []" "min (length xs) (size pb) = r" "size pb \<noteq> 0" using xs r by auto
    then have n: "n = int r" "incoming (swap_ends s2) = xs"
      using s2(3) xs s1(2) unfolding room by (simp_all add: Let_def)
    note s2 = s2(1) [unfolded n(1)] s2(2) n(2)
    have "write_peer alloc xs s1 = Some (int r, swap_ends s2)" using s2(1) by (simp add: write_peer_def bio_s_bio_def)
    moreover obtain s3 where "BIO_read (methods_biop alloc) (int k) (swap_ends s2) = Some ((int r, xs), s3)"
      using pair_BIO_read [of "swap_ends s2" k alloc] s2(2,3) assms(5,6) xs r by (auto simp: min_absorb2)
    ultimately show ?thesis unfolding bio_s_bio_def by blast
  qed
  ultimately show ?thesis using r(1,2) by blast
qed

lemma pair_progress_witness:
  "\<exists>s1 r. BIO_read (bio_s_bio small_alloc) (int 2) small_pair = Some ((-1, []), s1) \<and>
    BIO_ctrl_get_read_request small_alloc (swap_ends s1) = Some (int r, swap_ends s1) \<and> 0 < r \<and> r \<le> 2 \<and>
    (\<forall>xs. length xs = r \<longrightarrow> (\<exists>s2 s3. write_peer small_alloc xs s1 = Some (int r, s2) \<and>
       BIO_read (bio_s_bio small_alloc) (int 2) s2 = Some ((int r, xs), s3)))"
proof -
  obtain s1 where r: "BIO_read (methods_biop small_alloc) (int 2) small_pair = Some ((-1, []), s1)"
    by (rule pair.rd_none [of small_pair 2 small_alloc]) (use new_small in simp_all)
  then have r: "BIO_read (bio_s_bio small_alloc) (int 2) small_pair = Some ((-1, []), s1)" by (simp add: bio_s_bio_def)
  from pair_progress [OF small_hyps pair_reach.new [OF small_pair] small_init _ _ this] r show ?thesis by auto
qed

text \<open>
  Shutting down.  After \<open>BIO_shutdown_wr\<close> at one end, writes at that end fail with -1, and the other end can
  read everything that was written before and then gets 0, the end of the stream, not -1.\<close>

theorem pair_shutdown:
  assumes "\<forall>n. length (fresh n) = n" "\<forall>n. alloc n \<longrightarrow> 2 * n < size_bound" "pair_reach alloc fresh s" "bio_init (fst s)"
    and "BIO_shutdown_wr alloc s = Some (ret, s1)" "0 < k" "k \<le> INT_MAX" "xs \<noteq> []"
  shows "(\<exists>s2. BIO_write (bio_s_bio alloc) xs s1 = Some (-1, s2)) \<and>
    (\<exists>s2 s3. bio_read_full (bio_s_bio alloc) (length (incoming (swap_ends s))) (swap_ends s1) = Some (Inr (incoming (swap_ends s)), s2) \<and>
       BIO_read (bio_s_bio alloc) (int k) s2 = Some ((0, []), s3))"
proof -
  have ok: "pair_ok s" using wf_init_ok [OF reach_wf [OF assms(1-3)] assms(4)] .
  then obtain bio peer b where s: "s = (bio, peer)" "ptr bio = Some b" by (cases s) (auto simp: pair_ok_def)
  then have s1: "s1 = (bio\<lparr>ptr := Some (b\<lparr>closed := True\<rparr>)\<rparr>, peer)"
    using assms(5) by (simp add: BIO_shutdown_wr_def BIO_ctrl_def bio_s_bio_def methods_biop_def method_fun_def bio_ctrl_def)
  have ok1: "pair_ok s1" using ok by (auto simp: s s1 pair_ok_def ring_ok_def)
  have "pair_room s1 = 0" by (simp add: s1 pair_room_def)
  then have w: "\<exists>s2. BIO_write (methods_biop alloc) xs s1 = Some (-1, s2)"
    using pair_BIO_write [OF ok1, of alloc xs] assms(8) by auto
  have inc: "incoming (swap_ends s1) = incoming (swap_ends s)" "end_value (swap_ends s1) = 0"
    by (simp_all add: s s1 incoming_def swap_ends_def items_def end_value_def)
  have "pair_ok (swap_ends s1)" using ok1 by simp
  from pair.read_full_ok [OF this, of "length (incoming (swap_ends s))" alloc]
  obtain s2 where s2: "bio_read_full (methods_biop alloc) (length (incoming (swap_ends s))) (swap_ends s1) = Some (Inr (incoming (swap_ends s)), s2)"
      "pair_ok s2" "incoming s2 = []" "end_value s2 = 0"
    using inc by auto
  obtain s3 where "BIO_read (methods_biop alloc) (int k) s2 = Some ((0, []), s3)"
    by (rule pair.rd_none [OF s2(2) assms(6,7) s2(3), of alloc]) (use s2(4) in simp)
  with w s2(1) show ?thesis unfolding bio_s_bio_def by blast
qed

lemma pair_shutdown_witness:
  "\<exists>s1. BIO_shutdown_wr small_alloc small_pair = Some (1, s1) \<and>
    (\<exists>s2. BIO_write (bio_s_bio small_alloc) [7] s1 = Some (-1, s2)) \<and>
    (\<exists>s2 s3. bio_read_full (bio_s_bio small_alloc) (length (incoming (swap_ends small_pair))) (swap_ends s1) =
         Some (Inr (incoming (swap_ends small_pair)), s2) \<and>
       BIO_read (bio_s_bio small_alloc) (int 5) s2 = Some ((0, []), s3))"
proof -
  obtain bio peer where p: "small_pair = (bio, peer)" by fastforce
  obtain b where "ptr (fst small_pair) = Some b" using new_small unfolding pair_ok_def by blast
  then have "ptr bio = Some b" unfolding p by simp
  then have "BIO_shutdown_wr small_alloc small_pair = Some (1, bio\<lparr>ptr := Some (b\<lparr>closed := True\<rparr>)\<rparr>, peer)"
    unfolding p by (simp add: BIO_shutdown_wr_def BIO_ctrl_def bio_s_bio_def methods_biop_def method_fun_def bio_ctrl_def)
  then obtain s1 where s1: "BIO_shutdown_wr small_alloc small_pair = Some (1, s1)" by blast
  from pair_shutdown [OF small_hyps pair_reach.new [OF small_pair] small_init s1, of 5 "[7]"] s1 show ?thesis by simp
qed

end
