(* ===== verification/Lhash.thy ===== *)
theory Lhash
  imports Mem "HOL-Library.Multiset"
begin

text \<open>
  Hash tables with chains (\<open>crypto/lhash/lhash.c\<close>).

  Elements are pointers of a type \<open>'d\<close>; a chain is the list of its items.  The hash and comparison
  functions with their wrappers are arguments, as is the allocator.  A pointer to the pointer to an item
  (\<open>LHASH_ITEM **\<close>) is the number of a bucket and the number of items of its chain in front of it.
  What \<open>lh_maybe_resize\<close> asserts of the number of buckets is part of the invariant \<open>lh_ok\<close>.
\<close>

record 'd lhash_item =
  item_data :: 'd
  item_hash :: u32

type_synonym 'd chain = "'d lhash_item list"

record 'd lhash =
  num_items :: nat
  buckets :: "'d chain list"
  callback_depth :: nat

abbreviation num_buckets :: "'d lhash \<Rightarrow> nat" where
  "num_buckets lh \<equiv> length (buckets lh)"

abbreviation kMinNumBuckets :: nat where "kMinNumBuckets \<equiv> 16"
abbreviation kMaxAverageChainLength :: nat where "kMaxAverageChainLength \<equiv> 2"
abbreviation kMinAverageChainLength :: nat where "kMinAverageChainLength \<equiv> 1"
abbreviation UINT_MAX :: nat where "UINT_MAX \<equiv> 4294967295"
abbreviation sizeof_item_ptr :: nat where "sizeof_item_ptr \<equiv> 8"

definition lh_new :: "allocator \<Rightarrow> 'd lhash option" where
  "lh_new alloc =
     (if \<not> alloc 48 then None
      else if \<not> alloc (size_mult sizeof_item_ptr kMinNumBuckets) then None
      else Some \<lparr>num_items = 0, buckets = replicate kMinNumBuckets [], callback_depth = 0\<rparr>)"

definition lh_num_items :: "'d lhash \<Rightarrow> nat" where
  "lh_num_items lh = num_items lh"

section \<open>Looking up\<close>

text \<open>The loop along a chain, up to the first item that matches.\<close>

fun chain_pos :: "('d \<Rightarrow> bool) \<Rightarrow> 'd chain \<Rightarrow> nat" where
  "chain_pos matches [] = 0"
| "chain_pos matches (cur # rest) = (if matches (item_data cur) then 0 else Suc (chain_pos matches rest))"

type_synonym item_ref = "nat \<times> nat"

definition deref :: "'d lhash \<Rightarrow> item_ref \<Rightarrow> 'd lhash_item option" where
  "deref lh p = (case drop (snd p) (buckets lh ! fst p) of [] \<Rightarrow> None | item # _ \<Rightarrow> Some item)"

definition get_next_ptr_and_hash :: "('d \<Rightarrow> u32) \<Rightarrow> ('d \<Rightarrow> 'd \<Rightarrow> int) \<Rightarrow> 'd lhash \<Rightarrow> 'd \<Rightarrow> u32 \<times> item_ref" where
  "get_next_ptr_and_hash hash cmp lh d =
     (let h = hash d; i = unat h mod num_buckets lh
      in (h, i, chain_pos (\<lambda>e. cmp e d = 0) (buckets lh ! i)))"

definition get_next_ptr_by_key :: "'d lhash \<Rightarrow> 'k \<Rightarrow> u32 \<Rightarrow> ('k \<Rightarrow> 'd \<Rightarrow> int) \<Rightarrow> item_ref" where
  "get_next_ptr_by_key lh key key_hash cmp_key =
     (let i = unat key_hash mod num_buckets lh
      in (i, chain_pos (\<lambda>e. cmp_key key e = 0) (buckets lh ! i)))"

definition lh_retrieve :: "('d \<Rightarrow> u32) \<Rightarrow> ('d \<Rightarrow> 'd \<Rightarrow> int) \<Rightarrow> 'd lhash \<Rightarrow> 'd \<Rightarrow> 'd option" where
  "lh_retrieve hash cmp lh d = (case get_next_ptr_and_hash hash cmp lh d of
     (h, next_ptr) \<Rightarrow> (case deref lh next_ptr of None \<Rightarrow> None | Some item \<Rightarrow> Some (item_data item)))"

definition lh_retrieve_key :: "'d lhash \<Rightarrow> 'k \<Rightarrow> u32 \<Rightarrow> ('k \<Rightarrow> 'd \<Rightarrow> int) \<Rightarrow> 'd option" where
  "lh_retrieve_key lh key key_hash cmp_key =
     (case deref lh (get_next_ptr_by_key lh key key_hash cmp_key) of
        None \<Rightarrow> None | Some item \<Rightarrow> Some (item_data item))"

section \<open>Resizing\<close>

text \<open>The inner statement of the loops of \<open>lh_rebucket\<close>: an item goes to the front of its new chain.\<close>

definition move_item :: "'d chain list \<Rightarrow> 'd lhash_item \<Rightarrow> 'd chain list" where
  "move_item new_buckets cur =
     (let new_bucket = unat (item_hash cur) mod length new_buckets
      in new_buckets[new_bucket := cur # new_buckets ! new_bucket])"

definition lh_rebucket :: "allocator \<Rightarrow> 'd lhash \<Rightarrow> nat \<Rightarrow> 'd lhash" where
  "lh_rebucket alloc lh new_num_buckets =
     (let alloc_size = size_mult sizeof_item_ptr new_num_buckets in
      if alloc_size div sizeof_item_ptr \<noteq> new_num_buckets then lh
      else if \<not> alloc alloc_size then lh
      else lh\<lparr>buckets := foldl (foldl move_item) (replicate new_num_buckets []) (buckets lh)\<rparr>)"

definition lh_maybe_resize :: "allocator \<Rightarrow> 'd lhash \<Rightarrow> 'd lhash" where
  "lh_maybe_resize alloc lh =
     (if callback_depth lh > 0 then lh
      else let avg_chain_length = num_items lh div num_buckets lh in
        if avg_chain_length > kMaxAverageChainLength then
          let new_num_buckets = size_mult (num_buckets lh) 2 in
          if new_num_buckets > num_buckets lh then lh_rebucket alloc lh new_num_buckets else lh
        else if avg_chain_length < kMinAverageChainLength \<and> num_buckets lh > kMinNumBuckets then
          let new_num_buckets = num_buckets lh div 2;
              new_num_buckets = (if new_num_buckets < kMinNumBuckets then kMinNumBuckets else new_num_buckets)
          in lh_rebucket alloc lh new_num_buckets
        else lh)"

section \<open>Changing the table\<close>

text \<open>Storing through a pointer to a pointer: what follows it is replaced.\<close>

definition store_at :: "item_ref \<Rightarrow> 'd chain \<Rightarrow> 'd lhash \<Rightarrow> 'd lhash" where
  "store_at p rest lh = lh\<lparr>buckets := (buckets lh)[fst p := take (snd p) (buckets lh ! fst p) @ rest]\<rparr>"

abbreviation sizeof_item :: nat where "sizeof_item \<equiv> 24"

text \<open>The return value, \<open>*old_data\<close> and the table.\<close>

definition lh_insert ::
  "allocator \<Rightarrow> ('d \<Rightarrow> u32) \<Rightarrow> ('d \<Rightarrow> 'd \<Rightarrow> int) \<Rightarrow> 'd lhash \<Rightarrow> 'd \<Rightarrow> bool \<times> 'd option \<times> 'd lhash" where
  "lh_insert alloc hash cmp lh d = (case get_next_ptr_and_hash hash cmp lh d of
     (h, next_ptr) \<Rightarrow> (case drop (snd next_ptr) (buckets lh ! fst next_ptr) of
        item # rest \<Rightarrow> (True, Some (item_data item), store_at next_ptr (item\<lparr>item_data := d\<rparr> # rest) lh)
      | [] \<Rightarrow>
          if \<not> alloc sizeof_item then (False, None, lh)
          else let lh = store_at next_ptr [\<lparr>item_data = d, item_hash = h\<rparr>] lh;
                   lh = lh\<lparr>num_items := size_add (num_items lh) 1\<rparr>
               in (True, None, lh_maybe_resize alloc lh)))"

definition lh_delete ::
  "allocator \<Rightarrow> ('d \<Rightarrow> u32) \<Rightarrow> ('d \<Rightarrow> 'd \<Rightarrow> int) \<Rightarrow> 'd lhash \<Rightarrow> 'd \<Rightarrow> 'd option \<times> 'd lhash" where
  "lh_delete alloc hash cmp lh d = (case get_next_ptr_and_hash hash cmp lh d of
     (h, next_ptr) \<Rightarrow> (case drop (snd next_ptr) (buckets lh ! fst next_ptr) of
        [] \<Rightarrow> (None, lh)
      | item # rest \<Rightarrow>
          let lh = store_at next_ptr rest lh; lh = lh\<lparr>num_items := size_sub (num_items lh) 1\<rparr>
          in (Some (item_data item), lh_maybe_resize alloc lh)))"

text \<open>\<open>lh_doall_arg\<close> for a function that works on its second argument and does not change the table.\<close>

definition lh_doall_arg :: "allocator \<Rightarrow> 'd lhash \<Rightarrow> ('d \<Rightarrow> 'a \<Rightarrow> 'a) \<Rightarrow> 'a \<Rightarrow> 'a \<times> 'd lhash" where
  "lh_doall_arg alloc lh func arg =
     (let lh = (if callback_depth lh < UINT_MAX then lh\<lparr>callback_depth := callback_depth lh + 1\<rparr> else lh);
          arg = foldl (foldl (\<lambda>arg cur. func (item_data cur) arg)) arg (buckets lh);
          lh = (if callback_depth lh < UINT_MAX then lh\<lparr>callback_depth := callback_depth lh - 1\<rparr> else lh)
      in (arg, lh_maybe_resize alloc lh))"

text \<open>\<open>None\<close> is a null pointer.\<close>

definition lh_strhash :: "u8 list option \<Rightarrow> u32" where
  "lh_strhash c = (case c of None \<Rightarrow> 0 | Some s \<Rightarrow> OPENSSL_hash32 (take (strlen s) s))"

section \<open>Chains and buckets\<close>

definition lh_items :: "'d lhash \<Rightarrow> 'd lhash_item list" where
  "lh_items lh = concat (buckets lh)"

text \<open>Every item is in the bucket of its hash value.\<close>

definition buckets_ok :: "'d chain list \<Rightarrow> bool" where
  "buckets_ok bs \<longleftrightarrow> (\<forall>i < length bs. \<forall>item \<in> set (bs ! i). unat (item_hash item) mod length bs = i)"

lemma buckets_ok_nth:
  assumes "buckets_ok bs" "item \<in> set (concat bs)"
  shows "item \<in> set (bs ! (unat (item_hash item) mod length bs))"
proof -
  obtain c where "c \<in> set bs" "item \<in> set c" using assms(2) by auto
  then obtain i where "i < length bs" "item \<in> set (bs ! i)" by (auto simp: in_set_conv_nth)
  with assms(1) show ?thesis by (auto simp: buckets_ok_def)
qed

lemma buckets_ok_update:
  "buckets_ok bs \<Longrightarrow> (\<And>item. item \<in> set c \<Longrightarrow> unat (item_hash item) mod length bs = i) \<Longrightarrow> buckets_ok (bs[i := c])"
  unfolding buckets_ok_def length_list_update by (metis nth_list_update_eq nth_list_update_neq)

lemma mset_concat_update:
  "i < length bs \<Longrightarrow> mset (concat (bs[i := c])) = mset c + mset (concat (bs[i := []]))"
  by (simp add: upd_conv_take_nth_drop ac_simps)

lemma mset_concat_nth:
  "i < length bs \<Longrightarrow> mset (concat bs) = mset (bs ! i) + mset (concat (bs[i := []]))"
  using mset_concat_update [of i bs "bs ! i"] by simp

lemma chain_pos_le: "chain_pos P c \<le> length c"
  by (induction c) auto

lemma chain_pos_Nil: "drop (chain_pos P c) c = [] \<longleftrightarrow> (\<forall>item \<in> set c. \<not> P (item_data item))"
  by (induction c) auto

lemma chain_pos_Cons: "drop (chain_pos P c) c = item # rest \<Longrightarrow> P (item_data item) \<and> item \<in> set c"
  by (induction c) (auto split: if_splits)

section \<open>Rebucketing\<close>

lemma move_item_ok:
  assumes "buckets_ok bs" "bs \<noteq> []"
  shows "buckets_ok (move_item bs item)" "length (move_item bs item) = length bs"
    "mset (concat (move_item bs item)) = add_mset item (mset (concat bs))"
proof -
  let ?i = "unat (item_hash item) mod length bs"
  have i: "?i < length bs" using assms(2) by simp
  show "buckets_ok (move_item bs item)"
    using assms(1) i unfolding move_item_def Let_def
    by (intro buckets_ok_update) (auto simp: buckets_ok_def)
  show "length (move_item bs item) = length bs" by (simp add: move_item_def Let_def)
  show "mset (concat (move_item bs item)) = add_mset item (mset (concat bs))"
    using mset_concat_update [OF i, of "item # bs ! ?i"] mset_concat_nth [OF i]
    by (simp add: move_item_def Let_def)
qed

lemma move_chain_ok:
  "buckets_ok bs \<Longrightarrow> bs \<noteq> [] \<Longrightarrow>
     buckets_ok (foldl move_item bs c) \<and> length (foldl move_item bs c) = length bs \<and>
     mset (concat (foldl move_item bs c)) = mset c + mset (concat bs)"
proof (induction c arbitrary: bs)
  case (Cons item c)
  note m = move_item_ok [OF Cons.prems, of item]
  have "move_item bs item \<noteq> []" using m(2) Cons.prems(2) by auto
  from Cons.IH [OF m(1) this] m show ?case by simp
qed simp

lemma move_all_ok:
  "buckets_ok bs \<Longrightarrow> bs \<noteq> [] \<Longrightarrow>
     buckets_ok (foldl (foldl move_item) bs cs) \<and> length (foldl (foldl move_item) bs cs) = length bs \<and>
     mset (concat (foldl (foldl move_item) bs cs)) = mset (concat cs) + mset (concat bs)"
proof (induction cs arbitrary: bs)
  case (Cons c cs)
  note m = move_chain_ok [OF Cons.prems, of c]
  then have "foldl move_item bs c \<noteq> []" using Cons.prems(2) by auto
  from Cons.IH [OF _ this] m show ?case by (simp add: ac_simps)
qed simp

section \<open>Tables\<close>

locale hash_functions =
  fixes hash :: "'d \<Rightarrow> u32" and cmp :: "'d \<Rightarrow> 'd \<Rightarrow> int"
  assumes refl: "cmp a a = 0"
    and sym: "cmp a b = 0 \<Longrightarrow> cmp b a = 0"
    and trans: "cmp a b = 0 \<Longrightarrow> cmp b c = 0 \<Longrightarrow> cmp a c = 0"
    and same_hash: "cmp a b = 0 \<Longrightarrow> hash a = hash b"
begin

definition class_of :: "'d lhash_item \<Rightarrow> 'd set" where
  "class_of item = {x. cmp (item_data item) x = 0}"

lemma class_of_eq: "class_of i = class_of j \<longleftrightarrow> cmp (item_data i) (item_data j) = 0"
  unfolding class_of_def using refl sym trans by blast

text \<open>The invariant: no two equal elements, cached hash values, every item in its bucket, a right count.\<close>

definition lh_ok :: "'d lhash \<Rightarrow> bool" where
  "lh_ok lh \<longleftrightarrow> kMinNumBuckets \<le> num_buckets lh \<and> sizeof_item_ptr * num_buckets lh < size_bound \<and> buckets_ok (buckets lh) \<and>
     (\<forall>item \<in> set (lh_items lh). item_hash item = hash (item_data item)) \<and>
     distinct (map class_of (lh_items lh)) \<and> num_items lh = length (lh_items lh)"

definition elems :: "'d lhash \<Rightarrow> 'd set" where
  "elems lh = item_data ` set (lh_items lh)"

lemma new_table_ok: "lh_new alloc = Some lh \<Longrightarrow> lh_ok lh \<and> elems lh = {}"
  by (auto simp: lh_new_def lh_ok_def elems_def lh_items_def buckets_ok_def split: if_splits)

lemma same_items:
  assumes "lh_ok lh" "mset (lh_items lh') = mset (lh_items lh)" "buckets_ok (buckets lh')" "num_items lh' = num_items lh"
    and "kMinNumBuckets \<le> num_buckets lh'" "sizeof_item_ptr * num_buckets lh' < size_bound"
  shows "lh_ok lh' \<and> elems lh' = elems lh"
proof -
  have "mset (map class_of (lh_items lh')) = mset (map class_of (lh_items lh))"
    unfolding mset_map assms(2) ..
  then have "distinct (map class_of (lh_items lh')) = distinct (map class_of (lh_items lh))"
    by (rule mset_eq_imp_distinct_iff)
  moreover have "length (lh_items lh') = length (lh_items lh)" "set (lh_items lh') = set (lh_items lh)"
    using assms(2) by (metis size_mset, metis set_mset_mset)
  ultimately show ?thesis using assms by (simp add: lh_ok_def elems_def)
qed

lemma rebucket_ok:
  assumes "lh_ok lh" "kMinNumBuckets \<le> n"
  shows "lh_ok (lh_rebucket alloc lh n) \<and> elems (lh_rebucket alloc lh n) = elems lh"
proof (cases "size_mult sizeof_item_ptr n div sizeof_item_ptr \<noteq> n \<or> \<not> alloc (size_mult sizeof_item_ptr n)")
  case True
  then show ?thesis using assms by (auto simp: lh_rebucket_def Let_def)
next
  case False
  have "size_mult sizeof_item_ptr n < size_bound" by (simp add: size_mult_def)
  moreover have "sizeof_item_ptr * n \<le> size_mult sizeof_item_ptr n"
    using False times_div_less_eq_dividend [of sizeof_item_ptr "size_mult sizeof_item_ptr n"] by simp
  ultimately have n: "sizeof_item_ptr * n < size_bound" by (rule le_less_trans [rotated])
  have "replicate n [] \<noteq> []" "buckets_ok (replicate n [])" using assms(2) by (auto simp: buckets_ok_def)
  from move_all_ok [OF this(2,1), of "buckets lh"] assms n False show ?thesis
    by (intro same_items) (simp_all add: lh_rebucket_def Let_def lh_items_def)
qed

lemma maybe_resize_ok:
  assumes "lh_ok lh"
  shows "lh_ok (lh_maybe_resize alloc lh) \<and> elems (lh_maybe_resize alloc lh) = elems lh"
proof -
  have "size_mult (num_buckets lh) 2 = num_buckets lh * 2" "kMinNumBuckets \<le> num_buckets lh * 2"
    using assms by (simp_all add: lh_ok_def)
  then show ?thesis
    using assms rebucket_ok [OF assms, of "num_buckets lh * 2" alloc]
      rebucket_ok [OF assms, of "if num_buckets lh div 2 < kMinNumBuckets then kMinNumBuckets else num_buckets lh div 2" alloc]
    unfolding lh_maybe_resize_def Let_def by (simp split: if_split)
qed

end

context hash_functions begin

lemma bucket_in_range: "lh_ok lh \<Longrightarrow> unat (h :: u32) mod num_buckets lh < num_buckets lh"
  unfolding lh_ok_def by (intro mod_less_divisor) linarith

text \<open>An element equal to \<open>d\<close> is in the bucket of \<open>d\<close>.\<close>

lemma in_bucket:
  assumes "lh_ok lh" "item \<in> set (lh_items lh)" "cmp (item_data item) d = 0"
  shows "item \<in> set (buckets lh ! (unat (hash d) mod num_buckets lh))"
proof -
  have "item_hash item = hash d" using assms same_hash by (auto simp: lh_ok_def)
  moreover have "item \<in> set (buckets lh ! (unat (item_hash item) mod num_buckets lh))"
    using assms(1,2) by (intro buckets_ok_nth) (simp_all add: lh_ok_def lh_items_def)
  ultimately show ?thesis by simp
qed

lemma bucket_items: "lh_ok lh \<Longrightarrow> i < num_buckets lh \<Longrightarrow> item \<in> set (buckets lh ! i) \<Longrightarrow> item \<in> set (lh_items lh)"
  by (auto simp: lh_items_def)

lemma equal_items:
  assumes "lh_ok lh" "item \<in> set (lh_items lh)" "item' \<in> set (lh_items lh)" "cmp (item_data item) d = 0" "cmp (item_data item') d = 0"
  shows "item = item'"
proof -
  have "class_of item = class_of item'" using class_of_eq sym trans assms(4,5) by blast
  moreover have "inj_on class_of (set (lh_items lh))" using assms(1) by (simp add: lh_ok_def distinct_map)
  ultimately show ?thesis using assms(2,3) by (meson inj_onD)
qed

text \<open>The two outcomes of the search.\<close>

lemma search_cases:
  assumes "lh_ok lh"
  obtains (absent) i k where "get_next_ptr_and_hash hash cmp lh d = (hash d, i, k)" "i = unat (hash d) mod num_buckets lh"
      "i < num_buckets lh" "k = length (buckets lh ! i)" "\<And>e. e \<in> elems lh \<Longrightarrow> cmp e d \<noteq> 0"
  | (present) i k item rest where "get_next_ptr_and_hash hash cmp lh d = (hash d, i, k)" "i = unat (hash d) mod num_buckets lh"
      "i < num_buckets lh" "drop k (buckets lh ! i) = item # rest" "buckets lh ! i = take k (buckets lh ! i) @ item # rest"
      "cmp (item_data item) d = 0" "item \<in> set (lh_items lh)"
proof -
  define i where "i = unat (hash d) mod num_buckets lh"
  define c where "c = buckets lh ! i"
  define k where "k = chain_pos (\<lambda>e. cmp e d = 0) c"
  have i: "i < num_buckets lh" unfolding i_def by (rule bucket_in_range [OF assms])
  have g: "get_next_ptr_and_hash hash cmp lh d = (hash d, i, k)"
    by (simp add: get_next_ptr_and_hash_def Let_def i_def c_def k_def)
  show thesis
  proof (cases "drop k c")
    case Nil
    then have "\<forall>item \<in> set c. cmp (item_data item) d \<noteq> 0" unfolding k_def by (simp only: chain_pos_Nil)
    then have "cmp e d \<noteq> 0" if "e \<in> elems lh" for e
      using that in_bucket [OF assms] by (auto simp: elems_def c_def i_def)
    moreover have "k = length (buckets lh ! i)" using Nil chain_pos_le [of "\<lambda>e. cmp e d = 0" c] by (simp add: k_def c_def)
    ultimately show ?thesis using absent [OF g i_def i] by blast
  next
    case (Cons item rest)
    then have "cmp (item_data item) d = 0" "item \<in> set c"
      using chain_pos_Cons unfolding k_def by blast+
    moreover have "c = take k c @ item # rest" using Cons append_take_drop_id [of k c] by simp
    ultimately show ?thesis
      using present [OF g i_def i] Cons bucket_items [OF assms i] unfolding c_def by blast
  qed
qed

lemma retrieve_iff:
  assumes "lh_ok lh"
  shows "lh_retrieve hash cmp lh d = Some e \<longleftrightarrow> e \<in> elems lh \<and> cmp e d = 0"
  using assms
proof (cases rule: search_cases [where d = d])
  case (absent i k)
  then show ?thesis by (auto simp: lh_retrieve_def deref_def)
next
  case (present i k item rest)
  have "lh_retrieve hash cmp lh d = Some (item_data item)"
    using present(1,4) by (simp add: lh_retrieve_def deref_def)
  moreover have "item_data item = e" if e: "e \<in> elems lh" "cmp e d = 0"
  proof -
    obtain item' where "item' \<in> set (lh_items lh)" "item_data item' = e" using e(1) by (auto simp: elems_def)
    then show ?thesis using equal_items [OF assms present(7)] present(6) e(2) by blast
  qed
  ultimately show ?thesis using present(6,7) by (auto simp: elems_def)
qed

lemma retrieve_None: "lh_ok lh \<Longrightarrow> lh_retrieve hash cmp lh d = None \<longleftrightarrow> (\<forall>e \<in> elems lh. cmp e d \<noteq> 0)"
  using retrieve_iff [of lh d] by (metis not_None_eq)

text \<open>Storing into one bucket: the other items stay.\<close>

lemma store_items:
  assumes "i < num_buckets lh"
  shows "mset (lh_items (store_at (i, k) c lh)) = mset (take k (buckets lh ! i)) + mset c + mset (concat ((buckets lh)[i := []]))"
  using mset_concat_update [OF assms, of "take k (buckets lh ! i) @ c"] by (simp add: lh_items_def store_at_def)

lemma store_buckets_ok:
  assumes "buckets_ok (buckets lh)" "i < num_buckets lh" "\<And>item. item \<in> set c \<Longrightarrow> unat (item_hash item) mod num_buckets lh = i"
  shows "buckets_ok (buckets (store_at (i, k) c lh))"
proof -
  have "unat (item_hash item) mod num_buckets lh = i" if "item \<in> set (take k (buckets lh ! i) @ c)" for item
    using that assms(3) assms(1) [unfolded buckets_ok_def] assms(2) by (auto dest: in_set_takeD)
  then have "buckets_ok ((buckets lh)[i := take k (buckets lh ! i) @ c])" by (rule buckets_ok_update [OF assms(1)])
  then show ?thesis by (simp add: store_at_def)
qed

text \<open>A table whose items are those of \<open>M\<close>.\<close>

lemma ok_from_mset:
  assumes "mset (lh_items lh') = mset items" "buckets_ok (buckets lh')" "num_items lh' = length items"
    and "kMinNumBuckets \<le> num_buckets lh'" "sizeof_item_ptr * num_buckets lh' < size_bound"
    and "\<And>item. item \<in> set items \<Longrightarrow> item_hash item = hash (item_data item)" "distinct (map class_of items)"
  shows "lh_ok lh' \<and> elems lh' = item_data ` set items"
proof -
  have "set (lh_items lh') = set items" "length (lh_items lh') = length items"
    using assms(1) by (metis set_mset_mset, metis size_mset)
  moreover have "mset (map class_of (lh_items lh')) = mset (map class_of items)"
    unfolding mset_map assms(1) ..
  then have "distinct (map class_of (lh_items lh')) = distinct (map class_of items)"
    by (rule mset_eq_imp_distinct_iff)
  ultimately show ?thesis using assms by (auto simp: lh_ok_def elems_def)
qed

end

context hash_functions begin

lemma distinct_classes:
  assumes "lh_ok lh" "mset (lh_items lh) = mset items"
  shows "distinct (map class_of items)" "set items = set (lh_items lh)" "length items = num_items lh"
proof -
  have "mset (map class_of (lh_items lh)) = mset (map class_of items)" unfolding mset_map assms(2) ..
  then show "distinct (map class_of items)"
    using assms(1) mset_eq_imp_distinct_iff unfolding lh_ok_def by blast
  show "set items = set (lh_items lh)" using assms(2) by (metis set_mset_mset)
  show "length items = num_items lh" using assms by (metis lh_ok_def size_mset)
qed

lemma store_fields [simp]:
  "num_buckets (store_at p c lh) = num_buckets lh" "num_items (store_at p c lh) = num_items lh"
  by (simp_all add: store_at_def)

lemma table_insert_ok:
  assumes "lh_ok lh" "num_items lh + 1 < size_bound" "lh_insert alloc hash cmp lh d = (r, old, lh')"
  shows "lh_ok lh' \<and>
    (if r then old = lh_retrieve hash cmp lh d \<and> elems lh' = insert d {e \<in> elems lh. cmp e d \<noteq> 0}
     else lh' = lh \<and> old = None \<and> lh_retrieve hash cmp lh d = None \<and> (\<exists>n. \<not> alloc n))"
  using assms(1)
proof (cases rule: search_cases [where d = d])
  case (absent i k)
  have none: "lh_retrieve hash cmp lh d = None" using absent(5) retrieve_None [OF assms(1)] by blast
  show ?thesis
  proof (cases "alloc sizeof_item")
    case False
    then show ?thesis using assms absent(1,4) none by (auto simp: lh_insert_def)
  next
    case True
    let ?item = "\<lparr>item_data = d, item_hash = hash d\<rparr>"
    let ?t = "(store_at (i, k) [?item] lh)\<lparr>num_items := size_add (num_items lh) 1\<rparr>"
    have res: "r" "old = None" "lh' = lh_maybe_resize alloc ?t"
      using assms(3) absent(1,4) True by (simp_all add: lh_insert_def Let_def)
    have "mset (lh_items ?t) = mset (?item # lh_items lh)"
      using store_items [OF absent(3), of k "[?item]"] mset_concat_nth [OF absent(3)] absent(4)
      by (simp add: lh_items_def)
    moreover have "buckets_ok (buckets ?t)"
      using store_buckets_ok [of lh i "[?item]" k] assms(1) absent(2,3) by (simp add: lh_ok_def)
    moreover have "class_of ?item \<notin> class_of ` set (lh_items lh)"
    proof
      assume "class_of ?item \<in> class_of ` set (lh_items lh)"
      then obtain x where "x \<in> set (lh_items lh)" "cmp d (item_data x) = 0" using class_of_eq by auto
      then show False using absent(5) [of "item_data x"] sym by (auto simp: elems_def)
    qed
    ultimately have "lh_ok ?t \<and> elems ?t = item_data ` set (?item # lh_items lh)"
      using assms(1,2) by (intro ok_from_mset) (auto simp: lh_ok_def)
    moreover have "{e \<in> elems lh. cmp e d \<noteq> 0} = elems lh" using absent(5) by blast
    ultimately show ?thesis
      using maybe_resize_ok [of ?t alloc] res none by (simp add: elems_def)
  qed
next
  case (present i k item rest)
  let ?new = "item\<lparr>item_data := d\<rparr>"
  let ?others = "take k (buckets lh ! i) @ rest @ concat ((buckets lh)[i := []])"
  have res: "r" "old = Some (item_data item)" "lh' = store_at (i, k) (?new # rest) lh"
    using assms(3) present(1,4) by (simp_all add: lh_insert_def)
  have old: "mset (lh_items lh) = mset (item # ?others)"
    using mset_concat_nth [OF present(3)] arg_cong [OF present(5), of mset] by (simp add: lh_items_def)
  note o = distinct_classes [OF assms(1) old]
  have ih: "item_hash item = hash d" "\<And>x. x \<in> set (lh_items lh) \<Longrightarrow> item_hash x = hash (item_data x)"
    using assms(1) present(6,7) same_hash by (auto simp: lh_ok_def)
  have bs: "x \<in> set rest \<Longrightarrow> unat (item_hash x) mod num_buckets lh = i" for x
    using assms(1) present(3,5) unfolding lh_ok_def buckets_ok_def by (metis in_set_conv_decomp list.set_intros(2) Un_iff set_append)
  have "mset (lh_items lh') = mset (?new # ?others)"
    using store_items [OF present(3), of k "?new # rest"] res(3) by simp
  moreover have "buckets_ok (buckets lh')"
    unfolding res(3) using assms(1) present(2,3) ih(1) bs
    by (intro store_buckets_ok) (auto simp: lh_ok_def)
  moreover have "class_of ?new = class_of item" using present(6) class_of_eq sym by fastforce
  then have "distinct (map class_of (?new # ?others))" using o(1) by simp
  ultimately have "lh_ok lh' \<and> elems lh' = item_data ` set (?new # ?others)"
    using assms(1) o(2,3) ih res(3) by (intro ok_from_mset) (auto simp: lh_ok_def)
  moreover have "item_data ` set ?others = {e \<in> elems lh. cmp e d \<noteq> 0}"
  proof -
    have "cmp (item_data x) d \<noteq> 0" if "x \<in> set ?others" for x
    proof
      assume "cmp (item_data x) d = 0"
      moreover have "x \<in> set (lh_items lh)" using that o(2) by auto
      ultimately have "x = item" using equal_items [OF assms(1) _ present(7) _ present(6)] by blast
      then show False using that o(1) by auto
    qed
    then show ?thesis using o(2) present(6) by (auto simp: elems_def simp flip: o(2))
  qed
  moreover have "lh_retrieve hash cmp lh d = Some (item_data item)"
    using retrieve_iff [OF assms(1)] present(6,7) by (auto simp: elems_def)
  ultimately show ?thesis using res by simp
qed

end

context hash_functions begin

lemma table_delete_ok:
  assumes "lh_ok lh" "num_items lh < size_bound" "lh_delete alloc hash cmp lh d = (old, lh')"
  shows "lh_ok lh' \<and> old = lh_retrieve hash cmp lh d \<and> elems lh' = {e \<in> elems lh. cmp e d \<noteq> 0} \<and>
    num_items lh' = (if old = None then num_items lh else num_items lh - 1)"
  using assms(1)
proof (cases rule: search_cases [where d = d])
  case (absent i k)
  then have "old = None" "lh' = lh" using assms(3) by (simp_all add: lh_delete_def)
  moreover have "lh_retrieve hash cmp lh d = None" using absent(5) retrieve_None [OF assms(1)] by blast
  ultimately show ?thesis using absent(5) assms(1) by auto
next
  case (present i k item rest)
  let ?others = "take k (buckets lh ! i) @ rest @ concat ((buckets lh)[i := []])"
  let ?t = "(store_at (i, k) rest lh)\<lparr>num_items := size_sub (num_items lh) 1\<rparr>"
  have res: "old = Some (item_data item)" "lh' = lh_maybe_resize alloc ?t"
    using assms(3) present(1,4) by (simp_all add: lh_delete_def Let_def)
  have old: "mset (lh_items lh) = mset (item # ?others)"
    using mset_concat_nth [OF present(3)] arg_cong [OF present(5), of mset] by (simp add: lh_items_def)
  note o = distinct_classes [OF assms(1) old]
  have "length ?others = num_items lh - 1" "num_items lh \<noteq> 0" using o(3) by auto
  then have n: "size_sub (num_items lh) 1 = length ?others" using assms(2) by simp
  have bs: "x \<in> set rest \<Longrightarrow> unat (item_hash x) mod num_buckets lh = i" for x
    using assms(1) present(3,5) unfolding lh_ok_def buckets_ok_def by (metis list.set_intros(2) Un_iff set_append)
  have "mset (lh_items ?t) = mset ?others"
    using store_items [OF present(3), of k rest] by (simp add: lh_items_def)
  moreover have "buckets_ok (buckets ?t)"
    using store_buckets_ok [of lh i rest k] assms(1) present(3) bs by (simp add: lh_ok_def)
  moreover have "distinct (map class_of ?others)" using o(1) by simp
  moreover have "item_hash x = hash (item_data x)" if "x \<in> set ?others" for x
    using that o(2) assms(1) unfolding lh_ok_def by (metis list.set_intros(2))
  ultimately have t: "lh_ok ?t \<and> elems ?t = item_data ` set ?others"
    using assms(1) n by (intro ok_from_mset) (auto simp: lh_ok_def)
  have "cmp (item_data x) d \<noteq> 0" if "x \<in> set ?others" for x
  proof
    assume "cmp (item_data x) d = 0"
    moreover have "x \<in> set (lh_items lh)" using that o(2) by auto
    ultimately have "x = item" using equal_items [OF assms(1) _ present(7) _ present(6)] by blast
    then show False using that o(1) by auto
  qed
  then have "item_data ` set ?others = {e \<in> elems lh. cmp e d \<noteq> 0}"
    using o(2) present(6) by (auto simp: elems_def simp flip: o(2))
  moreover have "lh_retrieve hash cmp lh d = Some (item_data item)"
    using retrieve_iff [OF assms(1)] present(6,7) by (auto simp: elems_def)
  moreover have "num_items (lh_maybe_resize alloc ?t) = num_items ?t"
    by (simp add: lh_maybe_resize_def Let_def lh_rebucket_def)
  ultimately show ?thesis using maybe_resize_ok [of ?t alloc] t res n \<open>length ?others = _\<close> by simp
qed

text \<open>In terms of looking up.\<close>

lemma retrieve_insert:
  assumes "lh_ok lh" "num_items lh + 1 < size_bound" "lh_insert alloc hash cmp lh d = (True, old, lh')"
  shows "lh_retrieve hash cmp lh' x = (if cmp d x = 0 then Some d else lh_retrieve hash cmp lh x)"
proof -
  have ok: "lh_ok lh'" "elems lh' = insert d {e \<in> elems lh. cmp e d \<noteq> 0}" using table_insert_ok [OF assms] by simp_all
  show ?thesis
  proof (cases "cmp d x = 0")
    case True
    then have "lh_retrieve hash cmp lh' x = Some d" using retrieve_iff [OF ok(1)] ok(2) by blast
    with True show ?thesis by simp
  next
    case False
    have "lh_retrieve hash cmp lh' x = Some e \<longleftrightarrow> lh_retrieve hash cmp lh x = Some e" for e
      unfolding retrieve_iff [OF ok(1)] retrieve_iff [OF assms(1)] ok(2) using False sym trans by blast
    with False show ?thesis by (metis not_None_eq)
  qed
qed

lemma retrieve_delete:
  assumes "lh_ok lh" "num_items lh < size_bound" "lh_delete alloc hash cmp lh d = (old, lh')"
  shows "lh_retrieve hash cmp lh' x = (if cmp d x = 0 then None else lh_retrieve hash cmp lh x)"
proof -
  have ok: "lh_ok lh'" "elems lh' = {e \<in> elems lh. cmp e d \<noteq> 0}" using table_delete_ok [OF assms] by simp_all
  have "lh_retrieve hash cmp lh' x = Some e \<longleftrightarrow> cmp d x \<noteq> 0 \<and> lh_retrieve hash cmp lh x = Some e" for e
    unfolding retrieve_iff [OF ok(1)] retrieve_iff [OF assms(1)] ok(2) using sym trans by blast
  then show ?thesis by (metis not_None_eq)
qed

lemma num_items_resize [simp]: "num_items (lh_maybe_resize alloc lh) = num_items lh"
  by (simp add: lh_maybe_resize_def Let_def lh_rebucket_def)

lemma insert_count:
  "lh_insert alloc hash cmp lh d = (r, old, lh') \<Longrightarrow> num_items lh + 1 < size_bound \<Longrightarrow> num_items lh' \<le> num_items lh + 1"
  by (auto simp: lh_insert_def Let_def store_at_def split: prod.splits list.splits if_splits)

end

section \<open>Sequences of calls\<close>

datatype 'd lh_call = Insert 'd | Delete 'd

text \<open>What the calls give back (the element replaced or removed), and the table; and the same on a map.\<close>

fun lh_calls :: "allocator \<Rightarrow> ('d \<Rightarrow> u32) \<Rightarrow> ('d \<Rightarrow> 'd \<Rightarrow> int) \<Rightarrow> 'd lh_call list \<Rightarrow> 'd lhash \<Rightarrow> 'd option list \<times> 'd lhash" where
  "lh_calls alloc hash cmp [] lh = ([], lh)"
| "lh_calls alloc hash cmp (Insert d # calls) lh = (case lh_insert alloc hash cmp lh d of
     (r, old, lh) \<Rightarrow> (case lh_calls alloc hash cmp calls lh of (outs, lh) \<Rightarrow> (old # outs, lh)))"
| "lh_calls alloc hash cmp (Delete d # calls) lh = (case lh_delete alloc hash cmp lh d of
     (old, lh) \<Rightarrow> (case lh_calls alloc hash cmp calls lh of (outs, lh) \<Rightarrow> (old # outs, lh)))"

fun map_calls :: "('d \<Rightarrow> 'd \<Rightarrow> int) \<Rightarrow> 'd lh_call list \<Rightarrow> ('d \<Rightarrow> 'd option) \<Rightarrow> 'd option list \<times> ('d \<Rightarrow> 'd option)" where
  "map_calls cmp [] f = ([], f)"
| "map_calls cmp (Insert d # calls) f =
     (case map_calls cmp calls (\<lambda>x. if cmp d x = 0 then Some d else f x) of (outs, f') \<Rightarrow> (f d # outs, f'))"
| "map_calls cmp (Delete d # calls) f =
     (case map_calls cmp calls (\<lambda>x. if cmp d x = 0 then None else f x) of (outs, f') \<Rightarrow> (f d # outs, f'))"

context hash_functions begin

lemma calls_refine:
  assumes "lh_ok lh" "num_items lh + length calls < size_bound" "alloc sizeof_item"
  shows "\<exists>outs lh'. lh_calls alloc hash cmp calls lh = (outs, lh') \<and> lh_ok lh' \<and>
    map_calls cmp calls (lh_retrieve hash cmp lh) = (outs, lh_retrieve hash cmp lh')"
  using assms
proof (induction calls arbitrary: lh)
  case (Cons c calls)
  show ?case
  proof (cases c)
    case (Insert d)
    obtain r old lh1 where i: "lh_insert alloc hash cmp lh d = (r, old, lh1)" by (cases "lh_insert alloc hash cmp lh d")
    have lt: "num_items lh + 1 < size_bound" using Cons.prems(2) by simp
    have r: "r" using i Cons.prems(3) by (auto simp: lh_insert_def Let_def split: prod.splits list.splits)
    have "lh_ok lh1" "old = lh_retrieve hash cmp lh d"
      using table_insert_ok [OF Cons.prems(1) lt i] r by simp_all
    moreover have "num_items lh1 + length calls < size_bound" using insert_count [OF i lt] Cons.prems(2) by simp
    moreover have "(\<lambda>x. if cmp d x = 0 then Some d else lh_retrieve hash cmp lh x) = lh_retrieve hash cmp lh1"
      using retrieve_insert [OF Cons.prems(1) lt i [unfolded r [THEN eqTrueI]]] by auto
    ultimately show ?thesis using Cons.IH [of lh1] Cons.prems(3) Insert i by auto
  next
    case (Delete d)
    obtain old lh1 where i: "lh_delete alloc hash cmp lh d = (old, lh1)" by (cases "lh_delete alloc hash cmp lh d")
    have lt: "num_items lh < size_bound" using Cons.prems(2) by simp
    have "lh_ok lh1" "old = lh_retrieve hash cmp lh d" "num_items lh1 \<le> num_items lh"
      using table_delete_ok [OF Cons.prems(1) lt i] by (simp_all split: if_splits)
    moreover have "(\<lambda>x. if cmp d x = 0 then None else lh_retrieve hash cmp lh x) = lh_retrieve hash cmp lh1"
      using retrieve_delete [OF Cons.prems(1) lt i] by auto
    ultimately show ?thesis using Cons.IH [of lh1] Cons.prems(2,3) Delete i by auto
  qed
qed simp

end

section \<open>The size of the array\<close>

definition load_ok :: "'d lhash \<Rightarrow> bool" where
  "load_ok lh \<longleftrightarrow> callback_depth lh = 0 \<and> kMinNumBuckets \<le> num_buckets lh \<and> num_items lh < 3 * num_buckets lh \<and>
     (num_buckets lh = kMinNumBuckets \<or> num_buckets lh \<le> num_items lh)"

lemma rebucket_length:
  assumes "0 < n" "sizeof_item_ptr * n < size_bound"
  shows "num_buckets (lh_rebucket (\<lambda>_. True) lh n) = n" "num_items (lh_rebucket (\<lambda>_. True) lh n) = num_items lh"
    "callback_depth (lh_rebucket (\<lambda>_. True) lh n) = callback_depth lh"
proof -
  have "replicate n [] \<noteq> []" "buckets_ok (replicate n [])" using assms(1) by (auto simp: buckets_ok_def)
  from move_all_ok [OF this(2,1), of "buckets lh"] show "num_buckets (lh_rebucket (\<lambda>_. True) lh n) = n"
    using assms by (simp add: lh_rebucket_def)
qed (simp_all add: lh_rebucket_def Let_def)

lemma resize_load:
  assumes "callback_depth lh = 0" "kMinNumBuckets \<le> num_buckets lh" "num_items lh \<le> 3 * num_buckets lh"
    and "num_buckets lh = kMinNumBuckets \<or> num_buckets lh \<le> num_items lh + 1" "16 * num_items lh < size_bound"
  shows "load_ok (lh_maybe_resize (\<lambda>_. True) lh)"
proof -
  let ?n = "num_buckets lh"
  have pos: "0 < ?n" using assms(2) by linarith
  consider (grow) "num_items lh = 3 * ?n" | (shrink) "num_items lh < ?n" "?n > kMinNumBuckets"
    | (keep) "num_items lh < 3 * ?n" "?n \<le> num_items lh \<or> ?n = kMinNumBuckets"
    using assms(2,3) by linarith
  then show ?thesis
  proof cases
    case grow
    have s: "sizeof_item_ptr * (?n * 2) < size_bound" using assms(5) grow by linarith
    then have "lh_maybe_resize (\<lambda>_. True) lh = lh_rebucket (\<lambda>_. True) lh (?n * 2)"
      using assms(1) pos grow by (simp add: lh_maybe_resize_def Let_def)
    then show ?thesis
      using rebucket_length [OF _ s, of lh] assms(1,2) grow pos by (simp add: load_ok_def)
  next
    case shrink
    define m where "m = (if ?n div 2 < kMinNumBuckets then kMinNumBuckets else ?n div 2)"
    have m: "kMinNumBuckets \<le> m" "num_items lh < 3 * m" "m = kMinNumBuckets \<or> m \<le> num_items lh"
      using shrink assms(4) by (auto simp: m_def)
    have "m \<le> ?n" using shrink by (auto simp: m_def)
    then have s: "sizeof_item_ptr * m < size_bound" using assms(5) shrink assms(4) by linarith
    have "num_items lh div ?n = 0" using shrink(1) by simp
    then have "lh_maybe_resize (\<lambda>_. True) lh = lh_rebucket (\<lambda>_. True) lh m"
      using assms(1) shrink(2) by (simp add: lh_maybe_resize_def m_def)
    then show ?thesis
      using rebucket_length [OF _ s, of lh] assms(1) m by (simp add: load_ok_def)
  next
    case keep
    have "num_items lh div ?n \<le> 2" using keep(1) pos by (simp add: less_Suc_eq_le [symmetric] div_less_iff_less_mult)
    moreover have "num_items lh div ?n \<ge> 1 \<or> ?n = kMinNumBuckets"
      using keep(2) pos by (auto simp: div_greater_zero_iff Suc_le_eq)
    ultimately have "lh_maybe_resize (\<lambda>_. True) lh = lh"
      using assms(1) by (auto simp: lh_maybe_resize_def Let_def)
    then show ?thesis using keep assms(1,2) by (auto simp: load_ok_def)
  qed
qed

lemma store_load: "load_ok (store_at p c lh) \<longleftrightarrow> load_ok lh"
  by (simp add: load_ok_def store_at_def)

lemma insert_load:
  assumes "load_ok lh" "16 * (num_items lh + 1) < size_bound" "lh_insert (\<lambda>_. True) hash cmp lh d = (r, old, lh')"
  shows "load_ok lh' \<and> num_items lh' \<le> num_items lh + 1"
proof -
  obtain h p where p: "get_next_ptr_and_hash hash cmp lh d = (h, p)" by (cases "get_next_ptr_and_hash hash cmp lh d")
  show ?thesis
  proof (cases "drop (snd p) (buckets lh ! fst p)")
    case (Cons item rest)
    then have "lh' = store_at p (item\<lparr>item_data := d\<rparr> # rest) lh" using assms(3) p by (simp add: lh_insert_def)
    moreover have "num_items (store_at p c lh) = num_items lh" for c by (simp add: store_at_def)
    ultimately show ?thesis using assms(1) by (simp add: store_load)
  next
    case Nil
    let ?t = "(store_at p [\<lparr>item_data = d, item_hash = h\<rparr>] lh)\<lparr>num_items := num_items lh + 1\<rparr>"
    have "lh' = lh_maybe_resize (\<lambda>_. True) ?t"
      using assms(2,3) p Nil by (simp add: lh_insert_def Let_def store_at_def)
    moreover have "load_ok (lh_maybe_resize (\<lambda>_. True) ?t)"
      by (rule resize_load) (use assms(1,2) in \<open>auto simp: load_ok_def store_at_def\<close>)
    moreover have "num_items (lh_maybe_resize (\<lambda>_. True) ?t) = num_items lh + 1"
      by (simp add: lh_maybe_resize_def Let_def lh_rebucket_def)
    ultimately show ?thesis by simp
  qed
qed

lemma delete_load:
  assumes "load_ok lh" "16 * num_items lh < size_bound" "lh_delete (\<lambda>_. True) hash cmp lh d = (old, lh')"
    "old \<noteq> None \<longrightarrow> num_items lh \<noteq> 0"
  shows "load_ok lh' \<and> num_items lh' \<le> num_items lh"
proof -
  obtain h p where p: "get_next_ptr_and_hash hash cmp lh d = (h, p)" by (cases "get_next_ptr_and_hash hash cmp lh d")
  show ?thesis
  proof (cases "drop (snd p) (buckets lh ! fst p)")
    case Nil
    then show ?thesis using assms p by (auto simp: lh_delete_def)
  next
    case (Cons item rest)
    then have old: "old \<noteq> None" using assms(3) p by (auto simp: lh_delete_def Let_def)
    let ?t = "(store_at p rest lh)\<lparr>num_items := num_items lh - 1\<rparr>"
    have "size_sub (num_items lh) 1 = num_items lh - 1" using old assms(2,4) by (intro size_sub_eq) auto
    then have "lh' = lh_maybe_resize (\<lambda>_. True) ?t"
      using assms(3) p Cons by (simp add: lh_delete_def Let_def store_at_def)
    moreover have "load_ok (lh_maybe_resize (\<lambda>_. True) ?t)"
      by (rule resize_load) (use assms(1,2) in \<open>auto simp: load_ok_def store_at_def\<close>)
    moreover have "num_items (lh_maybe_resize (\<lambda>_. True) ?t) = num_items lh - 1"
      by (simp add: lh_maybe_resize_def Let_def lh_rebucket_def)
    ultimately show ?thesis by simp
  qed
qed

lemma foldl_concat: "foldl (foldl f) a xss = foldl f a (concat xss)"
  by (induction xss arbitrary: a) auto

context hash_functions begin

lemma calls_load:
  assumes "lh_ok lh" "load_ok lh" "16 * (num_items lh + length calls) < size_bound"
  shows "load_ok (snd (lh_calls (\<lambda>_. True) hash cmp calls lh)) \<and>
    num_items (snd (lh_calls (\<lambda>_. True) hash cmp calls lh)) \<le> num_items lh + length calls"
  using assms
proof (induction calls arbitrary: lh)
  case (Cons c calls)
  show ?case
  proof (cases c)
    case (Insert d)
    obtain r old lh1 where i: "lh_insert (\<lambda>_. True) hash cmp lh d = (r, old, lh1)" by (cases "lh_insert (\<lambda>_. True) hash cmp lh d")
    have lt: "num_items lh + 1 < size_bound" "16 * (num_items lh + 1) < size_bound" using Cons.prems(3) by simp_all
    have "load_ok lh1" "num_items lh1 \<le> num_items lh + 1" using insert_load [OF Cons.prems(2) lt(2) i] by simp_all
    moreover have "lh_ok lh1" using table_insert_ok [OF Cons.prems(1) lt(1) i] by simp
    ultimately have "load_ok (snd (lh_calls (\<lambda>_. True) hash cmp calls lh1))"
        "num_items (snd (lh_calls (\<lambda>_. True) hash cmp calls lh1)) \<le> num_items lh1 + length calls"
      using Cons.IH [of lh1] Cons.prems(3) by simp_all
    with \<open>num_items lh1 \<le> num_items lh + 1\<close> show ?thesis using Insert i by (auto split: prod.splits)
  next
    case (Delete d)
    obtain old lh1 where i: "lh_delete (\<lambda>_. True) hash cmp lh d = (old, lh1)" by (cases "lh_delete (\<lambda>_. True) hash cmp lh d")
    have lt: "num_items lh < size_bound" "16 * num_items lh < size_bound" using Cons.prems(3) by simp_all
    have d: "lh_ok lh1" "old = lh_retrieve hash cmp lh d" using table_delete_ok [OF Cons.prems(1) lt(1) i] by simp_all
    have "old \<noteq> None \<longrightarrow> num_items lh \<noteq> 0"
      using d(2) retrieve_None [OF Cons.prems(1)] Cons.prems(1) by (auto simp: lh_ok_def elems_def)
    then have "load_ok lh1" "num_items lh1 \<le> num_items lh" using delete_load [OF Cons.prems(2) lt(2) i] by simp_all
    then have "load_ok (snd (lh_calls (\<lambda>_. True) hash cmp calls lh1))"
        "num_items (snd (lh_calls (\<lambda>_. True) hash cmp calls lh1)) \<le> num_items lh1 + length calls"
      using Cons.IH [of lh1] d(1) Cons.prems(3) by simp_all
    with \<open>num_items lh1 \<le> num_items lh\<close> show ?thesis using Delete i by (auto split: prod.splits)
  qed
qed simp

end

section \<open>Properties\<close>

text \<open>A hash and a comparison of byte strings, for concrete tables.\<close>

definition bytes_cmp :: "u8 list \<Rightarrow> u8 list \<Rightarrow> int" where
  "bytes_cmp a b = (if a = b then 0 else 1)"

lemma bytes_functions: "hash_functions OPENSSL_hash32 bytes_cmp"
  by unfold_locales (auto simp: bytes_cmp_def split: if_splits)

definition empty_table :: "'d lhash" where
  "empty_table = \<lparr>num_items = 0, buckets = replicate kMinNumBuckets [], callback_depth = 0\<rparr>"

lemma empty_table: "lh_new (\<lambda>_. True) = Some empty_table"
  by (simp add: lh_new_def empty_table_def)

context hash_functions begin

lemma retrieve_new: "lh_new alloc = Some lh \<Longrightarrow> lh_retrieve hash cmp lh = (\<lambda>_. None)"
  using new_table_ok [of alloc lh] retrieve_None by (auto intro!: ext)

lemma new_counts: "lh_new alloc = Some lh \<Longrightarrow> num_items lh = 0 \<and> load_ok lh"
  by (auto simp: lh_new_def load_ok_def split: if_splits)

lemma doall_ok:
  assumes "lh_ok lh"
  shows "fst (lh_doall_arg alloc lh func arg) = foldl (\<lambda>a d. func d a) arg (map item_data (lh_items lh))"
    "lh_ok (snd (lh_doall_arg alloc lh func arg))" "elems (snd (lh_doall_arg alloc lh func arg)) = elems lh"
proof -
  have f: "foldl (\<lambda>arg cur. func (item_data cur) arg) arg xs = foldl (\<lambda>a d. func d a) arg (map item_data xs)" for xs
    by (simp add: foldl_map)
  show "fst (lh_doall_arg alloc lh func arg) = foldl (\<lambda>a d. func d a) arg (map item_data (lh_items lh))"
    by (simp add: lh_doall_arg_def Let_def foldl_concat lh_items_def f)
  have "\<exists>n. snd (lh_doall_arg alloc lh func arg) = lh_maybe_resize alloc (lh\<lparr>callback_depth := n\<rparr>)"
  proof (cases "callback_depth lh < UINT_MAX")
    case True
    then show ?thesis
      by (cases "callback_depth lh + 1 < UINT_MAX")
        (auto simp: lh_doall_arg_def Let_def intro: exI [of _ "callback_depth lh"] exI [of _ "callback_depth lh + 1"])
  next
    case False
    then have "snd (lh_doall_arg alloc lh func arg) = lh_maybe_resize alloc (lh\<lparr>callback_depth := callback_depth lh\<rparr>)"
      by (simp add: lh_doall_arg_def)
    then show ?thesis ..
  qed
  then obtain n where n: "snd (lh_doall_arg alloc lh func arg) = lh_maybe_resize alloc (lh\<lparr>callback_depth := n\<rparr>)" ..
  have "lh_ok (lh\<lparr>callback_depth := n\<rparr>)" "elems (lh\<lparr>callback_depth := n\<rparr>) = elems lh"
    using assms by (simp_all add: lh_ok_def elems_def lh_items_def)
  with n maybe_resize_ok show "lh_ok (snd (lh_doall_arg alloc lh func arg))"
    "elems (snd (lh_doall_arg alloc lh func arg)) = elems lh" by simp_all
qed

lemma distinct_data: "lh_ok lh \<Longrightarrow> distinct (map item_data (lh_items lh))"
proof -
  assume "lh_ok lh"
  then have "distinct (map class_of (lh_items lh))" by (simp add: lh_ok_def)
  then have "distinct (map (\<lambda>d. {x. cmp d x = 0}) (map item_data (lh_items lh)))"
    by (simp add: class_of_def [abs_def] comp_def)
  then show ?thesis by (auto simp: distinct_map inj_on_def)
qed

lemma retrieve_eq_elems:
  "lh_ok lh \<Longrightarrow> lh_ok lh' \<Longrightarrow> elems lh' = elems lh \<Longrightarrow> lh_retrieve hash cmp lh' x = lh_retrieve hash cmp lh x"
  using retrieve_iff [of lh x] retrieve_iff [of lh' x] by (metis not_None_eq)

end

text \<open>
  C9: a hash table is a map.  When the hash function respects the comparison, every sequence of insertions and deletions
  on a new table (with memory for its items, whatever happens when the array is to be resized) gives back what the
  same sequence gives back on a map from the classes of equal elements to elements, and \<open>lh_retrieve\<close> is then that map.\<close>

theorem lhash_refines_map:
  assumes "hash_functions hash cmp" "lh_new alloc = Some lh" "alloc sizeof_item" "length calls < size_bound"
  shows "\<exists>outs lh'. lh_calls alloc hash cmp calls lh = (outs, lh') \<and>
    map_calls cmp calls (\<lambda>_. None) = (outs, lh_retrieve hash cmp lh')"
proof -
  note t = hash_functions.new_table_ok [OF assms(1,2)] hash_functions.new_counts [OF assms(1,2)]
    hash_functions.retrieve_new [OF assms(1,2)]
  show ?thesis
    using hash_functions.calls_refine [OF assms(1), of lh calls alloc] t assms(3,4) by auto
qed

theorem lhash_refines_map_witness:
  "\<exists>outs lh'. lh_calls (\<lambda>_. True) OPENSSL_hash32 bytes_cmp [Insert [1], Insert [2], Insert [1], Delete [1]] empty_table = (outs, lh') \<and>
    map_calls bytes_cmp [Insert [1], Insert [2], Insert [1], Delete [1]] (\<lambda>_. None) = (outs, lh_retrieve OPENSSL_hash32 bytes_cmp lh')"
  by (rule lhash_refines_map [OF bytes_functions empty_table]) simp_all

text \<open>
  Iterating over a table.  \<open>lh_doall_arg\<close> calls its function once for every element the table holds, in some order, and
  leaves a table with the same elements, also where the array is resized at the end.\<close>

theorem lhash_doall:
  assumes "hash_functions hash cmp" "lh_new alloc = Some new" "alloc sizeof_item" "length calls < size_bound"
    and "lh_calls alloc hash cmp calls new = (outs, lh)" "lh_doall_arg alloc lh func arg = (arg', lh')"
  shows "\<exists>ds. distinct ds \<and> length ds = lh_num_items lh \<and> (\<forall>d. d \<in> set ds \<longleftrightarrow> lh_retrieve hash cmp lh d = Some d) \<and>
    arg' = foldl (\<lambda>arg d. func d arg) arg ds \<and> lh_retrieve hash cmp lh' = lh_retrieve hash cmp lh"
proof -
  have "hash_functions.lh_ok hash cmp lh"
    using hash_functions.calls_refine [OF assms(1), of new calls alloc] hash_functions.new_table_ok [OF assms(1,2)]
      hash_functions.new_counts [OF assms(1,2)] assms(3-5) by auto
  note ok = this hash_functions.doall_ok [OF assms(1) this, of alloc func arg, unfolded assms(6)]
  let ?ds = "map item_data (lh_items lh)"
  have "distinct ?ds" by (rule hash_functions.distinct_data [OF assms(1) ok(1)])
  moreover have "length ?ds = lh_num_items lh"
    using ok(1) by (simp add: lh_num_items_def hash_functions.lh_ok_def [OF assms(1)])
  moreover have "d \<in> set ?ds \<longleftrightarrow> lh_retrieve hash cmp lh d = Some d" for d
    using hash_functions.retrieve_iff [OF assms(1) ok(1)] hash_functions.refl [OF assms(1)] hash_functions.elems_def [OF assms(1), of lh] by auto
  moreover have "lh_retrieve hash cmp lh' = lh_retrieve hash cmp lh"
    using hash_functions.retrieve_eq_elems [OF assms(1) ok(1)] ok(3,4) by auto
  ultimately show ?thesis using ok(2) by (intro exI [of _ ?ds]) simp
qed

theorem lhash_doall_witness:
  "\<exists>outs lh arg lh' ds. lh_calls (\<lambda>_. True) OPENSSL_hash32 bytes_cmp [Insert [1], Insert [2]] empty_table = (outs, lh) \<and>
    lh_doall_arg (\<lambda>_. True) lh Cons [] = (arg, lh') \<and> distinct ds \<and> length ds = lh_num_items lh \<and>
    (\<forall>d. d \<in> set ds \<longleftrightarrow> lh_retrieve OPENSSL_hash32 bytes_cmp lh d = Some d) \<and>
    arg = foldl (\<lambda>arg d. d # arg) [] ds \<and> lh_retrieve OPENSSL_hash32 bytes_cmp lh' = lh_retrieve OPENSSL_hash32 bytes_cmp lh"
proof -
  obtain outs lh where c: "lh_calls (\<lambda>_. True) OPENSSL_hash32 bytes_cmp [Insert [1], Insert [2]] empty_table = (outs, lh)"
    by (cases "lh_calls (\<lambda>_. True) OPENSSL_hash32 bytes_cmp [Insert [1], Insert [2]] empty_table")
  obtain arg lh' where d: "lh_doall_arg (\<lambda>_. True) lh Cons [] = (arg, lh')" by (cases "lh_doall_arg (\<lambda>_. True) lh Cons []")
  from lhash_doall [OF bytes_functions empty_table _ _ c d] c d show ?thesis by auto
qed

text \<open>
  C39: chains stay short.  With memory for the array, a table made by fewer than 2^60 calls has fewer than three elements in a
  bucket on average, and no more buckets than elements unless it has the 16 it started with.\<close>

theorem lhash_load:
  assumes "hash_functions hash cmp" "lh_new (\<lambda>_. True) = Some new" "16 * length calls < size_bound"
    and "lh_calls (\<lambda>_. True) hash cmp calls new = (outs, lh)"
  shows "lh_num_items lh < 3 * num_buckets lh \<and> (num_buckets lh = kMinNumBuckets \<or> num_buckets lh \<le> lh_num_items lh)"
proof -
  note t = hash_functions.new_table_ok [OF assms(1,2)] hash_functions.new_counts [OF assms(1,2)]
  then have "load_ok lh" using hash_functions.calls_load [OF assms(1), of new calls] assms(3,4) by simp
  then show ?thesis by (simp add: load_ok_def lh_num_items_def)
qed

theorem lhash_load_witness:
  "\<exists>outs lh. lh_calls (\<lambda>_. True) OPENSSL_hash32 bytes_cmp [Insert [1], Insert [2], Delete [1]] empty_table = (outs, lh) \<and>
    lh_num_items lh < 3 * num_buckets lh \<and> (num_buckets lh = kMinNumBuckets \<or> num_buckets lh \<le> lh_num_items lh)"
proof -
  obtain outs lh where "lh_calls (\<lambda>_. True) OPENSSL_hash32 bytes_cmp [Insert [1], Insert [2], Delete [1]] empty_table = (outs, lh)"
    by (cases "lh_calls (\<lambda>_. True) OPENSSL_hash32 bytes_cmp [Insert [1], Insert [2], Delete [1]] empty_table")
  moreover from lhash_load [OF bytes_functions empty_table _ this] this show ?thesis by simp
qed

end
