(* ===== verification/Refcount.thy ===== *)
theory Refcount
  imports BSSL_Prelude "HOL-Library.Monad_Syntax"
begin

text \<open>
  Reference counts: \<open>crypto/refcount_lock.c\<close>, where a lock makes each operation atomic, and
  \<open>crypto/refcount_c11.c\<close>, where a loop retries a compare-and-exchange.
\<close>

abbreviation CRYPTO_REFCOUNT_MAX :: u32 where "CRYPTO_REFCOUNT_MAX \<equiv> 0xffffffff"

section \<open>With a lock\<close>

definition CRYPTO_refcount_inc :: "u32 \<Rightarrow> u32" where
  "CRYPTO_refcount_inc count = (if count < CRYPTO_REFCOUNT_MAX then count + 1 else count)"

text \<open>The return value and the count; \<open>None\<close> is \<open>abort\<close>.\<close>

definition CRYPTO_refcount_dec_and_test_zero :: "u32 \<Rightarrow> (bool \<times> u32) option" where
  "CRYPTO_refcount_dec_and_test_zero count =
     (if count = 0 then None
      else let count = (if count < CRYPTO_REFCOUNT_MAX then count - 1 else count) in Some (count = 0, count))"

section \<open>With compare-and-exchange\<close>

text \<open>
  Other threads run between the steps of the loop.  An attempt is the value of the count at the time of the
  compare-and-exchange, and whether it fails spuriously.  The result is \<open>None\<close> while the loop has not ended, and otherwise
  the value of the count at the time it ended, with what the operation made of it.\<close>

type_synonym attempts = "(u32 \<times> bool) list"

fun refcount_inc_loop :: "u32 \<Rightarrow> attempts \<Rightarrow> (u32 \<times> u32) option" where
  "refcount_inc_loop expected attempts =
     (if expected \<noteq> CRYPTO_REFCOUNT_MAX then
        let new_value = expected + 1 in
        (case attempts of [] \<Rightarrow> None
         | (count, spurious) # attempts \<Rightarrow>
             if count = expected \<and> \<not> spurious then Some (count, new_value)
             else refcount_inc_loop count attempts)
      else Some (expected, expected))"

definition refcount_inc_c11 :: "u32 \<Rightarrow> attempts \<Rightarrow> (u32 \<times> u32) option" where
  "refcount_inc_c11 loaded attempts = refcount_inc_loop loaded attempts"

fun refcount_dec_loop :: "u32 \<Rightarrow> attempts \<Rightarrow> (u32 \<times> (bool \<times> u32) option) option" where
  "refcount_dec_loop expected attempts =
     (if expected = 0 then Some (expected, None)
      else if expected = CRYPTO_REFCOUNT_MAX then Some (expected, Some (False, expected))
      else let new_value = expected - 1 in
        (case attempts of [] \<Rightarrow> None
         | (count, spurious) # attempts \<Rightarrow>
             if count = expected \<and> \<not> spurious then Some (count, Some (new_value = 0, new_value))
             else refcount_dec_loop count attempts))"

definition refcount_dec_c11 :: "u32 \<Rightarrow> attempts \<Rightarrow> (u32 \<times> (bool \<times> u32) option) option" where
  "refcount_dec_c11 loaded attempts = refcount_dec_loop loaded attempts"

declare refcount_inc_loop.simps [simp del] refcount_dec_loop.simps [simp del]

section \<open>Lemmas\<close>

lemma not_max: "count \<noteq> CRYPTO_REFCOUNT_MAX \<longleftrightarrow> count < CRYPTO_REFCOUNT_MAX"
proof -
  have "unat count < 4294967296" using unsigned_less [of count] by simp
  then have "unat count \<noteq> 4294967295 \<longleftrightarrow> unat count < 4294967295" by linarith
  then show ?thesis by (simp add: word_less_nat_alt word_unat_eq_iff)
qed

lemma inc_loop_agrees: "refcount_inc_loop expected attempts = Some (count, count') \<Longrightarrow> count' = CRYPTO_refcount_inc count"
proof (induction expected attempts rule: refcount_inc_loop.induct)
  case (1 expected attempts)
  then show ?case
    by (subst (asm) refcount_inc_loop.simps)
      (auto simp: CRYPTO_refcount_inc_def not_max Let_def split: if_splits list.splits)
qed

lemma dec_loop_agrees:
  "refcount_dec_loop expected attempts = Some (count, r) \<Longrightarrow> r = CRYPTO_refcount_dec_and_test_zero count"
proof (induction expected attempts rule: refcount_dec_loop.induct)
  case (1 expected attempts)
  then show ?case
    by (subst (asm) refcount_dec_loop.simps)
      (auto simp: CRYPTO_refcount_dec_and_test_zero_def not_max Let_def split: if_splits list.splits)
qed

lemma unat_not_max: "count < CRYPTO_REFCOUNT_MAX \<Longrightarrow> unat (count + 1) = unat count + 1"
  by (simp add: unat_word_ariths word_less_nat_alt)

lemma refcount_inc_unat:
  "count \<noteq> CRYPTO_REFCOUNT_MAX \<Longrightarrow> unat (CRYPTO_refcount_inc count) = unat count + 1"
  using unat_not_max [of count] not_max [of count] by (simp add: CRYPTO_refcount_inc_def)

lemma refcount_dec_cases:
  assumes "count \<noteq> 0"
  obtains (stuck) "count = CRYPTO_REFCOUNT_MAX" "CRYPTO_refcount_dec_and_test_zero count = Some (False, count)"
  | (dec) "count \<noteq> CRYPTO_REFCOUNT_MAX" "CRYPTO_refcount_dec_and_test_zero count = Some (unat count = 1, count - 1)"
      "unat (count - 1) = unat count - 1"
proof (cases "count = CRYPTO_REFCOUNT_MAX")
  case True
  then show ?thesis using stuck by (simp add: CRYPTO_refcount_dec_and_test_zero_def)
next
  case False
  have "unat (count - 1) = unat count - 1" using assms by (simp add: unat_minus_one)
  moreover have "count - 1 = 0 \<longleftrightarrow> unat count = 1"
    using assms calculation by (auto simp: word_unat_eq_iff)
  ultimately show ?thesis using dec False assms not_max [of count]
    by (simp add: CRYPTO_refcount_dec_and_test_zero_def)
qed

text \<open>An attempt that sees the value of the attempt before, and does not fail spuriously, ends the loop.\<close>

definition undisturbed :: "u32 \<Rightarrow> attempts \<Rightarrow> u32 \<times> bool" where
  "undisturbed loaded attempts = (if attempts = [] then loaded else fst (last attempts), False)"

lemma undisturbed_Cons [simp]: "undisturbed loaded ((count, spurious) # attempts) = undisturbed count attempts"
  by (simp add: undisturbed_def)

lemma inc_loop_ends: "refcount_inc_loop expected (attempts @ [undisturbed expected attempts]) \<noteq> None"
proof (induction attempts arbitrary: expected)
  case Nil
  show ?case by (simp add: refcount_inc_loop.simps undisturbed_def)
next
  case (Cons a attempts)
  show ?case using Cons [of "fst a"]
    by (cases a) (simp add: refcount_inc_loop.simps [of expected] Let_def split: prod.splits)
qed

lemma dec_loop_ends: "refcount_dec_loop expected (attempts @ [undisturbed expected attempts]) \<noteq> None"
proof (induction attempts arbitrary: expected)
  case Nil
  show ?case by (simp add: refcount_dec_loop.simps undisturbed_def Let_def)
next
  case (Cons a attempts)
  show ?case using Cons [of "fst a"]
    by (cases a) (simp add: refcount_dec_loop.simps [of expected] Let_def split: prod.splits)
qed

section \<open>Properties\<close>

text \<open>
  The two implementations agree.  Whatever other threads do to the count, a loop of compare-and-exchange that ends has
  done at that moment, and to the value of that moment, what the operation under the lock does (an abort on zero and the
  saturation included); and it ends with the first attempt that is not disturbed.\<close>

theorem refcount_c11_agrees:
  "(refcount_inc_c11 loaded attempts = Some (count, count') \<longrightarrow> count' = CRYPTO_refcount_inc count) \<and>
   (refcount_dec_c11 loaded attempts = Some (count, r) \<longrightarrow> r = CRYPTO_refcount_dec_and_test_zero count) \<and>
   refcount_inc_c11 loaded (attempts @ [undisturbed loaded attempts]) \<noteq> None \<and>
   refcount_dec_c11 loaded (attempts @ [undisturbed loaded attempts]) \<noteq> None"
  using inc_loop_agrees dec_loop_agrees inc_loop_ends dec_loop_ends
  unfolding refcount_inc_c11_def refcount_dec_c11_def by blast

theorem refcount_c11_agrees_witness:
  "refcount_inc_c11 1 [(2, False), (2, True), (2, False)] = Some (2, 3) \<and> CRYPTO_refcount_inc 2 = 3 \<and>
   refcount_dec_c11 1 [(1, False)] = Some (1, Some (True, 0)) \<and> CRYPTO_refcount_dec_and_test_zero 1 = Some (True, 0)"
proof -
  have i: "refcount_inc_c11 1 [(2, False), (2, True), (2, False)] = Some (2, 3)"
    by (simp add: refcount_inc_c11_def refcount_inc_loop.simps)
  have d: "refcount_dec_c11 1 [(1, False)] = Some (1, Some (True, 0))"
    by (simp add: refcount_dec_c11_def refcount_dec_loop.simps)
  show ?thesis
    using refcount_c11_agrees [of 1 "[(2, False), (2, True), (2, False)]" 2 3] i
      refcount_c11_agrees [of 1 "[(1, False)]" 1 0 "Some (True, 0)"] d by simp
qed

end
