(* ===== verification/Pool.thy ===== *)
theory Pool
  imports Lhash Refcount Cbs
begin

text \<open>
  Shared buffers with reference counts (\<open>crypto/pool/pool.c\<close>).

  Pointers are 64-bit words, and NULL is 0.  The state has the buffers and the pools that are allocated, by their address; an
  operation returns \<open>None\<close> where it reads freed memory, an assertion fails or the code aborts.  What \<open>malloc\<close> returns
  (an address, and whether there is memory) is an argument.  The two parts of \<open>CRYPTO_BUFFER_new\<close> under the lock of the pool
  are functions of their own, because other threads may run between them.
\<close>

type_synonym ptr = "64 word"

abbreviation NULL :: ptr where "NULL \<equiv> 0"

record crypto_buffer =
  buf_pool :: ptr
  buf_data :: "u8 list"
  references :: u32

type_synonym heap = "ptr \<rightharpoonup> crypto_buffer"

record pool_state =
  heap :: heap
  pools :: "ptr \<rightharpoonup> ptr lhash"

section \<open>Hashing and comparing\<close>

definition CRYPTO_BUFFER_hash :: "heap \<Rightarrow> ptr \<Rightarrow> u32" where
  "CRYPTO_BUFFER_hash h buf = OPENSSL_hash32 (buf_data (the (h buf)))"

definition CRYPTO_BUFFER_cmp :: "heap \<Rightarrow> ptr \<Rightarrow> ptr \<Rightarrow> int" where
  "CRYPTO_BUFFER_cmp h a b =
     (let a = the (h a); b = the (h b) in
      if length (buf_data a) \<noteq> length (buf_data b) then 1
      else OPENSSL_memcmp (buf_data a) (buf_data b) (length (buf_data a)))"

section \<open>Pools\<close>

definition CRYPTO_BUFFER_POOL_new :: "allocator \<Rightarrow> nat \<Rightarrow> ptr \<Rightarrow> pool_state \<Rightarrow> ptr \<times> pool_state" where
  "CRYPTO_BUFFER_POOL_new alloc sizeof_pool addr s =
     (if \<not> alloc sizeof_pool then (NULL, s)
      else (case lh_new alloc of
          None \<Rightarrow> (NULL, s)
        | Some bufs \<Rightarrow> (addr, s\<lparr>pools := (pools s)(addr \<mapsto> bufs)\<rparr>)))"

definition CRYPTO_BUFFER_POOL_free :: "ptr \<Rightarrow> pool_state \<Rightarrow> pool_state option" where
  "CRYPTO_BUFFER_POOL_free pool s =
     (if pool = NULL then Some s
      else do {
        bufs \<leftarrow> pools s pool;
        if lh_num_items bufs \<noteq> 0 then None else Some (s\<lparr>pools := (pools s)(pool := None)\<rparr>)
      })"

section \<open>Buffers\<close>

definition CRYPTO_BUFFER_up_ref :: "ptr \<Rightarrow> pool_state \<Rightarrow> pool_state option" where
  "CRYPTO_BUFFER_up_ref buf s = do {
     b \<leftarrow> heap s buf;
     Some (s\<lparr>heap := (heap s)(buf \<mapsto> b\<lparr>references := CRYPTO_refcount_inc (references b)\<rparr>)\<rparr>)
   }"

text \<open>The lookup of \<open>CRYPTO_BUFFER_new\<close> under the read lock, with its buffer \<open>tmp\<close> on the stack, of which only the data
  is set.\<close>

definition find_duplicate :: "ptr \<Rightarrow> u8 list \<Rightarrow> ptr \<Rightarrow> pool_state \<Rightarrow> (ptr \<times> pool_state) option" where
  "find_duplicate tmp data pool s = do {
     bufs \<leftarrow> pools s pool;
     let h = (heap s)(tmp \<mapsto> \<lparr>buf_pool = 0, buf_data = data, references = 0\<rparr>);
     (case lh_retrieve (CRYPTO_BUFFER_hash h) (CRYPTO_BUFFER_cmp h) bufs tmp of
        None \<Rightarrow> Some (NULL, s)
      | Some duplicate \<Rightarrow> do { s \<leftarrow> CRYPTO_BUFFER_up_ref duplicate s; Some (duplicate, s) })
   }"

text \<open>The buffer that it allocates.\<close>

abbreviation sizeof_crypto_buffer :: nat where "sizeof_crypto_buffer \<equiv> 32"

definition new_buffer :: "allocator \<Rightarrow> ptr \<Rightarrow> u8 list \<Rightarrow> ptr \<Rightarrow> pool_state \<Rightarrow> ptr \<times> pool_state" where
  "new_buffer alloc addr data pool s =
     (if \<not> alloc sizeof_crypto_buffer then (NULL, s)
      else let copy = OPENSSL_memdup alloc data (length data) in
        if length data \<noteq> 0 \<and> copy = None then (NULL, s)
        else (addr, s\<lparr>heap := (heap s)(addr \<mapsto>
          \<lparr>buf_pool = pool, buf_data = (case copy of None \<Rightarrow> [] | Some d \<Rightarrow> d), references = 1\<rparr>)\<rparr>))"

definition free_buffer :: "ptr \<Rightarrow> pool_state \<Rightarrow> pool_state" where
  "free_buffer buf s = s\<lparr>heap := (heap s)(buf := None)\<rparr>"

text \<open>From the write lock to the end: the buffer goes into the table unless another thread was faster.\<close>

definition publish_buffer :: "allocator \<Rightarrow> ptr \<Rightarrow> ptr \<Rightarrow> pool_state \<Rightarrow> (ptr \<times> pool_state) option" where
  "publish_buffer alloc buf pool s = do {
     bufs \<leftarrow> pools s pool;
     (case lh_retrieve (CRYPTO_BUFFER_hash (heap s)) (CRYPTO_BUFFER_cmp (heap s)) bufs buf of
        None \<Rightarrow>
          (case lh_insert alloc (CRYPTO_BUFFER_hash (heap s)) (CRYPTO_BUFFER_cmp (heap s)) bufs buf of (inserted, old, bufs) \<Rightarrow>
            if old \<noteq> None then None
            else let s = s\<lparr>pools := (pools s)(pool \<mapsto> bufs)\<rparr> in
              if \<not> inserted then Some (NULL, free_buffer buf s) else Some (buf, s))
      | Some duplicate \<Rightarrow> do {
          s \<leftarrow> CRYPTO_BUFFER_up_ref duplicate s;
          Some (duplicate, free_buffer buf s)
        })
   }"

definition CRYPTO_BUFFER_new ::
  "allocator \<Rightarrow> ptr \<Rightarrow> ptr \<Rightarrow> u8 list \<Rightarrow> ptr \<Rightarrow> pool_state \<Rightarrow> (ptr \<times> pool_state) option" where
  "CRYPTO_BUFFER_new alloc tmp addr data pool s = do {
     (duplicate, s) \<leftarrow> (if pool \<noteq> NULL then find_duplicate tmp data pool s else Some (NULL, s));
     if duplicate \<noteq> NULL then Some (duplicate, s)
     else (case new_buffer alloc addr data pool s of (buf, s) \<Rightarrow>
       if buf = NULL then Some (NULL, s)
       else if pool = NULL then Some (buf, s)
       else publish_buffer alloc buf pool s)
   }"

text \<open>\<open>malloc\<close> leaves some bytes in the memory it returns.\<close>

definition CRYPTO_BUFFER_alloc ::
  "allocator \<Rightarrow> (nat \<Rightarrow> u8 list) \<Rightarrow> ptr \<Rightarrow> nat \<Rightarrow> pool_state \<Rightarrow> ptr \<times> pool_state" where
  "CRYPTO_BUFFER_alloc alloc fresh addr len s =
     (if \<not> alloc sizeof_crypto_buffer then (NULL, s)
      else if len \<noteq> 0 \<and> \<not> alloc len then (NULL, s)
      else (addr, s\<lparr>heap := (heap s)(addr \<mapsto> \<lparr>buf_pool = NULL, buf_data = take len (fresh len), references = 1\<rparr>)\<rparr>))"

definition CRYPTO_BUFFER_new_from_CBS ::
  "allocator \<Rightarrow> ptr \<Rightarrow> ptr \<Rightarrow> cbs \<Rightarrow> ptr \<Rightarrow> pool_state \<Rightarrow> (ptr \<times> pool_state) option" where
  "CRYPTO_BUFFER_new_from_CBS alloc tmp addr cbs pool s = CRYPTO_BUFFER_new alloc tmp addr (CBS_data cbs) pool s"

definition CRYPTO_BUFFER_free :: "allocator \<Rightarrow> ptr \<Rightarrow> pool_state \<Rightarrow> pool_state option" where
  "CRYPTO_BUFFER_free alloc buf s =
     (if buf = NULL then Some s
      else do {
        b \<leftarrow> heap s buf;
        (zero, count) \<leftarrow> CRYPTO_refcount_dec_and_test_zero (references b);
        let s = s\<lparr>heap := (heap s)(buf \<mapsto> b\<lparr>references := count\<rparr>)\<rparr>;
        if buf_pool b = NULL then Some (if zero then free_buffer buf s else s)
        else do {
          bufs \<leftarrow> pools s (buf_pool b);
          if \<not> zero then Some s
          else (case lh_delete alloc (CRYPTO_BUFFER_hash (heap s)) (CRYPTO_BUFFER_cmp (heap s)) bufs buf of (found, bufs) \<Rightarrow>
            if found \<noteq> Some buf then None
            else Some (free_buffer buf (s\<lparr>pools := (pools s)(buf_pool b \<mapsto> bufs)\<rparr>)))
        }
      })"

definition CRYPTO_BUFFER_data :: "ptr \<Rightarrow> pool_state \<Rightarrow> u8 list option" where
  "CRYPTO_BUFFER_data buf s = do { b \<leftarrow> heap s buf; Some (buf_data b) }"

definition CRYPTO_BUFFER_len :: "ptr \<Rightarrow> pool_state \<Rightarrow> nat option" where
  "CRYPTO_BUFFER_len buf s = do { b \<leftarrow> heap s buf; Some (length (buf_data b)) }"

definition CRYPTO_BUFFER_init_CBS :: "ptr \<Rightarrow> pool_state \<Rightarrow> cbs option" where
  "CRYPTO_BUFFER_init_CBS buf s = do { b \<leftarrow> heap s buf; Some (CBS_init (buf_data b) (length (buf_data b))) }"

section \<open>The table of a pool\<close>

lemma cmp_iff: "CRYPTO_BUFFER_cmp h a b = 0 \<longleftrightarrow> buf_data (the (h a)) = buf_data (the (h b))"
  by (auto simp: CRYPTO_BUFFER_cmp_def OPENSSL_memcmp_def Let_def memcmp_0_iff)

interpretation bufs: hash_functions "CRYPTO_BUFFER_hash h" "CRYPTO_BUFFER_cmp h" for h
  by unfold_locales (simp_all add: cmp_iff CRYPTO_BUFFER_hash_def)


lemma lh_ok_alt:
  "bufs.lh_ok h lh \<longleftrightarrow> kMinNumBuckets \<le> num_buckets lh \<and> sizeof_item_ptr * num_buckets lh < size_bound \<and>
     buckets_ok (buckets lh) \<and>
     (\<forall>item \<in> set (lh_items lh). item_hash item = OPENSSL_hash32 (buf_data (the (h (item_data item))))) \<and>
     distinct (lh_items lh) \<and> inj_on (\<lambda>item. buf_data (the (h (item_data item)))) (set (lh_items lh)) \<and>
     num_items lh = length (lh_items lh)"
proof -
  have "inj_on (hash_functions.class_of (CRYPTO_BUFFER_cmp h)) A \<longleftrightarrow> inj_on (\<lambda>item. buf_data (the (h (item_data item)))) A" for A
    unfolding inj_on_def bufs.class_of_eq cmp_iff by blast
  then show ?thesis unfolding bufs.lh_ok_def distinct_map by (simp add: CRYPTO_BUFFER_hash_def)
qed

text \<open>Only the data of the elements matters.\<close>

lemma lh_ok_heap:
  assumes "bufs.lh_ok h lh" "\<And>b. b \<in> bufs.elems lh \<Longrightarrow> buf_data (the (h' b)) = buf_data (the (h b))"
  shows "bufs.lh_ok h' lh"
proof -
  have eq: "buf_data (the (h' (item_data item))) = buf_data (the (h (item_data item)))" if "item \<in> set (lh_items lh)" for item
    using assms(2) that by (simp add: bufs.elems_def)
  have "inj_on (\<lambda>item. buf_data (the (h' (item_data item)))) (set (lh_items lh)) \<longleftrightarrow>
      inj_on (\<lambda>item. buf_data (the (h (item_data item)))) (set (lh_items lh))"
    by (rule inj_on_cong) (rule eq)
  with assms(1) eq show ?thesis unfolding lh_ok_alt by simp
qed

lemma elems_inj: "bufs.lh_ok h lh \<Longrightarrow> a \<in> bufs.elems lh \<Longrightarrow> b \<in> bufs.elems lh \<Longrightarrow>
    buf_data (the (h a)) = buf_data (the (h b)) \<Longrightarrow> a = b"
  unfolding lh_ok_alt bufs.elems_def by (auto dest: inj_onD)

lemma num_items_bound:
  assumes "bufs.lh_ok h lh" "X \<inter> bufs.elems lh = {}"
  shows "num_items lh + card X \<le> size_bound"
proof -
  have "num_items lh = card (bufs.elems lh)"
    using distinct_card [OF bufs.distinct_data [OF assms(1)]] assms(1)
    by (simp add: bufs.elems_def lh_ok_alt)
  moreover have "card (bufs.elems lh) + card X = card (bufs.elems lh \<union> X)"
    using assms(2) by (intro card_Un_disjoint [symmetric]) (auto intro: finite_subset [OF subset_UNIV])
  moreover have "card (bufs.elems lh \<union> X) \<le> card (UNIV :: ptr set)" by (intro card_mono) auto
  moreover have "card (UNIV :: ptr set) = size_bound" by (simp add: card_word)
  ultimately show ?thesis by simp
qed

section \<open>Callers and threads\<close>

text \<open>
  Any number of threads call these functions.  A thread is between calls, or in \<open>CRYPTO_BUFFER_new\<close> after it has not
  found the data, or there with a buffer that is not in the table yet.  \<open>handles\<close> counts the references the callers
  hold.\<close>

datatype thread =
    Idle
  | Missed "u8 list" ptr
  | Made "u8 list" ptr ptr

record world =
  st :: pool_state
  handles :: "ptr multiset"
  threads :: "nat \<Rightarrow> thread"

definition handle :: "ptr \<Rightarrow> ptr multiset" where
  "handle buf = (if buf = NULL then {#} else {#buf#})"

text \<open>An address \<open>malloc\<close> may return.\<close>

definition unused :: "pool_state \<Rightarrow> ptr \<Rightarrow> bool" where
  "unused s addr \<longleftrightarrow> addr \<noteq> NULL \<and> heap s addr = None \<and> pools s addr = None"

definition uses_pool :: "ptr \<Rightarrow> thread \<Rightarrow> bool" where
  "uses_pool pool t = (case t of Idle \<Rightarrow> False | Missed data p \<Rightarrow> p = pool | Made data buf p \<Rightarrow> p = pool)"

text \<open>The steps.  Callers pass pools and buffers they own, write only to the memory \<open>CRYPTO_BUFFER_alloc\<close> gave them, and free a
  pool when no buffer of it is left.\<close>

inductive pool_step :: "world \<Rightarrow> world \<Rightarrow> bool" where
  pool_new: "unused (st w) addr \<Longrightarrow> CRYPTO_BUFFER_POOL_new alloc n addr (st w) = (pool, s') \<Longrightarrow> pool_step w (w\<lparr>st := s'\<rparr>)"
| pool_free: "pool \<noteq> NULL \<Longrightarrow> \<forall>b x. heap (st w) b = Some x \<longrightarrow> buf_pool x \<noteq> pool \<Longrightarrow> \<forall>i. \<not> uses_pool pool (threads w i) \<Longrightarrow>
    CRYPTO_BUFFER_POOL_free pool (st w) = Some s' \<Longrightarrow> pool_step w (w\<lparr>st := s'\<rparr>)"
| lookup: "threads w i = Idle \<Longrightarrow> pools (st w) pool \<noteq> None \<Longrightarrow> unused (st w) tmp \<Longrightarrow>
    find_duplicate tmp data pool (st w) = Some (buf, s') \<Longrightarrow>
    pool_step w (w\<lparr>st := s', handles := handles w + handle buf,
      threads := (threads w)(i := (if buf = NULL then Missed data pool else Idle))\<rparr>)"
| make: "threads w i = Missed data pool \<Longrightarrow> unused (st w) addr \<Longrightarrow> new_buffer alloc addr data pool (st w) = (buf, s') \<Longrightarrow>
    pool_step w (w\<lparr>st := s', threads := (threads w)(i := (if buf = NULL then Idle else Made data buf pool))\<rparr>)"
| publish: "threads w i = Made data buf pool \<Longrightarrow> publish_buffer alloc buf pool (st w) = Some (r, s') \<Longrightarrow>
    pool_step w (w\<lparr>st := s', handles := handles w + handle r, threads := (threads w)(i := Idle)\<rparr>)"
| new_unpooled: "unused (st w) addr \<Longrightarrow> CRYPTO_BUFFER_new alloc tmp addr data NULL (st w) = Some (buf, s') \<Longrightarrow>
    pool_step w (w\<lparr>st := s', handles := handles w + handle buf\<rparr>)"
| alloc: "unused (st w) addr \<Longrightarrow> CRYPTO_BUFFER_alloc alloc fresh addr n (st w) = (buf, s') \<Longrightarrow>
    pool_step w (w\<lparr>st := s', handles := handles w + handle buf\<rparr>)"
| fill: "buf \<in># handles w \<Longrightarrow> heap (st w) buf = Some b \<Longrightarrow> buf_pool b = NULL \<Longrightarrow> length data = length (buf_data b) \<Longrightarrow>
    pool_step w (w\<lparr>st := (st w)\<lparr>heap := (heap (st w))(buf \<mapsto> b\<lparr>buf_data := data\<rparr>)\<rparr>\<rparr>)"
| up_ref: "buf \<in># handles w \<Longrightarrow> CRYPTO_BUFFER_up_ref buf (st w) = Some s' \<Longrightarrow>
    pool_step w (w\<lparr>st := s', handles := handles w + {#buf#}\<rparr>)"
| free: "buf \<in># handles w \<Longrightarrow> CRYPTO_BUFFER_free alloc buf (st w) = Some s' \<Longrightarrow>
    pool_step w (w\<lparr>st := s', handles := handles w - {#buf#}\<rparr>)"

definition no_pools :: world where
  "no_pools = \<lparr>st = \<lparr>heap = Map.empty, pools = Map.empty\<rparr>, handles = {#}, threads = (\<lambda>_. Idle)\<rparr>"

inductive pool_reach :: "world \<Rightarrow> bool" where
  start: "pool_reach no_pools"
| step: "pool_reach w \<Longrightarrow> pool_step w w' \<Longrightarrow> pool_reach w'"

section \<open>The invariant\<close>

text \<open>Buffers that are not in the table yet belong to their thread.\<close>

definition unpublished :: "world \<Rightarrow> ptr set" where
  "unpublished w = {b. \<exists>i data pool. threads w i = Made data b pool}"

definition buffer_ok :: "world \<Rightarrow> ptr \<Rightarrow> crypto_buffer \<Rightarrow> bool" where
  "buffer_ok w b x \<longleftrightarrow> (buf_pool x \<noteq> NULL \<longrightarrow> pools (st w) (buf_pool x) \<noteq> None) \<and>
     (b \<notin> unpublished w \<longrightarrow> references x \<noteq> 0 \<and>
        (references x = CRYPTO_REFCOUNT_MAX \<or> unat (references x) = count (handles w) b))"

definition table_ok :: "heap \<Rightarrow> ptr set \<Rightarrow> ptr \<Rightarrow> ptr lhash \<Rightarrow> bool" where
  "table_ok h P pool lh \<longleftrightarrow> bufs.lh_ok h lh \<and> bufs.elems lh = {b. b \<notin> P \<and> (\<exists>x. h b = Some x \<and> buf_pool x = pool)}"

definition thread_ok :: "world \<Rightarrow> thread \<Rightarrow> bool" where
  "thread_ok w t = (case t of Idle \<Rightarrow> True | Missed data pool \<Rightarrow> pools (st w) pool \<noteq> None
     | Made data b pool \<Rightarrow> pools (st w) pool \<noteq> None \<and> b \<notin># handles w \<and>
         heap (st w) b = Some \<lparr>buf_pool = pool, buf_data = data, references = 1\<rparr>)"

definition world_ok :: "world \<Rightarrow> bool" where
  "world_ok w \<longleftrightarrow> pools (st w) NULL = None \<and> heap (st w) NULL = None \<and>
     (\<forall>b x. heap (st w) b = Some x \<longrightarrow> buffer_ok w b x) \<and>
     (\<forall>pool lh. pools (st w) pool = Some lh \<longrightarrow> table_ok (heap (st w)) (unpublished w) pool lh) \<and>
     (\<forall>i. thread_ok w (threads w i)) \<and>
     (\<forall>i j data b pool data' pool'. threads w i = Made data b pool \<longrightarrow> threads w j = Made data' b pool' \<longrightarrow> i = j) \<and>
     (\<forall>b. b \<in># handles w \<longrightarrow> heap (st w) b \<noteq> None)"

lemma world_okD:
  assumes "world_ok w"
  shows "pools (st w) NULL = None" "heap (st w) NULL = None"
    "\<And>b x. heap (st w) b = Some x \<Longrightarrow> buffer_ok w b x"
    "\<And>pool lh. pools (st w) pool = Some lh \<Longrightarrow> table_ok (heap (st w)) (unpublished w) pool lh"
    "\<And>i. thread_ok w (threads w i)"
    "\<And>i j data b pool data' pool'. threads w i = Made data b pool \<Longrightarrow> threads w j = Made data' b pool' \<Longrightarrow> i = j"
    "\<And>b. b \<in># handles w \<Longrightarrow> heap (st w) b \<noteq> None"
  using assms unfolding world_ok_def by blast+

lemma world_okI:
  assumes "pools (st w) NULL = None" "heap (st w) NULL = None"
    and "\<And>b x. heap (st w) b = Some x \<Longrightarrow> buffer_ok w b x"
    and "\<And>pool lh. pools (st w) pool = Some lh \<Longrightarrow> table_ok (heap (st w)) (unpublished w) pool lh"
    and "\<And>i. thread_ok w (threads w i)"
    and "\<And>i j data b pool data' pool'. threads w i = Made data b pool \<Longrightarrow> threads w j = Made data' b pool' \<Longrightarrow> i = j"
    and "\<And>b. b \<in># handles w \<Longrightarrow> heap (st w) b \<noteq> None"
  shows "world_ok w"
  unfolding world_ok_def using assms by blast

lemma table_heap:
  assumes "table_ok h P pool lh"
    and "\<And>b. b \<notin> P' \<and> (\<exists>x. h' b = Some x \<and> buf_pool x = pool) \<longleftrightarrow> b \<notin> P \<and> (\<exists>x. h b = Some x \<and> buf_pool x = pool)"
    and "\<And>b x. b \<notin> P \<Longrightarrow> h b = Some x \<Longrightarrow> buf_pool x = pool \<Longrightarrow> buf_data (the (h' b)) = buf_data x"
  shows "table_ok h' P' pool lh"
proof -
  have "bufs.lh_ok h' lh"
  proof (rule lh_ok_heap)
    show "bufs.lh_ok h lh" using assms(1) by (simp add: table_ok_def)
    show "buf_data (the (h' b)) = buf_data (the (h b))" if "b \<in> bufs.elems lh" for b
      using that assms(1,3) by (auto simp: table_ok_def)
  qed
  then show ?thesis using assms(1,2) by (simp add: table_ok_def)
qed

lemma unpublished_other [simp]:
  "unpublished (st_update f w) = unpublished w" "unpublished (handles_update g w) = unpublished w"
  by (simp_all add: unpublished_def)

lemma made_unpublished: "threads w i = Made data b pool \<Longrightarrow> b \<in> unpublished w"
  by (auto simp: unpublished_def)

lemma handle_not_unpublished:
  assumes "world_ok w" "b \<in># handles w"
  shows "b \<notin> unpublished w"
proof
  assume "b \<in> unpublished w"
  then obtain i data pool where "threads w i = Made data b pool" by (auto simp: unpublished_def)
  with world_okD(5) [OF assms(1), of i] assms(2) show False by (simp add: thread_ok_def)
qed

text \<open>Another reference, or one less.\<close>

lemma count_ok:
  assumes "world_ok w" "heap (st w) b = Some x" "b \<notin> unpublished w"
    and "buf_pool x' = buf_pool x" "buf_data x' = buf_data x" "references x' \<noteq> 0"
    and "references x' = CRYPTO_REFCOUNT_MAX \<or> unat (references x') = count hs b"
    and "\<And>a. a \<noteq> b \<Longrightarrow> count hs a = count (handles w) a"
  shows "world_ok (w\<lparr>st := (st w)\<lparr>heap := (heap (st w))(b \<mapsto> x')\<rparr>, handles := hs\<rparr>)" (is "world_ok ?w")
proof -
  note ok = world_okD [OF assms(1)]
  have "buffer_ok ?w a y" if "heap (st ?w) a = Some y" for a y
    using that ok(3) [of a] ok(3) [OF assms(2)] assms by (cases "a = b") (auto simp: buffer_ok_def)
  moreover have "table_ok (heap (st ?w)) (unpublished ?w) pool lh" if "pools (st ?w) pool = Some lh" for pool lh
    by (rule table_heap [of "heap (st w)" "unpublished w"]) (use that ok(4) assms(2,4,5) in auto)
  moreover have "thread_ok ?w (threads ?w i)" for i
    using ok(5) [of i] assms(3,8) made_unpublished [of w i]
    by (auto simp: thread_ok_def count_eq_zero_iff [symmetric] simp del: count_eq_zero_iff split: thread.splits)
  moreover have "heap (st ?w) a \<noteq> None" if "a \<in># handles ?w" for a
    using that ok(7) [of a] assms(8) [of a] by (cases "a = b") (auto simp flip: count_greater_zero_iff)
  ultimately show ?thesis
    using ok(1,2,6) assms(2) by (auto simp: world_ok_def)
qed

lemma up_ref_ok:
  assumes "world_ok w" "CRYPTO_BUFFER_up_ref b (st w) = Some s'" "b \<notin> unpublished w"
  shows "world_ok (w\<lparr>st := s', handles := handles w + {#b#}\<rparr>)"
proof -
  obtain x where x: "heap (st w) b = Some x"
    and s': "s' = (st w)\<lparr>heap := (heap (st w))(b \<mapsto> x\<lparr>references := CRYPTO_refcount_inc (references x)\<rparr>)\<rparr>"
    using assms(2) by (auto simp: CRYPTO_BUFFER_up_ref_def split: Option.bind_splits)
  have r: "references x \<noteq> 0" "references x = CRYPTO_REFCOUNT_MAX \<or> unat (references x) = count (handles w) b"
    using world_okD(3) [OF assms(1) x] assms(3) by (auto simp: buffer_ok_def)
  have i: "CRYPTO_refcount_inc (references x) \<noteq> 0 \<and>
      (CRYPTO_refcount_inc (references x) = CRYPTO_REFCOUNT_MAX \<or>
       unat (CRYPTO_refcount_inc (references x)) = count (handles w + {#b#}) b)"
  proof (cases "references x = CRYPTO_REFCOUNT_MAX")
    case True
    then show ?thesis by (simp add: CRYPTO_refcount_inc_def)
  next
    case False
    then show ?thesis using refcount_inc_unat [of "references x"] r by auto
  qed
  show ?thesis
    unfolding s' by (rule count_ok [OF assms(1) x assms(3)]) (use i in simp_all)
qed


text \<open>Threads before they have a buffer.\<close>

lemma thread_change_ok:
  assumes "world_ok w" "t = Idle \<or> t = Missed data pool \<and> pools (st w) pool \<noteq> None"
    and "\<And>data b pool. threads w i \<noteq> Made data b pool"
  shows "world_ok (w\<lparr>threads := (threads w)(i := t)\<rparr>)" (is "world_ok ?w")
proof -
  note ok = world_okD [OF assms(1)]
  have m: "threads ?w j = Made data b pool \<longleftrightarrow> threads w j = Made data b pool" for j data b pool
    using assms(2,3) by auto
  have priv: "unpublished ?w = unpublished w" unfolding unpublished_def m ..
  have "thread_ok ?w (threads ?w j)" for j
    using ok(5) [of j] assms(2) by (auto simp: thread_ok_def split: thread.splits)
  moreover have "buffer_ok ?w b x" if "heap (st ?w) b = Some x" for b x
    using that ok(3) [of b x] by (simp add: buffer_ok_def priv)
  ultimately show ?thesis
    using ok(1,2,4,6,7) unfolding world_ok_def m priv by simp
qed

text \<open>A new buffer, of a thread or of a caller.\<close>

lemma make_ok:
  assumes "world_ok w" "unused (st w) addr" "threads w i = Missed data pool"
  shows "world_ok (w\<lparr>st := (st w)\<lparr>heap := (heap (st w))(addr \<mapsto> \<lparr>buf_pool = pool, buf_data = data, references = 1\<rparr>)\<rparr>,
    threads := (threads w)(i := Made data addr pool)\<rparr>)" (is "world_ok ?w")
proof -
  note ok = world_okD [OF assms(1)]
  have new: "heap (st w) addr = None" "addr \<noteq> NULL" using assms(2) by (simp_all add: unused_def)
  then have h: "addr \<notin># handles w" using ok(7) by blast
  have p: "pools (st w) pool \<noteq> None" using ok(5) [of i] assms(3) by (simp add: thread_ok_def)
  have m: "b \<noteq> addr" if "threads w j = Made d b q" for j d b q
    using ok(5) [of j] that new by (auto simp: thread_ok_def)
  have priv: "unpublished ?w = insert addr (unpublished w)"
  proof (intro set_eqI iffI)
    fix b
    assume "b \<in> insert addr (unpublished w)"
    then show "b \<in> unpublished ?w"
    proof
      assume "b \<in> unpublished w"
      then obtain j d q where "threads w j = Made d b q" by (auto simp: unpublished_def)
      then have "threads ?w j = Made d b q" using assms(3) by auto
      then show ?thesis by (rule made_unpublished)
    qed (auto simp: unpublished_def)
  qed (auto simp: unpublished_def split: if_splits)
  show ?thesis
  proof (rule world_okI)
    show "buffer_ok ?w b x" if "heap (st ?w) b = Some x" for b x
      using that ok(3) [of b x] p by (auto simp: buffer_ok_def priv split: if_splits)
    show "table_ok (heap (st ?w)) (unpublished ?w) q lh" if "pools (st ?w) q = Some lh" for q lh
      by (rule table_heap [of "heap (st w)" "unpublished w"]) (use that ok(4) new in \<open>auto simp: priv\<close>)
    show "thread_ok ?w (threads ?w j)" for j
      using ok(5) [of j] new p h by (auto simp: thread_ok_def split: thread.splits)
    show "j = k" if "threads ?w j = Made d b q" "threads ?w k = Made d' b q'" for j k d b q d' q'
      using that ok(6) [of j d b q k d' q'] m [of j d b q] m [of k d' b q'] by (auto split: if_splits)
    show "heap (st ?w) b \<noteq> None" if "b \<in># handles ?w" for b using that ok(7) by simp
  qed (use ok(1,2) new in simp_all)
qed

lemma new_handle_ok:
  assumes "world_ok w" "unused (st w) addr" "buf_pool x = NULL" "references x = 1"
  shows "world_ok (w\<lparr>st := (st w)\<lparr>heap := (heap (st w))(addr \<mapsto> x)\<rparr>, handles := handles w + {#addr#}\<rparr>)" (is "world_ok ?w")
proof -
  note ok = world_okD [OF assms(1)]
  have new: "heap (st w) addr = None" "addr \<noteq> NULL" using assms(2) by (simp_all add: unused_def)
  then have h: "addr \<notin># handles w" using ok(7) by blast
  have m: "b \<noteq> addr" if "threads w j = Made d b q" for j d b q
    using ok(5) [of j] that new by (auto simp: thread_ok_def)
  show ?thesis
  proof (rule world_okI)
    show "buffer_ok ?w b y" if "heap (st ?w) b = Some y" for b y
      using that ok(3) [of b y] assms(3,4) h by (auto simp: buffer_ok_def not_in_iff split: if_splits)
    show "table_ok (heap (st ?w)) (unpublished ?w) q lh" if "pools (st ?w) q = Some lh" for q lh
    proof -
      have "q \<noteq> NULL" using that ok(1) by auto
      moreover have "table_ok (heap (st w)) (unpublished w) q lh" using that ok(4) by simp
      ultimately show ?thesis by (elim table_heap) (use new assms(3) in auto)
    qed
    show "thread_ok ?w (threads ?w j)" for j
    proof (cases "threads w j")
      case (Made d b q)
      with ok(5) [of j] m [OF Made] show ?thesis by (simp add: thread_ok_def)
    qed (use ok(5) [of j] in \<open>simp_all add: thread_ok_def\<close>)
    show "heap (st ?w) b \<noteq> None" if "b \<in># handles ?w" for b using that ok(7) by auto
    show "j = k" if "threads ?w j = Made d b q" "threads ?w k = Made d' b q'" for j k d b q d' q'
      using that ok(6) [of j d b q k d' q'] by simp
  qed (use ok(1,2) new in simp_all)
qed

section \<open>What the operations do\<close>

lemma table_retrieve:
  assumes "table_ok h P pool lh" "tmp \<notin> dom h \<or> x = h tmp"
  shows "lh_retrieve (CRYPTO_BUFFER_hash (h(tmp := x))) (CRYPTO_BUFFER_cmp (h(tmp := x))) lh tmp = Some b \<longleftrightarrow>
    b \<notin> P \<and> (\<exists>y. h b = Some y \<and> buf_pool y = pool \<and> buf_data y = buf_data (the x))"
proof -
  have same: "(h(tmp := x)) b = h b" if "b \<in> bufs.elems lh" for b
    using that assms by (auto simp: table_ok_def dom_def)
  have "bufs.lh_ok (h(tmp := x)) lh"
  proof (rule lh_ok_heap)
    show "bufs.lh_ok h lh" using assms(1) by (simp add: table_ok_def)
    show "buf_data (the ((h(tmp := x)) b)) = buf_data (the (h b))" if "b \<in> bufs.elems lh" for b
      unfolding same [OF that] ..
  qed
  from bufs.retrieve_iff [OF this, of tmp b]
  have "lh_retrieve (CRYPTO_BUFFER_hash (h(tmp := x))) (CRYPTO_BUFFER_cmp (h(tmp := x))) lh tmp = Some b \<longleftrightarrow>
      b \<in> bufs.elems lh \<and> buf_data (the ((h(tmp := x)) b)) = buf_data (the x)"
    unfolding cmp_iff fun_upd_same .
  then have "lh_retrieve (CRYPTO_BUFFER_hash (h(tmp := x))) (CRYPTO_BUFFER_cmp (h(tmp := x))) lh tmp = Some b \<longleftrightarrow>
      b \<in> bufs.elems lh \<and> buf_data (the (h b)) = buf_data (the x)"
    using same [of b] by metis
  then show ?thesis using assms(1) by (auto simp: table_ok_def)
qed

text \<open>The buffers of a pool that can be found.\<close>

definition pooled :: "world \<Rightarrow> ptr \<Rightarrow> u8 list \<Rightarrow> ptr \<Rightarrow> bool" where
  "pooled w pool data b \<longleftrightarrow> b \<notin> unpublished w \<and> (\<exists>x. heap (st w) b = Some x \<and> buf_pool x = pool \<and> buf_data x = data)"

lemma pooled_unique:
  assumes "world_ok w" "pools (st w) pool \<noteq> None" "pooled w pool data a" "pooled w pool data b"
  shows "a = b"
proof -
  obtain lh where "pools (st w) pool = Some lh" using assms(2) by auto
  then have t: "table_ok (heap (st w)) (unpublished w) pool lh" using world_okD(4) [OF assms(1)] by simp
  then show ?thesis
    using elems_inj [of "heap (st w)" lh a b] assms(3,4) by (auto simp: table_ok_def pooled_def)
qed

lemma up_ref_Some: "heap s b = Some x \<Longrightarrow>
    CRYPTO_BUFFER_up_ref b s = Some (s\<lparr>heap := (heap s)(b \<mapsto> x\<lparr>references := CRYPTO_refcount_inc (references x)\<rparr>)\<rparr>)"
  by (simp add: CRYPTO_BUFFER_up_ref_def)

lemma find_duplicate_cases:
  assumes "world_ok w" "pools (st w) pool \<noteq> None" "unused (st w) tmp"
  obtains (hit) b s' where "find_duplicate tmp data pool (st w) = Some (b, s')" "b \<noteq> NULL" "pooled w pool data b"
      "CRYPTO_BUFFER_up_ref b (st w) = Some s'"
  | (miss) "find_duplicate tmp data pool (st w) = Some (NULL, st w)" "\<And>b. \<not> pooled w pool data b"
proof -
  obtain lh where lh: "pools (st w) pool = Some lh" using assms(2) by auto
  have "table_ok (heap (st w)) (unpublished w) pool lh" using world_okD(4) [OF assms(1) lh] .
  note r = table_retrieve [OF this, of tmp "Some \<lparr>buf_pool = 0, buf_data = data, references = 0\<rparr>"]
  let ?h = "(heap (st w))(tmp \<mapsto> \<lparr>buf_pool = 0, buf_data = data, references = 0\<rparr>)"
  have iff: "lh_retrieve (CRYPTO_BUFFER_hash ?h) (CRYPTO_BUFFER_cmp ?h) lh tmp = Some b \<longleftrightarrow> pooled w pool data b" for b
    using r assms(3) by (simp add: unused_def dom_def pooled_def)
  show thesis
  proof (cases "lh_retrieve (CRYPTO_BUFFER_hash ?h) (CRYPTO_BUFFER_cmp ?h) lh tmp")
    case None
    then show thesis using miss lh iff by (simp add: find_duplicate_def del: fun_upd_apply)
  next
    case (Some b)
    then have p: "pooled w pool data b" by (simp add: iff)
    then obtain x where x: "heap (st w) b = Some x" by (auto simp: pooled_def)
    then have "b \<noteq> NULL" using world_okD(2) [OF assms(1)] by auto
    then show thesis
      using hit p Some lh up_ref_Some [OF x] by (simp add: find_duplicate_def del: fun_upd_apply)
  qed
qed

lemma publish_cases:
  assumes "world_ok w" "threads w i = Made data buf pool"
  obtains (duplicate) b s' where "publish_buffer alloc buf pool (st w) = Some (b, free_buffer buf s')" "b \<noteq> NULL"
      "pooled w pool data b" "CRYPTO_BUFFER_up_ref b (st w) = Some s'"
  | (inserted) lh where "publish_buffer alloc buf pool (st w) = Some (buf, (st w)\<lparr>pools := (pools (st w))(pool \<mapsto> lh)\<rparr>)"
      "\<And>b. \<not> pooled w pool data b" "table_ok (heap (st w)) (unpublished w - {buf}) pool lh"
  | (failed) "publish_buffer alloc buf pool (st w) = Some (NULL, free_buffer buf (st w))"
      "\<And>b. \<not> pooled w pool data b" "\<exists>n. \<not> alloc n"
proof -
  have th: "pools (st w) pool \<noteq> None" "heap (st w) buf = Some \<lparr>buf_pool = pool, buf_data = data, references = 1\<rparr>"
    using world_okD(5) [OF assms(1), of i] assms(2) by (simp_all add: thread_ok_def)
  then obtain lh where lh: "pools (st w) pool = Some lh" by auto
  let ?h = "heap (st w)" and ?hash = "CRYPTO_BUFFER_hash (heap (st w))" and ?cmp = "CRYPTO_BUFFER_cmp (heap (st w))"
  have t: "table_ok ?h (unpublished w) pool lh" using world_okD(4) [OF assms(1) lh] .
  then have ok: "bufs.lh_ok ?h lh" by (simp add: table_ok_def)
  have iff: "lh_retrieve ?hash ?cmp lh buf = Some b \<longleftrightarrow> pooled w pool data b" for b
    using table_retrieve [OF t, of buf "?h buf" b, unfolded fun_upd_triv] th(2) by (simp add: pooled_def)
  show thesis
  proof (cases "lh_retrieve ?hash ?cmp lh buf")
    case (Some b)
    then have p: "pooled w pool data b" by (simp add: iff)
    then obtain x where x: "?h b = Some x" by (auto simp: pooled_def)
    then have "b \<noteq> NULL" using world_okD(2) [OF assms(1)] by auto
    then show thesis
      using duplicate p Some lh up_ref_Some [OF x] by (simp add: publish_buffer_def)
  next
    case None
    then have none: "\<not> pooled w pool data b" for b using iff by simp
    have e: "buf \<notin> bufs.elems lh" "NULL \<notin> bufs.elems lh" "buf \<noteq> NULL"
      using t made_unpublished [OF assms(2)] world_okD(2) [OF assms(1)] th(2) by (auto simp: table_ok_def)
    have "{buf, NULL} \<inter> bufs.elems lh = {}" using e(1,2) by blast
    with num_items_bound [OF ok this] e(3) have n: "num_items lh + 1 < size_bound" by simp
    obtain r old lh' where ins: "lh_insert alloc ?hash ?cmp lh buf = (r, old, lh')"
      by (cases "lh_insert alloc ?hash ?cmp lh buf")
    note i = bufs.table_insert_ok [OF ok n ins]
    have other: "?cmp e buf \<noteq> 0" if "e \<in> bufs.elems lh" for e
      using bufs.retrieve_None [OF ok, of buf] None that by simp
    show thesis
    proof (cases r)
      case True
      have old: "old = None" using i True None by simp
      have "bufs.elems lh' = insert buf (bufs.elems lh)" using i True other by auto
      then have "table_ok ?h (unpublished w - {buf}) pool lh'"
        using t i th(2) by (auto simp: table_ok_def)
      then show thesis using inserted [of lh'] none lh None ins old True by (simp add: publish_buffer_def)
    next
      case False
      then have f: "lh' = lh" "old = None" "\<exists>n. \<not> alloc n" using i by simp_all
      have "(pools (st w))(pool \<mapsto> lh) = pools (st w)" using lh by (simp add: map_upd_triv)
      then have "publish_buffer alloc buf pool (st w) = Some (NULL, free_buffer buf (st w))"
        using lh None ins f False by (simp add: publish_buffer_def)
      then show thesis using failed none f(3) by blast
    qed
  qed
qed

section \<open>Every step keeps the invariant\<close>

lemma unpublished_idle:
  assumes "world_ok w" "threads w i = Made d b p" "threads w' = (threads w)(i := Idle)"
  shows "unpublished w' = unpublished w - {b}"
proof -
  have "threads w' j = Made d' c p' \<longleftrightarrow> threads w j = Made d' c p' \<and> c \<noteq> b" for j d' c p'
    using world_okD(6) [OF assms(1), of i d b p j d' p'] assms(2,3) by auto
  then show ?thesis unfolding unpublished_def by auto
qed

lemma idle_threads:
  assumes "world_ok w" "threads w i = Made d b p" "threads w' = (threads w)(i := Idle)"
    and "\<And>t. thread_ok w t \<Longrightarrow> \<forall>d p. t \<noteq> Made d b p \<Longrightarrow> thread_ok w' t"
  shows "thread_ok w' (threads w' j)"
    "threads w' j = Made d1 c p1 \<Longrightarrow> threads w' k = Made d2 c p2 \<Longrightarrow> j = k"
proof -
  show "thread_ok w' (threads w' j)"
  proof (cases "j = i")
    case False
    then have "threads w j \<noteq> Made d' b p'" for d' p' using world_okD(6) [OF assms(1,2), of j d' p'] by auto
    then show ?thesis using assms(4) [OF world_okD(5) [OF assms(1), of j]] assms(3) False by simp
  qed (simp add: assms(3) thread_ok_def)
  show "threads w' j = Made d1 c p1 \<Longrightarrow> threads w' k = Made d2 c p2 \<Longrightarrow> j = k"
    using world_okD(6) [OF assms(1), of j d1 c p1 k d2 p2] assms(3) by (simp split: if_splits)
qed

lemma drop_unpublished_ok:
  assumes "world_ok w" "threads w i = Made d b p"
  shows "world_ok (w\<lparr>st := free_buffer b (st w), threads := (threads w)(i := Idle)\<rparr>)" (is "world_ok ?w")
proof -
  note ok = world_okD [OF assms(1)]
  have u: "unpublished ?w = unpublished w - {b}" by (rule unpublished_idle [OF assms]) simp
  have h: "b \<notin># handles w" using ok(5) [of i] assms(2) by (simp add: thread_ok_def)
  have b: "b \<in> unpublished w" using assms(2) by (rule made_unpublished)
  show ?thesis
  proof (rule world_okI)
    show "buffer_ok ?w c x" if "heap (st ?w) c = Some x" for c x
      using that ok(3) [of c x] unfolding buffer_ok_def u by (auto simp: free_buffer_def split: if_splits)
    show "table_ok (heap (st ?w)) (unpublished ?w) q lh" if "pools (st ?w) q = Some lh" for q lh
    proof -
      have "table_ok (heap (st w)) (unpublished w) q lh" using that ok(4) by (simp add: free_buffer_def)
      then show ?thesis unfolding u by (elim table_heap) (use b in \<open>auto simp: free_buffer_def\<close>)
    qed
    show "thread_ok ?w (threads ?w j)" for j
      by (rule idle_threads(1) [OF assms]) (auto simp: thread_ok_def free_buffer_def split: thread.splits)
    show "j = k" if "threads ?w j = Made d1 c p1" "threads ?w k = Made d2 c p2" for j k d1 c p1 d2 p2
      using that ok(6) [of j d1 c p1 k d2 p2] by (simp split: if_splits)
    show "heap (st ?w) c \<noteq> None" if "c \<in># handles ?w" for c
      using that ok(7) h by (auto simp: free_buffer_def)
  qed (use ok(1,2) in \<open>simp_all add: free_buffer_def\<close>)
qed

lemma insert_published_ok:
  assumes "world_ok w" "threads w i = Made d b p" "table_ok (heap (st w)) (unpublished w - {b}) p lh"
  shows "world_ok (w\<lparr>st := (st w)\<lparr>pools := (pools (st w))(p \<mapsto> lh)\<rparr>, handles := handles w + {#b#},
    threads := (threads w)(i := Idle)\<rparr>)" (is "world_ok ?w")
proof -
  note ok = world_okD [OF assms(1)]
  have u: "unpublished ?w = unpublished w - {b}" by (rule unpublished_idle [OF assms(1,2)]) simp
  have th: "pools (st w) p \<noteq> None" "b \<notin># handles w"
      "heap (st w) b = Some \<lparr>buf_pool = p, buf_data = d, references = 1\<rparr>"
    using ok(5) [of i] assms(2) by (simp_all add: thread_ok_def)
  have b: "b \<in> unpublished w" using assms(2) by (rule made_unpublished)
  show ?thesis
  proof (rule world_okI)
    show "buffer_ok ?w c x" if "heap (st ?w) c = Some x" for c x
      using that ok(3) [of c x] th unfolding buffer_ok_def u by (cases "c = b") (auto simp: not_in_iff)
    show "table_ok (heap (st ?w)) (unpublished ?w) q lh'" if "pools (st ?w) q = Some lh'" for q lh'
    proof (cases "q = p")
      case True
      then show ?thesis using that assms(3) unfolding u by simp
    next
      case False
      then have "table_ok (heap (st w)) (unpublished w) q lh'" using that ok(4) by simp
      then show ?thesis unfolding u by (elim table_heap) (use b th(3) False in auto)
    qed
    show "thread_ok ?w (threads ?w j)" for j
      by (rule idle_threads(1) [OF assms(1,2)]) (auto simp: thread_ok_def split: thread.splits)
    show "j = k" if "threads ?w j = Made d1 c p1" "threads ?w k = Made d2 c p2" for j k d1 c p1 d2 p2
      using that ok(6) [of j d1 c p1 k d2 p2] by (simp split: if_splits)
    show "heap (st ?w) c \<noteq> None" if "c \<in># handles ?w" for c
      using that ok(7) th(3) by auto
  qed (use ok(1,2) th(1) in \<open>auto\<close>)
qed

text \<open>Pools.\<close>

lemma pools_ok:
  assumes "world_ok w" "P NULL = None"
    and "\<And>pool lh. P pool = Some lh \<Longrightarrow> table_ok (heap (st w)) (unpublished w) pool lh"
    and "\<And>b x. heap (st w) b = Some x \<Longrightarrow> buf_pool x \<noteq> NULL \<Longrightarrow> P (buf_pool x) \<noteq> None"
    and "\<And>i pool. uses_pool pool (threads w i) \<Longrightarrow> P pool \<noteq> None"
  shows "world_ok (w\<lparr>st := (st w)\<lparr>pools := P\<rparr>\<rparr>)" (is "world_ok ?w")
proof -
  note ok = world_okD [OF assms(1)]
  show ?thesis
  proof (rule world_okI)
    show "buffer_ok ?w c x" if "heap (st ?w) c = Some x" for c x
      using that ok(3) [of c x] assms(4) by (simp add: buffer_ok_def)
    show "thread_ok ?w (threads ?w i)" for i
      using ok(5) [of i] assms(5) [of _ i] by (auto simp: thread_ok_def uses_pool_def split: thread.splits)
    show "j = k" if "threads ?w j = Made d1 c p1" "threads ?w k = Made d2 c p2" for j k d1 c p1 d2 p2
      using that ok(6) [of j d1 c p1 k d2 p2] by simp
    show "heap (st ?w) c \<noteq> None" if "c \<in># handles ?w" for c using that ok(7) by simp
  qed (use assms(2,3) ok(2) in simp_all)
qed

lemma pool_new_ok:
  assumes "world_ok w" "unused (st w) addr" "CRYPTO_BUFFER_POOL_new alloc n addr (st w) = (pool, s')"
  shows "world_ok (w\<lparr>st := s'\<rparr>)"
proof (cases "s' = st w")
  case True
  then show ?thesis using assms(1) by simp
next
  case False
  then obtain lh where lh: "lh_new alloc = Some lh" and s': "s' = (st w)\<lparr>pools := (pools (st w))(addr \<mapsto> lh)\<rparr>"
    using assms(3) by (auto simp: CRYPTO_BUFFER_POOL_new_def split: if_splits option.splits)
  note ok = world_okD [OF assms(1)]
  have none: "heap (st w) b = Some x \<Longrightarrow> buf_pool x \<noteq> addr" for b x
    using ok(3) [of b x] assms(2) by (auto simp: buffer_ok_def unused_def)
  then have "table_ok (heap (st w)) (unpublished w) addr lh"
    using bufs.new_table_ok [OF lh] by (auto simp: table_ok_def)
  moreover have "pools (st w) p \<noteq> None" if "uses_pool p (threads w i)" for i p
    using that ok(5) [of i] by (auto simp: thread_ok_def uses_pool_def split: thread.splits)
  moreover have "pools (st w) (buf_pool x) \<noteq> None" if "heap (st w) b = Some x" "buf_pool x \<noteq> NULL" for b x
    using ok(3) [OF that(1)] that(2) by (simp add: buffer_ok_def)
  ultimately show ?thesis
    unfolding s' using ok(1,4) assms(2) by (intro pools_ok [OF assms(1)]) (auto simp: unused_def split: if_splits)
qed

lemma pool_free_ok:
  assumes "world_ok w" "\<forall>b x. heap (st w) b = Some x \<longrightarrow> buf_pool x \<noteq> pool" "\<forall>i. \<not> uses_pool pool (threads w i)"
    and "CRYPTO_BUFFER_POOL_free pool (st w) = Some s'" "pool \<noteq> NULL"
  shows "world_ok (w\<lparr>st := s'\<rparr>)"
proof -
  note ok = world_okD [OF assms(1)]
  have s': "s' = (st w)\<lparr>pools := (pools (st w))(pool := None)\<rparr>"
    using assms(4,5) by (auto simp: CRYPTO_BUFFER_POOL_free_def split: Option.bind_splits if_splits)
  have "pools (st w) p \<noteq> None" if "uses_pool p (threads w i)" for i p
    using that ok(5) [of i] by (auto simp: thread_ok_def uses_pool_def split: thread.splits)
  moreover have "pools (st w) (buf_pool x) \<noteq> None" if "heap (st w) b = Some x" "buf_pool x \<noteq> NULL" for b x
    using ok(3) [OF that(1)] that(2) by (simp add: buffer_ok_def)
  ultimately show ?thesis
    unfolding s' using ok(1,4) assms(2,3) by (intro pools_ok [OF assms(1)]) (auto split: if_splits)
qed

text \<open>The last reference.\<close>

lemma drop_last_ok:
  assumes "world_ok w" "heap (st w) b = Some x" "count (handles w) b = 1" "P NULL = None"
    and "\<And>pool. P pool \<noteq> None \<longleftrightarrow> pools (st w) pool \<noteq> None"
    and "\<And>pool lh. P pool = Some lh \<Longrightarrow> table_ok ((heap (st w))(b := None)) (unpublished w) pool lh"
  shows "world_ok (w\<lparr>st := \<lparr>heap = (heap (st w))(b := None), pools = P\<rparr>, handles := handles w - {#b#}\<rparr>)" (is "world_ok ?w")
proof -
  note ok = world_okD [OF assms(1)]
  have b: "b \<notin> unpublished w"
    using handle_not_unpublished [OF assms(1), of b] assms(3) by (simp flip: count_greater_zero_iff)
  show ?thesis
  proof (rule world_okI)
    show "buffer_ok ?w c y" if "heap (st ?w) c = Some y" for c y
      using that ok(3) [of c y] assms(5) [of "buf_pool y"] by (auto simp: buffer_ok_def split: if_splits)
    show "thread_ok ?w (threads ?w j)" for j
      using ok(5) [of j] made_unpublished [of w j] b assms(5)
      by (auto simp: thread_ok_def dest: in_diffD split: thread.splits)
    show "j = k" if "threads ?w j = Made d1 c p1" "threads ?w k = Made d2 c p2" for j k d1 c p1 d2 p2
      using that ok(6) [of j d1 c p1 k d2 p2] by simp
    show "heap (st ?w) c \<noteq> None" if "c \<in># handles ?w" for c
    proof (cases "c = b")
      case True
      then have "count (handles ?w) b = 0" using assms(3) by simp
      with that True show ?thesis by (simp flip: count_greater_zero_iff)
    next
      case False
      with that show ?thesis using ok(7) [of c] by (auto dest: in_diffD)
    qed
  qed (use ok(2) assms(4,6) in simp_all)
qed

lemma delete_last:
  assumes "world_ok w" "heap (st w) b = Some x" "b \<notin> unpublished w" "pools (st w) (buf_pool x) = Some lh"
    and "lh_delete alloc (CRYPTO_BUFFER_hash h) (CRYPTO_BUFFER_cmp h) lh b = (found, lh')"
    and "h = (heap (st w))(b \<mapsto> x\<lparr>references := n\<rparr>)"
  shows "found = Some b" "table_ok ((heap (st w))(b := None)) (unpublished w) (buf_pool x) lh'"
proof -
  have t: "table_ok (heap (st w)) (unpublished w) (buf_pool x) lh" using world_okD(4) [OF assms(1,4)] .
  have th: "table_ok h (unpublished w) (buf_pool x) lh"
    unfolding assms(6) using t by (elim table_heap) (use assms(2) in auto)
  then have ok: "bufs.lh_ok h lh" by (simp add: table_ok_def)
  have mem: "b \<in> bufs.elems lh" using t assms(2,3) by (simp add: table_ok_def)
  have "NULL \<notin> bufs.elems lh" using t world_okD(2) [OF assms(1)] by (auto simp: table_ok_def)
  then have "{NULL} \<inter> bufs.elems lh = {}" by blast
  with num_items_bound [OF ok this] have n: "num_items lh < size_bound" by simp
  note d = bufs.table_delete_ok [OF ok n assms(5)]
  have "lh_retrieve (CRYPTO_BUFFER_hash h) (CRYPTO_BUFFER_cmp h) lh b = Some b"
    using bufs.retrieve_iff [OF ok] mem by (simp add: cmp_iff)
  with d show "found = Some b" by simp
  have "CRYPTO_BUFFER_cmp h e b = 0 \<longleftrightarrow> e = b" if "e \<in> bufs.elems lh" for e
    using elems_inj [OF ok that mem] by (auto simp: cmp_iff)
  then have e: "bufs.elems lh' = bufs.elems lh - {b}" using d by auto
  have "bufs.lh_ok ((heap (st w))(b := None)) lh'"
    by (rule lh_ok_heap [of h]) (use d e in \<open>auto simp: assms(6)\<close>)
  then show "table_ok ((heap (st w))(b := None)) (unpublished w) (buf_pool x) lh'"
    using e t by (auto simp: table_ok_def)
qed

text \<open>A reference that is not the last one.\<close>

lemma free_shared:
  assumes "world_ok w" "heap (st w) b = Some x" "b \<notin> unpublished w"
    and "CRYPTO_refcount_dec_and_test_zero (references x) = Some (False, n)" "n \<noteq> 0"
    and "n = CRYPTO_REFCOUNT_MAX \<or> unat n = count (handles w - {#b#}) b"
  shows "CRYPTO_BUFFER_free alloc b (st w) = Some ((st w)\<lparr>heap := (heap (st w))(b \<mapsto> x\<lparr>references := n\<rparr>)\<rparr>)"
    "world_ok (w\<lparr>st := (st w)\<lparr>heap := (heap (st w))(b \<mapsto> x\<lparr>references := n\<rparr>)\<rparr>, handles := handles w - {#b#}\<rparr>)"
proof -
  have "b \<noteq> NULL" using assms(2) world_okD(2) [OF assms(1)] by auto
  moreover have "\<exists>lh. pools (st w) (buf_pool x) = Some lh" if "buf_pool x \<noteq> NULL"
    using world_okD(3) [OF assms(1,2)] that by (auto simp: buffer_ok_def)
  ultimately show "CRYPTO_BUFFER_free alloc b (st w) = Some ((st w)\<lparr>heap := (heap (st w))(b \<mapsto> x\<lparr>references := n\<rparr>)\<rparr>)"
    using assms(2,4) by (auto simp: CRYPTO_BUFFER_free_def Let_def)
  show "world_ok (w\<lparr>st := (st w)\<lparr>heap := (heap (st w))(b \<mapsto> x\<lparr>references := n\<rparr>)\<rparr>, handles := handles w - {#b#}\<rparr>)"
    by (rule count_ok [OF assms(1-3)]) (use assms(5,6) in simp_all)
qed

lemma free_last:
  assumes "world_ok w" "heap (st w) b = Some x" "b \<notin> unpublished w"
    and "CRYPTO_refcount_dec_and_test_zero (references x) = Some (True, n)"
  obtains P where "CRYPTO_BUFFER_free alloc b (st w) = Some \<lparr>heap = (heap (st w))(b := None), pools = P\<rparr>" "P NULL = None"
    "\<And>pool. P pool \<noteq> None \<longleftrightarrow> pools (st w) pool \<noteq> None"
    "\<And>pool lh. P pool = Some lh \<Longrightarrow> table_ok ((heap (st w))(b := None)) (unpublished w) pool lh"
proof -
  note ok = world_okD [OF assms(1)]
  have null: "b \<noteq> NULL" using assms(2) ok(2) by auto
  have other: "table_ok ((heap (st w))(b := None)) (unpublished w) pool lh"
    if "pools (st w) pool = Some lh" "pool \<noteq> buf_pool x" for pool lh
    using ok(4) [OF that(1)] by (elim table_heap) (use assms(2) that(2) in auto)
  show thesis
  proof (cases "buf_pool x = NULL")
    case True
    then have "CRYPTO_BUFFER_free alloc b (st w) = Some \<lparr>heap = (heap (st w))(b := None), pools = pools (st w)\<rparr>"
      using assms(2,4) null by (simp add: CRYPTO_BUFFER_free_def free_buffer_def Let_def)
    moreover have "pool \<noteq> buf_pool x" if "pools (st w) pool = Some lh" for pool lh using that True ok(1) by auto
    ultimately show thesis using that [of "pools (st w)"] ok(1) other by blast
  next
    case False
    then obtain lh where lh: "pools (st w) (buf_pool x) = Some lh" using ok(3) [OF assms(2)] by (auto simp: buffer_ok_def)
    let ?h = "(heap (st w))(b \<mapsto> x\<lparr>references := n\<rparr>)"
    obtain found lh' where del: "lh_delete alloc (CRYPTO_BUFFER_hash ?h) (CRYPTO_BUFFER_cmp ?h) lh b = (found, lh')"
      by (cases "lh_delete alloc (CRYPTO_BUFFER_hash ?h) (CRYPTO_BUFFER_cmp ?h) lh b")
    note dl = delete_last [OF assms(1-3) lh del refl]
    have "CRYPTO_BUFFER_free alloc b (st w) =
        Some \<lparr>heap = (heap (st w))(b := None), pools = (pools (st w))(buf_pool x \<mapsto> lh')\<rparr>"
      using assms(2,4) null False lh del dl(1) by (simp add: CRYPTO_BUFFER_free_def free_buffer_def Let_def)
    then show thesis by (rule that) (use ok(1) False lh dl(2) other in \<open>auto split: if_splits\<close>)
  qed
qed

lemma free_ok:
  assumes "world_ok w" "b \<in># handles w"
  obtains x n s' where "heap (st w) b = Some x" "CRYPTO_BUFFER_free alloc b (st w) = Some s'"
    "world_ok (w\<lparr>st := s', handles := handles w - {#b#}\<rparr>)"
    "heap s' = (heap (st w))(b := (if references x = 1 then None else Some (x\<lparr>references := n\<rparr>)))"
proof -
  note ok = world_okD [OF assms(1)]
  obtain x where x: "heap (st w) b = Some x" using ok(7) [OF assms(2)] by auto
  have u: "b \<notin> unpublished w" using handle_not_unpublished [OF assms] .
  have r: "references x \<noteq> 0" "references x = CRYPTO_REFCOUNT_MAX \<or> unat (references x) = count (handles w) b"
    using ok(3) [OF x] u by (simp_all add: buffer_ok_def)
  have one: "references x = 1 \<longleftrightarrow> unat (references x) = 1" by (simp add: word_unat_eq_iff)
  note shared = free_shared [OF assms(1) x u]
  from r(1) show thesis
  proof (cases rule: refcount_dec_cases)
    case stuck
    then have "references x = CRYPTO_REFCOUNT_MAX \<or> unat (references x) = count (handles w - {#b#}) b" "references x \<noteq> 1" by simp_all
    with that [OF x shared [OF stuck(2) r(1)], of "references x"] show thesis by simp
  next
    case dec
    then have c: "unat (references x) = count (handles w) b" using r(2) by simp
    show thesis
    proof (cases "references x = 1")
      case False
      have ne: "unat (references x) \<noteq> 1" using False one by blast
      have "unat (references x) \<noteq> 0" using r(1) by (simp add: word_unat_eq_iff)
      then have "unat (references x - 1) \<noteq> 0" using dec(3) ne by linarith
      then have nz: "references x - 1 \<noteq> 0" by auto
      have d: "CRYPTO_refcount_dec_and_test_zero (references x) = Some (False, references x - 1)"
          "references x - 1 = CRYPTO_REFCOUNT_MAX \<or> unat (references x - 1) = count (handles w - {#b#}) b"
        using dec(2,3) c ne by simp_all
      show thesis by (rule that [OF x shared [OF d(1) nz d(2)], of "references x - 1"]) (simp add: False)
    next
      case True
      then have u1: "unat (references x) = 1" using one by blast
      then have d: "CRYPTO_refcount_dec_and_test_zero (references x) = Some (True, references x - 1)" using dec(2) by simp
      have one: "count (handles w) b = 1" using c u1 by simp
      from assms(1) x u d show thesis
      proof (rule free_last [where alloc = alloc])
        fix P
        assume P: "CRYPTO_BUFFER_free alloc b (st w) = Some \<lparr>heap = (heap (st w))(b := None), pools = P\<rparr>" "P NULL = None"
          "\<And>pool. P pool \<noteq> None \<longleftrightarrow> pools (st w) pool \<noteq> None"
          "\<And>pool lh. P pool = Some lh \<Longrightarrow> table_ok ((heap (st w))(b := None)) (unpublished w) pool lh"
        from drop_last_ok [OF assms(1) x one P(2-4)] show thesis by (rule that [OF x P(1), of 0]) (simp_all add: True)
      qed
    qed
  qed
qed

lemma fill_ok:
  assumes "world_ok w" "b \<in># handles w" "heap (st w) b = Some x" "buf_pool x = NULL"
  shows "world_ok (w\<lparr>st := (st w)\<lparr>heap := (heap (st w))(b \<mapsto> x\<lparr>buf_data := data\<rparr>)\<rparr>\<rparr>)" (is "world_ok ?w")
proof -
  note ok = world_okD [OF assms(1)]
  show ?thesis
  proof (rule world_okI)
    show "buffer_ok ?w c y" if "heap (st ?w) c = Some y" for c y
      using that ok(3) [of c] ok(3) [OF assms(3)] by (cases "c = b") (auto simp: buffer_ok_def)
    show "table_ok (heap (st ?w)) (unpublished ?w) q lh" if "pools (st ?w) q = Some lh" for q lh
    proof -
      have "q \<noteq> NULL" using that ok(1) by auto
      moreover have "table_ok (heap (st w)) (unpublished w) q lh" using that ok(4) by simp
      ultimately show ?thesis by (elim table_heap) (use assms(3,4) in auto)
    qed
    show "thread_ok ?w (threads ?w j)" for j
      using ok(5) [of j] assms(2) by (auto simp: thread_ok_def split: thread.splits)
    show "j = k" if "threads ?w j = Made d1 c p1" "threads ?w k = Made d2 c p2" for j k d1 c p1 d2 p2
      using that ok(6) [of j d1 c p1 k d2 p2] by simp
    show "heap (st ?w) c \<noteq> None" if "c \<in># handles ?w" for c using that ok(7) by simp
  qed (use ok(1,2) assms(3) in auto)
qed

lemma new_buffer_cases:
  obtains (failed) "new_buffer alloc addr data pool s = (NULL, s)" "\<exists>n. \<not> alloc n"
  | (made) "new_buffer alloc addr data pool s =
      (addr, s\<lparr>heap := (heap s)(addr \<mapsto> \<lparr>buf_pool = pool, buf_data = data, references = 1\<rparr>)\<rparr>)"
proof (cases "alloc sizeof_crypto_buffer \<and> (data = [] \<or> alloc (length data))")
  case True
  then show thesis using made by (auto simp: new_buffer_def OPENSSL_memdup_def)
next
  case False
  then have "new_buffer alloc addr data pool s = (NULL, s)" "\<exists>n. \<not> alloc n"
    by (auto simp: new_buffer_def OPENSSL_memdup_def Let_def)
  then show thesis by (rule failed)
qed

lemma new_unpooled:
  "CRYPTO_BUFFER_new alloc tmp addr data NULL s = Some (new_buffer alloc addr data NULL s)"
  by (rule new_buffer_cases [of alloc addr data NULL s]) (simp_all add: CRYPTO_BUFFER_new_def)

lemma unused_NULL: "unused s addr \<Longrightarrow> addr \<noteq> NULL"
  by (simp add: unused_def)

lemma handle_simps [simp]: "handle NULL = {#}" "b \<noteq> NULL \<Longrightarrow> handle b = {#b#}"
  by (simp_all add: handle_def)

lemma lookup_ok:
  assumes "world_ok w" "threads w i = Idle" "pools (st w) pool \<noteq> None" "unused (st w) tmp"
    "find_duplicate tmp data pool (st w) = Some (buf, s')"
  shows "world_ok (w\<lparr>st := s', handles := handles w + handle buf,
      threads := (threads w)(i := (if buf = NULL then Missed data pool else Idle))\<rparr>)"
  using assms(1,3,4)
proof (cases rule: find_duplicate_cases [where data = data])
  case (hit b s2)
  then have "buf = b" "s' = s2" using assms(5) by simp_all
  then show ?thesis
    using up_ref_ok [OF assms(1) hit(4)] hit(2,3) assms(2) by (simp add: pooled_def fun_upd_idem)
next
  case miss
  then have "buf = NULL" "s' = st w" using assms(5) by simp_all
  then show ?thesis
    using thread_change_ok [OF assms(1), of "Missed data pool" data pool i] assms(2,3) by simp
qed

lemma make_step_ok:
  assumes "world_ok w" "threads w i = Missed data pool" "unused (st w) addr" "new_buffer alloc addr data pool (st w) = (buf, s')"
  shows "world_ok (w\<lparr>st := s', threads := (threads w)(i := (if buf = NULL then Idle else Made data buf pool))\<rparr>)"
proof (cases rule: new_buffer_cases [of alloc addr data pool "st w"])
  case failed
  then show ?thesis using thread_change_ok [OF assms(1), of Idle data pool i] assms(2,4) by simp
next
  case made
  then show ?thesis using make_ok [OF assms(1,3,2)] assms(4) unused_NULL [OF assms(3)] by auto
qed

lemma publish_ok:
  assumes "world_ok w" "threads w i = Made data buf pool" "publish_buffer alloc buf pool (st w) = Some (r, s')"
  shows "world_ok (w\<lparr>st := s', handles := handles w + handle r, threads := (threads w)(i := Idle)\<rparr>)"
  using assms(1,2)
proof (cases rule: publish_cases [where alloc = alloc])
  case (duplicate b s2)
  then have eq: "r = b" "s' = free_buffer buf s2" using assms(3) by simp_all
  have "world_ok (w\<lparr>st := s2, handles := handles w + {#b#}\<rparr>)"
    by (rule up_ref_ok [OF assms(1) duplicate(4)]) (use duplicate(3) in \<open>simp add: pooled_def\<close>)
  from drop_unpublished_ok [OF this, of i] assms(2)
  have "world_ok (w\<lparr>st := s2, handles := handles w + {#b#}, st := free_buffer buf s2, threads := (threads w)(i := Idle)\<rparr>)"
    by simp
  moreover have "w\<lparr>handles := h, st := x, threads := t\<rparr> = w\<lparr>st := x, handles := h, threads := t\<rparr>" for h x t
    by (cases w) simp
  ultimately show ?thesis using eq duplicate(2) by simp
next
  case (inserted lh)
  then have "r = buf" "s' = (st w)\<lparr>pools := (pools (st w))(pool \<mapsto> lh)\<rparr>" using assms(3) by simp_all
  moreover have "buf \<noteq> NULL" using world_okD(2) [OF assms(1)] world_okD(5) [OF assms(1), of i] assms(2) by (auto simp: thread_ok_def)
  ultimately show ?thesis using insert_published_ok [OF assms(1,2) inserted(3)] by simp
next
  case failed
  then show ?thesis using drop_unpublished_ok [OF assms(1,2)] assms(3) by simp
qed

lemma new_unpooled_ok:
  assumes "world_ok w" "unused (st w) addr" "CRYPTO_BUFFER_new alloc tmp addr data NULL (st w) = Some (buf, s')"
  shows "world_ok (w\<lparr>st := s', handles := handles w + handle buf\<rparr>)"
proof (cases rule: new_buffer_cases [of alloc addr data NULL "st w"])
  case failed
  then have "buf = NULL" "s' = st w" using assms(3) by (simp_all add: new_unpooled)
  then show ?thesis using assms(1) by simp
next
  case made
  then show ?thesis
    using new_handle_ok [OF assms(1,2), of "\<lparr>buf_pool = NULL, buf_data = data, references = 1\<rparr>"] assms(3) unused_NULL [OF assms(2)]
    by (auto simp: new_unpooled)
qed

lemma alloc_ok:
  assumes "world_ok w" "unused (st w) addr" "CRYPTO_BUFFER_alloc alloc fresh addr n (st w) = (buf, s')"
  shows "world_ok (w\<lparr>st := s', handles := handles w + handle buf\<rparr>)"
proof (cases "buf = NULL")
  case True
  then show ?thesis using assms(1,3) unused_NULL [OF assms(2)] by (auto simp: CRYPTO_BUFFER_alloc_def split: if_splits)
next
  case False
  then show ?thesis
    using new_handle_ok [OF assms(1,2), of "\<lparr>buf_pool = NULL, buf_data = take n (fresh n), references = 1\<rparr>"] assms(3)
    by (auto simp: CRYPTO_BUFFER_alloc_def split: if_splits)
qed

lemma step_ok: "pool_step w w' \<Longrightarrow> world_ok w \<Longrightarrow> world_ok w'"
proof (induction rule: pool_step.induct)
  case (free buf w alloc s')
  from free(3,1) show ?case by (rule free_ok [where alloc = alloc]) (use free(2) in simp)
next
  case (pool_free pool w s')
  then show ?case using pool_free_ok [of w pool s'] by simp
next
  case (lookup w i pool tmp data buf s')
  then show ?case by (intro lookup_ok [OF _ lookup(1)])
next
  case (up_ref buf w s')
  then show ?case using up_ref_ok [of w buf s'] handle_not_unpublished [of w buf] by simp
qed (simp_all only: pool_new_ok make_step_ok publish_ok new_unpooled_ok alloc_ok fill_ok)

lemma world_reach_ok: "pool_reach w \<Longrightarrow> world_ok w"
proof (induction rule: pool_reach.induct)
  case start
  show ?case by (simp add: no_pools_def world_ok_def thread_ok_def)
qed (rule step_ok)

section \<open>\<open>CRYPTO_BUFFER_new\<close> as a whole\<close>

lemma up_ref_heap: "CRYPTO_BUFFER_up_ref b s = Some s' \<Longrightarrow> heap s a = Some x \<Longrightarrow>
    \<exists>n. heap s' a = Some (x\<lparr>references := n\<rparr>)"
  by (cases "heap s b"; cases "a = b") (auto simp: CRYPTO_BUFFER_up_ref_def intro: exI [of _ "references x"])

lemma new_miss:
  assumes "pool \<noteq> NULL" "find_duplicate tmp data pool s = Some (NULL, s)"
  shows "CRYPTO_BUFFER_new alloc tmp addr data pool s = (case new_buffer alloc addr data pool s of (buf, s) \<Rightarrow>
    if buf = NULL then Some (NULL, s) else publish_buffer alloc buf pool s)"
  using assms by (auto simp: CRYPTO_BUFFER_new_def split: prod.splits)

text \<open>A thread that runs the whole of \<open>CRYPTO_BUFFER_new\<close>.\<close>

lemma run_miss:
  assumes "pool_reach w" "threads w i = Idle" "pools (st w) pool \<noteq> None" "unused (st w) tmp" "unused (st w) addr"
    and "find_duplicate tmp data pool (st w) = Some (NULL, st w)"
    and "new_buffer alloc addr data pool (st w) = (addr, s1)"
  shows "\<exists>w1. pool_reach w1 \<and> threads w1 i = Made data addr pool \<and> st w1 = s1 \<and>
    (\<forall>s' hs. w1\<lparr>st := s', handles := handles w1 + hs, threads := (threads w1)(i := Idle)\<rparr> = w\<lparr>st := s', handles := handles w + hs\<rparr>)"
proof -
  let ?w0 = "w\<lparr>st := st w, handles := handles w + handle NULL, threads := (threads w)(i := (if NULL = NULL then Missed data pool else Idle))\<rparr>"
  have r0: "pool_reach ?w0" by (rule pool_reach.step [OF assms(1) pool_step.lookup [OF assms(2-4,6)]])
  let ?w1 = "?w0\<lparr>st := s1, threads := (threads ?w0)(i := (if addr = NULL then Idle else Made data addr pool))\<rparr>"
  have "pool_reach ?w1"
    by (rule pool_reach.step [OF r0 pool_step.make [where addr = addr and alloc = alloc]]) (use assms(5,7) in simp_all)
  moreover have "threads ?w1 i = Made data addr pool" using unused_NULL [OF assms(5)] by simp
  moreover have "?w1\<lparr>st := s', handles := handles ?w1 + hs, threads := (threads ?w1)(i := Idle)\<rparr> = w\<lparr>st := s', handles := handles w + hs\<rparr>" for s' hs
    using assms(2) by (cases w) (simp add: fun_upd_idem)
  ultimately show ?thesis by (intro exI [of _ ?w1]) simp
qed

lemma publish_data:
  assumes "world_ok w" "threads w i = Made data buf pool" "publish_buffer alloc buf pool (st w) = Some (r, s')" "r \<noteq> NULL"
  shows "\<exists>x. heap s' r = Some x \<and> buf_data x = data \<and> buf_pool x = pool"
  using assms(1,2)
proof (cases rule: publish_cases [where alloc = alloc])
  case (duplicate b s2)
  have "b \<noteq> buf" using duplicate(3) made_unpublished [OF assms(2)] by (auto simp: pooled_def)
  then show ?thesis
    using duplicate assms(3) up_ref_heap [OF duplicate(4)] by (fastforce simp: pooled_def free_buffer_def)
next
  case (inserted lh)
  then show ?thesis using assms(3) world_okD(5) [OF assms(1), of i] assms(2) by (simp add: thread_ok_def)
qed (use assms(3,4) in simp)

lemma publish_NULL:
  assumes "world_ok w" "threads w i = Made data buf pool" "publish_buffer alloc buf pool (st w) = Some (NULL, s')"
  shows "\<exists>n. \<not> alloc n"
  using assms(1,2)
proof (cases rule: publish_cases [where alloc = alloc])
  case (inserted lh)
  then show ?thesis using assms(3) world_okD(5) [OF assms(1), of i] world_okD(2) [OF assms(1)] assms(2) by (auto simp: thread_ok_def)
qed (use assms(3) in simp_all)

definition new_result :: "world \<Rightarrow> allocator \<Rightarrow> u8 list \<Rightarrow> ptr \<Rightarrow> ptr \<times> pool_state \<Rightarrow> bool" where
  "new_result w alloc data pool res = (case res of (r, s') \<Rightarrow>
     pool_reach (w\<lparr>st := s', handles := handles w + handle r\<rparr>) \<and> (r = NULL \<longrightarrow> (\<exists>n. \<not> alloc n)) \<and>
     (r \<noteq> NULL \<longrightarrow> (\<exists>x. heap s' r = Some x \<and> buf_data x = data \<and> buf_pool x = pool)))"

lemma new_pooled:
  assumes "pool_reach w" "threads w i = Idle" "pools (st w) pool \<noteq> None" "unused (st w) tmp" "unused (st w) addr"
  shows "\<exists>res. CRYPTO_BUFFER_new alloc tmp addr data pool (st w) = Some res \<and> new_result w alloc data pool res \<and>
    (\<forall>b. pooled w pool data b \<longrightarrow> fst res = b)"
proof -
  note ok = world_reach_ok [OF assms(1)]
  have pool: "pool \<noteq> NULL" using assms(3) world_okD(1) [OF ok] by auto
  from ok assms(3,4) show ?thesis
  proof (cases rule: find_duplicate_cases [where data = data])
    case (hit b s1)
    have "CRYPTO_BUFFER_new alloc tmp addr data pool (st w) = Some (b, s1)"
      using hit(1,2) pool by (simp add: CRYPTO_BUFFER_new_def)
    moreover have "pool_reach (w\<lparr>st := s1, handles := handles w + handle b\<rparr>)"
    proof -
      have "w\<lparr>st := s1, handles := handles w + handle b, threads := (threads w)(i := (if b = NULL then Missed data pool else Idle))\<rparr> =
          w\<lparr>st := s1, handles := handles w + handle b\<rparr>"
        using assms(2) hit(2) by (cases w) (simp add: fun_upd_idem)
      then show ?thesis using pool_reach.step [OF assms(1) pool_step.lookup [OF assms(2-4) hit(1)]] by (simp only:)
    qed
    moreover have "\<exists>x. heap s1 b = Some x \<and> buf_data x = data \<and> buf_pool x = pool"
      using hit(3) up_ref_heap [OF hit(4)] by (fastforce simp: pooled_def)
    moreover have "\<forall>c. pooled w pool data c \<longrightarrow> b = c" using pooled_unique [OF ok assms(3) hit(3)] by blast
    ultimately show ?thesis using hit(2) by (intro exI [of _ "(b, s1)"]) (simp add: new_result_def)
  next
    case miss
    note new = new_miss [OF pool miss(1), of alloc addr]
    show ?thesis
    proof (cases rule: new_buffer_cases [of alloc addr data pool "st w"])
      case failed
      then have "CRYPTO_BUFFER_new alloc tmp addr data pool (st w) = Some (NULL, st w)" using new by simp
      moreover have "w\<lparr>st := st w, handles := handles w + handle NULL\<rparr> = w" by (cases w) simp
      ultimately show ?thesis using failed(2) miss(2) assms(1)
        by (intro exI [of _ "(NULL, st w)"]) (simp add: new_result_def)
    next
      case made
      from run_miss [OF assms miss(1) this] obtain w1 where w1: "pool_reach w1" "threads w1 i = Made data addr pool"
          "st w1 = snd (new_buffer alloc addr data pool (st w))"
          "\<And>s' hs. w1\<lparr>st := s', handles := handles w1 + hs, threads := (threads w1)(i := Idle)\<rparr> = w\<lparr>st := s', handles := handles w + hs\<rparr>"
        using made by auto
      note ok1 = world_reach_ok [OF w1(1)]
      have eq: "CRYPTO_BUFFER_new alloc tmp addr data pool (st w) = publish_buffer alloc addr pool (st w1)"
        using new made w1(3) unused_NULL [OF assms(5)] by simp
      have "publish_buffer alloc addr pool (st w1) \<noteq> None"
        using ok1 w1(2) by (rule publish_cases [where alloc = alloc]) simp_all
      then obtain r s' where res: "publish_buffer alloc addr pool (st w1) = Some (r, s')" by auto
      have "pool_reach (w\<lparr>st := s', handles := handles w + handle r\<rparr>)"
        using pool_reach.step [OF w1(1) pool_step.publish [OF w1(2) res]] w1(4) by simp
      then have "new_result w alloc data pool (r, s')"
        using publish_data [OF ok1 w1(2) res] publish_NULL [OF ok1 w1(2), of alloc s'] res by (auto simp: new_result_def)
      then show ?thesis using eq res miss(2) by auto
    qed
  qed
qed


lemma new_unpooled_result:
  assumes "pool_reach w" "unused (st w) addr"
  shows "\<exists>res. CRYPTO_BUFFER_new alloc tmp addr data NULL (st w) = Some res \<and> new_result w alloc data NULL res"
proof (cases rule: new_buffer_cases [of alloc addr data NULL "st w"])
  case failed
  moreover have "w\<lparr>st := st w, handles := handles w + handle NULL\<rparr> = w" by (cases w) simp
  ultimately show ?thesis using assms(1) by (simp add: new_unpooled new_result_def)
next
  case made
  obtain s' where s': "CRYPTO_BUFFER_new alloc tmp addr data NULL (st w) = Some (addr, s')"
      "heap s' addr = Some \<lparr>buf_pool = NULL, buf_data = data, references = 1\<rparr>"
    using made by (simp add: new_unpooled)
  have "pool_reach (w\<lparr>st := s', handles := handles w + handle addr\<rparr>)"
    by (rule pool_reach.step [OF assms(1) pool_step.new_unpooled [OF assms(2) s'(1)]])
  then show ?thesis using s' unused_NULL [OF assms(2)] by (simp add: new_result_def)
qed


section \<open>A pool with one buffer\<close>

definition one_pool :: world where
  "one_pool = no_pools\<lparr>st := \<lparr>heap = Map.empty, pools = [1 \<mapsto> empty_table]\<rparr>\<rparr>"

definition one_buffer :: world where
  "one_buffer = (let h = OPENSSL_hash32 [5] in
     \<lparr>st = \<lparr>heap = [2 \<mapsto> \<lparr>buf_pool = 1, buf_data = [5], references = 1\<rparr>],
       pools = [1 \<mapsto> \<lparr>num_items = 1,
         buckets = (replicate kMinNumBuckets [])[unat h mod kMinNumBuckets := [\<lparr>item_data = 2, item_hash = h\<rparr>]], callback_depth = 0\<rparr>]\<rparr>,
     handles = {#2#}, threads = (\<lambda>_. Idle)\<rparr>)"

lemma reach_one_pool: "pool_reach one_pool"
proof -
  have "CRYPTO_BUFFER_POOL_new (\<lambda>_. True) 208 1 (st no_pools) = (1, \<lparr>heap = Map.empty, pools = [1 \<mapsto> empty_table]\<rparr>)"
    by (simp add: CRYPTO_BUFFER_POOL_new_def empty_table no_pools_def)
  from pool_reach.step [OF pool_reach.start pool_step.pool_new [OF _ this]]
  show ?thesis by (simp add: one_pool_def unused_def no_pools_def)
qed

lemma one_pool_simps: "threads one_pool i = Idle" "unused (st one_pool) 9" "unused (st one_pool) 2" "pools (st one_pool) 1 \<noteq> None"
    "handles one_pool = {#}"
  by (simp_all add: one_pool_def no_pools_def unused_def)

lemma first_bucket: "(replicate kMinNumBuckets []) ! (unat (h :: u32) mod kMinNumBuckets) = []"
  by (rule nth_replicate) simp

lemma new_one: "CRYPTO_BUFFER_new (\<lambda>_. True) 9 2 [5] 1 (st one_pool) = Some (2, st one_buffer)"
proof -
  have f: "find_duplicate 9 [5] 1 (st one_pool) = Some (NULL, st one_pool)"
    using first_bucket
    by (simp add: find_duplicate_def one_pool_def lh_retrieve_def get_next_ptr_and_hash_def deref_def empty_table_def Let_def)
  show ?thesis
    unfolding new_miss [OF _ f, simplified]
    using first_bucket
    by (simp add: new_buffer_def OPENSSL_memdup_def publish_buffer_def one_pool_def one_buffer_def lh_retrieve_def
      get_next_ptr_and_hash_def deref_def empty_table_def Let_def lh_insert_def store_at_def lh_maybe_resize_def CRYPTO_BUFFER_hash_def)
qed

lemma reach_one_buffer: "pool_reach one_buffer"
proof -
  from new_pooled [OF reach_one_pool one_pool_simps(1,4,2,3), of "\<lambda>_. True" "[5]"]
  have "new_result one_pool (\<lambda>_. True) [5] 1 (2, st one_buffer)" using new_one by simp
  moreover have "one_pool\<lparr>st := st one_buffer, handles := handles one_pool + handle 2\<rparr> = one_buffer"
    by (simp add: one_pool_def one_buffer_def no_pools_def Let_def)
  ultimately show ?thesis by (simp add: new_result_def)
qed

section \<open>Properties\<close>

text \<open>
  C11: what a pool promises while any number of threads use it.  A buffer a caller holds a reference to is allocated, and
  its count is the number of these references (or saturated); in a pool two such buffers with the same data are the same.\<close>

theorem pool_sharing:
  assumes "pool_reach w" "a \<in># handles w" "b \<in># handles w"
  shows "\<exists>x y. heap (st w) a = Some x \<and> heap (st w) b = Some y \<and>
    (references x = CRYPTO_REFCOUNT_MAX \<or> unat (references x) = count (handles w) a) \<and>
    (buf_pool x = buf_pool y \<and> buf_pool x \<noteq> NULL \<and> buf_data x = buf_data y \<longrightarrow> a = b)"
proof -
  note ok = world_reach_ok [OF assms(1)]
  obtain x y where xy: "heap (st w) a = Some x" "heap (st w) b = Some y"
    using world_okD(7) [OF ok] assms(2,3) by blast
  have u: "a \<notin> unpublished w" "b \<notin> unpublished w" using handle_not_unpublished [OF ok] assms(2,3) by blast+
  have "references x = CRYPTO_REFCOUNT_MAX \<or> unat (references x) = count (handles w) a"
    using world_okD(3) [OF ok xy(1)] u(1) by (simp add: buffer_ok_def)
  moreover have "a = b" if "buf_pool x = buf_pool y" "buf_pool x \<noteq> NULL" "buf_data x = buf_data y"
  proof (rule pooled_unique [OF ok])
    show "pools (st w) (buf_pool x) \<noteq> None" using world_okD(3) [OF ok xy(1)] that(2) by (simp add: buffer_ok_def)
  qed (use u xy that in \<open>simp_all add: pooled_def\<close>)
  ultimately show ?thesis using xy by blast
qed

theorem pool_sharing_witness:
  "\<exists>x y. heap (st one_buffer) 2 = Some x \<and> heap (st one_buffer) 2 = Some y \<and>
    (references x = CRYPTO_REFCOUNT_MAX \<or> unat (references x) = count (handles one_buffer) 2) \<and>
    (buf_pool x = buf_pool y \<and> buf_pool x \<noteq> NULL \<and> buf_data x = buf_data y \<longrightarrow> (2 :: ptr) = 2)"
  by (rule pool_sharing [OF reach_one_buffer]) (simp_all add: one_buffer_def Let_def)

text \<open>
  C10: nothing fails.  In any state that threads can reach, no call reads freed memory, aborts, or fails an assertion:
  taking and dropping a reference that is held, reading its data, the two critical sections of \<open>CRYPTO_BUFFER_new\<close> on a
  pool in use, and freeing a pool whose buffers are gone.\<close>

theorem pool_safe:
  assumes "pool_reach w"
  shows "(\<forall>b. b \<in># handles w \<longrightarrow> CRYPTO_BUFFER_free alloc b (st w) \<noteq> None \<and> CRYPTO_BUFFER_up_ref b (st w) \<noteq> None \<and>
      CRYPTO_BUFFER_data b (st w) \<noteq> None) \<and>
    (\<forall>pool tmp data. pools (st w) pool \<noteq> None \<and> unused (st w) tmp \<longrightarrow> find_duplicate tmp data pool (st w) \<noteq> None) \<and>
    (\<forall>i data buf pool. threads w i = Made data buf pool \<longrightarrow> publish_buffer alloc buf pool (st w) \<noteq> None) \<and>
    (\<forall>pool. pools (st w) pool \<noteq> None \<and> (\<forall>b x. heap (st w) b = Some x \<longrightarrow> buf_pool x \<noteq> pool) \<longrightarrow>
      CRYPTO_BUFFER_POOL_free pool (st w) \<noteq> None)"
proof (intro conjI allI impI)
  note ok = world_reach_ok [OF assms]
  fix b
  assume b: "b \<in># handles w"
  show "CRYPTO_BUFFER_free alloc b (st w) \<noteq> None"
    by (rule free_ok [OF ok b, where alloc = alloc]) simp
  show "CRYPTO_BUFFER_up_ref b (st w) \<noteq> None" "CRYPTO_BUFFER_data b (st w) \<noteq> None"
    using world_okD(7) [OF ok b] by (auto simp: CRYPTO_BUFFER_up_ref_def CRYPTO_BUFFER_data_def)
next
  fix pool tmp data
  assume "pools (st w) pool \<noteq> None \<and> unused (st w) tmp"
  then have "pools (st w) pool \<noteq> None" "unused (st w) tmp" by simp_all
  with world_reach_ok [OF assms] show "find_duplicate tmp data pool (st w) \<noteq> None"
    by (rule find_duplicate_cases [where data = data]) simp_all
next
  fix i data buf pool
  assume "threads w i = Made data buf pool"
  with world_reach_ok [OF assms] show "publish_buffer alloc buf pool (st w) \<noteq> None"
    by (rule publish_cases [where alloc = alloc]) simp_all
next
  fix pool
  assume p: "pools (st w) pool \<noteq> None \<and> (\<forall>b x. heap (st w) b = Some x \<longrightarrow> buf_pool x \<noteq> pool)"
  then obtain lh where lh: "pools (st w) pool = Some lh" by auto
  have t: "table_ok (heap (st w)) (unpublished w) pool lh" using world_okD(4) [OF world_reach_ok [OF assms] lh] .
  then have "bufs.elems lh = {}" using p by (auto simp: table_ok_def)
  then have "lh_items lh = []" by (simp add: bufs.elems_def)
  then have "num_items lh = 0" using t by (simp add: table_ok_def lh_ok_alt)
  then show "CRYPTO_BUFFER_POOL_free pool (st w) \<noteq> None" using lh by (simp add: CRYPTO_BUFFER_POOL_free_def lh_num_items_def)
qed

theorem pool_safe_witness: "CRYPTO_BUFFER_free (\<lambda>_. True) 2 (st one_buffer) \<noteq> None"
  using pool_safe [OF reach_one_buffer, of "\<lambda>_. True"] by (simp add: one_buffer_def Let_def)

text \<open>
  Freeing.  Dropping a reference frees the buffer exactly when it is the only one (and the count has never been
  saturated), and it changes nothing else: every other buffer stays as it is, and so does the data of this one while it lives.\<close>

theorem pool_free:
  assumes "pool_reach w" "b \<in># handles w" "heap (st w) b = Some x" "CRYPTO_BUFFER_free alloc b (st w) = Some s'"
  shows "(heap s' b = None \<longleftrightarrow> count (handles w) b = 1 \<and> references x \<noteq> CRYPTO_REFCOUNT_MAX) \<and>
    (\<forall>a. a \<noteq> b \<longrightarrow> heap s' a = heap (st w) a) \<and>
    (\<forall>y. heap s' b = Some y \<longrightarrow> buf_data y = buf_data x \<and> buf_pool y = buf_pool x)"
proof -
  note ok = world_reach_ok [OF assms(1)]
  have u: "b \<notin> unpublished w" using handle_not_unpublished [OF ok assms(2)] .
  have one: "references x = 1 \<longleftrightarrow> unat (references x) = 1" by (simp add: word_unat_eq_iff)
  have "references x = CRYPTO_REFCOUNT_MAX \<or> unat (references x) = count (handles w) b"
    using world_okD(3) [OF ok assms(3)] u by (simp add: buffer_ok_def)
  then have "references x = 1 \<longleftrightarrow> count (handles w) b = 1 \<and> references x \<noteq> CRYPTO_REFCOUNT_MAX"
  proof
    assume "references x = CRYPTO_REFCOUNT_MAX"
    then show ?thesis by simp
  next
    assume c: "unat (references x) = count (handles w) b"
    show ?thesis
    proof (cases "references x = 1")
      case False
      then show ?thesis using one c by metis
    next
      case True
      then have "count (handles w) b = 1" using c by simp
      moreover have "references x \<noteq> CRYPTO_REFCOUNT_MAX" unfolding True by simp
      ultimately show ?thesis using True by blast
    qed
  qed
  moreover obtain n where "heap s' = (heap (st w))(b := (if references x = 1 then None else Some (x\<lparr>references := n\<rparr>)))"
    by (rule free_ok [OF ok assms(2), where alloc = alloc]) (use assms(3,4) in auto)
  ultimately show ?thesis by (auto simp del: One_nat_def)
qed

theorem pool_free_witness:
  "\<exists>s'. CRYPTO_BUFFER_free (\<lambda>_. True) 2 (st one_buffer) = Some s' \<and> heap s' 2 = None"
proof -
  have h: "2 \<in># handles one_buffer" "heap (st one_buffer) 2 = Some \<lparr>buf_pool = 1, buf_data = [5], references = 1\<rparr>"
      "count (handles one_buffer) 2 = 1"
    by (simp_all add: one_buffer_def Let_def)
  obtain s' where "CRYPTO_BUFFER_free (\<lambda>_. True) 2 (st one_buffer) = Some s'"
    by (rule free_ok [OF world_reach_ok [OF reach_one_buffer] h(1)])
  with pool_free [OF reach_one_buffer h(1,2) this] h(3) show ?thesis by simp
qed

text \<open>
  \<open>CRYPTO_BUFFER_new\<close>.  In any state that threads can reach, a thread that runs all of it gets a buffer with the data and
  the pool it asked for (NULL only where there is no memory), which is one more reference in a state that can be reached;
  and with a pool it gets the buffer that callers already have for this data, if there is one.\<close>

theorem buffer_new:
  assumes "pool_reach w" "threads w i = Idle" "unused (st w) tmp" "unused (st w) addr" "pool = NULL \<or> pools (st w) pool \<noteq> None"
  shows "\<exists>r s'. CRYPTO_BUFFER_new alloc tmp addr data pool (st w) = Some (r, s') \<and>
    pool_reach (w\<lparr>st := s', handles := handles w + handle r\<rparr>) \<and> (r = NULL \<longrightarrow> (\<exists>n. \<not> alloc n)) \<and>
    (r \<noteq> NULL \<longrightarrow> (\<exists>x. heap s' r = Some x \<and> buf_data x = data \<and> buf_pool x = pool)) \<and>
    (\<forall>b x. pool \<noteq> NULL \<and> b \<in># handles w \<and> heap (st w) b = Some x \<and> buf_data x = data \<and> buf_pool x = pool \<longrightarrow> r = b)"
proof (cases "pool = NULL")
  case True
  then show ?thesis using new_unpooled_result [OF assms(1,4), of alloc tmp data] by (auto simp: new_result_def)
next
  case False
  then have "pools (st w) pool \<noteq> None" using assms(5) by simp
  then obtain r s' where n: "CRYPTO_BUFFER_new alloc tmp addr data pool (st w) = Some (r, s')"
      "new_result w alloc data pool (r, s')" "\<And>b. pooled w pool data b \<Longrightarrow> r = b"
    using new_pooled [OF assms(1,2) _ assms(3,4), of pool alloc data] by auto
  have "r = b" if "b \<in># handles w" "heap (st w) b = Some x" "buf_data x = data" "buf_pool x = pool" for b x
    by (rule n(3)) (use that handle_not_unpublished [OF world_reach_ok [OF assms(1)]] in \<open>simp add: pooled_def\<close>)
  then show ?thesis using n(1,2) by (auto simp: new_result_def)
qed

theorem buffer_new_witness:
  "\<exists>s'. CRYPTO_BUFFER_new (\<lambda>_. True) 9 3 [5] 1 (st one_buffer) = Some (2, s') \<and>
    pool_reach (one_buffer\<lparr>st := s', handles := {#2, 2#}\<rparr>)"
proof -
  have h: "threads one_buffer 0 = Idle" "unused (st one_buffer) 9" "unused (st one_buffer) 3" "pools (st one_buffer) 1 \<noteq> None"
      "handles one_buffer = {#2#}" "heap (st one_buffer) 2 = Some \<lparr>buf_pool = 1, buf_data = [5], references = 1\<rparr>"
    by (simp_all add: one_buffer_def unused_def Let_def)
  from buffer_new [OF reach_one_buffer h(1-3), of 1 "\<lambda>_. True" "[5]"] h(4-6) show ?thesis by auto
qed

end
