(* ===== verification/Pb_Values.thy ===== *)
theory Pb_Values
  imports Pb_Out Pb_In
begin

text \<open>
  Protocol buffers: fields one after the other, written and read (or skipped), and what the two directions owe each other.
\<close>

section \<open>Values that are written and read\<close>

text \<open>A kind of value: its bytes, an operation that writes them and one that reads them.\<close>

locale pb_codec =
  fixes bytes :: "'a \<Rightarrow> u8 list" and valid :: "'a \<Rightarrow> bool"
    and writer :: "'a \<Rightarrow> u8 list out" and reader :: "('a, 'i) inp" and skipper :: "(unit, 'i) inp"
  assumes emits: "valid v \<Longrightarrow> emits (writer v) (bytes v)"
    and reads: "valid v \<Longrightarrow> reads reader (bytes v) v"
    and skips: "valid v \<Longrightarrow> reads skipper (bytes v) ()"
begin

text \<open>What has been written is read back, and so is what follows it.\<close>

lemma written_read:
  assumes "valid v" "out_ok s" "writer v s = (True, s')"
    and "i_source t = Buffer (drop (length (o_state s)) (o_state s') @ rest)" "bytes_written s' - bytes_written s \<le> bytes_left t"
  shows "reader t = (Some v, moved (bytes_written s' - bytes_written s) rest t)"
    "skipper t = (Some (), moved (bytes_written s' - bytes_written s) rest t)"
proof -
  have "bytes_written s + length (bytes v) \<le> o_max_size s"
  proof (rule ccontr)
    assume "\<not> ?thesis"
    then have "o_max_size s < bytes_written s + length (bytes v)" by simp
    then obtain s2 where "writer v s = (False, s2)"
      by (rule emits_full [OF emits [OF assms(1)] assms(2)])
    with assms(3) show False by simp
  qed
  then have "s' = written (bytes v) s" using emits_fits [OF emits [OF assms(1)] assms(2)] assms(3) by simp
  then have "drop (length (o_state s)) (o_state s') = bytes v" "bytes_written s' - bytes_written s = length (bytes v)"
    by (simp_all add: written_def)
  then show "reader t = (Some v, moved (bytes_written s' - bytes_written s) rest t)"
    "skipper t = (Some (), moved (bytes_written s' - bytes_written s) rest t)"
    using readsD [OF reads [OF assms(1)]] readsD [OF skips [OF assms(1)]] assms(4,5) by simp_all
qed

end

section \<open>Skipping\<close>

lemma skip_varint_bind:
  "pb_skip_varint = in_bind (pb_read 1) (\<lambda>bytes. if hd bytes AND 0x80 \<noteq> 0 then pb_skip_varint else in_return ())"
  by (rule ext, subst pb_skip_varint.simps)
    (simp add: in_bind_def in_return_def if_distrib [of "\<lambda>f. f _"] cong: if_cong split: prod.split option.split)

lemma reads_skip_varint: "reads (pb_skip_varint :: (unit, 'i) inp) (leb128 n) ()"
proof (induction n rule: less_induct)
  case (less n)
  have step: "reads (pb_skip_varint :: (unit, 'i) inp) ([b] @ bs) ()"
    if "reads (if b AND 0x80 \<noteq> 0 then pb_skip_varint else in_return () :: (unit, 'i) inp) bs ()" for b bs
  proof -
    have r: "reads (pb_read 1 :: (u8 list, 'i) inp) [b] [b]" using reads_read [of "[b]"] by simp
    have "reads (in_bind (pb_read 1) (\<lambda>bytes. if hd bytes AND 0x80 \<noteq> 0 then pb_skip_varint else in_return ()) :: (unit, 'i) inp)
        ([b] @ bs) ()"
      by (rule reads_bind [OF r]) (use that in simp)
    then show ?thesis unfolding skip_varint_bind [symmetric] .
  qed
  show ?case
  proof (cases rule: leb128_cases [of n])
    case last
    then show ?thesis using step [of "of_nat n" "[]"] by (simp add: u8_and_0x80 reads_return)
  next
    case more
    show ?thesis unfolding more(2)
      using step [of "of_nat (n mod 128 + 128)" "leb128 (n div 128)"] digit_bits(1) [OF more(3)] less.IH [of "n div 128"] more(1) by simp
  qed
qed

lemma reads_skip_string: "length bs < 2 ^ 32 \<Longrightarrow> reads pb_skip_string (leb128 (length bs) @ bs) ()"
proof -
  assume "length bs < 2 ^ 32"
  then have u: "unat (of_nat (length bs) :: u32) = length bs" by (simp add: unat_of_nat)
  show ?thesis
    unfolding pb_skip_string_def
    using reads_bind [OF reads_varint32 [of "of_nat (length bs)"], of "\<lambda>length. pb_read_skip (unat length)" bs "()"] reads_skip [of bs]
    by (simp add: u)
qed

text \<open>A string through a substream, as the decoder of a message reads it.\<close>

definition read_string :: "(u8 list, 'i) inp" where
  "read_string s = (case pb_make_string_substream s of
     (None, s) \<Rightarrow> (None, s)
   | (Some substream, s) \<Rightarrow> (case pb_read (bytes_left substream) substream of
       (None, substream) \<Rightarrow> (None, s)
     | (Some bs, substream) \<Rightarrow> (case pb_close_string_substream substream s of
         (None, s) \<Rightarrow> (None, s)
       | (Some u, s) \<Rightarrow> (Some bs, s))))"

lemma make_substream:
  assumes "n < 2 ^ 32" "i_source s = Buffer (leb128 n @ rest)" "length (leb128 n) + n \<le> bytes_left s"
  shows "pb_make_string_substream s =
    (Some ((moved (length (leb128 n)) rest s)\<lparr>bytes_left := n\<rparr>), moved (length (leb128 n) + n) rest s)"
proof -
  have u: "unat (of_nat n :: u32) = n" using assms(1) by (simp add: unat_of_nat)
  moreover have "\<not> bytes_left s - length (leb128 n) < n" using assms(3) by linarith
  ultimately show ?thesis
    using readsD [OF reads_varint32 [of "of_nat n"], of s rest] assms(2,3)
    by (simp add: pb_make_string_substream_def in_bind_def moved_def)
qed

lemma reads_string: "length bs < 2 ^ 32 \<Longrightarrow> reads read_string (leb128 (length bs) @ bs) bs"
proof -
  assume len: "length bs < 2 ^ 32"
  have "read_string s = (Some bs, moved (length (leb128 (length bs) @ bs)) rest s)"
    if "i_source s = Buffer ((leb128 (length bs) @ bs) @ rest)" "length (leb128 (length bs) @ bs) \<le> bytes_left s" for s :: "'a pb_istream" and rest
  proof -
    let ?k = "length (leb128 (length bs))"
    let ?sub = "(moved ?k (bs @ rest) s)\<lparr>bytes_left := length bs\<rparr>"
    have m: "pb_make_string_substream s = (Some ?sub, moved (?k + length bs) (bs @ rest) s)"
      using make_substream [OF len, of s "bs @ rest"] that by simp
    have r: "pb_read (length bs) ?sub = (Some bs, moved (length bs) rest ?sub)"
      using readsD [OF reads_read [of bs], of ?sub rest] by simp
    show ?thesis using m r by (simp add: read_string_def pb_close_string_substream_def moved_def)
  qed
  then show ?thesis by (simp add: reads_def)
qed


section \<open>The codecs\<close>

lemma skip_fixed: "reads (pb_skip_field PB_WT_32BIT) (le_nat 4 n) ()" "reads (pb_skip_field PB_WT_64BIT) (le_nat 8 n) ()"
  using reads_skip [of "le_nat 4 n"] reads_skip [of "le_nat 8 n"] by (simp_all add: pb_skip_field_def)

interpretation varint: pb_codec "\<lambda>v. leb128 (unat v)" "\<lambda>_. True" pb_encode_varint pb_decode_varint "pb_skip_field PB_WT_VARINT"
  by unfold_locales (simp_all add: emits_varint reads_varint reads_skip_varint pb_skip_field_def)

interpretation svarint: pb_codec "\<lambda>v. leb128 (unat (zigzag v))" "\<lambda>_. True" pb_encode_svarint pb_decode_svarint "pb_skip_field PB_WT_VARINT"
  by unfold_locales (simp_all add: emits_svarint reads_svarint reads_skip_varint pb_skip_field_def)

interpretation fixed32: pb_codec "\<lambda>v. le_nat 4 (unat v)" "\<lambda>_. True" pb_encode_fixed32 pb_decode_fixed32 "pb_skip_field PB_WT_32BIT"
  by unfold_locales (simp_all add: emits_fixed reads_fixed32 skip_fixed)

interpretation fixed64: pb_codec "\<lambda>v. le_nat 8 (unat v)" "\<lambda>_. True" pb_encode_fixed64 pb_decode_fixed64 "pb_skip_field PB_WT_64BIT"
  by unfold_locales (simp_all add: emits_fixed reads_fixed64 skip_fixed)

interpretation delimited: pb_codec "\<lambda>bs. leb128 (length bs) @ bs" "\<lambda>bs. length bs < 2 ^ 32" "\<lambda>bs. pb_encode_string bs (length bs)"
    read_string "pb_skip_field PB_WT_STRING"
  by unfold_locales (simp_all add: emits_string reads_string reads_skip_string pb_skip_field_def)

section \<open>Sequences of fields\<close>

datatype pb_value = Varint u64 | Svarint u64 | Fixed32 u32 | Fixed64 u64 | Delimited "u8 list"

fun wire_type :: "pb_value \<Rightarrow> u32" where
  "wire_type (Varint v) = PB_WT_VARINT"
| "wire_type (Svarint v) = PB_WT_VARINT"
| "wire_type (Fixed32 v) = PB_WT_32BIT"
| "wire_type (Fixed64 v) = PB_WT_64BIT"
| "wire_type (Delimited bs) = PB_WT_STRING"

fun value_bytes :: "pb_value \<Rightarrow> u8 list" where
  "value_bytes (Varint v) = leb128 (unat v)"
| "value_bytes (Svarint v) = leb128 (unat (zigzag v))"
| "value_bytes (Fixed32 v) = le_nat 4 (unat v)"
| "value_bytes (Fixed64 v) = le_nat 8 (unat v)"
| "value_bytes (Delimited bs) = leb128 (length bs) @ bs"

fun value_ok :: "pb_value \<Rightarrow> bool" where
  "value_ok (Delimited bs) = (length bs < 2 ^ 32)"
| "value_ok _ = True"

fun write_value :: "pb_value \<Rightarrow> 's out" where
  "write_value (Varint v) = pb_encode_varint v"
| "write_value (Svarint v) = pb_encode_svarint v"
| "write_value (Fixed32 v) = pb_encode_fixed32 v"
| "write_value (Fixed64 v) = pb_encode_fixed64 v"
| "write_value (Delimited bs) = pb_encode_string bs (length bs)"

text \<open>Reads a value of the kind of its argument.\<close>

fun read_like :: "pb_value \<Rightarrow> (pb_value, 'i) inp" where
  "read_like (Varint _) = in_bind pb_decode_varint (\<lambda>v. in_return (Varint v))"
| "read_like (Svarint _) = in_bind pb_decode_svarint (\<lambda>v. in_return (Svarint v))"
| "read_like (Fixed32 _) = in_bind pb_decode_fixed32 (\<lambda>v. in_return (Fixed32 v))"
| "read_like (Fixed64 _) = in_bind pb_decode_fixed64 (\<lambda>v. in_return (Fixed64 v))"
| "read_like (Delimited _) = in_bind read_string (\<lambda>bs. in_return (Delimited bs))"

type_synonym pb_fields = "(u32 \<times> pb_value) list"

fun field_ok :: "u32 \<times> pb_value \<Rightarrow> bool" where
  "field_ok (tag, v) = (tag \<noteq> 0 \<and> unat tag < 2 ^ 29 \<and> value_ok v)"

fun fields_bytes :: "pb_fields \<Rightarrow> u8 list" where
  "fields_bytes [] = []"
| "fields_bytes ((tag, v) # fs) = (tag_bytes (wire_type v) tag @ value_bytes v) @ fields_bytes fs"

fun write_fields :: "pb_fields \<Rightarrow> 's out" where
  "write_fields [] = (\<lambda>s. (True, s))"
| "write_fields ((tag, v) # fs) = out_then (out_then (pb_encode_tag (wire_type v) tag) (write_value v)) (write_fields fs)"

definition read_tag :: "(u32 \<times> u32, 'i) inp" where
  "read_tag s = (case pb_decode_tag s of (r, eof, s) \<Rightarrow> (r, s))"

fun read_fields :: "pb_fields \<Rightarrow> (pb_fields, 'i) inp" where
  "read_fields [] = in_return []"
| "read_fields ((_, v) # fs) = in_bind read_tag (\<lambda>(wt, tag). in_bind (read_like v) (\<lambda>v.
     in_bind (read_fields fs) (\<lambda>vs. in_return ((tag, v) # vs))))"

text \<open>Skips as many fields.\<close>

fun skip_fields :: "nat \<Rightarrow> (u32 list, 'i) inp" where
  "skip_fields 0 = in_return []"
| "skip_fields (Suc n) = in_bind read_tag (\<lambda>(wt, tag). in_bind (pb_skip_field wt) (\<lambda>u.
     in_bind (skip_fields n) (\<lambda>tags. in_return (tag # tags))))"

lemma emits_value: "value_ok v \<Longrightarrow> emits (write_value v) (value_bytes v)"
  by (cases v) (simp_all add: varint.emits svarint.emits fixed32.emits fixed64.emits delimited.emits)

lemma reads_then_return: "reads op bs x \<Longrightarrow> reads (in_bind op (\<lambda>x. in_return (f x))) bs (f x)"
  using reads_bind [OF _ reads_return, of op bs x f] by simp

lemma reads_like: "value_ok v \<Longrightarrow> reads (read_like v) (value_bytes v) v"
  by (cases v) (simp_all add: reads_then_return varint.reads svarint.reads fixed32.reads fixed64.reads delimited.reads)

lemma skips_value: "value_ok v \<Longrightarrow> reads (pb_skip_field (wire_type v)) (value_bytes v) ()"
  by (cases v) (simp_all add: varint.skips svarint.skips fixed32.skips fixed64.skips delimited.skips)

lemma wire_type_bound: "unat (wire_type v) < 8"
  by (cases v) simp_all

lemma reads_tag: "field_ok (tag, v) \<Longrightarrow> reads read_tag (tag_bytes (wire_type v) tag) (wire_type v, tag)"
  unfolding reads_def
proof (intro allI impI)
  fix s :: "'a pb_istream" and rest
  assume "field_ok (tag, v)" "i_source s = Buffer (tag_bytes (wire_type v) tag @ rest)" "length (tag_bytes (wire_type v) tag) \<le> bytes_left s"
  then show "read_tag s = (Some (wire_type v, tag), moved (length (tag_bytes (wire_type v) tag)) rest s)"
    using decode_tag_reads [OF wire_type_bound [of v], of tag s rest] by (simp add: read_tag_def)
qed

lemma emits_fields: "\<forall>f \<in> set fs. field_ok f \<Longrightarrow> emits (write_fields fs) (fields_bytes fs)"
proof (induction fs)
  case (Cons f fs)
  obtain tag v where f: "f = (tag, v)" by (cases f)
  then have "emits (out_then (pb_encode_tag (wire_type v) tag) (write_value v)) (tag_bytes (wire_type v) tag @ value_bytes v)"
    using Cons.prems by (intro emits_then emits_tag wire_type_bound emits_value) simp
  from emits_then [OF this Cons.IH] Cons.prems show ?case by (simp add: f del: append.assoc append_assoc)
qed (simp add: emits_nothing)

lemma reads_fields: "\<forall>f \<in> set fs. field_ok f \<Longrightarrow> reads (read_fields fs :: (pb_fields, 'i) inp) (fields_bytes fs) fs"
proof (induction fs)
  case (Cons f fs)
  obtain tag v where f: "f = (tag, v)" by (cases f)
  have ok: "field_ok (tag, v)" using Cons.prems f by simp
  have rest: "reads (in_bind (read_fields fs) (\<lambda>vs. in_return ((tag, v) # vs)) :: (pb_fields, 'i) inp) (fields_bytes fs) ((tag, v) # fs)"
    by (rule reads_then_return) (use Cons in simp)
  have "reads (in_bind read_tag (\<lambda>(wt, tag). in_bind (read_like v) (\<lambda>v.
      in_bind (read_fields fs) (\<lambda>vs. in_return ((tag, v) # vs)))) :: (pb_fields, 'i) inp) (tag_bytes (wire_type v) tag @ (value_bytes v @ fields_bytes fs)) ((tag, v) # fs)"
    by (rule reads_bind [OF reads_tag [OF ok]], simp, rule reads_bind [OF reads_like])
      (use ok rest in simp_all)
  with f show ?case by simp
qed (simp add: reads_return)

lemma reads_skip_fields: "\<forall>f \<in> set fs. field_ok f \<Longrightarrow> reads (skip_fields (length fs) :: (u32 list, 'i) inp) (fields_bytes fs) (map fst fs)"
proof (induction fs)
  case (Cons f fs)
  obtain tag v where f: "f = (tag, v)" by (cases f)
  have ok: "field_ok (tag, v)" using Cons.prems f by simp
  have rest: "reads (in_bind (skip_fields (length fs)) (\<lambda>tags. in_return (tag # tags)) :: (u32 list, 'i) inp) (fields_bytes fs) (tag # map fst fs)"
    by (rule reads_then_return) (use Cons in simp)
  have "reads (in_bind read_tag (\<lambda>(wt, tag). in_bind (pb_skip_field wt) (\<lambda>u.
      in_bind (skip_fields (length fs)) (\<lambda>tags. in_return (tag # tags)))) :: (u32 list, 'i) inp) (tag_bytes (wire_type v) tag @ (value_bytes v @ fields_bytes fs)) (tag # map fst fs)"
    by (rule reads_bind [OF reads_tag [OF ok]], simp, rule reads_bind [OF skips_value])
      (use ok rest in simp_all)
  with f show ?case by simp
qed (simp add: reads_return)


section \<open>Properties\<close>

lemma from_buffer_ok: "n < size_bound \<Longrightarrow> out_ok (pb_ostream_from_buffer n)"
  by (simp add: out_ok_def pb_ostream_from_buffer_def)

text \<open>
  C28: fields come back.  Whatever fields (tag numbers from 1 to 2^29 - 1; variable-length, zigzag and fixed integers, strings
  shorter than 2^32) have been written to a buffer, reading them from it gives the fields, skipping them gives their
  tags, and both end where the writing ended, whatever bytes follow.\<close>

theorem pb_fields_roundtrip:
  assumes "n < size_bound" "\<forall>f \<in> set fs. field_ok f" "write_fields fs (pb_ostream_from_buffer n) = (True, s)"
  shows "length (o_state s) = bytes_written s \<and>
    read_fields fs (pb_istream_from_buffer (o_state s @ rest) (bytes_written s)) = (Some fs, pb_istream_from_buffer rest 0) \<and>
    skip_fields (length fs) (pb_istream_from_buffer (o_state s @ rest) (bytes_written s)) =
      (Some (map fst fs), pb_istream_from_buffer rest 0)"
proof -
  note e = emits_fields [OF assms(2)]
  have fits: "bytes_written (pb_ostream_from_buffer n) + length (fields_bytes fs) \<le> o_max_size (pb_ostream_from_buffer n)"
  proof (rule ccontr)
    assume "\<not> ?thesis"
    then have "o_max_size (pb_ostream_from_buffer n) < bytes_written (pb_ostream_from_buffer n) + length (fields_bytes fs)" by simp
    then obtain s2 where "write_fields fs (pb_ostream_from_buffer n) = (False, s2)"
      by (rule emits_full [OF e from_buffer_ok [OF assms(1)]])
    with assms(3) show False by simp
  qed
  have s: "s = written (fields_bytes fs) (pb_ostream_from_buffer n)"
    using emits_fits [OF e from_buffer_ok [OF assms(1)] fits] assms(3) by simp
  then have "o_state s = fields_bytes fs" "bytes_written s = length (fields_bytes fs)"
    by (simp_all add: written_def pb_ostream_from_buffer_def)
  then show ?thesis
    using readsD [OF reads_fields [OF assms(2)], of "pb_istream_from_buffer (o_state s @ rest) (bytes_written s)" rest]
      readsD [OF reads_skip_fields [OF assms(2)], of "pb_istream_from_buffer (o_state s @ rest) (bytes_written s)" rest]
    by (simp add: pb_istream_from_buffer_def moved_def)
qed

theorem pb_fields_roundtrip_witness:
  "\<exists>s. write_fields [(1, Varint 300), (2, Svarint (- 1)), (3, Delimited [7, 8])] (pb_ostream_from_buffer 100) = (True, s) \<and>
    fst (read_fields [(1, Varint 300), (2, Svarint (- 1)), (3, Delimited [7, 8])]
      (pb_istream_from_buffer (o_state s @ []) (bytes_written s) :: 'i pb_istream)) = Some [(1, Varint 300), (2, Svarint (- 1)), (3, Delimited [7, 8])]"
proof -
  let ?fs = "[(1, Varint 300), (2, Svarint (- 1)), (3, Delimited [7, 8])]"
  have ok: "\<forall>f \<in> set ?fs. field_ok f" by simp
  have "length (fields_bytes ?fs) \<le> 20"
    using leb128_u64(1) [of "zigzag (- 1)"] by (simp add: tag_bytes_def leb128_small leb128.simps [of 300])
  then obtain s where "write_fields ?fs (pb_ostream_from_buffer 100) = (True, s)"
    using emits_fits [OF emits_fields [OF ok] from_buffer_ok [of 100]] by (simp add: pb_ostream_from_buffer_def)
  moreover have "read_fields ?fs (pb_istream_from_buffer (o_state s @ []) (bytes_written s) :: 'i pb_istream) = (Some ?fs, pb_istream_from_buffer [] 0)"
    by (rule pb_fields_roundtrip [OF _ ok calculation, THEN conjunct2, THEN conjunct1]) simp
  ultimately show ?thesis by (metis fst_conv)
qed


text \<open>
  C29: an output stream keeps to its limit.  Writing fields succeeds exactly when all their bytes fit; when they do not, what has
  been written is a proper prefix of them and stays inside the buffer.  A stream that only counts always succeeds and gives the
  number of bytes the other one would write.\<close>

theorem pb_writes_bounded:
  assumes "n < size_bound" "\<forall>f \<in> set fs. field_ok f" "length (fields_bytes fs) < size_bound"
  shows "(fst (write_fields fs (pb_ostream_from_buffer n)) \<longleftrightarrow> bytes_written (snd (write_fields fs (PB_OSTREAM_SIZING [] :: u8 list pb_ostream))) \<le> n) \<and>
    fst (write_fields fs (PB_OSTREAM_SIZING [] :: u8 list pb_ostream)) \<and>
    (\<exists>k. o_state (snd (write_fields fs (pb_ostream_from_buffer n))) = take k (fields_bytes fs) \<and>
       bytes_written (snd (write_fields fs (pb_ostream_from_buffer n))) = k \<and> k \<le> n \<and> k \<le> length (fields_bytes fs))"
proof -
  note e = emits_fields [OF assms(2)]
  have c: "write_fields fs (PB_OSTREAM_SIZING [] :: u8 list pb_ostream) = (True, counted (fields_bytes fs) (PB_OSTREAM_SIZING [] :: u8 list pb_ostream))"
    by (rule emits_count [OF e]) (simp_all add: PB_OSTREAM_SIZING_def)
  have size: "bytes_written (counted (fields_bytes fs) (PB_OSTREAM_SIZING [] :: u8 list pb_ostream)) = length (fields_bytes fs)"
    using assms(3) by (simp add: counted_def PB_OSTREAM_SIZING_def)
  show ?thesis
  proof (cases "length (fields_bytes fs) \<le> n")
    case True
    then have "write_fields fs (pb_ostream_from_buffer n) = (True, written (fields_bytes fs) (pb_ostream_from_buffer n))"
      by (intro emits_fits [OF e from_buffer_ok [OF assms(1)]]) (simp add: pb_ostream_from_buffer_def)
    then show ?thesis unfolding c using size True
      by (intro conjI exI [of _ "length (fields_bytes fs)"]) (simp_all add: written_def pb_ostream_from_buffer_def)
  next
    case False
    then have "o_max_size (pb_ostream_from_buffer n) < bytes_written (pb_ostream_from_buffer n) + length (fields_bytes fs)"
      by (simp add: pb_ostream_from_buffer_def)
    then obtain s k where "write_fields fs (pb_ostream_from_buffer n) = (False, s)" "out_ok s" "o_max_size s = n"
      "k \<le> length (fields_bytes fs)" "o_state s = take k (fields_bytes fs)" "bytes_written s = k"
      by (rule emits_full [OF e from_buffer_ok [OF assms(1)]]) (simp add: pb_ostream_from_buffer_def)
    then show ?thesis unfolding c using size False by (auto simp: out_ok_def)
  qed
qed

theorem pb_writes_bounded_witness:
  "\<not> fst (write_fields [(1, Fixed32 7)] (pb_ostream_from_buffer 4))"
proof -
  have ok: "\<forall>f \<in> set [(1, Fixed32 7)]. field_ok f" by simp
  have len: "length (fields_bytes [(1, Fixed32 7)]) = 5" by (simp add: tag_bytes_def leb128_small)
  have "bytes_written (snd (write_fields [(1, Fixed32 7)] (PB_OSTREAM_SIZING [] :: u8 list pb_ostream))) = 5"
    using emits_count [OF emits_fields [OF ok], of "PB_OSTREAM_SIZING []"] len by (simp add: PB_OSTREAM_SIZING_def counted_def)
  then show ?thesis using pb_writes_bounded [OF _ ok, of 4] len by (simp del: write_fields.simps)
qed

section \<open>Long encodings\<close>

lemma varint32_pad:
  assumes "reads (varint32_loop (bitpos + of_nat (7 * k)) result :: (u32, 'i) inp) bs v"
  shows "reads (varint32_loop bitpos result :: (u32, 'i) inp) (replicate k 0x80 @ bs) v"
  using assms
proof (induction k arbitrary: bitpos)
  case (Suc k)
  have "reads (varint32_loop (bitpos + 7) result :: (u32, 'i) inp) (replicate k 0x80 @ bs) v"
    by (rule Suc.IH) (use Suc.prems in \<open>simp add: algebra_simps\<close>)
  then have "reads (varint32_loop bitpos result :: (u32, 'i) inp) ([0x80] @ (replicate k 0x80 @ bs)) v"
    unfolding varint32_loop_bind [of bitpos] by (intro reads_bind [OF reads_byte]) (simp add: Let_def)
  then show ?case by simp
qed simp

lemma varint64_stop: "fst (varint64_loop bitpos result s) = None" if "bitpos \<ge> 64"
  using that by (simp add: varint64_loop.simps [of bitpos] in_error_def)

lemma varint64_pad:
  assumes "i_source s = Buffer (replicate k 0x80 @ bs)" "64 \<le> unat bitpos + 7 * k" "unat bitpos < 71"
  shows "fst (varint64_loop bitpos result s) = None"
  using assms
proof (induction k arbitrary: bitpos result s)
  case 0
  then show ?case by (intro varint64_stop) (simp add: word_le_nat_alt)
next
  case (Suc k)
  show ?case
  proof (cases "bitpos \<ge> 64")
    case False
    then have small: "unat bitpos < 64" by (simp add: word_le_nat_alt)
    then have u: "unat (bitpos + 7) = unat bitpos + 7" by (simp add: unat_word_ariths)
    show ?thesis
    proof (cases "pb_readbyte s")
      case (Pair r t)
      show ?thesis
      proof (cases r)
        case (Some b)
        then have t: "b = 0x80" "i_source t = Buffer (replicate k 0x80 @ bs)"
          using Pair Suc.prems(1) by (auto simp: pb_readbyte_def call_source_def buf_read_def in_error_def split: if_splits)
        have "fst (varint64_loop (bitpos + 7) (result OR push_bit (unat bitpos) (ucast (b AND 0x7F))) t) = None"
          by (rule Suc.IH [OF t(2)]) (unfold u, use small Suc.prems(2) in simp_all)
        then show ?thesis using False Pair Some t(1) by (simp add: varint64_loop.simps [of bitpos] Let_def)
      qed (use Pair False in \<open>simp add: varint64_loop.simps [of bitpos]\<close>)
    qed
  qed (rule varint64_stop)
qed

text \<open>
  C30: the position of a digit wraps around.  \<open>pb_decode_varint32\<close>, which reads every tag and every length, keeps the bit position
  in eight bits and has no limit on the number of bytes: after 37 bytes the position is 3 again, and the digit there is added
  to the value.  The encoding below, which \<open>pb_decode_varint\<close> refuses, is read as 9.\<close>

theorem varint32_wraps:
  "fst (pb_decode_varint32 (pb_istream_from_buffer ([0x81] @ replicate 36 0x80 @ [0x01]) 38 :: 'i pb_istream)) = Some 9 \<and>
   fst (pb_decode_varint (pb_istream_from_buffer ([0x81] @ replicate 36 0x80 @ [0x01]) 38 :: 'i pb_istream)) = None"
proof
  let ?s = "pb_istream_from_buffer ([0x81] @ replicate 36 0x80 @ [0x01]) 38 :: 'i pb_istream"
  have "reads (varint32_loop 3 1 :: (u32, 'i) inp) ([0x01] @ []) 9"
    unfolding varint32_loop_bind [of 3]
    by (rule reads_bind [OF reads_byte]) (simp add: Let_def reads_return del: One_nat_def)
  moreover have p: "(7 :: u8) + of_nat (7 * 36) = 3" by simp
  ultimately have "reads (varint32_loop 7 1 :: (u32, 'i) inp) (replicate 36 0x80 @ [0x01]) 9"
    by (intro varint32_pad) (simp only: p append_Nil2)
  then have "reads (pb_decode_varint32 :: (u32, 'i) inp) ([0x81] @ (replicate 36 0x80 @ [0x01])) 9"
    unfolding varint32_eof_bind by (intro reads_bind [OF reads_byte]) (simp)
  from readsD [OF this, of ?s "[]"] show "fst (pb_decode_varint32 ?s) = Some 9"
    by (simp add: pb_istream_from_buffer_def)
  have "pb_decode_varint ?s = varint64_loop 7 1 (pb_istream_from_buffer (replicate 36 0x80 @ [0x01]) 37)"
    unfolding pb_decode_varint_def varint64_loop.simps [of 0]
    by (simp add: pb_readbyte_def pb_istream_from_buffer_def call_source_def buf_read_def)
  also have "fst \<dots> = None" by (rule varint64_pad [of _ 36 "[0x01]" 7]) (simp_all add: pb_istream_from_buffer_def)
  finally show "fst (pb_decode_varint ?s) = None" .
qed

end
