(* ===== verification/Spec2Isabelle.thy ===== *)
theory Spec2Isabelle
  imports Pb_Firestore Mem Ber Oid_Text Set_Of Cbb_Calls Unicode Fixed_Width Unicode_Codec Const_Time Base64 Stack Bio_Mem Bio_Pair Lhash Pool Pb_Values
begin

text \<open>
  Verification of the byte-string layer of BoringSSL and of the protocol-buffer library nanopb as vendored by the iOS client
  under \<open>creator/ios/Pods/BoringSSL-GRPC/src/crypto\<close> and \<open>creator/ios/Pods/nanopb\<close>.

  \<^bold>\<open>The repository.\<close>  The application is a Flutter client (Dart, under \<open>creator/lib\<close>); its C is
  the cryptographic and serialisation code that the iOS build compiles into it.  The
  development models the part of that code that every certificate, key and TLS message goes
  through, and the data structures and utilities the rest of the library is built on.

  \<^bold>\<open>Parts and theories.\<close>
  \<^item> \<open>BSSL_Prelude\<close>: machine words, \<open>size_t\<close> arithmetic, big-endian numbers, allocators.
  \<^item> \<open>Byte_Codec\<close>: the interfaces (locales) between readers, encoders and builders.
  \<^item> \<open>Comparator\<close>: the interface between sorting code and a C comparison function.
  \<^item> \<open>Mem\<close>: \<open>mem.c\<close>, the bounded string and memory functions.
  \<^item> \<open>Cbs\<close>, \<open>Der\<close>: \<open>bytestring/cbs.c\<close>, the reader \<open>CBS\<close>; \<open>Cbs\<close> holds its operations,
    \<open>Der\<close> the encodings they accept, given as functions from values to bytes.
  \<^item> \<open>Cbb\<close>: \<open>bytestring/cbb.c\<close>, the builder \<open>CBB\<close>, with its abstract view (the bytes it would
    have once all open children are closed) and the lemmas that every operation appends to it.
  \<^item> \<open>Oid_Text\<close>: object identifiers as text (\<open>cbb.c\<close>, \<open>cbs.c\<close>).
  \<^item> \<open>Set_Of\<close>: \<open>CBB_flush_asn1_set_of\<close> and its comparison.
  \<^item> \<open>Cbb_Calls\<close>: every call on a builder as one step, the sequences of such calls, and what holds in
    the states they reach (memory safety, and the failure that sticks).
  \<^item> \<open>Ber\<close>: \<open>bytestring/ber.c\<close>, from BER to DER.
  \<^item> \<open>Fixed_Width\<close>: the big-endian integers and length prefixes of both.
  \<^item> \<open>Unicode\<close>, \<open>Unicode_Codec\<close>: \<open>bytestring/unicode.c\<close>, the string encodings of ASN.1, and
    that their readers and writers are inverse.
  \<^item> \<open>Const_Time\<close>: the branch-free comparisons of \<open>internal.h\<close>.
  \<^item> \<open>Base64\<close>: \<open>base64/base64.c\<close>, whole blocks and streams.
  \<^item> \<open>Stack\<close>: \<open>stack/stack.c\<close>, arrays of pointers that can be sorted and searched.
  \<^item> \<open>Bio\<close>: \<open>bio/bio.c\<close>, byte streams over the functions of a method, with the functions that read whole objects;
    \<open>Bio_Stream\<close>: what a method promises (locales for sources, sinks and streams) and what follows for the
    functions of \<open>bio.c\<close>.
  \<^item> \<open>Buf_Mem\<close>, \<open>Bio_Mem\<close>: \<open>buf/buf.c\<close> and \<open>bio/bio_mem.c\<close>, growing arrays and the memory BIO on them.
  \<^item> \<open>Bio_Pair\<close>: \<open>bio/pair.c\<close>, two BIOs with a ring buffer in each direction.
  \<^item> \<open>Lhash\<close>: \<open>lhash/lhash.c\<close>, hash tables: the invariant (for every hash function that respects the comparison, a
    locale), that the operations are those of a map, and the size of the array.
  \<^item> \<open>Refcount\<close>, \<open>Pool\<close>: reference counts (\<open>refcount_lock.c\<close>, \<open>refcount_c11.c\<close>) and \<open>pool/pool.c\<close>, shared
    buffers in a hash table, for threads whose critical sections interleave.
  \<^item> \<open>Pb_Format\<close>, \<open>Pb_Out\<close>, \<open>Pb_In\<close>: the streams of \<open>nanopb/pb_encode.c\<close> and \<open>nanopb/pb_decode.c\<close> and the functions for
    single values, with the bytes of the format as functions of the values; \<open>Pb_Values\<close>: what one direction owes the other (a
    locale for a kind of value with its writer, reader and skipper) and sequences of fields.
  \<^item> \<open>Pb_Message\<close>: the descriptions of messages (\<open>pb.h\<close>), structures, and the iterator of \<open>nanopb/pb_common.c\<close>;
    \<open>Pb_Iter\<close>: the iterator in terms of the groups of fields that share a slot; \<open>Pb_Encode\<close>, \<open>Pb_Decode\<close>: the encoder and the
    decoder of whole messages, with its allocations, release and default values.
  \<^item> \<open>Pb_Types\<close>: when a structure has the layout of a description and how many blocks it owns; \<open>Pb_Release\<close>, \<open>Pb_Defaults\<close>: releasing
    and initialising structures; \<open>Pb_Advance\<close>: how reading moves a stream; \<open>Pb_Contract\<close>: what every part of the decoder keeps of the
    structure, the blocks and the stream, with the decoders of values; \<open>Pb_Fields\<close>, \<open>Pb_Pointers\<close>, \<open>Pb_Safety\<close>: fields in place,
    fields on the heap, and messages.
  \<^item> \<open>Pb_Firestore\<close>: the tables of \<open>FirebaseFirestore/Firestore/Protos/nanopb\<close> for documents, and the properties of the decoder.
  This theory holds the properties that span them: what the builder writes the reader reads.

  \<^bold>\<open>State and operations.\<close>  A \<open>CBS\<close> is the list of the bytes it still points to; a function that
  advances it returns the value (\<open>None\<close> for the C return value 0) and the rest.  A \<open>CBB\<close> is a
  record with the shared buffer, the fields of the structure an operation is called with and
  those of its open children.  Heap allocation is an argument: a predicate on the sizes for
  which \<open>malloc\<close> and \<open>realloc\<close> succeed.  \<open>size_t\<close> values are natural numbers, with the
  wrap-around at 2^64 written out where the code checks for it; other integers are words.
  A BIO is a record, and its state is the BIO with whatever its methods reach (the other end of a pair); an operation
  returns \<open>None\<close> where an assertion of the code fails, a loop does not end or memory outside a buffer is accessed.
  A C structure that nanopb reads or fills is a list of slots, one for each field or union; a slot has its count or \<open>which_\<close>/\<open>has_\<close>
  member and its data; a pointer is \<open>NULL\<close> or the block it points to, and the state of a decoder counts the blocks allocated.
  Addresses of field tables, the allocator and the content of new memory are arguments.  The decoder returns \<open>None\<close> where the code
  would access memory that is not there or of another type.
  \<open>qsort\<close> is an argument too, with the hypothesis that it sorts.

  \<^bold>\<open>Termination and fuel.\<close>  Loops over the input are functions with a termination proof (the
  input shrinks).  \<open>cbs_convert_ber\<close>, whose recursion goes through the builder, takes fuel:
  one more than the length of the input is enough, as \<open>convert_ber_fuel\<close> in theory \<open>Ber\<close> shows, and
  that is what its caller is given.  The functions of nanopb that call each other for submessages take one more than the
  number of bytes left, or the depth of the structure; \<open>Pb_Safety\<close> and \<open>Pb_Release\<close> show that this is enough.

  \<^bold>\<open>Not modelled.\<close>  The C++ of the gRPC, Abseil, leveldb, Firestore and TLS libraries and the
  Objective-C pods; generated tables and message code; assembly and the arithmetic generated
  by fiat; locks (what they guard is one step of the model) and thread-local storage, which the code modelled here
  uses only through calls that have no effect on its results; of nanopb, fields of callback type,
  extensions, and arrays of a fixed count, which no table of the application has.
\<close>

section \<open>Writing and reading back\<close>

text \<open>A whole use of a builder on the heap, as its clients write it: \<open>CBB_init\<close>, one
  operation (which may be composed of many), \<open>CBB_finish\<close>.\<close>

definition built :: "allocator \<Rightarrow> nat \<Rightarrow> cbb_op \<Rightarrow> u8 list option" where
  "built alloc n f = (case CBB_init alloc n of
     (False, _) \<Rightarrow> None
   | (True, c) \<Rightarrow> (case f c of (False, _) \<Rightarrow> None | (True, c) \<Rightarrow> fst (CBB_finish alloc True c)))"

lemma built_is:
  assumes "appends alloc f xs" "n < size_bound" "built alloc n f = Some out"
  shows "out = xs"
proof -
  obtain c where i: "CBB_init alloc n = (True, fresh n True)"
    using assms(3) CBB_init_fresh(1) by (fastforce simp: built_def split: prod.splits bool.splits)
  with assms(3) obtain c c' where "f (fresh n True) = (True, c)" "CBB_finish alloc True c = (Some out, c')"
    by (auto simp: built_def split: prod.splits bool.splits) (metis prod.collapse)
  with assms(1,2) show ?thesis by (rule built_contents)
qed

lemma built_total:
  assumes "appends (\<lambda>_. True) f xs" "n < size_bound" "length xs < size_bound"
  shows "built (\<lambda>_. True) n f = Some xs"
proof -
  have "room (\<lambda>_. True) (fresh_buffer n True) (length xs)"
    using assms(3) by (simp add: room_def fresh_buffer_def)
  with assms(1,2) obtain c c' where "f (fresh n True) = (True, c)"
      "CBB_finish (\<lambda>_. True) True c = (Some xs, c')"
    using built_succeeds by blast
  moreover have "CBB_init (\<lambda>_. True) n = (True, fresh n True)"
    by (simp add: CBB_init_def cbb_init_def CBB_zero_def zero_frame_def fresh_def)
  ultimately show ?thesis by (simp add: built_def)
qed

lemma length_der_element: "length c < 2 ^ 32 \<Longrightarrow> length (der_element tg c) < size_bound"
proof -
  assume c: "length c < 2 ^ 32"
  have "length (der_length (length c)) \<le> 5"
    using c nat_bytes_le [of "length c" 4] by (auto simp: der_length_def)
  then show ?thesis
    using c length_der_identifier [of tg] by (simp add: der_element_def der_header_def)
qed

lemma length_integer:
  "length (der_element CBS_ASN1_INTEGER (uint64_octets v)) < size_bound"
  "length (der_element CBS_ASN1_INTEGER (int64_octets v)) < size_bound"
proof -
  have "length (int64_octets v) < 2 ^ 32"
    using int64_octets_extends(2) [OF refl, of v] by simp
  then show "length (der_element CBS_ASN1_INTEGER (int64_octets v)) < size_bound"
    by (rule length_der_element)
  have "length (uint64_octets v) < 2 ^ 32" using uint64_octets_props(4) [of v] by simp
  then show "length (der_element CBS_ASN1_INTEGER (uint64_octets v)) < size_bound"
    by (rule length_der_element)
qed

text \<open>
  C7: INTEGERs round-trip.  With memory, \<open>CBB_add_asn1_uint64\<close> and \<open>CBB_add_asn1_int64\<close>
  succeed for every 64-bit value, and the matching reader returns the value and leaves what
  follows.\<close>

theorem integer_roundtrip:
  "(\<exists>out. built (\<lambda>_. True) 16 (CBB_add_asn1_uint64 (\<lambda>_. True) v) = Some out \<and>
       CBS_get_asn1_uint64 (out @ rest) = (Some v, rest)) \<and>
   (\<exists>out. built (\<lambda>_. True) 16 (CBB_add_asn1_int64 (\<lambda>_. True) v) = Some out \<and>
       CBS_get_asn1_int64 (out @ rest) = (Some v, rest))"
  using built_total [OF appends_asn1_uint64 _ length_integer(1), of 16 v]
    built_total [OF appends_asn1_int64 _ length_integer(2), of 16 v]
  by (simp add: CBS_get_asn1_uint64_iff CBS_get_asn1_int64_iff)

section \<open>Trees of elements\<close>

text \<open>A structure of nested elements, the calls on the builder that write it and the calls
  on the reader that check that it is next in the input: for a constructed element, the
  children are read from its content, of which nothing may be left.\<close>

datatype asn1 = Primitive u32 "u8 list" | Constructed u32 "asn1 list"

fun write_asn1 :: "allocator \<Rightarrow> asn1 \<Rightarrow> cbb_op" where
  "write_asn1 alloc (Primitive tg c) = asn1_child alloc tg (CBB_add_bytes alloc c)"
| "write_asn1 alloc (Constructed tg ts) =
     asn1_child alloc tg (foldr (\<lambda>t. and_then (write_asn1 alloc t)) ts (Pair True))"

fun read_asn1 :: "asn1 \<Rightarrow> cbs \<Rightarrow> cbs option" where
  "read_asn1 (Primitive tg c) s =
     (case CBS_get_asn1 tg s of (Some c', r) \<Rightarrow> if c' = c then Some r else None | _ \<Rightarrow> None)"
| "read_asn1 (Constructed tg ts) s =
     (case CBS_get_asn1 tg s of
        (Some c, r) \<Rightarrow> if fold (\<lambda>t u. Option.bind u (read_asn1 t)) ts (Some c) = Some [] then Some r else None
      | _ \<Rightarrow> None)"

fun encode_asn1 :: "asn1 \<Rightarrow> u8 list" where
  "encode_asn1 (Primitive tg c) = der_element tg c"
| "encode_asn1 (Constructed tg ts) = der_element tg (concat (map encode_asn1 ts))"

fun asn1_fits :: "asn1 \<Rightarrow> bool" where
  "asn1_fits (Primitive tg c) = (length c \<le> 0xfffffffe)"
| "asn1_fits (Constructed tg ts) =
     ((\<forall>t \<in> set ts. asn1_fits t) \<and> length (concat (map encode_asn1 ts)) \<le> 0xfffffffe)"

lemma appends_asn1: "asn1_fits t \<Longrightarrow> appends alloc (write_asn1 alloc t) (encode_asn1 t)"
proof (induction t)
  case (Primitive tg c)
  then show ?case by (auto intro!: appends_asn1_child appends_bytes)
next
  case (Constructed tg ts)
  then have "appends alloc (foldr (\<lambda>t. and_then (write_asn1 alloc t)) ts (Pair True)) (concat (map encode_asn1 ts))"
    by (intro cbbw.writes_foldr) auto
  with Constructed.prems show ?case by (auto intro!: appends_asn1_child)
qed

lemma fold_bind_None: "fold (\<lambda>t u. Option.bind u (f t)) ts None = None"
  by (induction ts) auto

lemma read_asn1_iff: "asn1_fits t \<Longrightarrow> read_asn1 t s = Some r \<longleftrightarrow> s = encode_asn1 t @ r"
proof (induction t arbitrary: s r)
  case (Primitive tg c)
  then show ?case
    using CBS_get_asn1_iff [of tg s c r] by (auto split: option.splits prod.splits)
next
  case (Constructed tg ts)
  have children: "fold (\<lambda>t u. Option.bind u (read_asn1 t)) us (Some c) = Some [] \<longleftrightarrow> c = concat (map encode_asn1 us)"
    if "set us \<subseteq> set ts" for us c
    using that
  proof (induction us arbitrary: c)
    case (Cons t us)
    then have t: "read_asn1 t c = Some r \<longleftrightarrow> c = encode_asn1 t @ r" for r
      using Constructed by simp
    show ?case
    proof (cases "read_asn1 t c")
      case None
      then have "c \<noteq> encode_asn1 t @ concat (map encode_asn1 us)" using t by auto
      with None show ?thesis by (simp add: fold_bind_None)
    next
      case (Some c')
      with t Cons show ?thesis by simp
    qed
  qed simp
  let ?c = "concat (map encode_asn1 ts)"
  have "read_asn1 (Constructed tg ts) s = Some r \<longleftrightarrow> CBS_get_asn1 tg s = (Some ?c, r)"
    using children [OF subset_refl] by (auto split: option.splits prod.splits)
  with Constructed.prems show ?case by (simp add: CBS_get_asn1_iff)
qed

text \<open>
  C1: structures of any depth round-trip.  For every tree of elements whose contents are not
  too long, the nested calls of the builder (\<open>CBB_add_asn1\<close>, the calls on the child,
  \<open>CBB_flush\<close>) produce bytes that the nested calls of the reader accept, and the only
  input the reader accepts for the tree is those bytes.\<close>

theorem structure_roundtrip:
  assumes "asn1_fits t" "n < size_bound" "built alloc n (write_asn1 alloc t) = Some out"
  shows "read_asn1 t s = Some rest \<longleftrightarrow> s = out @ rest"
  using built_is [OF appends_asn1 [OF assms(1)] assms(2,3)] read_asn1_iff [OF assms(1)] by simp

lemma structure_roundtrip_witness:
  "let t = Constructed CBS_ASN1_SEQUENCE [Primitive CBS_ASN1_INTEGER [5], Constructed CBS_ASN1_SEQUENCE []]
   in read_asn1 t [0x30, 5, 2, 1, 5, 0x30, 0, 7] = Some [7]"
proof -
  let ?t = "Constructed CBS_ASN1_SEQUENCE [Primitive CBS_ASN1_INTEGER [5], Constructed CBS_ASN1_SEQUENCE []]"
  have fits: "asn1_fits ?t"
    by (simp add: der_element_def der_header_def der_length_def der_identifier_def)
  have enc: "encode_asn1 ?t = [0x30, 5, 2, 1, 5, 0x30, 0]"
    by (simp add: der_element_def der_header_def der_length_def der_identifier_def)
  have "built (\<lambda>_. True) 0 (write_asn1 (\<lambda>_. True) ?t) = Some [0x30, 5, 2, 1, 5, 0x30, 0]"
    using built_total [OF appends_asn1 [OF fits], of 0] unfolding enc by simp
  from structure_roundtrip [OF fits _ this, of "[0x30, 5, 2, 1, 5, 0x30, 0, 7]" "[7]"] show ?thesis
    by (simp add: Let_def)
qed

text \<open>
  Re-serialising.  An element that the strict reader has accepted is written back
  unchanged by the builder from its tag and content, whatever follows it.\<close>

theorem reserialise_identity:
  assumes "CBS_get_asn1 tg s = (Some c, s')" "length c \<le> 0xfffffffe" "n < size_bound"
    and "built alloc n (asn1_child alloc tg (CBB_add_bytes alloc c)) = Some out"
  shows "s = out @ s'"
proof -
  have "appends alloc (asn1_child alloc tg (CBB_add_bytes alloc c)) (der_element tg c)"
    using assms(2) by (intro appends_asn1_child appends_bytes) auto
  from built_is [OF this assms(3,4)] assms(1) show ?thesis
    by (simp add: CBS_get_asn1_iff)
qed

lemma reserialise_identity_witness:
  "built (\<lambda>_. True) 0 (asn1_child (\<lambda>_. True) 4 (CBB_add_bytes (\<lambda>_. True) [1, 2])) = Some [4, 2, 1, 2]"
proof -
  have e: "der_element 4 [1, 2] = [4, 2, 1, 2 :: u8]"
    by (simp add: der_element_def der_header_def der_length_def der_identifier_def)
  have r: "CBS_get_asn1 4 [4, 2, 1, 2] = (Some [1, 2], [])"
    by (simp add: CBS_get_asn1_iff e)
  have "appends (\<lambda>_. True) (asn1_child (\<lambda>_. True) 4 (CBB_add_bytes (\<lambda>_. True) [1, 2])) (der_element 4 [1, 2])"
    by (intro appends_asn1_child appends_bytes) auto
  then obtain out where out: "built (\<lambda>_. True) 0 (asn1_child (\<lambda>_. True) 4 (CBB_add_bytes (\<lambda>_. True) [1, 2])) = Some out"
    using built_total [of _ "der_element 4 [1, 2]" 0] unfolding e by auto
  from reserialise_identity [OF r _ _ out] show ?thesis unfolding out by simp
qed

section \<open>Strings\<close>

text \<open>The loop of \<open>asn1_mbstring_ncopy\<close> over the characters of a string.\<close>

definition write_string :: "(u32 \<Rightarrow> cbb_op) \<Rightarrow> u32 list \<Rightarrow> cbb_op" where
  "write_string add us = foldr (\<lambda>u. and_then (add u)) us (Pair True)"

lemma write_string_refused: "write_string add us c = (True, c') \<Longrightarrow> u \<in> set us \<Longrightarrow> add u \<noteq> Pair False"
  by (induction us arbitrary: c) (auto simp: write_string_def and_then_def split: prod.splits bool.splits)

lemma built_string:
  assumes "built alloc n (write_string add us) = Some out" "n < size_bound"
    and "\<And>u. ok u \<Longrightarrow> appends alloc (add u) (enc u)" "\<And>u. \<not> ok u \<Longrightarrow> add u = Pair False"
  shows "(\<forall>u \<in> set us. ok u) \<and> out = concat (map enc us)"
proof -
  have ok: "\<forall>u \<in> set us. ok u"
    using assms(1,4) write_string_refused by (fastforce simp: built_def split: prod.splits bool.splits)
  then have "appends alloc (write_string add us) (concat (map enc us))"
    unfolding write_string_def using assms(3) by (intro cbbw.writes_foldr) auto
  with assms(1,2) ok show ?thesis using built_is by blast
qed

text \<open>
  C32: strings round-trip in every encoding.  Whatever characters a string has, if one of the
  writers accepts them all then reading the bytes to their end with the matching reader
  returns the same characters.\<close>

theorem string_roundtrip:
  assumes "n < size_bound"
  shows "(built alloc n (write_string (cbb_add_utf8 alloc) us) = Some out \<longrightarrow> read_all cbs_get_utf8 out = Some us) \<and>
    (built alloc n (write_string (cbb_add_latin1 alloc) us) = Some out \<longrightarrow> read_all cbs_get_latin1 out = Some us) \<and>
    (built alloc n (write_string (cbb_add_ucs2_be alloc) us) = Some out \<longrightarrow> read_all cbs_get_ucs2_be out = Some us) \<and>
    (built alloc n (write_string (cbb_add_utf32_be alloc) us) = Some out \<longrightarrow> read_all cbs_get_utf32_be out = Some us)"
proof (intro conjI impI)
  show "read_all cbs_get_utf8 out = Some us" if "built alloc n (write_string (cbb_add_utf8 alloc) us) = Some out"
    using built_string [OF that assms, of is_valid_code_point "\<lambda>u. utf8_nat (unat u)"] appends_utf8 refuses_invalid
    unfolding utf8.read_all_iff by blast
  show "read_all cbs_get_latin1 out = Some us" if "built alloc n (write_string (cbb_add_latin1 alloc) us) = Some out"
    using built_string [OF that assms, of "\<lambda>u. unat u < 256" "\<lambda>u. [of_nat (unat u)]"] appends_latin1 refuses_invalid
    unfolding latin1.read_all_iff by blast
  show "read_all cbs_get_ucs2_be out = Some us" if "built alloc n (write_string (cbb_add_ucs2_be alloc) us) = Some out"
    using built_string [OF that assms, of "\<lambda>u. is_valid_code_point u \<and> unat u < 2 ^ 16" "\<lambda>u. nat_be 2 (unat u)"]
      appends_ucs2 refuses_invalid
    unfolding ucs2.read_all_iff by blast
  show "read_all cbs_get_utf32_be out = Some us" if "built alloc n (write_string (cbb_add_utf32_be alloc) us) = Some out"
    using built_string [OF that assms, of is_valid_code_point "\<lambda>u. nat_be 4 (unat u)"] appends_utf32 refuses_invalid
    unfolding utf32.read_all_iff by blast
qed

lemma string_roundtrip_witness: "read_all cbs_get_utf8 [0x41, 0xc3, 0xa9] = Some [0x41, 0xe9]"
proof -
  have v: "is_valid_code_point 0x41" "is_valid_code_point 0xe9"
    by (simp_all add: is_valid_code_point_def)
  have e: "concat (map (\<lambda>u. utf8_nat (unat (u :: u32))) [0x41, 0xe9]) = [0x41, 0xc3, 0xa9 :: u8]"
    by (simp add: utf8_nat_def)
  have "appends (\<lambda>_. True) (write_string (cbb_add_utf8 (\<lambda>_. True)) [0x41, 0xe9])
      (concat (map (\<lambda>u. utf8_nat (unat (u :: u32))) [0x41, 0xe9]))"
    unfolding write_string_def using v by (intro cbbw.writes_foldr appends_utf8) auto
  then have "built (\<lambda>_. True) 0 (write_string (cbb_add_utf8 (\<lambda>_. True)) [0x41, 0xe9]) = Some [0x41, 0xc3, 0xa9]"
    unfolding e using built_total [of "write_string (cbb_add_utf8 (\<lambda>_. True)) [0x41, 0xe9]" "[0x41, 0xc3, 0xa9]" 0] by simp
  with string_roundtrip [of 0 "\<lambda>_. True" "[0x41, 0xe9]" "[0x41, 0xc3, 0xa9]"] show ?thesis by simp
qed

section \<open>Length prefixes\<close>

text \<open>
  Length-prefixed strings, the vectors of TLS.  A child opened with a prefix of one to four
  bytes (the code uses one, two and three) and filled with \<open>body\<close> is read back by \<open>cbs_get_length_prefixed\<close> as exactly
  the bytes of the child, whatever follows, and nothing else is read as those bytes.\<close>

theorem length_prefixed_roundtrip:
  assumes "0 < k" "k \<le> 4" "length xs < 256 ^ k" "n < size_bound"
    and "built alloc n (length_prefixed_child alloc k (CBB_add_bytes alloc xs)) = Some out"
  shows "cbs_get_length_prefixed k s = (Some xs, rest) \<longleftrightarrow> s = out @ rest"
proof -
  have "(256 :: nat) ^ k \<le> 256 ^ 4" using assms(2) by (intro power_increasing) auto
  then have "length xs < size_bound" using assms(3) by simp
  then have "appends alloc (length_prefixed_child alloc k (CBB_add_bytes alloc xs)) (nat_be k (length xs) @ xs)"
    using assms by (intro appends_length_prefixed appends_bytes) auto
  from built_is [OF this assms(4,5)] show ?thesis
    using assms(2,3) by (simp add: length_prefixed_iff)
qed

lemma length_prefixed_roundtrip_witness: "cbs_get_length_prefixed 2 [0, 1, 7, 9] = (Some [7], [9])"
proof -
  have "appends (\<lambda>_. True) (length_prefixed_child (\<lambda>_. True) 2 (CBB_add_bytes (\<lambda>_. True) [7])) (nat_be 2 (length [7 :: u8]) @ [7])"
    by (intro appends_length_prefixed appends_bytes) auto
  then have "built (\<lambda>_. True) 0 (length_prefixed_child (\<lambda>_. True) 2 (CBB_add_bytes (\<lambda>_. True) [7])) = Some [0, 1, 7]"
    using built_total [of _ "[0, 1, 7]" 0] by (simp add: numeral_2_eq_2)
  from length_prefixed_roundtrip [OF _ _ _ _ this, of "[0, 1, 7, 9]" "[9]"] show ?thesis by simp
qed

end
